(* ===== verification/Prelude.thy ===== *)
theory Prelude
  imports Main "HOL-Library.Word"
begin

text \<open>
  Shared vocabulary of the development: machine integers, byte strings, slices, the
  little-endian codecs that every on-disk format of the program uses, and the result type of
  fallible operations.

  A Rust unsigned integer is a natural number below its bound; the places where the code can
  wrap around (release builds do not check overflow) use \<open>u64_add\<close>, which writes the
  wrap-around out. A byte is an 8-bit word, so that the bitwise code of the CRC and of the
  flag bytes is modelled with the word operations.
\<close>

section \<open>Collections of rewrite rules\<close>

named_theorems codec_simps \<open>rewriting encoders against decoders\<close>
named_theorems len_simps \<open>lengths of encoded data\<close>

section \<open>Integers and bytes\<close>

type_synonym byte = "8 word"
type_synonym u32 = "32 word"
type_synonym bytes = "byte list"

definition u64_max :: nat where
  "u64_max = 2 ^ 64 - 1"

definition u64_add :: "nat \<Rightarrow> nat \<Rightarrow> nat" where
  "u64_add a b = (a + b) mod 2 ^ 64"

lemma u64_add_less: "u64_add a b < 2 ^ 64"
  by (simp add: u64_add_def)

lemma u64_add_exact: "a + b < 2 ^ 64 \<Longrightarrow> u64_add a b = a + b"
  by (simp add: u64_add_def)

section \<open>Results of fallible operations\<close>

text \<open>
  \<open>std::io::Error\<close> is modelled by its kind; the message text is not modelled.
\<close>

datatype io_error =
    NotFound
  | AlreadyExists
  | InvalidInput
  | InvalidData
  | OtherIo

type_synonym 'a result = "io_error + 'a"

definition bind_result :: "'e + 'a \<Rightarrow> ('a \<Rightarrow> 'e + 'b) \<Rightarrow> 'e + 'b" where
  "bind_result r f = (case r of Inl e \<Rightarrow> Inl e | Inr a \<Rightarrow> f a)"

lemma bind_result_simps [simp]:
  "bind_result (Inl e) f = Inl e"
  "bind_result (Inr a) f = f a"
  by (simp_all add: bind_result_def)

lemma bind_result_eq_Inr:
  "bind_result r f = Inr b \<longleftrightarrow> (\<exists>a. r = Inr a \<and> f a = Inr b)"
  by (cases r) simp_all

lemma bind_result_eq_Inl:
  "bind_result r f = Inl e \<longleftrightarrow> r = Inl e \<or> (\<exists>a. r = Inr a \<and> f a = Inl e)"
  by (cases r) simp_all

section \<open>Slices\<close>

text \<open>\<open>xs[a..b]\<close> of the source, used only inside the bounds of \<open>xs\<close>.\<close>

definition slice :: "nat \<Rightarrow> nat \<Rightarrow> 'a list \<Rightarrow> 'a list" where
  "slice a b xs = take (b - a) (drop a xs)"

lemma slice_append_skip [codec_simps]:
  "length xs \<le> a \<Longrightarrow> slice a b (xs @ ys) = slice (a - length xs) (b - length xs) ys"
  by (simp add: slice_def)

lemma slice_append_here [codec_simps]:
  "length xs = b \<Longrightarrow> slice 0 b (xs @ ys) = xs"
  by (simp add: slice_def)

lemma slice_all [codec_simps]: "length xs = b \<Longrightarrow> slice 0 b xs = xs"
  by (simp add: slice_def)

lemma length_slice: "b \<le> length xs \<Longrightarrow> length (slice a b xs) = b - a"
  by (simp add: slice_def)

lemma slice_take: "b \<le> n \<Longrightarrow> slice a b (take n xs) = slice a b xs"
  by (simp add: slice_def drop_take min_def)

section \<open>Little-endian integers\<close>

text \<open>\<open>to_le_bytes\<close> of an \<open>n\<close>-byte integer; a wider argument is truncated, as by \<open>as\<close>.\<close>

fun le_bytes :: "nat \<Rightarrow> nat \<Rightarrow> bytes" where
  "le_bytes 0 x = []"
| "le_bytes (Suc n) x = of_nat (x mod 256) # le_bytes n (x div 256)"

text \<open>\<open>from_le_bytes\<close>.\<close>

fun from_le :: "bytes \<Rightarrow> nat" where
  "from_le [] = 0"
| "from_le (b # bs) = unat b + 256 * from_le bs"

lemma length_le_bytes [simp, len_simps]: "length (le_bytes n x) = n"
  by (induction n arbitrary: x) auto

lemma le_bytes_numeral:
  "le_bytes (numeral k) x = of_nat (x mod 256) # le_bytes (pred_numeral k) (x div 256)"
  by (subst numeral_eq_Suc) simp

lemma unat_byte_less: "unat (b :: byte) < 256"
  using unsigned_less [of b] by simp

lemma unat_of_nat_byte [simp]: "unat (of_nat (x mod 256) :: byte) = x mod 256"
  by (simp add: unat_of_nat)

lemma from_le_le_bytes: "from_le (le_bytes n x) = x mod 256 ^ n"
proof (induction n arbitrary: x)
  case 0
  then show ?case by simp
next
  case (Suc n)
  have "x mod (256 * 256 ^ n) = 256 * (x div 256 mod 256 ^ n) + x mod 256"
    by (rule mod_mult2_eq)
  with Suc show ?case by simp
qed

lemma from_le_le_bytes_small [codec_simps]: "x < 256 ^ n \<Longrightarrow> from_le (le_bytes n x) = x"
  by (simp add: from_le_le_bytes)

lemma from_le_less: "from_le bs < 256 ^ length bs"
proof (induction bs)
  case Nil
  then show ?case by simp
next
  case (Cons b bs)
  then have "256 * from_le bs + 256 \<le> 256 * 256 ^ length bs" by simp
  with unat_byte_less [of b] show ?case by simp
qed

lemma le_bytes_from_le: "length bs = n \<Longrightarrow> le_bytes n (from_le bs) = bs"
proof (induction bs arbitrary: n)
  case Nil
  then show ?case by simp
next
  case (Cons b bs)
  have "(unat b + 256 * from_le bs) div 256 = from_le bs"
    and "(unat b + 256 * from_le bs) mod 256 = unat b"
    using unat_byte_less [of b] by simp_all
  with Cons show ?case by (cases n) simp_all
qed

lemma le_bytes_inject:
  "x < 256 ^ n \<Longrightarrow> y < 256 ^ n \<Longrightarrow> le_bytes n x = le_bytes n y \<longleftrightarrow> x = y"
  by (metis from_le_le_bytes_small)

section \<open>Lists\<close>

text \<open>A list of positions that counts up by one from \<open>s\<close>: the shape of every sequence run.\<close>

fun seq_run :: "nat \<Rightarrow> nat list \<Rightarrow> bool" where
  "seq_run s [] \<longleftrightarrow> True"
| "seq_run s (x # xs) \<longleftrightarrow> x = s \<and> seq_run (Suc s) xs"

lemma seq_run_upt: "seq_run s xs \<longleftrightarrow> xs = [s..<s + length xs]"
  by (induction xs arbitrary: s) (auto simp: upt_rec)

lemma seq_run_append [simp]:
  "seq_run s (xs @ ys) \<longleftrightarrow> seq_run s xs \<and> seq_run (s + length xs) ys"
  by (induction xs arbitrary: s) simp_all

lemma seq_run_nth: "seq_run s xs \<Longrightarrow> k < length xs \<Longrightarrow> xs ! k = s + k"
  unfolding seq_run_upt by (metis nth_upt add_less_cancel_left)

lemma seq_run_set: "seq_run s xs \<Longrightarrow> set xs = {s..<s + length xs}"
  unfolding seq_run_upt by (metis set_upt)

lemma seq_run_distinct: "seq_run s xs \<Longrightarrow> distinct xs"
  unfolding seq_run_upt by (metis distinct_upt)

lemma seq_run_last: "seq_run s xs \<Longrightarrow> xs \<noteq> [] \<Longrightarrow> last xs = s + length xs - 1"
  by (induction xs arbitrary: s) auto

section \<open>Strings\<close>

text \<open>
  A Rust string is its UTF-8 byte sequence. \<open>ascii\<close> turns a literal of the source into
  bytes, \<open>utf8_valid\<close> is the check of \<open>std::str::from_utf8\<close>, and \<open>split_once\<close> splits
  at the first occurrence of an ASCII character, as \<open>str::split_once\<close> does.
\<close>

definition ascii :: "string \<Rightarrow> bytes" where
  "ascii s = map of_char s"

definition utf8_cont :: "byte \<Rightarrow> bool" where
  "utf8_cont b \<longleftrightarrow> 128 \<le> unat b \<and> unat b \<le> 191"

fun utf8_valid :: "bytes \<Rightarrow> bool" where
  "utf8_valid [] \<longleftrightarrow> True"
| "utf8_valid (b # bs) \<longleftrightarrow>
     (let n = unat b in
      if n < 128 then utf8_valid bs
      else if 194 \<le> n \<and> n \<le> 223 then
        (case bs of c # r \<Rightarrow> utf8_cont c \<and> utf8_valid r | [] \<Rightarrow> False)
      else if 224 \<le> n \<and> n \<le> 239 then
        (case bs of
           c # d # r \<Rightarrow> utf8_cont c \<and> (n = 224 \<longrightarrow> 160 \<le> unat c) \<and> (n = 237 \<longrightarrow> unat c \<le> 159)
                        \<and> utf8_cont d \<and> utf8_valid r
         | _ \<Rightarrow> False)
      else if 240 \<le> n \<and> n \<le> 244 then
        (case bs of
           c # d # e # r \<Rightarrow> utf8_cont c \<and> (n = 240 \<longrightarrow> 144 \<le> unat c) \<and> (n = 244 \<longrightarrow> unat c \<le> 143)
                            \<and> utf8_cont d \<and> utf8_cont e \<and> utf8_valid r
         | _ \<Rightarrow> False)
      else False)"

lemma utf8_valid_append: "utf8_valid a \<Longrightarrow> utf8_valid (a @ b) \<longleftrightarrow> utf8_valid b"
  by (induction a rule: utf8_valid.induct) (auto simp: Let_def split: if_splits list.splits)

lemma utf8_valid_ascii: "\<forall>b \<in> set bs. unat b < 128 \<Longrightarrow> utf8_valid bs"
  by (induction bs) (auto simp: Let_def)

fun split_once :: "byte \<Rightarrow> bytes \<Rightarrow> (bytes \<times> bytes) option" where
  "split_once c [] = None"
| "split_once c (b # bs) =
     (if b = c then Some ([], bs)
      else map_option (\<lambda>(l, r). (b # l, r)) (split_once c bs))"

lemma split_once_append:
  "c \<notin> set l \<Longrightarrow> split_once c (l @ c # r) = Some (l, r)"
  by (induction l) auto

lemma split_once_Some:
  "split_once c bs = Some (l, r) \<Longrightarrow> bs = l @ c # r \<and> c \<notin> set l"
  by (induction bs arbitrary: l r) (auto split: if_splits)

end
