(* ===== verification/Crc32.thy ===== *)
theory Crc32
  imports Prelude
begin

text \<open>
  The CRC-32 of \<open>src/session/journal/record.rs\<close>. The production digest is computed by the
  \<open>crc32fast\<close> crate, which is not part of the repository: it is a parameter, a record of its
  four entry points, and every definition that checksums data takes it as its argument. What
  the journal relies on (streaming updates equal the digest of the concatenation) is the
  locale \<open>crc_hasher\<close>. The repository's own table-driven implementation, the reference the
  crate is tested against, is modelled in full and interprets the locale.
\<close>

unbundle bit_operations_syntax

section \<open>The digest as an external component\<close>

record 'h hasher =
  hasher_new :: 'h
  hasher_update :: "'h \<Rightarrow> bytes \<Rightarrow> 'h"
  hasher_finalize :: "'h \<Rightarrow> u32"
  hasher_hash :: "bytes \<Rightarrow> u32"

text \<open>The wrapper type \<open>Crc32\<close>: \<open>new\<close>, \<open>update\<close>, \<open>finish\<close> and \<open>of\<close>.\<close>

definition Crc32_new :: "'h hasher \<Rightarrow> 'h" where
  "Crc32_new H = hasher_new H"

definition Crc32_update :: "'h hasher \<Rightarrow> 'h \<Rightarrow> bytes \<Rightarrow> 'h" where
  "Crc32_update H c bs = hasher_update H c bs"

definition Crc32_finish :: "'h hasher \<Rightarrow> 'h \<Rightarrow> u32" where
  "Crc32_finish H c = hasher_finalize H c"

definition Crc32_of :: "'h hasher \<Rightarrow> bytes \<Rightarrow> u32" where
  "Crc32_of H bs = hasher_hash H bs"

definition crc32_two :: "'h hasher \<Rightarrow> bytes \<Rightarrow> bytes \<Rightarrow> u32" where
  "crc32_two H first second =
     Crc32_finish H (Crc32_update H (Crc32_update H (Crc32_new H) first) second)"

section \<open>The contract the journal relies on\<close>

locale crc_hasher =
  fixes H :: "'h hasher"
  assumes finalize_stream:
    "hasher_finalize H (foldl (hasher_update H) (hasher_new H) bss) = hasher_hash H (concat bss)"
begin

lemma finish_chunks:
  "Crc32_finish H (foldl (Crc32_update H) (Crc32_new H) bss) = Crc32_of H (concat bss)"
  using finalize_stream [of bss]
  by (simp add: Crc32_finish_def Crc32_new_def Crc32_of_def Crc32_update_def [abs_def])

lemma crc32_two_of: "crc32_two H a b = Crc32_of H (a @ b)"
  using finish_chunks [of "[a, b]"] by (simp add: crc32_two_def)

end

section \<open>The table-driven reference implementation\<close>

text \<open>The inner loop of \<open>crc32_table\<close>: eight polynomial steps on one table index.\<close>

fun crc32_bits :: "nat \<Rightarrow> u32 \<Rightarrow> u32" where
  "crc32_bits 0 crc = crc"
| "crc32_bits (Suc n) crc =
     crc32_bits n (if crc AND 1 \<noteq> 0 then drop_bit 1 crc XOR 0xEDB88320 else drop_bit 1 crc)"

definition crc32_table :: "u32 list" where
  "crc32_table = map (\<lambda>i. crc32_bits 8 (of_nat i)) [0..<256]"

definition crc32_step :: "u32 \<Rightarrow> byte \<Rightarrow> u32" where
  "crc32_step crc b =
     crc32_table ! unat ((crc XOR ucast b) AND 0xFF) XOR drop_bit 8 crc"

definition crc32 :: "bytes \<Rightarrow> u32" where
  "crc32 bs = NOT (foldl crc32_step (NOT 0) bs)"

definition table_hasher :: "u32 hasher" where
  "table_hasher = \<lparr>hasher_new = NOT 0, hasher_update = foldl crc32_step,
                   hasher_finalize = (\<lambda>c. NOT c), hasher_hash = crc32\<rparr>"

lemma foldl_foldl_concat: "foldl (foldl f) c bss = foldl f c (concat bss)"
  by (induction bss arbitrary: c) simp_all

interpretation table_crc: crc_hasher table_hasher
  by unfold_locales (simp add: table_hasher_def crc32_def foldl_foldl_concat)

lemma crc_index_less: "unat ((c :: u32) AND 0xFF) < 256"
proof -
  have "c AND 0xFF \<le> 0xFF" by (rule word_and_le1)
  then show ?thesis by (simp add: word_le_nat_alt)
qed

text \<open>The table is never indexed out of bounds, so a step is the bit loop on its index.\<close>

lemma crc32_step_bits:
  "crc32_step crc b = crc32_bits 8 ((crc XOR ucast b) AND 0xFF) XOR drop_bit 8 crc"
  using crc_index_less [of "crc XOR ucast b"]
  by (simp add: crc32_step_def crc32_table_def)

end
