(* ===== verification/Journal_Record.thy ===== *)
theory Journal_Record
  imports Crc32
begin

text \<open>
  The on-disk record format of the session journal (\<open>src/session/journal/record.rs\<close>) and the
  typed payloads of its non-output records (\<open>src/session/journal/codec.rs\<close>).
\<close>

section \<open>Record kinds and records\<close>

datatype RecordKind = Output | Resize | Lifecycle | CheckpointRef | Policy

text \<open>\<open>kind as u16\<close> under \<open>repr(u16)\<close>.\<close>

fun RecordKind_as_u16 :: "RecordKind \<Rightarrow> nat" where
  "RecordKind_as_u16 Output = 1"
| "RecordKind_as_u16 Resize = 2"
| "RecordKind_as_u16 Lifecycle = 3"
| "RecordKind_as_u16 CheckpointRef = 4"
| "RecordKind_as_u16 Policy = 5"

definition RecordKind_from_u16 :: "nat \<Rightarrow> RecordKind option" where
  "RecordKind_from_u16 v =
     (if v = 1 then Some Output
      else if v = 2 then Some Resize
      else if v = 3 then Some Lifecycle
      else if v = 4 then Some CheckpointRef
      else if v = 5 then Some Policy
      else None)"

lemma RecordKind_as_u16_less: "RecordKind_as_u16 k < 256 ^ 2"
  by (cases k) simp_all

lemma RecordKind_from_as [simp, codec_simps]: "RecordKind_from_u16 (RecordKind_as_u16 k) = Some k"
  by (cases k) (simp_all add: RecordKind_from_u16_def)

lemma RecordKind_from_u16_Some: "RecordKind_from_u16 v = Some k \<Longrightarrow> v = RecordKind_as_u16 k"
  by (auto simp: RecordKind_from_u16_def split: if_splits)

record Record =
  rec_kind :: RecordKind
  rec_seq :: nat
  rec_elapsed_ms :: nat
  rec_payload :: bytes

definition RECORD_MAGIC :: bytes where
  "RECORD_MAGIC = ascii ''OJRN''"

definition RECORD_VERSION :: nat where
  "RECORD_VERSION = 1"

definition HEADER_LEN :: nat where
  "HEADER_LEN = 4 + 2 + 2 + 4 + 8 + 8 + 4 + 4"

definition MAX_PAYLOAD_LEN :: nat where
  "MAX_PAYLOAD_LEN = 64 * 1024 * 1024"

lemma HEADER_LEN_36: "HEADER_LEN = 36"
  by (simp add: HEADER_LEN_def)

lemma HEADER_LEN_pos [simp]: "0 < HEADER_LEN"
  by (simp add: HEADER_LEN_def)

lemma length_RECORD_MAGIC [simp, len_simps]: "length RECORD_MAGIC = 4"
  by (simp add: RECORD_MAGIC_def ascii_def)

section \<open>Encoding a record\<close>

text \<open>The 32 header bytes the checksum covers; the flag bytes stay zero.\<close>

definition header_prefix :: "RecordKind \<Rightarrow> nat \<Rightarrow> nat \<Rightarrow> bytes \<Rightarrow> bytes" where
  "header_prefix kind seq elapsed_ms payload =
     RECORD_MAGIC @ le_bytes 2 RECORD_VERSION @ le_bytes 2 (RecordKind_as_u16 kind)
       @ replicate 4 0 @ le_bytes 8 seq @ le_bytes 8 elapsed_ms @ le_bytes 4 (length payload)"

definition encode_record_header ::
  "'h hasher \<Rightarrow> RecordKind \<Rightarrow> nat \<Rightarrow> nat \<Rightarrow> bytes \<Rightarrow> bytes" where
  "encode_record_header H kind seq elapsed_ms payload =
     (let header = header_prefix kind seq elapsed_ms payload;
          crc = crc32_two H header payload
      in header @ le_bytes 4 (unat crc))"

text \<open>The bytes one record occupies in a segment: header, then payload.\<close>

definition encode_record :: "'h hasher \<Rightarrow> Record \<Rightarrow> bytes" where
  "encode_record H r =
     encode_record_header H (rec_kind r) (rec_seq r) (rec_elapsed_ms r) (rec_payload r)
       @ rec_payload r"

text \<open>Field widths: what the Rust types of the fields guarantee.\<close>

definition record_ok :: "Record \<Rightarrow> bool" where
  "record_ok r \<longleftrightarrow> rec_seq r < 2 ^ 64 \<and> rec_elapsed_ms r < 2 ^ 64
                  \<and> length (rec_payload r) \<le> MAX_PAYLOAD_LEN"

lemma length_header_prefix [simp, len_simps]: "length (header_prefix k s e p) = 32"
  by (simp add: header_prefix_def)

lemma length_encode_record_header [simp, len_simps]:
  "length (encode_record_header H k s e p) = HEADER_LEN"
  by (simp add: encode_record_header_def Let_def HEADER_LEN_36)

lemma length_encode_record [simp, len_simps]:
  "length (encode_record H r) = HEADER_LEN + length (rec_payload r)"
  by (simp add: encode_record_def)

lemma encode_record_not_Nil [simp]: "encode_record H r \<noteq> []"
  by (metis HEADER_LEN_pos length_encode_record list.size(3) add_is_0 less_irrefl)

subsection \<open>Reading the fields back\<close>

lemma header_prefix_fields [codec_simps]:
  "slice 0 4 (header_prefix k s e p @ c) = RECORD_MAGIC"
  "slice 4 6 (header_prefix k s e p @ c) = le_bytes 2 RECORD_VERSION"
  "slice 6 8 (header_prefix k s e p @ c) = le_bytes 2 (RecordKind_as_u16 k)"
  "slice 12 20 (header_prefix k s e p @ c) = le_bytes 8 s"
  "slice 20 28 (header_prefix k s e p @ c) = le_bytes 8 e"
  "slice 28 32 (header_prefix k s e p @ c) = le_bytes 4 (length p)"
  by (simp_all add: header_prefix_def slice_def)

lemma header_prefix_take [codec_simps]: "take 32 (header_prefix k s e p @ c) = header_prefix k s e p"
  by simp

lemma header_crc_field [codec_simps]:
  "length c = 4 \<Longrightarrow> slice 32 36 (header_prefix k s e p @ c) = c"
  by (simp add: slice_def)

lemma unat_u32_less: "unat (x :: u32) < 256 ^ 4"
  using unsigned_less [of x] by simp

section \<open>Typed payloads\<close>

subsection \<open>Resize\<close>

definition encode_resize_payload :: "nat \<Rightarrow> nat \<Rightarrow> bytes" where
  "encode_resize_payload rows cols = le_bytes 2 rows @ le_bytes 2 cols"

definition decode_resize_payload :: "bytes \<Rightarrow> (nat \<times> nat) option" where
  "decode_resize_payload payload =
     (if length payload \<noteq> 4 then None
      else let rows = from_le [payload ! 0, payload ! 1];
               cols = from_le [payload ! 2, payload ! 3]
           in if 0 < rows \<and> 0 < cols then Some (rows, cols) else None)"

subsection \<open>Policy\<close>

definition policy_payload :: "bytes \<Rightarrow> bytes \<Rightarrow> bytes" where
  "policy_payload key value = key @ ascii ''='' @ value"

definition parse_policy :: "bytes \<Rightarrow> (bytes \<times> bytes) option" where
  "parse_policy payload =
     (if \<not> utf8_valid payload then None
      else case split_once (of_char CHR ''='') payload of
             None \<Rightarrow> None
           | Some (key, value) \<Rightarrow>
               if key = [] \<or> 10 \<in> set value then None else Some (key, value))"

subsection \<open>Lifecycle\<close>

datatype LifecycleCode = Started | Stopped | Killed | Failed | OutputClosed

fun LifecycleCode_as_u8 :: "LifecycleCode \<Rightarrow> byte" where
  "LifecycleCode_as_u8 Started = 1"
| "LifecycleCode_as_u8 Stopped = 2"
| "LifecycleCode_as_u8 Killed = 3"
| "LifecycleCode_as_u8 Failed = 4"
| "LifecycleCode_as_u8 OutputClosed = 5"

definition LifecycleCode_from_u8 :: "byte \<Rightarrow> LifecycleCode option" where
  "LifecycleCode_from_u8 v =
     (if v = 1 then Some Started
      else if v = 2 then Some Stopped
      else if v = 3 then Some Killed
      else if v = 4 then Some Failed
      else if v = 5 then Some OutputClosed
      else None)"

lemma LifecycleCode_from_as [simp]: "LifecycleCode_from_u8 (LifecycleCode_as_u8 c) = Some c"
  by (cases c) (simp_all add: LifecycleCode_from_u8_def)

definition i32_min :: int where
  "i32_min = - (2 ^ 31)"

definition i32_in_range :: "int \<Rightarrow> bool" where
  "i32_in_range i \<longleftrightarrow> i32_min \<le> i \<and> i < 2 ^ 31"

definition i32_to_le :: "int \<Rightarrow> bytes" where
  "i32_to_le i = le_bytes 4 (nat (i mod 2 ^ 32))"

definition i32_from_le :: "bytes \<Rightarrow> int" where
  "i32_from_le bs = (let n = int (from_le bs) in if n < 2 ^ 31 then n else n - 2 ^ 32)"

lemma i32_round_trip: "i32_in_range i \<Longrightarrow> i32_from_le (i32_to_le i) = i"
proof -
  assume r: "i32_in_range i"
  have lt: "nat (i mod 2 ^ 32) < 256 ^ 4" by simp
  have "int (from_le (i32_to_le i)) = i mod 2 ^ 32"
    unfolding i32_to_le_def by (subst from_le_le_bytes_small [OF lt]) simp
  moreover have "i mod 2 ^ 32 = (if 0 \<le> i then i else i + 2 ^ 32)"
  proof (cases "0 \<le> i")
    case True
    with r show ?thesis by (simp add: i32_in_range_def)
  next
    case False
    have "(i + 2 ^ 32) mod 2 ^ 32 = i + 2 ^ 32"
      using False r by (intro mod_pos_pos_trivial) (auto simp: i32_in_range_def i32_min_def)
    with False show ?thesis by simp
  qed
  ultimately show ?thesis
    using r by (auto simp: i32_from_le_def Let_def i32_in_range_def i32_min_def)
qed

definition encode_lifecycle_payload :: "LifecycleCode \<Rightarrow> int option \<Rightarrow> bytes \<Rightarrow> bytes" where
  "encode_lifecycle_payload code exit_code detail =
     [LifecycleCode_as_u8 code]
       @ i32_to_le (case exit_code of Some c \<Rightarrow> c | None \<Rightarrow> i32_min) @ detail"

definition decode_lifecycle_payload ::
  "bytes \<Rightarrow> (LifecycleCode \<times> int option \<times> bytes) option" where
  "decode_lifecycle_payload payload =
     (if length payload < 5 then None
      else case LifecycleCode_from_u8 (payload ! 0) of
             None \<Rightarrow> None
           | Some code \<Rightarrow>
               let raw_exit = i32_from_le [payload ! 1, payload ! 2, payload ! 3, payload ! 4];
                   exit_code = (if raw_exit \<noteq> i32_min then Some raw_exit else None)
               in if utf8_valid (drop 5 payload) then Some (code, exit_code, drop 5 payload)
                  else None)"

section \<open>The payload codecs round-trip\<close>

lemmas le_bytes_unfold = le_bytes_numeral pred_numeral_simps

text \<open>A resize payload written by \<open>encode_resize_payload\<close> is read back as the same geometry
  exactly when both dimensions are positive, and is refused otherwise.\<close>

theorem resize_payload_round_trip:
  assumes "rows < 2 ^ 16" and "cols < 2 ^ 16"
  shows "decode_resize_payload (encode_resize_payload rows cols)
           = (if 0 < rows \<and> 0 < cols then Some (rows, cols) else None)"
proof -
  let ?p = "encode_resize_payload rows cols"
  have "[?p ! 0, ?p ! 1] = le_bytes 2 rows" and "[?p ! 2, ?p ! 3] = le_bytes 2 cols"
    by (simp_all add: encode_resize_payload_def le_bytes_unfold)
  with assms show ?thesis
    by (simp add: decode_resize_payload_def encode_resize_payload_def codec_simps)
qed

theorem resize_payload_round_trip_witness:
  "decode_resize_payload (encode_resize_payload 24 80) = Some (24, 80)"
  by (subst resize_payload_round_trip) simp_all

text \<open>A policy fact written by \<open>policy_payload\<close> is read back as the same key and value
  whenever both are UTF-8 text, the key is non-empty and has no equals sign, and the value has no
  line feed: the conditions \<open>record_policy\<close> imposes, apart from a line feed in the key.\<close>

theorem policy_payload_round_trip:
  assumes "utf8_valid key" and "utf8_valid value" and "key \<noteq> []"
    and "of_char CHR ''='' \<notin> set key" and "10 \<notin> set value"
  shows "parse_policy (policy_payload key value) = Some (key, value)"
proof -
  have "utf8_valid (ascii ''='' @ value)"
    using assms(2) by (simp add: ascii_def Let_def)
  with assms(1) have "utf8_valid (policy_payload key value)"
    by (simp add: policy_payload_def utf8_valid_append)
  with assms(3-5) show ?thesis
    by (simp add: parse_policy_def policy_payload_def ascii_def split_once_append)
qed

theorem policy_payload_round_trip_witness:
  "parse_policy (policy_payload (ascii ''mode'') (ascii ''a=b'')) = Some (ascii ''mode'', ascii ''a=b'')"
  by (rule policy_payload_round_trip) (simp_all add: ascii_def)

text \<open>A lifecycle payload is read back as the same code, exit status and detail, for every
  exit status an \<open>i32\<close> can hold except the minimum, which the format reserves for "none".\<close>

theorem lifecycle_payload_round_trip:
  assumes "utf8_valid detail"
    and "\<forall>c. exit_code = Some c \<longrightarrow> i32_in_range c \<and> c \<noteq> i32_min"
  shows "decode_lifecycle_payload (encode_lifecycle_payload code exit_code detail)
           = Some (code, exit_code, detail)"
proof -
  let ?c = "case exit_code of Some c \<Rightarrow> c | None \<Rightarrow> i32_min"
  let ?p = "encode_lifecycle_payload code exit_code detail"
  have range: "i32_in_range ?c"
    using assms(2) by (auto simp: i32_in_range_def i32_min_def split: option.splits)
  have len: "length (i32_to_le ?c) = 4" by (simp add: i32_to_le_def)
  have "[?p ! 1, ?p ! 2, ?p ! 3, ?p ! 4] = i32_to_le ?c"
    by (simp add: encode_lifecycle_payload_def i32_to_le_def le_bytes_unfold)
  with i32_round_trip [OF range] have "i32_from_le [?p ! 1, ?p ! 2, ?p ! 3, ?p ! 4] = ?c"
    by simp
  moreover have "drop 5 ?p = detail" and "\<not> length ?p < 5" and "?p ! 0 = LifecycleCode_as_u8 code"
    using len by (simp_all add: encode_lifecycle_payload_def)
  ultimately show ?thesis
    using assms by (auto simp: decode_lifecycle_payload_def Let_def split: option.splits)
qed

theorem lifecycle_payload_round_trip_witness:
  "decode_lifecycle_payload (encode_lifecycle_payload Failed (Some (- 9)) (ascii ''oom''))
     = Some (Failed, Some (- 9), ascii ''oom'')"
  by (rule lifecycle_payload_round_trip) (simp_all add: ascii_def i32_in_range_def i32_min_def)

end
