(* ===== verification/Journal_Scan.thy ===== *)
theory Journal_Scan
  imports Journal_Record
begin

text \<open>
  The segment scanner of \<open>src/session/journal/scan.rs\<close>: one pass over the bytes of a segment
  file that validates every record (header, length bound, checksum, sequence continuity) and
  stops at the first byte it cannot vouch for. The file is the list of bytes that remain to
  be read; a scan is a loop of \<open>scan_step\<close>, one step per record.
\<close>

section \<open>Scan results\<close>

datatype ScanStop =
    CleanEof | PartialTail | InvalidHeader | UnsupportedVersion | UnknownKind
  | OversizeLength | CrcMismatch | SequenceDiscontinuity

definition may_rewind :: "ScanStop \<Rightarrow> bool" where
  "may_rewind s \<longleftrightarrow> s = PartialTail"

record CollectWindow =
  from_seq :: nat
  to_seq :: nat
  max_buffered_bytes :: nat

datatype ScanMode = ScanAll | ScanWindow CollectWindow | ScanIndex | ScanStats

record IndexEntry =
  ie_seq :: nat
  ie_offset :: nat
  ie_record_len :: nat

record ScanOutcome =
  so_records :: "Record list"
  so_valid_len :: nat
  so_stop :: ScanStop

record ScanResult =
  sr_outcome :: ScanOutcome
  sr_truncated :: bool
  sr_index :: "IndexEntry list"
  sr_record_count :: nat
  sr_last_seq :: "nat option"

record ScanStart =
  start_offset :: nat
  start_seq :: nat

definition SCAN_HASH_WINDOW :: nat where
  "SCAN_HASH_WINDOW = 1024 * 1024"

definition SCAN_INLINE_PAYLOAD_BYTES :: nat where
  "SCAN_INLINE_PAYLOAD_BYTES = 64 * 1024"

definition SPARSE_INDEX_STRIDE_BYTES :: nat where
  "SPARSE_INDEX_STRIDE_BYTES = 1024 * 1024"

section \<open>Reading from the file\<close>

text \<open>\<open>Complete\<close> carries the buffer read and what is left of the file.\<close>

datatype ReadPiece = Complete bytes bytes | Partial | Empty

definition read_exact_or_partial :: "bytes \<Rightarrow> nat \<Rightarrow> ReadPiece" where
  "read_exact_or_partial inp n =
     (if n \<le> length inp then Complete (take n inp) (drop n inp)
      else if inp = [] then Empty
      else Partial)"

text \<open>
  Checksum a payload through the bounded scratch buffer; \<open>None\<close> when the file ends first.
\<close>

function hash_windows :: "'h hasher \<Rightarrow> 'h \<Rightarrow> nat \<Rightarrow> bytes \<Rightarrow> ('h \<times> bytes) option" where
  "hash_windows H hs remaining inp =
     (if remaining = 0 then Some (hs, inp)
      else let want = min SCAN_HASH_WINDOW remaining in
           case read_exact_or_partial inp want of
             Complete buf inp' \<Rightarrow>
               hash_windows H (Crc32_update H hs buf) (remaining - want) inp'
           | _ \<Rightarrow> None)"
  by pat_completeness auto
termination
  by (relation "measure (\<lambda>(H, hs, remaining, inp). remaining)")
    (auto simp: SCAN_HASH_WINDOW_def)

declare hash_windows.simps [simp del]

text \<open>
  Validate one payload. A small payload that is kept is read in one piece; any other is
  checksummed through the scratch buffer first and, when it is kept, read again afterwards.
  The result is the payload to keep and the rest of the file.
\<close>

definition read_payload ::
  "'h hasher \<Rightarrow> bool \<Rightarrow> bytes \<Rightarrow> nat \<Rightarrow> bytes \<Rightarrow> ScanStop + bytes \<times> bytes" where
  "read_payload H keep header payload_len inp =
     (let stored_crc = from_le (slice 32 36 header);
          inline_keep = (keep \<and> payload_len \<le> SCAN_INLINE_PAYLOAD_BYTES);
          hs = Crc32_update H (Crc32_new H) (take 32 header)
      in if inline_keep then
           (case read_exact_or_partial inp payload_len of
              Complete payload inp' \<Rightarrow>
                if unat (Crc32_finish H (Crc32_update H hs payload)) \<noteq> stored_crc
                then Inl CrcMismatch else Inr (payload, inp')
            | _ \<Rightarrow> Inl PartialTail)
         else
           (case hash_windows H hs payload_len inp of
              None \<Rightarrow> Inl PartialTail
            | Some (hs', inp') \<Rightarrow>
                if unat (Crc32_finish H hs') \<noteq> stored_crc then Inl CrcMismatch
                else if keep then
                  (case read_exact_or_partial inp payload_len of
                     Complete payload inp'' \<Rightarrow> Inr (payload, inp'')
                   | _ \<Rightarrow> Inl PartialTail)
                else Inr ([], inp')))"

section \<open>The scan loop\<close>

text \<open>The local variables of \<open>scan_impl\<close>.\<close>

record scan_state =
  sc_records :: "Record list"
  sc_index :: "IndexEntry list"
  sc_buffered :: nat
  sc_offset :: nat
  sc_expected :: "nat option"
  sc_count :: nat
  sc_last :: "nat option"

definition scan_stop :: "scan_state \<Rightarrow> bool \<Rightarrow> ScanStop \<Rightarrow> ScanResult" where
  "scan_stop st trunc reason =
     \<lparr>sr_outcome = \<lparr>so_records = sc_records st, so_valid_len = sc_offset st, so_stop = reason\<rparr>,
      sr_truncated = trunc, sr_index = sc_index st,
      sr_record_count = sc_count st, sr_last_seq = sc_last st\<rparr>"

fun mode_keeps :: "ScanMode \<Rightarrow> nat \<Rightarrow> bool" where
  "mode_keeps (ScanWindow w) seq = (from_seq w \<le> seq)"
| "mode_keeps ScanAll seq = True"
| "mode_keeps ScanIndex seq = False"
| "mode_keeps ScanStats seq = False"

definition window_past :: "ScanMode \<Rightarrow> nat \<Rightarrow> bool" where
  "window_past mode seq =
     (case mode of ScanWindow w \<Rightarrow> to_seq w < seq | _ \<Rightarrow> False)"

definition window_over_budget :: "ScanMode \<Rightarrow> scan_state \<Rightarrow> nat \<Rightarrow> bool" where
  "window_over_budget mode st len =
     (case mode of
        ScanWindow w \<Rightarrow> sc_records st \<noteq> [] \<and> max_buffered_bytes w < sc_buffered st + len
      | _ \<Rightarrow> False)"

definition index_due :: "IndexEntry list \<Rightarrow> nat \<Rightarrow> bool" where
  "index_due entries offset =
     (entries = [] \<or> ie_offset (last entries) + SPARSE_INDEX_STRIDE_BYTES \<le> offset)"

text \<open>What a validated record adds to the state, by mode (the final \<open>match\<close> of the loop).\<close>

definition scan_collect ::
  "ScanMode \<Rightarrow> Record \<Rightarrow> nat \<Rightarrow> scan_state \<Rightarrow> ScanResult + scan_state" where
  "scan_collect mode r payload_len st =
     (case mode of
        ScanAll \<Rightarrow> Inr (st\<lparr>sc_records := sc_records st @ [r]\<rparr>)
      | ScanWindow w \<Rightarrow>
          if from_seq w \<le> rec_seq r then
            if sc_records st \<noteq> []
               \<and> max_buffered_bytes w < sc_buffered st + length (rec_payload r)
            then Inl (scan_stop st True CleanEof)
            else Inr (st\<lparr>sc_buffered := sc_buffered st + length (rec_payload r),
                         sc_records := sc_records st @ [r]\<rparr>)
          else Inr st
      | ScanIndex \<Rightarrow>
          Inr (if index_due (sc_index st) (sc_offset st)
               then st\<lparr>sc_index := sc_index st
                        @ [\<lparr>ie_seq = rec_seq r, ie_offset = sc_offset st,
                            ie_record_len = HEADER_LEN + payload_len\<rparr>]\<rparr>
               else st)
      | ScanStats \<Rightarrow> Inr st)"

text \<open>The loop body from the payload on: checksum, continuity, collection.\<close>

definition scan_body ::
  "'h hasher \<Rightarrow> ScanMode \<Rightarrow> bytes \<Rightarrow> RecordKind \<Rightarrow> bytes \<Rightarrow> scan_state
     \<Rightarrow> ScanResult + scan_state \<times> bytes" where
  "scan_body H mode header kind inp st =
     (let payload_len = from_le (slice 28 32 header);
          seq = from_le (slice 12 20 header)
      in case read_payload H (mode_keeps mode seq) header payload_len inp of
           Inl reason \<Rightarrow> Inl (scan_stop st False reason)
         | Inr (payload, inp') \<Rightarrow>
             if (case sc_expected st of None \<Rightarrow> False | Some expected \<Rightarrow> seq \<noteq> expected)
             then Inl (scan_stop st False SequenceDiscontinuity)
             else
               let st1 = st\<lparr>sc_expected := Some (u64_add seq 1),
                            sc_count := sc_count st + 1, sc_last := Some seq\<rparr>;
                   r = \<lparr>rec_kind = kind, rec_seq = seq,
                        rec_elapsed_ms = from_le (slice 20 28 header), rec_payload = payload\<rparr>
               in case scan_collect mode r payload_len st1 of
                    Inl res \<Rightarrow> Inl res
                  | Inr st2 \<Rightarrow>
                      Inr (st2\<lparr>sc_offset := sc_offset st2 + (HEADER_LEN + payload_len)\<rparr>, inp'))"

definition scan_step ::
  "'h hasher \<Rightarrow> ScanMode \<Rightarrow> bytes \<Rightarrow> scan_state \<Rightarrow> ScanResult + scan_state \<times> bytes" where
  "scan_step H mode inp st =
     (case read_exact_or_partial inp HEADER_LEN of
        Partial \<Rightarrow> Inl (scan_stop st False PartialTail)
      | Empty \<Rightarrow> Inl (scan_stop st False CleanEof)
      | Complete header inp' \<Rightarrow>
          if slice 0 4 header \<noteq> RECORD_MAGIC then Inl (scan_stop st False InvalidHeader)
          else if from_le (slice 4 6 header) \<noteq> RECORD_VERSION
          then Inl (scan_stop st False UnsupportedVersion)
          else
            (case RecordKind_from_u16 (from_le (slice 6 8 header)) of
               None \<Rightarrow> Inl (scan_stop st False UnknownKind)
             | Some kind \<Rightarrow>
                 if MAX_PAYLOAD_LEN < from_le (slice 28 32 header)
                 then Inl (scan_stop st False OversizeLength)
                 else if window_past mode (from_le (slice 12 20 header))
                 then Inl (scan_stop st False CleanEof)
                 else if window_over_budget mode st (from_le (slice 28 32 header))
                 then Inl (scan_stop st True CleanEof)
                 else scan_body H mode header kind inp' st))"

text \<open>Every step that continues has consumed at least a header, so the loop ends.\<close>

lemma hash_windows_rest: "hash_windows H hs n inp = Some (hs', inp') \<Longrightarrow> inp' = drop n inp"
proof (induction H hs n inp rule: hash_windows.induct)
  case (1 H hs n inp)
  show ?case
  proof (cases "n = 0")
    case True
    with "1.prems" show ?thesis by (simp add: hash_windows.simps)
  next
    case False
    let ?w = "min SCAN_HASH_WINDOW n"
    from "1.prems" False have le: "?w \<le> length inp"
      and rec: "hash_windows H (Crc32_update H hs (take ?w inp)) (n - ?w) (drop ?w inp)
                  = Some (hs', inp')"
      by (auto simp: hash_windows.simps [of H hs n inp] read_exact_or_partial_def Let_def
          split: if_splits)
    have "read_exact_or_partial inp ?w = Complete (take ?w inp) (drop ?w inp)"
      using le by (simp add: read_exact_or_partial_def)
    from "1.IH" [OF False refl this rec] show ?thesis by simp
  qed
qed

lemma read_payload_rest:
  "read_payload H keep header n inp = Inr (p, inp') \<Longrightarrow> inp' = drop n inp"
  by (auto simp: read_payload_def Let_def read_exact_or_partial_def
      split: if_splits option.splits dest: hash_windows_rest)

lemma scan_step_rest:
  assumes "scan_step H mode inp st = Inr (st', inp')"
  shows "HEADER_LEN \<le> length inp
         \<and> inp' = drop (HEADER_LEN + from_le (slice 28 32 (take HEADER_LEN inp))) inp"
  using assms
  by (auto simp: scan_step_def scan_body_def Let_def read_exact_or_partial_def add.commute
      split: if_splits option.splits sum.splits prod.splits dest!: read_payload_rest)

function scan_loop :: "'h hasher \<Rightarrow> ScanMode \<Rightarrow> bytes \<Rightarrow> scan_state \<Rightarrow> ScanResult" where
  "scan_loop H mode inp st =
     (case scan_step H mode inp st of
        Inl res \<Rightarrow> res
      | Inr (st', inp') \<Rightarrow> scan_loop H mode inp' st')"
  by pat_completeness auto
termination
  by (relation "measure (\<lambda>(H, mode, inp, st). length inp)")
    (auto simp: HEADER_LEN_36 dest!: scan_step_rest)

declare scan_loop.simps [simp del]

definition scan_init :: "nat option \<Rightarrow> ScanStart option \<Rightarrow> scan_state" where
  "scan_init expected_first_seq start =
     \<lparr>sc_records = [], sc_index = [], sc_buffered = 0,
      sc_offset = (case start of Some s \<Rightarrow> start_offset s | None \<Rightarrow> 0),
      sc_expected = (case start of Some s \<Rightarrow> Some (start_seq s) | None \<Rightarrow> expected_first_seq),
      sc_count = 0, sc_last = None\<rparr>"

text \<open>\<open>scan_impl\<close> on the contents of the opened file; seeking drops the skipped bytes.\<close>

definition scan_impl ::
  "'h hasher \<Rightarrow> bytes \<Rightarrow> ScanMode \<Rightarrow> nat option \<Rightarrow> ScanStart option \<Rightarrow> ScanResult" where
  "scan_impl H content mode expected_first_seq start =
     scan_loop H mode
       (case start of Some s \<Rightarrow> drop (start_offset s) content | None \<Rightarrow> content)
       (scan_init expected_first_seq start)"

definition scan_segment :: "'h hasher \<Rightarrow> bytes \<Rightarrow> ScanOutcome" where
  "scan_segment H content = sr_outcome (scan_impl H content ScanAll None None)"

record SegmentStats =
  stat_records :: nat
  stat_last_seq :: "nat option"
  stat_valid_len :: nat
  stat_stop :: ScanStop

definition scan_segment_stats_from :: "'h hasher \<Rightarrow> bytes \<Rightarrow> nat option \<Rightarrow> SegmentStats" where
  "scan_segment_stats_from H content expected_first_seq =
     (let result = scan_impl H content ScanStats expected_first_seq None
      in \<lparr>stat_records = sr_record_count result, stat_last_seq = sr_last_seq result,
          stat_valid_len = so_valid_len (sr_outcome result),
          stat_stop = so_stop (sr_outcome result)\<rparr>)"

section \<open>The two payload paths agree\<close>

lemma hash_windows_short: "length inp < n \<Longrightarrow> hash_windows H hs n inp = None"
proof (induction H hs n inp rule: hash_windows.induct)
  case (1 H hs n inp)
  let ?w = "min SCAN_HASH_WINDOW n"
  have pos: "0 < ?w" using "1.prems" by (simp add: SCAN_HASH_WINDOW_def)
  show ?case
  proof (cases "?w \<le> length inp")
    case True
    then have rd: "read_exact_or_partial inp ?w = Complete (take ?w inp) (drop ?w inp)"
      by (simp add: read_exact_or_partial_def)
    have "length (drop ?w inp) < n - ?w" using True "1.prems" by simp
    from "1.IH" [OF _ refl rd this] rd "1.prems" pos show ?thesis
      by (simp add: hash_windows.simps [of H hs n inp] Let_def)
  next
    case False
    with "1.prems" show ?thesis
      by (simp add: hash_windows.simps [of H hs n inp] Let_def read_exact_or_partial_def)
  qed
qed

lemma hash_windows_enough:
  "n \<le> length inp \<Longrightarrow>
   \<exists>bss. concat bss = take n inp
         \<and> hash_windows H hs n inp = Some (foldl (Crc32_update H) hs bss, drop n inp)"
proof (induction H hs n inp rule: hash_windows.induct)
  case (1 H hs n inp)
  show ?case
  proof (cases "n = 0")
    case True
    then show ?thesis by (intro exI [of _ "[]"]) (simp add: hash_windows.simps)
  next
    case False
    let ?w = "min SCAN_HASH_WINDOW n"
    have "?w \<le> length inp" using "1.prems" by simp
    then have rd: "read_exact_or_partial inp ?w = Complete (take ?w inp) (drop ?w inp)"
      by (simp add: read_exact_or_partial_def)
    have "n - ?w \<le> length (drop ?w inp)" using "1.prems" by simp
    from "1.IH" [OF False refl rd this] obtain bss
      where c: "concat bss = take (n - ?w) (drop ?w inp)"
        and h: "hash_windows H (Crc32_update H hs (take ?w inp)) (n - ?w) (drop ?w inp)
                  = Some (foldl (Crc32_update H) (Crc32_update H hs (take ?w inp)) bss,
                          drop (n - ?w) (drop ?w inp))"
      by blast
    have "concat (take ?w inp # bss) = take n inp"
      using c take_add [of ?w "n - ?w" inp] by simp
    moreover have "hash_windows H hs n inp
        = Some (foldl (Crc32_update H) hs (take ?w inp # bss), drop n inp)"
      using False rd h by (simp add: hash_windows.simps [of H hs n inp] Let_def)
    ultimately show ?thesis by blast
  qed
qed

context crc_hasher
begin

text \<open>The payload check without its buffering: the reference the two paths are compared with.\<close>

lemma read_payload_reference:
  "read_payload H keep header n inp =
     (if length inp < n then Inl PartialTail
      else if unat (Crc32_of H (take 32 header @ take n inp)) \<noteq> from_le (slice 32 36 header)
      then Inl CrcMismatch
      else Inr (if keep then take n inp else [], drop n inp))"
proof (cases "length inp < n")
  case True
  then show ?thesis
    by (simp add: read_payload_def Let_def read_exact_or_partial_def hash_windows_short)
next
  case False
  let ?hs = "Crc32_update H (Crc32_new H) (take 32 header)"
  from False obtain bss where c: "concat bss = take n inp"
    and h: "hash_windows H ?hs n inp = Some (foldl (Crc32_update H) ?hs bss, drop n inp)"
    using hash_windows_enough [of n inp H ?hs] by auto
  have "Crc32_finish H (foldl (Crc32_update H) ?hs bss) = Crc32_of H (take 32 header @ take n inp)"
    using finish_chunks [of "take 32 header # bss"] c by simp
  moreover have "Crc32_finish H (Crc32_update H ?hs (take n inp))
      = Crc32_of H (take 32 header @ take n inp)"
    using finish_chunks [of "[take 32 header, take n inp]"] by simp
  ultimately show ?thesis
    using False h by (simp add: read_payload_def Let_def read_exact_or_partial_def)
qed

end

section \<open>Scanning what was written\<close>

text \<open>The state after a record has been accepted.\<close>

definition scan_advance :: "ScanMode \<Rightarrow> scan_state \<Rightarrow> Record \<Rightarrow> scan_state" where
  "scan_advance mode st r =
     st\<lparr>sc_expected := Some (u64_add (rec_seq r) 1), sc_count := sc_count st + 1,
        sc_last := Some (rec_seq r),
        sc_offset := sc_offset st + (HEADER_LEN + length (rec_payload r)),
        sc_records := (if mode_keeps mode (rec_seq r) then sc_records st @ [r] else sc_records st),
        sc_buffered := (case mode of
             ScanWindow w \<Rightarrow> if from_seq w \<le> rec_seq r
                             then sc_buffered st + length (rec_payload r) else sc_buffered st
           | _ \<Rightarrow> sc_buffered st),
        sc_index := (if mode = ScanIndex \<and> index_due (sc_index st) (sc_offset st)
             then sc_index st @ [\<lparr>ie_seq = rec_seq r, ie_offset = sc_offset st,
                                  ie_record_len = HEADER_LEN + length (rec_payload r)\<rparr>]
             else sc_index st)\<rparr>"

definition expects :: "scan_state \<Rightarrow> nat \<Rightarrow> bool" where
  "expects st s \<longleftrightarrow> sc_expected st = None \<or> sc_expected st = Some s"

lemma record_ok_fields [codec_simps]:
  assumes "record_ok r"
  shows "from_le (le_bytes 8 (rec_seq r)) = rec_seq r"
    and "from_le (le_bytes 8 (rec_elapsed_ms r)) = rec_elapsed_ms r"
    and "from_le (le_bytes 4 (length (rec_payload r))) = length (rec_payload r)"
  using assms by (simp_all add: record_ok_def MAX_PAYLOAD_LEN_def from_le_le_bytes)

lemma kind_field [codec_simps]:
  "from_le (le_bytes 2 (RecordKind_as_u16 k)) = RecordKind_as_u16 k"
  "from_le (le_bytes 2 RECORD_VERSION) = RECORD_VERSION"
  using RecordKind_as_u16_less [of k]
  by (simp_all add: from_le_le_bytes RECORD_VERSION_def)

lemma crc_field [codec_simps]: "from_le (le_bytes 4 (unat (c :: u32))) = unat c"
  using unat_u32_less [of c] by (simp add: from_le_le_bytes)

context crc_hasher
begin

lemma encode_record_split:
  "encode_record H r =
     header_prefix (rec_kind r) (rec_seq r) (rec_elapsed_ms r) (rec_payload r)
       @ le_bytes 4 (unat (Crc32_of H (header_prefix (rec_kind r) (rec_seq r)
            (rec_elapsed_ms r) (rec_payload r) @ rec_payload r)))
       @ rec_payload r"
  by (simp add: encode_record_def encode_record_header_def Let_def crc32_two_of)

lemma encoded_header:
  assumes "record_ok r"
  shows "slice 0 4 (take HEADER_LEN (encode_record H r)) = RECORD_MAGIC"
    and "from_le (slice 4 6 (take HEADER_LEN (encode_record H r))) = RECORD_VERSION"
    and "from_le (slice 6 8 (take HEADER_LEN (encode_record H r))) = RecordKind_as_u16 (rec_kind r)"
    and "from_le (slice 12 20 (take HEADER_LEN (encode_record H r))) = rec_seq r"
    and "from_le (slice 20 28 (take HEADER_LEN (encode_record H r))) = rec_elapsed_ms r"
    and "from_le (slice 28 32 (take HEADER_LEN (encode_record H r))) = length (rec_payload r)"
  using assms by (simp_all add: encode_record_split codec_simps HEADER_LEN_36)

text \<open>What the scanner sees when the next bytes begin with the header of a written record.\<close>

lemma scan_step_header:
  assumes ok: "record_ok r" and "HEADER_LEN \<le> length t"
    and pre: "take HEADER_LEN t = take HEADER_LEN (encode_record H r)"
  shows "scan_step H mode t st =
    (if window_past mode (rec_seq r) then Inl (scan_stop st False CleanEof)
     else if window_over_budget mode st (length (rec_payload r))
     then Inl (scan_stop st True CleanEof)
     else scan_body H mode (take HEADER_LEN (encode_record H r)) (rec_kind r)
            (drop HEADER_LEN t) st)"
proof -
  let ?h = "take HEADER_LEN (encode_record H r)"
  have rd: "read_exact_or_partial t HEADER_LEN = Complete ?h (drop HEADER_LEN t)"
    using assms(2) unfolding read_exact_or_partial_def pre by simp
  have "length (rec_payload r) \<le> MAX_PAYLOAD_LEN"
    using ok by (simp add: record_ok_def)
  then show ?thesis
    unfolding scan_step_def rd by (simp add: encoded_header [OF ok])
qed

lemma read_payload_encoded:
  assumes "record_ok r"
  shows "read_payload H keep (take HEADER_LEN (encode_record H r)) (length (rec_payload r))
           (rec_payload r @ rest) = Inr (if keep then rec_payload r else [], rest)"
  by (simp add: read_payload_reference encode_record_split codec_simps HEADER_LEN_36)

text \<open>A complete, expected record is accepted and the scan moves past it.\<close>

lemma scan_step_encoded:
  assumes ok: "record_ok r" and ex: "expects st (rec_seq r)"
  shows "scan_step H mode (encode_record H r @ rest) st =
    (if window_past mode (rec_seq r) then Inl (scan_stop st False CleanEof)
     else if window_over_budget mode st (length (rec_payload r))
     then Inl (scan_stop st True CleanEof)
     else Inr (scan_advance mode st r, rest))"
proof -
  let ?h = "take HEADER_LEN (encode_record H r)"
  have "drop HEADER_LEN (encode_record H r @ rest) = rec_payload r @ rest"
    by (simp add: encode_record_split HEADER_LEN_36)
  moreover have "scan_body H mode ?h (rec_kind r) (rec_payload r @ rest) st
      = Inr (scan_advance mode st r, rest)"
    if "\<not> window_over_budget mode st (length (rec_payload r))"
    using ex that ok unfolding scan_body_def encoded_header [OF ok]
    by (cases mode)
      (auto simp: read_payload_encoded scan_collect_def scan_advance_def expects_def
        window_over_budget_def Let_def split: option.splits)
  ultimately show ?thesis
    by (simp add: scan_step_header [OF ok])
qed

text \<open>A record cut short anywhere, header or payload, is a torn tail.\<close>

lemma scan_step_torn:
  assumes ok: "record_ok r" and t: "t = take n (encode_record H r)"
    and n: "0 < n" "n < length (encode_record H r)"
    and win: "\<not> window_past mode (rec_seq r)"
      "\<not> window_over_budget mode st (length (rec_payload r))"
  shows "scan_step H mode t st = Inl (scan_stop st False PartialTail)"
proof (cases "n < HEADER_LEN")
  case True
  with t n have "length t = n" and "t \<noteq> []" by (auto simp: min_def)
  with True show ?thesis by (simp add: scan_step_def read_exact_or_partial_def)
next
  case False
  let ?h = "take HEADER_LEN (encode_record H r)"
  have len: "length t = n" and pre: "take HEADER_LEN t = ?h"
    using t n False by (auto simp: min_def)
  have "length (drop HEADER_LEN t) < length (rec_payload r)"
    using len n False by simp
  then have "scan_body H mode ?h (rec_kind r) (drop HEADER_LEN t) st
      = Inl (scan_stop st False PartialTail)"
    by (simp add: scan_body_def encoded_header [OF ok] read_payload_reference)
  then show ?thesis
    using False win len by (simp add: scan_step_header [OF ok _ pre])
qed

end

subsection \<open>The scan as a pass over records\<close>

text \<open>
  The abstract view of a scan: a pass over the list of records that were written, which the
  pass over their bytes refines.
\<close>

fun scan_records :: "ScanMode \<Rightarrow> scan_state \<Rightarrow> Record list \<Rightarrow> ScanResult + scan_state" where
  "scan_records mode st [] = Inr st"
| "scan_records mode st (r # rs) =
     (if window_past mode (rec_seq r) then Inl (scan_stop st False CleanEof)
      else if window_over_budget mode st (length (rec_payload r))
      then Inl (scan_stop st True CleanEof)
      else scan_records mode (scan_advance mode st r) rs)"

text \<open>A run of records as the sequencer produces it: well-formed, counting up from \<open>s\<close>.\<close>

definition record_run :: "nat \<Rightarrow> Record list \<Rightarrow> bool" where
  "record_run s rs \<longleftrightarrow> (\<forall>r \<in> set rs. record_ok r) \<and> seq_run s (map rec_seq rs)"

definition encode_records :: "'h hasher \<Rightarrow> Record list \<Rightarrow> bytes" where
  "encode_records H rs = concat (map (encode_record H) rs)"

lemma record_run_Nil [simp]: "record_run s []"
  by (simp add: record_run_def)

lemma record_run_Cons [simp]:
  "record_run s (r # rs) \<longleftrightarrow> record_ok r \<and> rec_seq r = s \<and> record_run (Suc s) rs"
  by (auto simp: record_run_def)

lemma record_run_append [simp]:
  "record_run s (rs @ qs) \<longleftrightarrow> record_run s rs \<and> record_run (s + length rs) qs"
  by (auto simp: record_run_def)

lemma record_run_take: "record_run s rs \<Longrightarrow> record_run s (take n rs)"
  by (metis append_take_drop_id record_run_append)

lemma encode_records_Nil [simp]: "encode_records H [] = []"
  by (simp add: encode_records_def)

lemma encode_records_Cons [simp]:
  "encode_records H (r # rs) = encode_record H r @ encode_records H rs"
  by (simp add: encode_records_def)

lemma encode_records_append [simp]:
  "encode_records H (rs @ qs) = encode_records H rs @ encode_records H qs"
  by (simp add: encode_records_def)

lemma expects_advance:
  "record_run (Suc (rec_seq r)) (q # qs) \<Longrightarrow> expects (scan_advance mode st r) (Suc (rec_seq r))"
  by (simp add: expects_def scan_advance_def u64_add_def record_ok_def)

context crc_hasher
begin

lemma scan_loop_refines:
  assumes "record_run s rs" and "rs \<noteq> [] \<Longrightarrow> expects st s"
  shows "scan_loop H mode (encode_records H rs @ rest) st
           = (case scan_records mode st rs of
                Inl res \<Rightarrow> res
              | Inr st' \<Rightarrow> scan_loop H mode rest st')"
  using assms
proof (induction rs arbitrary: s st)
  case Nil
  then show ?case by simp
next
  case (Cons r rs)
  then have ok: "record_ok r" and s: "rec_seq r = s" and run: "record_run (Suc s) rs"
    and ex: "expects st (rec_seq r)"
    by auto
  have "rs \<noteq> [] \<Longrightarrow> expects (scan_advance mode st r) (Suc s)"
    using run s by (cases rs) (auto intro: expects_advance)
  note IH = Cons.IH [OF run this]
  show ?case
    using scan_step_encoded [OF ok ex] IH by (subst scan_loop.simps) auto
qed

lemma scan_loop_end: "scan_loop H mode [] st = scan_stop st False CleanEof"
  by (subst scan_loop.simps) (simp add: scan_step_def read_exact_or_partial_def HEADER_LEN_36)

lemma scan_loop_torn:
  assumes "record_ok r" "0 < n" "n < length (encode_record H r)"
    and "\<not> window_past mode (rec_seq r)"
      "\<not> window_over_budget mode st (length (rec_payload r))"
  shows "scan_loop H mode (take n (encode_record H r)) st = scan_stop st False PartialTail"
  using scan_step_torn [OF assms(1) refl assms(2-5)] by (subst scan_loop.simps) simp

end

lemma scan_records_unbounded:
  "(\<And>w. mode \<noteq> ScanWindow w) \<Longrightarrow>
   scan_records mode st rs = Inr (foldl (scan_advance mode) st rs)"
  by (induction rs arbitrary: st)
    (auto simp: window_past_def window_over_budget_def split: ScanMode.splits)

lemma scan_advance_sel [simp]:
  "sc_offset (scan_advance mode st r) = sc_offset st + (HEADER_LEN + length (rec_payload r))"
  "sc_count (scan_advance mode st r) = Suc (sc_count st)"
  "sc_last (scan_advance mode st r) = Some (rec_seq r)"
  "sc_records (scan_advance ScanAll st r) = sc_records st @ [r]"
  "sc_records (scan_advance ScanStats st r) = sc_records st"
  "sc_records (scan_advance ScanIndex st r) = sc_records st"
  by (simp_all add: scan_advance_def)

lemma scan_offset_fold:
  "sc_offset (foldl (scan_advance mode) st rs) = sc_offset st + length (encode_records H rs)"
  by (induction rs arbitrary: st) simp_all

lemma scan_advance_fold [simp]:
  "sc_count (foldl (scan_advance mode) st rs) = sc_count st + length rs"
  "sc_last (foldl (scan_advance mode) st rs)
     = (if rs = [] then sc_last st else Some (rec_seq (last rs)))"
  "sc_records (foldl (scan_advance ScanAll) st rs) = sc_records st @ rs"
  "sc_records (foldl (scan_advance ScanStats) st rs) = sc_records st"
  "sc_records (foldl (scan_advance ScanIndex) st rs) = sc_records st"
  by (induction rs arbitrary: st) simp_all

lemmas scan_entry_defs = scan_segment_def scan_segment_stats_from_def scan_impl_def scan_init_def

context crc_hasher
begin

lemma scan_written:
  assumes "record_run s rs" and "rs \<noteq> [] \<Longrightarrow> expects st s" and "\<And>w. mode \<noteq> ScanWindow w"
  shows "scan_loop H mode (encode_records H rs) st
           = scan_stop (foldl (scan_advance mode) st rs) False CleanEof"
  using scan_loop_refines [OF assms(1,2), where rest = "[]"] assms(3)
  by (simp add: scan_records_unbounded scan_loop_end)

lemma scan_written_torn:
  assumes "record_run s (rs @ [r])" and "expects st s" and "\<And>w. mode \<noteq> ScanWindow w"
    and n: "0 < n" "n < length (encode_record H r)"
  shows "scan_loop H mode (encode_records H rs @ take n (encode_record H r)) st
           = scan_stop (foldl (scan_advance mode) st rs) False PartialTail"
proof -
  have win: "\<not> window_past mode q" "\<not> window_over_budget mode st' l" for q l st'
    using assms(3) by (auto simp: window_past_def window_over_budget_def split: ScanMode.splits)
  have run: "record_run s rs" and ok: "record_ok r" using assms(1) by simp_all
  show ?thesis
    using scan_loop_refines [OF run assms(2), where rest = "take n (encode_record H r)"]
      assms(3) scan_loop_torn [OF ok n win]
    by (simp add: scan_records_unbounded)
qed

lemma segment_scan_written:
  "record_run s rs \<Longrightarrow> scan_segment H (encode_records H rs)
     = \<lparr>so_records = rs, so_valid_len = length (encode_records H rs), so_stop = CleanEof\<rparr>"
  by (simp add: scan_entry_defs scan_written [of s] expects_def scan_stop_def
      scan_offset_fold [where H = H])

lemma segment_scan_torn:
  assumes "record_run s (rs @ [r])" and "0 < n" and "n < length (encode_record H r)"
  shows "scan_segment H (encode_records H rs @ take n (encode_record H r))
     = \<lparr>so_records = rs, so_valid_len = length (encode_records H rs), so_stop = PartialTail\<rparr>"
  using scan_written_torn [OF assms(1) _ _ assms(2,3), where mode = ScanAll
      and st = "scan_init None None"]
  by (simp add: scan_entry_defs expects_def scan_stop_def scan_offset_fold [where H = H])

lemma segment_stats_written:
  assumes "record_run s rs" and "first = None \<or> first = Some s"
  shows "scan_segment_stats_from H (encode_records H rs) first
     = \<lparr>stat_records = length rs,
        stat_last_seq = (if rs = [] then None else Some (rec_seq (last rs))),
        stat_valid_len = length (encode_records H rs), stat_stop = CleanEof\<rparr>"
  using assms(2) scan_written [OF assms(1), where mode = ScanStats]
  by (auto simp: scan_entry_defs expects_def scan_stop_def Let_def
      scan_offset_fold [where H = H])

lemma segment_stats_torn:
  assumes "record_run s (rs @ [r])" and "first = None \<or> first = Some s"
    and n: "0 < n" "n < length (encode_record H r)"
  shows "scan_segment_stats_from H (encode_records H rs @ take n (encode_record H r)) first
     = \<lparr>stat_records = length rs,
        stat_last_seq = (if rs = [] then None else Some (rec_seq (last rs))),
        stat_valid_len = length (encode_records H rs), stat_stop = PartialTail\<rparr>"
  using assms(2) scan_written_torn [OF assms(1) _ _ n, where mode = ScanStats]
  by (auto simp: scan_entry_defs expects_def scan_stop_def Let_def
      scan_offset_fold [where H = H])

end

section \<open>Scanning arbitrary bytes\<close>

text \<open>
  A frame the scanner may accept as record \<open>r\<close>, whatever wrote it: the header names the
  format, a known kind, a length within the bound, and carries the checksum of what follows.
  The flag bytes are covered by the checksum but not otherwise constrained.
\<close>

definition valid_frame :: "'h hasher \<Rightarrow> bytes \<Rightarrow> Record \<Rightarrow> bool" where
  "valid_frame H frame r \<longleftrightarrow>
     length frame = HEADER_LEN + length (rec_payload r)
     \<and> slice 0 4 frame = RECORD_MAGIC
     \<and> from_le (slice 4 6 frame) = RECORD_VERSION
     \<and> from_le (slice 6 8 frame) = RecordKind_as_u16 (rec_kind r)
     \<and> from_le (slice 12 20 frame) = rec_seq r
     \<and> from_le (slice 20 28 frame) = rec_elapsed_ms r
     \<and> from_le (slice 28 32 frame) = length (rec_payload r)
     \<and> length (rec_payload r) \<le> MAX_PAYLOAD_LEN
     \<and> from_le (slice 32 36 frame) = unat (Crc32_of H (take 32 frame @ rec_payload r))
     \<and> drop HEADER_LEN frame = rec_payload r"

text \<open>Each record's sequence is the previous one plus one, with the wrap-around of \<open>u64\<close>.\<close>

fun chained :: "nat option \<Rightarrow> Record list \<Rightarrow> bool" where
  "chained e [] \<longleftrightarrow> True"
| "chained e (r # rs) \<longleftrightarrow>
     (case e of None \<Rightarrow> True | Some s \<Rightarrow> rec_seq r = s) \<and> chained (Some (u64_add (rec_seq r) 1)) rs"

context crc_hasher
begin

lemma read_payload_Inr:
  assumes "read_payload H True header n inp = Inr (p, inp')"
  shows "n \<le> length inp \<and> p = take n inp \<and> inp' = drop n inp
         \<and> unat (Crc32_of H (take 32 header @ p)) = from_le (slice 32 36 header)"
  using assms by (auto simp: read_payload_reference split: if_splits)

lemma scan_step_sound:
  assumes "scan_step H ScanAll inp st = Inr (st', inp')"
  shows "\<exists>frame r. inp = frame @ inp' \<and> valid_frame H frame r \<and> st' = scan_advance ScanAll st r
           \<and> chained (sc_expected st) [r]"
proof -
  let ?h = "take HEADER_LEN inp" and ?f = "drop HEADER_LEN inp"
  let ?n = "from_le (slice 28 32 ?h)" and ?s = "from_le (slice 12 20 ?h)"
  from assms have len: "HEADER_LEN \<le> length inp" by (auto dest: scan_step_rest)
  then have rd: "read_exact_or_partial inp HEADER_LEN = Complete ?h ?f"
    by (simp add: read_exact_or_partial_def)
  from assms obtain kind where magic: "slice 0 4 ?h = RECORD_MAGIC"
    and ver: "from_le (slice 4 6 ?h) = RECORD_VERSION"
    and kind: "from_le (slice 6 8 ?h) = RecordKind_as_u16 kind"
    and bound: "?n \<le> MAX_PAYLOAD_LEN"
    and body: "scan_body H ScanAll ?h kind ?f st = Inr (st', inp')"
    unfolding scan_step_def rd
    by (auto simp: window_past_def window_over_budget_def dest: RecordKind_from_u16_Some
        split: if_splits option.splits)
  from body obtain p where pay: "read_payload H True ?h ?n ?f = Inr (p, inp')"
    and ex: "sc_expected st = None \<or> sc_expected st = Some ?s"
    unfolding scan_body_def Let_def
    by (cases "read_payload H True ?h ?n ?f")
      (auto simp: scan_collect_def split: if_splits option.splits)
  note pay' = read_payload_Inr [OF pay]
  define r where "r = \<lparr>rec_kind = kind, rec_seq = ?s,
    rec_elapsed_ms = from_le (slice 20 28 ?h), rec_payload = p\<rparr>"
  have plen: "length p = ?n" using pay' by simp
  have "st' = scan_advance ScanAll st r"
    using body pay ex plen
    by (auto simp: scan_body_def Let_def scan_collect_def scan_advance_def r_def)
  moreover have "inp = take (HEADER_LEN + ?n) inp @ inp'"
    using pay' by (metis append_take_drop_id drop_drop add.commute)
  moreover have "valid_frame H (take (HEADER_LEN + ?n) inp) r"
  proof -
    have sl: "slice a b (take (HEADER_LEN + ?n) inp) = slice a b ?h" if "b \<le> HEADER_LEN" for a b
      using that by (simp add: slice_take)
    have below: "4 \<le> HEADER_LEN" "6 \<le> HEADER_LEN" "8 \<le> HEADER_LEN" "20 \<le> HEADER_LEN"
      "28 \<le> HEADER_LEN" "32 \<le> HEADER_LEN" "36 \<le> HEADER_LEN"
      by (simp_all add: HEADER_LEN_36)
    have "drop HEADER_LEN (take (HEADER_LEN + ?n) inp) = p"
      using pay' by (simp add: drop_take)
    moreover have "take 32 (take (HEADER_LEN + ?n) inp) = take 32 ?h"
      by (simp add: HEADER_LEN_36)
    moreover have "HEADER_LEN + ?n \<le> length inp"
      using len pay' by (simp add: le_diff_conv2 add.commute)
    then have "length (take (HEADER_LEN + ?n) inp) = HEADER_LEN + length p"
      by (simp add: plen)
    ultimately show ?thesis
      using magic ver kind bound pay' plen
      by (auto simp: valid_frame_def r_def sl below)
  qed
  moreover have "chained (sc_expected st) [r]"
    using ex by (auto simp: r_def)
  ultimately show ?thesis by blast
qed

lemma scan_step_stops:
  assumes "scan_step H ScanAll inp st = Inl res"
  shows "\<exists>reason. res = scan_stop st False reason \<and> (reason = CleanEof \<longleftrightarrow> inp = [])"
  using assms
  by (auto simp: scan_step_def scan_body_def Let_def window_past_def window_over_budget_def
      scan_collect_def read_exact_or_partial_def read_payload_reference HEADER_LEN_36
      split: if_splits option.splits sum.splits)

text \<open>
  Whatever the bytes, a scan accepts a chain of valid frames that is a prefix of them, and it
  reports a clean end only when that prefix is everything.
\<close>

lemma scan_loop_sound:
  "\<exists>frames rs rest reason.
     inp = concat frames @ rest \<and> list_all2 (valid_frame H) frames rs
     \<and> chained (sc_expected st) rs
     \<and> scan_loop H ScanAll inp st = scan_stop (foldl (scan_advance ScanAll) st rs) False reason
     \<and> (reason = CleanEof \<longleftrightarrow> rest = [])"
proof (induction "length inp" arbitrary: inp st rule: less_induct)
  case less
  show ?case
  proof (cases "scan_step H ScanAll inp st")
    case (Inl res)
    with scan_step_stops [OF this] show ?thesis
      by (intro exI [of _ "[]"] exI [of _ inp]) (auto simp: scan_loop.simps [of H ScanAll inp])
  next
    case (Inr p)
    then obtain st' inp' where step: "scan_step H ScanAll inp st = Inr (st', inp')"
      by (cases p) auto
    from scan_step_sound [OF step] obtain frame r where f: "inp = frame @ inp'"
      "valid_frame H frame r" "st' = scan_advance ScanAll st r" "chained (sc_expected st) [r]"
      by blast
    from step have "length inp' < length inp"
      by (auto simp: HEADER_LEN_36 dest!: scan_step_rest)
    from less [OF this, of st'] obtain frames rs rest reason where
      ih: "inp' = concat frames @ rest" "list_all2 (valid_frame H) frames rs"
        "chained (sc_expected st') rs" "reason = CleanEof \<longleftrightarrow> rest = []"
        "scan_loop H ScanAll inp' st'
           = scan_stop (foldl (scan_advance ScanAll) st' rs) False reason"
      by blast
    have "sc_expected st' = Some (u64_add (rec_seq r) 1)"
      using f(3) by (simp add: scan_advance_def)
    moreover have "scan_loop H ScanAll inp st = scan_loop H ScanAll inp' st'"
      using step by (subst scan_loop.simps) simp
    ultimately show ?thesis
      using f ih by (intro exI [of _ "frame # frames"] exI [of _ "r # rs"] exI [of _ rest]
          exI [of _ reason]) simp
  qed
qed

lemma segment_scan_sound:
  "\<exists>frames rest. content = concat frames @ rest
     \<and> so_valid_len (scan_segment H content) = length (concat frames)
     \<and> list_all2 (valid_frame H) frames (so_records (scan_segment H content))
     \<and> chained None (so_records (scan_segment H content))
     \<and> (so_stop (scan_segment H content) = CleanEof \<longleftrightarrow> rest = [])"
proof -
  have len: "length (concat frames) = length (encode_records H rs)"
    if "list_all2 (valid_frame H) frames rs" for frames rs
    using that by (induction rule: list_all2_induct) (auto simp: valid_frame_def)
  from scan_loop_sound [of content "scan_init None None"] obtain frames rs rest reason where
    "content = concat frames @ rest" and va: "list_all2 (valid_frame H) frames rs"
    and ch: "chained (sc_expected (scan_init None None)) rs" and "reason = CleanEof \<longleftrightarrow> rest = []"
    and lp: "scan_loop H ScanAll content (scan_init None None)
      = scan_stop (foldl (scan_advance ScanAll) (scan_init None None) rs) False reason"
    by blast
  moreover have "chained None rs" using ch by (simp add: scan_init_def)
  moreover have eq: "scan_segment H content
      = sr_outcome (scan_stop (foldl (scan_advance ScanAll) (scan_init None None) rs) False reason)"
    using lp by (simp add: scan_segment_def scan_impl_def)
  ultimately show ?thesis
    by (intro exI [of _ frames] exI [of _ rest])
      (simp add: eq scan_stop_def scan_init_def scan_offset_fold [where H = H] len [OF va])
qed

end

section \<open>Properties of the scanner\<close>

text \<open>Two small records, for concrete instances.\<close>

definition sample_records :: "Record list" where
  "sample_records =
     [\<lparr>rec_kind = Resize, rec_seq = 7, rec_elapsed_ms = 1, rec_payload = [24, 0, 80, 0]\<rparr>,
      \<lparr>rec_kind = Output, rec_seq = 8, rec_elapsed_ms = 3, rec_payload = [104, 105]\<rparr>]"

lemma sample_record_run: "record_run 7 sample_records"
  by (simp add: sample_records_def record_ok_def MAX_PAYLOAD_LEN_def)

text \<open>C16. Round trip of the record format through the scanner: a segment that holds the
  encodings of a gapless run of well-formed records scans back to exactly those records, to
  its last byte, with a clean end.\<close>

theorem scan_segment_round_trip:
  assumes "crc_hasher H" and "record_run s rs"
  shows "scan_segment H (encode_records H rs)
     = \<lparr>so_records = rs, so_valid_len = length (encode_records H rs), so_stop = CleanEof\<rparr>"
  using assms by (rule crc_hasher.segment_scan_written)

theorem scan_segment_round_trip_witness:
  "so_records (scan_segment table_hasher (encode_records table_hasher sample_records))
     = sample_records"
  using scan_segment_round_trip [OF table_crc.crc_hasher_axioms sample_record_run] by simp

text \<open>A torn append loses nothing before it: when a segment ends in a strict, non-empty
  prefix of one more record (cut in its header or its payload), the scan returns every
  complete record, stops with \<open>PartialTail\<close>, and reports as the valid length the offset
  at which the torn record starts.\<close>

theorem scan_segment_torn_tail:
  assumes "crc_hasher H" and "record_run s (rs @ [r])" and "0 < n"
    and "n < length (encode_record H r)"
  shows "scan_segment H (encode_records H rs @ take n (encode_record H r))
     = \<lparr>so_records = rs, so_valid_len = length (encode_records H rs), so_stop = PartialTail\<rparr>"
  using assms by (rule crc_hasher.segment_scan_torn)

theorem scan_segment_torn_tail_witness:
  "so_stop (scan_segment table_hasher
     (encode_records table_hasher [hd sample_records]
        @ take 37 (encode_record table_hasher (last sample_records)))) = PartialTail"
proof -
  have "record_run 7 ([hd sample_records] @ [last sample_records])"
    using sample_record_run by (simp add: sample_records_def)
  moreover have "37 < length (encode_record table_hasher (last sample_records))"
    by (simp add: sample_records_def HEADER_LEN_36)
  ultimately show ?thesis
    by (subst scan_segment_torn_tail [OF table_crc.crc_hasher_axioms, where s = 7]) simp_all
qed

text \<open>C15. Soundness of the scanner on arbitrary bytes: the records it returns are, in order,
  the contents of a prefix of the file that splits into frames with the right magic, version,
  kind, length bound and checksum and consecutive sequences; the reported valid length is the
  length of that prefix; and the stop is \<open>CleanEof\<close> exactly when nothing follows it.\<close>

theorem scan_segment_sound:
  assumes "crc_hasher H"
  shows "\<exists>frames rest. content = concat frames @ rest
     \<and> so_valid_len (scan_segment H content) = length (concat frames)
     \<and> list_all2 (valid_frame H) frames (so_records (scan_segment H content))
     \<and> chained None (so_records (scan_segment H content))
     \<and> (so_stop (scan_segment H content) = CleanEof \<longleftrightarrow> rest = [])"
  using assms by (rule crc_hasher.segment_scan_sound)

theorem scan_segment_sound_witness:
  "\<exists>frames rest. [79, 82] = concat frames @ rest
     \<and> so_valid_len (scan_segment table_hasher [79, 82]) = length (concat frames)
     \<and> list_all2 (valid_frame table_hasher) frames (so_records (scan_segment table_hasher [79, 82]))
     \<and> chained None (so_records (scan_segment table_hasher [79, 82]))
     \<and> (so_stop (scan_segment table_hasher [79, 82]) = CleanEof \<longleftrightarrow> rest = [])"
  by (rule scan_segment_sound [OF table_crc.crc_hasher_axioms])

text \<open>The two ways of validating a payload agree: reading a small payload in one piece, and
  checksumming it through the bounded scratch window and reading it again, both give what one
  checksum over header and payload says, whatever the window and inline bounds.\<close>

theorem read_payload_equivalence:
  assumes "crc_hasher H"
  shows "read_payload H keep header n inp =
     (if length inp < n then Inl PartialTail
      else if unat (Crc32_of H (take 32 header @ take n inp)) \<noteq> from_le (slice 32 36 header)
      then Inl CrcMismatch
      else Inr (if keep then take n inp else [], drop n inp))"
  using assms by (rule crc_hasher.read_payload_reference)

theorem read_payload_equivalence_witness:
  "read_payload table_hasher True [] 3 [1, 2] = Inl PartialTail"
  by (subst read_payload_equivalence [OF table_crc.crc_hasher_axioms]) simp

end
