(* ===== verification/Journal_Frames.thy ===== *)
theory Journal_Frames
  imports Journal_Scan
begin

text \<open>
  A reference reading of a segment, against which the scanner's modes are compared: the list of
  records at the front of a byte string and the reason why nothing more can be read. It has no
  mode, no budget and no buffering, and the unbudgeted modes of \<open>scan_impl\<close> all compute it.
\<close>

section \<open>Reading frames\<close>

text \<open>What a header says by itself: a reason to stop, or the kind of the record.\<close>

definition frame_header :: "bytes \<Rightarrow> ScanStop + RecordKind" where
  "frame_header header =
     (if slice 0 4 header \<noteq> RECORD_MAGIC then Inl InvalidHeader
      else if from_le (slice 4 6 header) \<noteq> RECORD_VERSION then Inl UnsupportedVersion
      else case RecordKind_from_u16 (from_le (slice 6 8 header)) of
             None \<Rightarrow> Inl UnknownKind
           | Some kind \<Rightarrow>
               if MAX_PAYLOAD_LEN < from_le (slice 28 32 header) then Inl OversizeLength
               else Inr kind)"

definition header_len :: "bytes \<Rightarrow> nat" where
  "header_len header = from_le (slice 28 32 header)"

definition header_record :: "bytes \<Rightarrow> RecordKind \<Rightarrow> bytes \<Rightarrow> Record" where
  "header_record header kind payload =
     \<lparr>rec_kind = kind, rec_seq = from_le (slice 12 20 header),
      rec_elapsed_ms = from_le (slice 20 28 header), rec_payload = payload\<rparr>"

text \<open>The payload behind an accepted header.\<close>

definition frame_body ::
  "'h hasher \<Rightarrow> nat option \<Rightarrow> bytes \<Rightarrow> RecordKind \<Rightarrow> bytes \<Rightarrow> ScanStop + Record \<times> bytes" where
  "frame_body H expected header kind rest =
     (let n = header_len header; r = header_record header kind (take n rest) in
      if length rest < n then Inl PartialTail
      else if unat (Crc32_of H (take 32 header @ take n rest)) \<noteq> from_le (slice 32 36 header)
      then Inl CrcMismatch
      else if expected \<noteq> None \<and> expected \<noteq> Some (rec_seq r) then Inl SequenceDiscontinuity
      else Inr (r, drop n rest))"

definition next_frame :: "'h hasher \<Rightarrow> nat option \<Rightarrow> bytes \<Rightarrow> ScanStop + Record \<times> bytes" where
  "next_frame H expected inp =
     (if inp = [] then Inl CleanEof
      else if length inp < HEADER_LEN then Inl PartialTail
      else case frame_header (take HEADER_LEN inp) of
             Inl reason \<Rightarrow> Inl reason
           | Inr kind \<Rightarrow>
               frame_body H expected (take HEADER_LEN inp) kind (drop HEADER_LEN inp))"

lemma frame_body_Inr:
  assumes "frame_body H e h k rest = Inr (r, rest')"
  shows "length (rec_payload r) = header_len h \<and> header_len h \<le> length rest
     \<and> rest' = drop (header_len h) rest \<and> (e = None \<or> e = Some (rec_seq r))
     \<and> rec_seq r = from_le (slice 12 20 h)"
  using assms by (auto simp: frame_body_def Let_def header_record_def split: if_splits)

lemma frame_body_prefix:
  assumes "frame_body H e h k rest = Inr (r, rest')" and "header_len h \<le> m"
  shows "frame_body H e h k (take m rest) = Inr (r, take (m - header_len h) rest')"
  using assms by (auto simp: frame_body_def Let_def min_def drop_take split: if_splits)

lemma next_frame_Inr:
  assumes "next_frame H expected inp = Inr (r, inp')"
  shows "HEADER_LEN + length (rec_payload r) \<le> length inp
     \<and> inp' = drop (HEADER_LEN + length (rec_payload r)) inp
     \<and> (expected = None \<or> expected = Some (rec_seq r))
     \<and> rec_seq r = from_le (slice 12 20 (take HEADER_LEN inp))"
  using assms
  by (auto simp: next_frame_def add.commute split: if_splits sum.splits dest!: frame_body_Inr)

function frames :: "'h hasher \<Rightarrow> nat option \<Rightarrow> bytes \<Rightarrow> Record list \<times> ScanStop" where
  "frames H expected inp =
     (case next_frame H expected inp of
        Inl reason \<Rightarrow> ([], reason)
      | Inr (r, inp') \<Rightarrow>
          (case frames H (Some (u64_add (rec_seq r) 1)) inp' of (rs, reason) \<Rightarrow> (r # rs, reason)))"
  by pat_completeness auto
termination
  by (relation "measure (\<lambda>(H, expected, inp). length inp)")
    (auto simp: HEADER_LEN_36 dest!: next_frame_Inr)

declare frames.simps [simp del]

text \<open>Bytes the records of a frame list occupy.\<close>

definition frames_len :: "Record list \<Rightarrow> nat" where
  "frames_len rs = sum_list (map (\<lambda>r. HEADER_LEN + length (rec_payload r)) rs)"

lemma frames_len_simps [simp]:
  "frames_len [] = 0"
  "frames_len (r # rs) = HEADER_LEN + length (rec_payload r) + frames_len rs"
  by (simp_all add: frames_len_def)

lemma frames_len_encode: "frames_len rs = length (encode_records H rs)"
  by (induction rs) simp_all

lemma frames_len_le: "frames H e inp = (rs, reason) \<Longrightarrow> frames_len rs \<le> length inp"
proof (induction H e inp arbitrary: rs rule: frames.induct)
  case (1 H e inp)
  show ?case
  proof (cases "next_frame H e inp")
    case (Inl x)
    with "1.prems" show ?thesis by (simp add: frames.simps [of H e inp])
  next
    case (Inr p)
    obtain r inp' where p: "p = (r, inp')" by (cases p)
    with Inr have nf: "next_frame H e inp = Inr (r, inp')" by simp
    obtain rs' where fr: "frames H (Some (u64_add (rec_seq r) 1)) inp' = (rs', reason)"
      and rs: "rs = r # rs'"
      using "1.prems" nf by (auto simp: frames.simps [of H e inp] split: prod.splits)
    have "frames_len rs' \<le> length inp'" using "1.IH" [OF nf refl fr] .
    with next_frame_Inr [OF nf] rs show ?thesis by auto
  qed
qed

text \<open>Only the frame's own bytes matter to reading it.\<close>

lemma next_frame_prefix:
  assumes "next_frame H e inp = Inr (r, inp')" and "HEADER_LEN + length (rec_payload r) \<le> k"
  shows "next_frame H e (take k inp) = Inr (r, take (k - (HEADER_LEN + length (rec_payload r))) inp')"
proof -
  have le: "HEADER_LEN \<le> k" and len: "HEADER_LEN \<le> length inp"
    using assms(2) next_frame_Inr [OF assms(1)] by simp_all
  obtain kind where hd: "frame_header (take HEADER_LEN inp) = Inr kind"
    and body: "frame_body H e (take HEADER_LEN inp) kind (drop HEADER_LEN inp) = Inr (r, inp')"
    using assms(1) by (auto simp: next_frame_def split: if_splits sum.splits)
  have n: "header_len (take HEADER_LEN inp) = length (rec_payload r)"
    using frame_body_Inr [OF body] by simp
  have "frame_body H e (take HEADER_LEN inp) kind (take (k - HEADER_LEN) (drop HEADER_LEN inp))
      = Inr (r, take (k - HEADER_LEN - length (rec_payload r)) inp')"
    using frame_body_prefix [OF body, of "k - HEADER_LEN"] assms(2) by (simp add: n)
  moreover have "take HEADER_LEN (take k inp) = take HEADER_LEN inp" using le by (simp add: min_def)
  moreover have "\<not> length (take k inp) < HEADER_LEN" "take k inp \<noteq> []"
    using le len by (auto simp: HEADER_LEN_36)
  ultimately show ?thesis
    using hd by (simp add: next_frame_def drop_take)
qed

lemma frames_take:
  "frames H e inp = (rs, reason) \<Longrightarrow> frames H e (take (frames_len rs) inp) = (rs, CleanEof)"
proof (induction H e inp arbitrary: rs rule: frames.induct)
  case (1 H e inp)
  show ?case
  proof (cases "next_frame H e inp")
    case (Inl x)
    with "1.prems" have "rs = []" by (simp add: frames.simps [of H e inp])
    then show ?thesis by (simp add: frames.simps [of H e "[]"] next_frame_def)
  next
    case (Inr p)
    obtain r inp' where p: "p = (r, inp')" by (cases p)
    with Inr have nf: "next_frame H e inp = Inr (r, inp')" by simp
    obtain rs' where fr: "frames H (Some (u64_add (rec_seq r) 1)) inp' = (rs', reason)"
      and rs: "rs = r # rs'"
      using "1.prems" nf by (auto simp: frames.simps [of H e inp] split: prod.splits)
    have "frames H (Some (u64_add (rec_seq r) 1)) (take (frames_len rs') inp') = (rs', CleanEof)"
      using "1.IH" [OF nf refl fr] .
    moreover have "next_frame H e (take (frames_len rs) inp) = Inr (r, take (frames_len rs') inp')"
      using next_frame_prefix [OF nf, of "frames_len rs"] rs by simp
    ultimately show ?thesis unfolding rs by (subst frames.simps) simp
  qed
qed

text \<open>Expecting the sequence the first header carries changes nothing.\<close>

lemma next_frame_expected:
  assumes "s = from_le (slice 12 20 (take HEADER_LEN inp))"
  shows "next_frame H (Some s) inp = next_frame H None inp"
  using assms
  by (simp add: next_frame_def frame_body_def Let_def header_record_def split: sum.splits)

lemma frames_expected:
  assumes "s = from_le (slice 12 20 (take HEADER_LEN inp))"
  shows "frames H (Some s) inp = frames H None inp"
  by (simp add: frames.simps [of H _ inp] next_frame_expected [OF assms])

section \<open>The scanner reads frames\<close>

context crc_hasher
begin

lemma scan_body_frame:
  assumes "\<not> window_over_budget mode st (header_len h)"
  shows "scan_body H mode h kind rest st =
     (case frame_body H (sc_expected st) h kind rest of
        Inl reason \<Rightarrow> Inl (scan_stop st False reason)
      | Inr (r, rest') \<Rightarrow> Inr (scan_advance mode st r, rest'))"
proof (cases "read_payload H (mode_keeps mode (from_le (slice 12 20 h))) h (header_len h) rest")
  case (Inl reason)
  then have "frame_body H (sc_expected st) h kind rest = Inl reason"
    by (auto simp: read_payload_reference frame_body_def Let_def split: if_splits)
  with Inl show ?thesis by (simp add: scan_body_def Let_def header_len_def)
next
  case (Inr p)
  let ?n = "header_len h" and ?s = "from_le (slice 12 20 h)"
  have p: "p = (if mode_keeps mode ?s then take ?n rest else [], drop ?n rest)"
    and le: "?n \<le> length rest"
    and crc: "unat (Crc32_of H (take 32 h @ take ?n rest)) = from_le (slice 32 36 h)"
    using Inr by (auto simp: read_payload_reference split: if_splits)
  show ?thesis
  proof (cases "sc_expected st = None \<or> sc_expected st = Some ?s")
    case False
    then have "frame_body H (sc_expected st) h kind rest = Inl SequenceDiscontinuity"
      using le crc by (auto simp: frame_body_def Let_def header_record_def)
    with False Inr p show ?thesis
      by (auto simp: scan_body_def Let_def header_len_def split: option.splits)
  next
    case True
    then have "frame_body H (sc_expected st) h kind rest
        = Inr (header_record h kind (take ?n rest), drop ?n rest)"
      using le crc by (auto simp: frame_body_def Let_def header_record_def)
    moreover have "scan_body H mode h kind rest st
        = Inr (scan_advance mode st (header_record h kind (take ?n rest)), drop ?n rest)"
      using True Inr p le assms
      by (cases mode) (auto simp: scan_body_def Let_def header_len_def scan_collect_def
          scan_advance_def header_record_def window_over_budget_def)
    ultimately show ?thesis by simp
  qed
qed

text \<open>One step of the scanner in any mode, in terms of frames.\<close>

lemma scan_step_frame:
  "scan_step H mode inp st =
     (let header = take HEADER_LEN inp in
      if inp = [] then Inl (scan_stop st False CleanEof)
      else if length inp < HEADER_LEN then Inl (scan_stop st False PartialTail)
      else case frame_header header of
             Inl reason \<Rightarrow> Inl (scan_stop st False reason)
           | Inr kind \<Rightarrow>
               if window_past mode (from_le (slice 12 20 header))
               then Inl (scan_stop st False CleanEof)
               else if window_over_budget mode st (header_len header)
               then Inl (scan_stop st True CleanEof)
               else case frame_body H (sc_expected st) header kind (drop HEADER_LEN inp) of
                      Inl reason \<Rightarrow> Inl (scan_stop st False reason)
                    | Inr (r, inp') \<Rightarrow> Inr (scan_advance mode st r, inp'))"
proof (cases "length inp < HEADER_LEN")
  case True
  then show ?thesis by (auto simp: scan_step_def read_exact_or_partial_def Let_def)
next
  case False
  then have rd: "read_exact_or_partial inp HEADER_LEN = Complete (take HEADER_LEN inp) (drop HEADER_LEN inp)"
    and ne: "inp \<noteq> []"
    by (auto simp: read_exact_or_partial_def)
  show ?thesis
    unfolding scan_step_def rd
    using False ne scan_body_frame [where h = "take HEADER_LEN inp" and rest = "drop HEADER_LEN inp"]
    by (auto simp: Let_def frame_header_def header_len_def split: option.splits)
qed

lemma scan_step_whole:
  assumes "\<And>w. mode \<noteq> ScanWindow w"
  shows "scan_step H mode inp st =
     (case next_frame H (sc_expected st) inp of
        Inl reason \<Rightarrow> Inl (scan_stop st False reason)
      | Inr (r, inp') \<Rightarrow> Inr (scan_advance mode st r, inp'))"
proof -
  have "\<not> window_past mode q" "\<not> window_over_budget mode st l" for q l
    using assms by (auto simp: window_past_def window_over_budget_def split: ScanMode.splits)
  then show ?thesis
    by (simp add: scan_step_frame next_frame_def Let_def split: sum.splits)
qed

lemma scan_loop_frames:
  assumes "\<And>w. mode \<noteq> ScanWindow w"
  shows "scan_loop H mode inp st =
     (case frames H (sc_expected st) inp of
        (rs, reason) \<Rightarrow> scan_stop (foldl (scan_advance mode) st rs) False reason)"
proof (induction "length inp" arbitrary: inp st rule: less_induct)
  case less
  show ?case
  proof (cases "next_frame H (sc_expected st) inp")
    case (Inl reason)
    then show ?thesis
      by (simp add: scan_loop.simps [of H mode inp] scan_step_whole [OF assms]
          frames.simps [of H _ inp])
  next
    case (Inr p)
    obtain r inp' where "p = (r, inp')" by (cases p)
    with Inr have nf: "next_frame H (sc_expected st) inp = Inr (r, inp')" by simp
    have lt: "length inp' < length inp"
      using next_frame_Inr [OF nf] by (auto simp: HEADER_LEN_36)
    have ex: "sc_expected (scan_advance mode st r) = Some (u64_add (rec_seq r) 1)"
      by (simp add: scan_advance_def)
    show ?thesis
      using less [OF lt, of "scan_advance mode st r"]
      by (simp add: scan_loop.simps [of H mode inp] scan_step_whole [OF assms] nf ex
          frames.simps [of H "sc_expected st" inp] split: prod.splits)
  qed
qed

lemma scan_segment_frames:
  "scan_segment H content =
     (case frames H None content of
        (rs, reason) \<Rightarrow> \<lparr>so_records = rs, so_valid_len = frames_len rs, so_stop = reason\<rparr>)"
  by (simp add: scan_entry_defs scan_loop_frames scan_stop_def scan_offset_fold [where H = H]
      frames_len_encode [where H = H] split: prod.splits)

lemma scan_stats_frames:
  "scan_segment_stats_from H content first =
     (case frames H first content of
        (rs, reason) \<Rightarrow>
          \<lparr>stat_records = length rs,
           stat_last_seq = (if rs = [] then None else Some (rec_seq (last rs))),
           stat_valid_len = frames_len rs, stat_stop = reason\<rparr>)"
  by (simp add: scan_entry_defs scan_loop_frames scan_stop_def Let_def
      scan_offset_fold [where H = H] frames_len_encode [where H = H] split: prod.splits)

text \<open>Cutting a segment to its valid length keeps its records and makes its end clean.\<close>

lemma scan_segment_cut:
  "scan_segment H (take (so_valid_len (scan_segment H content)) content)
     = (scan_segment H content)\<lparr>so_stop := CleanEof\<rparr>"
proof -
  obtain rs reason where fr: "frames H None content = (rs, reason)" by fastforce
  from frames_take [OF fr] show ?thesis by (simp add: scan_segment_frames fr)
qed

end

end
