(* ===== verification/Journal_Segment.thy ===== *)
theory Journal_Segment
  imports Journal_Frames "HOL-Library.Product_Lexorder"
begin

text \<open>
  Segment files and the journal directory (\<open>src/session/journal/segment.rs\<close>).

  The journal directory of one session is a record: its files by name, each with its bytes and
  how many of them the last completed \<open>fsync\<close> covers, and the lines of \<open>manifest.log\<close>. Every
  mutating file-system call first consults a schedule of faults, so that the error paths of the
  code are values of the model: \<open>None\<close> lets the call succeed, \<open>Some n\<close> makes it fail, a write
  after \<open>n\<close> of its bytes have reached the file. An exhausted schedule lets every call succeed.
\<close>

section \<open>Segment names\<close>

definition digit_char :: "nat \<Rightarrow> char" where
  "digit_char d = char_of (48 + d)"

fun show_dec :: "nat \<Rightarrow> string" where
  "show_dec n = (if n < 10 then [digit_char n] else show_dec (n div 10) @ [digit_char (n mod 10)])"

declare show_dec.simps [simp del]

text \<open>\<open>{n:0w}\<close>: decimal, padded with zeros on the left to at least \<open>w\<close> characters.\<close>

definition pad0 :: "nat \<Rightarrow> nat \<Rightarrow> string" where
  "pad0 w n = (let s = show_dec n in replicate (w - length s) CHR ''0'' @ s)"

definition digit_value :: "char \<Rightarrow> nat option" where
  "digit_value c = (let n = of_char c :: nat in if 48 \<le> n \<and> n \<le> 57 then Some (n - 48) else None)"

definition parse_digit :: "nat option \<Rightarrow> char \<Rightarrow> nat option" where
  "parse_digit acc c =
     (case acc of None \<Rightarrow> None
      | Some a \<Rightarrow> (case digit_value c of None \<Rightarrow> None | Some d \<Rightarrow> Some (10 * a + d)))"

text \<open>\<open>str::parse::<u64>\<close>: an optional plus sign, digits, no overflow.\<close>

definition parse_u64 :: "string \<Rightarrow> nat option" where
  "parse_u64 s =
     (let ds = (case s of CHR ''+'' # r \<Rightarrow> r | _ \<Rightarrow> s)
      in if ds = [] then None
         else case foldl parse_digit (Some 0) ds of
                None \<Rightarrow> None
              | Some n \<Rightarrow> if n < 2 ^ 64 then Some n else None)"

definition SEGMENT_PREFIX :: string where
  "SEGMENT_PREFIX = ''seg-''"

definition SEGMENT_SUFFIX :: string where
  "SEGMENT_SUFFIX = ''.ojrn''"

definition segment_path :: "nat \<Rightarrow> nat \<Rightarrow> string" where
  "segment_path incarnation part =
     SEGMENT_PREFIX @ pad0 8 incarnation @ ''-'' @ pad0 4 part @ SEGMENT_SUFFIX"

definition strip_prefix :: "string \<Rightarrow> string \<Rightarrow> string option" where
  "strip_prefix p s = (if take (length p) s = p then Some (drop (length p) s) else None)"

definition strip_suffix :: "string \<Rightarrow> string \<Rightarrow> string option" where
  "strip_suffix p s =
     (if length p \<le> length s \<and> drop (length s - length p) s = p
      then Some (take (length s - length p) s) else None)"

fun split_once_char :: "char \<Rightarrow> string \<Rightarrow> (string \<times> string) option" where
  "split_once_char c [] = None"
| "split_once_char c (x # xs) =
     (if x = c then Some ([], xs) else map_option (\<lambda>(l, r). (x # l, r)) (split_once_char c xs))"

definition parse_segment_name :: "string \<Rightarrow> (nat \<times> nat) option" where
  "parse_segment_name name =
     Option.bind (strip_prefix SEGMENT_PREFIX name) (\<lambda>rest0.
     Option.bind (strip_suffix SEGMENT_SUFFIX rest0) (\<lambda>rest.
     Option.bind (split_once_char CHR ''-'' rest) (\<lambda>(incarnation, part).
     Option.bind (parse_u64 incarnation) (\<lambda>i.
     Option.bind (parse_u64 part) (\<lambda>p. Some (i, p))))))"

subsection \<open>Names round-trip\<close>

lemma digit_value_digit_char: "d < 10 \<Longrightarrow> digit_value (digit_char d) = Some d"
  by (simp add: digit_value_def digit_char_def Let_def)

lemma digit_char_plain: "d < 10 \<Longrightarrow> digit_char d \<noteq> CHR ''-'' \<and> digit_char d \<noteq> CHR ''+''"
  using digit_value_digit_char [of d]
  by (auto simp: digit_value_def Let_def)

lemma parse_digit_Some [simp]:
  "d < 10 \<Longrightarrow> parse_digit (Some a) (digit_char d) = Some (10 * a + d)"
  by (simp add: parse_digit_def digit_value_digit_char)

lemma parse_zeros: "foldl parse_digit (Some 0) (replicate k CHR ''0'') = Some 0"
  by (induction k) (simp_all add: parse_digit_def digit_value_def Let_def)

lemma parse_show_dec: "foldl parse_digit (Some 0) (show_dec n) = Some n"
proof (induction n rule: show_dec.induct)
  case (1 n)
  show ?case
  proof (cases "n < 10")
    case True
    then show ?thesis by (subst show_dec.simps) simp
  next
    case False
    with 1 show ?thesis by (subst show_dec.simps) simp
  qed
qed

lemma show_dec_chars: "c \<in> set (show_dec n) \<Longrightarrow> c \<noteq> CHR ''-'' \<and> c \<noteq> CHR ''+''"
proof (induction n rule: show_dec.induct)
  case (1 n)
  from "1.prems" digit_char_plain [of n] digit_char_plain [of "n mod 10"] "1.IH" show ?case
    by (subst (asm) show_dec.simps) (auto split: if_splits)
qed

lemma show_dec_not_Nil [simp]: "show_dec n \<noteq> []"
  by (subst show_dec.simps) simp

lemma pad0_chars: "c \<in> set (pad0 w n) \<Longrightarrow> c \<noteq> CHR ''-'' \<and> c \<noteq> CHR ''+''"
  using show_dec_chars [of c n] by (auto simp: pad0_def Let_def)

lemma pad0_not_Nil [simp]: "pad0 w n \<noteq> []"
  by (simp add: pad0_def Let_def)

lemma parse_pad0: "n < 2 ^ 64 \<Longrightarrow> parse_u64 (pad0 w n) = Some n"
proof -
  assume n: "n < 2 ^ 64"
  have "hd (pad0 w n) \<noteq> CHR ''+''"
    using pad0_chars [of "hd (pad0 w n)" w n] by simp
  then have "(case pad0 w n of CHR ''+'' # r \<Rightarrow> r | _ \<Rightarrow> pad0 w n) = pad0 w n"
    by (cases "pad0 w n") (auto split: char.splits bool.splits)
  moreover have "foldl parse_digit (Some 0) (pad0 w n) = Some n"
    by (simp add: pad0_def Let_def parse_zeros parse_show_dec)
  ultimately show ?thesis
    using n by (simp add: parse_u64_def Let_def)
qed

lemma split_once_char_append: "c \<notin> set l \<Longrightarrow> split_once_char c (l @ c # r) = Some (l, r)"
  by (induction l) auto

lemma parse_segment_path:
  assumes "i < 2 ^ 64" and "p < 2 ^ 64"
  shows "parse_segment_name (segment_path i p) = Some (i, p)"
proof -
  let ?body = "pad0 8 i @ ''-'' @ pad0 4 p"
  have "strip_prefix SEGMENT_PREFIX (segment_path i p) = Some (?body @ SEGMENT_SUFFIX)"
    by (simp add: strip_prefix_def segment_path_def SEGMENT_PREFIX_def)
  moreover have "strip_suffix SEGMENT_SUFFIX (?body @ SEGMENT_SUFFIX) = Some ?body"
    by (simp add: strip_suffix_def)
  moreover have "split_once_char CHR ''-'' ?body = Some (pad0 8 i, pad0 4 p)"
    using pad0_chars by (auto intro!: split_once_char_append)
  ultimately show ?thesis
    using assms by (simp add: parse_segment_name_def parse_pad0)
qed

lemma pad0_inject: "pad0 w m = pad0 w n \<longleftrightarrow> m = n"
proof
  have "foldl parse_digit (Some 0) (pad0 w x) = Some x" for x
    by (simp add: pad0_def Let_def parse_zeros parse_show_dec)
  then show "m = n" if "pad0 w m = pad0 w n" using that by (metis option.inject)
qed simp

text \<open>Distinct parts have distinct file names, whatever their numbers.\<close>

lemma segment_path_inject [simp]: "segment_path i p = segment_path i' p' \<longleftrightarrow> i = i' \<and> p = p'"
proof
  assume "segment_path i p = segment_path i' p'"
  then have eq: "pad0 8 i @ CHR ''-'' # pad0 4 p = pad0 8 i' @ CHR ''-'' # pad0 4 p'"
    by (simp add: segment_path_def)
  have split: "split_once_char CHR ''-'' (pad0 8 x @ CHR ''-'' # y) = Some (pad0 8 x, y)" for x y
    using pad0_chars by (intro split_once_char_append) blast
  from split [of i "pad0 4 p"] split [of i' "pad0 4 p'"]
  have "Some (pad0 8 i, pad0 4 p) = Some (pad0 8 i', pad0 4 p')"
    unfolding eq by (rule trans [OF sym])
  then show "i = i' \<and> p = p'" by (simp add: pad0_inject)
qed simp

section \<open>The journal directory\<close>

record SegmentManifestEntry =
  me_incarnation :: nat
  me_part :: nat
  me_first_seq :: nat
  me_last_seq :: nat
  me_bytes :: nat
  me_crc32 :: u32

text \<open>\<open>RetiredIncarnation\<close> has the single field \<open>retired\<close>.\<close>

datatype ManifestLine = Sealed SegmentManifestEntry | Retired nat

text \<open>
  One line of \<open>manifest.log\<close>: \<open>serde_json\<close> writes a manifest line as one text line and reads
  it back. An append that failed half-way leaves a last line without its newline: \<open>Torn\<close> when its
  text is incomplete as well, \<open>Unended\<close> when only the newline is missing. \<open>Malformed\<close> is an ended
  line that does not parse.
\<close>

datatype manifest_row = Row ManifestLine | Unended ManifestLine | Malformed | Torn

record jfile =
  jf_bytes :: bytes
  jf_synced :: nat

record disk =
  jd_files :: "(string \<times> jfile) list"
  jd_manifest :: "manifest_row list"
  jd_faults :: "nat option list"

type_synonym 'a io = "disk \<Rightarrow> 'a result \<times> disk"

definition io_return :: "'a \<Rightarrow> 'a io" where
  "io_return a d = (Inr a, d)"

definition io_bind :: "'a io \<Rightarrow> ('a \<Rightarrow> 'b io) \<Rightarrow> 'b io" where
  "io_bind m f d = (case m d of (Inl e, d') \<Rightarrow> (Inl e, d') | (Inr a, d') \<Rightarrow> f a d')"

definition io_lift :: "(disk \<Rightarrow> 'a result) \<Rightarrow> 'a io" where
  "io_lift f d = (f d, d)"

definition next_fault :: "disk \<Rightarrow> nat option \<times> disk" where
  "next_fault d =
     (case jd_faults d of [] \<Rightarrow> (None, d) | x # xs \<Rightarrow> (x, d\<lparr>jd_faults := xs\<rparr>))"

definition update_file :: "string \<Rightarrow> (jfile \<Rightarrow> jfile) \<Rightarrow> disk \<Rightarrow> disk" where
  "update_file name f d =
     d\<lparr>jd_files := map (\<lambda>(n, x). if n = name then (n, f x) else (n, x)) (jd_files d)\<rparr>"

definition fs_read :: "disk \<Rightarrow> string \<Rightarrow> bytes result" where
  "fs_read d name =
     (case map_of (jd_files d) name of None \<Rightarrow> Inl NotFound | Some x \<Rightarrow> Inr (jf_bytes x))"

definition fs_create_new :: "string \<Rightarrow> unit io" where
  "fs_create_new name d =
     (case next_fault d of
        (Some _, d1) \<Rightarrow> (Inl OtherIo, d1)
      | (None, d1) \<Rightarrow>
          if map_of (jd_files d1) name \<noteq> None then (Inl AlreadyExists, d1)
          else (Inr (), d1\<lparr>jd_files := jd_files d1 @ [(name, \<lparr>jf_bytes = [], jf_synced = 0\<rparr>)]\<rparr>))"

definition fs_write_all :: "string \<Rightarrow> bytes \<Rightarrow> unit io" where
  "fs_write_all name bs d =
     (case next_fault d of
        (Some n, d1) \<Rightarrow>
          (Inl OtherIo, update_file name (\<lambda>x. x\<lparr>jf_bytes := jf_bytes x @ take n bs\<rparr>) d1)
      | (None, d1) \<Rightarrow> (Inr (), update_file name (\<lambda>x. x\<lparr>jf_bytes := jf_bytes x @ bs\<rparr>) d1))"

definition fs_sync :: "string \<Rightarrow> unit io" where
  "fs_sync name d =
     (case next_fault d of
        (Some _, d1) \<Rightarrow> (Inl OtherIo, d1)
      | (None, d1) \<Rightarrow> (Inr (), update_file name (\<lambda>x. x\<lparr>jf_synced := length (jf_bytes x)\<rparr>) d1))"

definition fs_set_len :: "string \<Rightarrow> nat \<Rightarrow> unit io" where
  "fs_set_len name n d =
     (case next_fault d of
        (Some _, d1) \<Rightarrow> (Inl OtherIo, d1)
      | (None, d1) \<Rightarrow>
          if map_of (jd_files d1) name = None then (Inl NotFound, d1)
          else (Inr (), update_file name
                  (\<lambda>x. x\<lparr>jf_bytes := take n (jf_bytes x) @ replicate (n - length (jf_bytes x)) 0,
                         jf_synced := min n (jf_synced x)\<rparr>) d1))"

definition fs_remove_file :: "string \<Rightarrow> unit io" where
  "fs_remove_file name d =
     (case next_fault d of
        (Some _, d1) \<Rightarrow> (Inl OtherIo, d1)
      | (None, d1) \<Rightarrow>
          if map_of (jd_files d1) name = None then (Inl NotFound, d1)
          else (Inr (), d1\<lparr>jd_files := filter (\<lambda>(n, x). n \<noteq> name) (jd_files d1)\<rparr>))"

text \<open>\<open>sync_dir\<close> (\<open>open.rs\<close>): makes directory entries durable; only its failure is visible.\<close>

definition sync_dir :: "unit io" where
  "sync_dir d = (case next_fault d of (Some _, d1) \<Rightarrow> (Inl OtherIo, d1) | (None, d1) \<Rightarrow> (Inr (), d1))"

section \<open>Segment writer\<close>

record SegmentWriter =
  sw_file :: string
  sw_written :: nat

definition SegmentWriter_create :: "string \<Rightarrow> SegmentWriter io" where
  "SegmentWriter_create path =
     io_bind (fs_create_new path) (\<lambda>_. io_return \<lparr>sw_file = path, sw_written = 0\<rparr>)"

definition write_encoded :: "SegmentWriter \<Rightarrow> bytes \<Rightarrow> bytes \<Rightarrow> SegmentWriter io" where
  "write_encoded w header payload =
     io_bind (fs_write_all (sw_file w) header) (\<lambda>_.
     io_bind (fs_write_all (sw_file w) payload) (\<lambda>_.
     io_return (w\<lparr>sw_written := sw_written w + (HEADER_LEN + length payload)\<rparr>)))"

definition SegmentWriter_sync :: "SegmentWriter \<Rightarrow> unit io" where
  "SegmentWriter_sync w = fs_sync (sw_file w)"

section \<open>Listing the directory\<close>

definition list_segments :: "disk \<Rightarrow> (nat \<times> nat) list" where
  "list_segments d = sort (List.map_filter parse_segment_name (map fst (jd_files d)))"

definition list_incarnations :: "disk \<Rightarrow> nat list" where
  "list_incarnations d = remdups_adj (map fst (list_segments d))"

definition part_first_seq :: "bytes \<Rightarrow> nat option result" where
  "part_first_seq content =
     (case read_exact_or_partial content HEADER_LEN of
        Empty \<Rightarrow> Inr None
      | Partial \<Rightarrow> Inl InvalidData
      | Complete header _ \<Rightarrow>
          if slice 0 4 header \<noteq> RECORD_MAGIC then Inl InvalidData
          else Inr (Some (from_le (slice 12 20 header))))"

section \<open>Effects of the file-system calls\<close>

abbreviation file_at :: "disk \<Rightarrow> string \<Rightarrow> jfile option" where
  "file_at d name \<equiv> map_of (jd_files d) name"

text \<open>The contents of a part, empty when there is no such file.\<close>

definition part_bytes :: "disk \<Rightarrow> nat \<Rightarrow> nat \<Rightarrow> bytes" where
  "part_bytes d i k = (case file_at d (segment_path i k) of None \<Rightarrow> [] | Some x \<Rightarrow> jf_bytes x)"

lemma part_bytes_read: "fs_read d (segment_path i p) = Inr bs \<Longrightarrow> part_bytes d i p = bs"
  by (simp add: fs_read_def part_bytes_def split: option.splits)

lemma next_fault_frame:
  "next_fault d = (f, d') \<Longrightarrow> jd_files d' = jd_files d \<and> jd_manifest d' = jd_manifest d"
  by (auto simp: next_fault_def split: list.splits)

lemma next_fault_none: "jd_faults d = [] \<Longrightarrow> next_fault d = (None, d)"
  by (simp add: next_fault_def)

lemma file_at_update [simp]:
  "file_at (update_file n f d) m = (if m = n then map_option f (file_at d n) else file_at d m)"
proof -
  have "map_of (map (\<lambda>(k, x). if k = n then (k, f x) else (k, x)) xs) m
      = (if m = n then map_option f (map_of xs n) else map_of xs m)" for xs
    by (induction xs) auto
  then show ?thesis by (simp add: update_file_def)
qed

lemma update_file_manifest [simp]:
  "jd_manifest (update_file n f d) = jd_manifest d"
  "jd_faults (update_file n f d) = jd_faults d"
  by (simp_all add: update_file_def)

lemma io_bind_eq:
  "io_bind m f d = (r, d') \<longleftrightarrow>
     (\<exists>a d1. m d = (Inr a, d1) \<and> f a d1 = (r, d')) \<or> (\<exists>e. m d = (Inl e, d') \<and> r = Inl e)"
  by (auto simp: io_bind_def split: prod.splits sum.splits)

lemma io_return_eq [simp]: "io_return a d = (r, d') \<longleftrightarrow> r = Inr a \<and> d' = d"
  by (auto simp: io_return_def)

text \<open>Each call, split into its successful and its failing outcome.\<close>

lemma fs_write_all_cases:
  assumes "fs_write_all name bs d = (r, d')"
  obtains (ok) "r = Inr ()" "jd_manifest d' = jd_manifest d"
      "\<And>m. file_at d' m = (if m = name
          then map_option (\<lambda>x. x\<lparr>jf_bytes := jf_bytes x @ bs\<rparr>) (file_at d m) else file_at d m)"
  | (err) n e where "r = Inl e" "jd_manifest d' = jd_manifest d"
      "\<And>m. file_at d' m = (if m = name
          then map_option (\<lambda>x. x\<lparr>jf_bytes := jf_bytes x @ take n bs\<rparr>) (file_at d m)
          else file_at d m)"
proof -
  obtain f d1 where nf: "next_fault d = (f, d1)" by fastforce
  note frame = next_fault_frame [OF nf]
  show ?thesis
  proof (cases f)
    case None
    with nf assms frame show ?thesis by (auto simp: fs_write_all_def intro!: ok)
  next
    case (Some n)
    with nf assms frame show ?thesis
      by (auto simp: fs_write_all_def intro!: err [of OtherIo n])
  qed
qed

lemma fs_sync_cases:
  assumes "fs_sync name d = (r, d')"
  obtains (ok) "r = Inr ()" "jd_manifest d' = jd_manifest d"
      "\<And>m. file_at d' m = (if m = name
          then map_option (\<lambda>x. x\<lparr>jf_synced := length (jf_bytes x)\<rparr>) (file_at d m)
          else file_at d m)"
  | (err) e where "r = Inl e" "jd_manifest d' = jd_manifest d" "jd_files d' = jd_files d"
proof -
  obtain f d1 where nf: "next_fault d = (f, d1)" by fastforce
  note frame = next_fault_frame [OF nf]
  show ?thesis
  proof (cases f)
    case None
    with nf assms frame show ?thesis by (auto simp: fs_sync_def intro!: ok)
  next
    case (Some n)
    with nf assms frame show ?thesis by (auto simp: fs_sync_def intro!: err)
  qed
qed

lemma fs_create_new_cases:
  assumes "fs_create_new name d = (r, d')"
  obtains (ok) "r = Inr ()" "jd_manifest d' = jd_manifest d" "file_at d name = None"
      "\<And>m. file_at d' m = (if m = name then Some \<lparr>jf_bytes = [], jf_synced = 0\<rparr> else file_at d m)"
  | (err) e where "r = Inl e" "jd_manifest d' = jd_manifest d" "jd_files d' = jd_files d"
proof -
  obtain f d1 where nf: "next_fault d = (f, d1)" by fastforce
  note frame = next_fault_frame [OF nf]
  show ?thesis
  proof (cases "f = None \<and> file_at d1 name = None")
    case True
    with nf assms frame show ?thesis
      by (auto simp: fs_create_new_def map_add_def split: option.splits intro!: ok)
  next
    case False
    with nf assms frame show ?thesis
      by (auto simp: fs_create_new_def split: option.splits if_splits intro!: err)
  qed
qed

lemma sync_dir_frame:
  "sync_dir d = (r, d') \<Longrightarrow> jd_files d' = jd_files d \<and> jd_manifest d' = jd_manifest d"
  by (auto simp: sync_dir_def dest: next_fault_frame split: prod.splits option.splits)

subsection \<open>The listing\<close>

lemma parse_u64_less: "parse_u64 s = Some n \<Longrightarrow> n < 2 ^ 64"
  by (auto simp: parse_u64_def Let_def split: if_splits option.splits)

lemma parse_segment_less:
  "parse_segment_name name = Some (i, p) \<Longrightarrow> i < 2 ^ 64 \<and> p < 2 ^ 64"
  by (auto simp: parse_segment_name_def bind_eq_Some_conv dest!: parse_u64_less)

lemma in_list_segments:
  "ip \<in> set (list_segments d) \<longleftrightarrow>
     (\<exists>name. file_at d name \<noteq> None \<and> parse_segment_name name = Some ip)"
  by (auto simp: list_segments_def List.map_filter_def map_of_eq_None_iff image_iff)

lemma list_segments_sorted: "sorted (list_segments d)"
  by (simp add: list_segments_def)

lemma list_segments_files: "jd_files d' = jd_files d \<Longrightarrow> list_segments d' = list_segments d"
  by (simp add: list_segments_def)

text \<open>Segment file names round-trip: the name \<open>segment_path\<close> builds for an incarnation
  and part parses back to that pair, for every 64-bit value of either, so a directory listing
  loses no part and confuses no two.\<close>

theorem segment_name_round_trip:
  assumes "i < 2 ^ 64" and "p < 2 ^ 64"
  shows "parse_segment_name (segment_path i p) = Some (i, p)"
  using assms by (rule parse_segment_path)

theorem segment_name_round_trip_witness:
  "parse_segment_name (segment_path 18446744073709551615 0) = Some (18446744073709551615, 0)"
  by (rule segment_name_round_trip) simp_all

end
