(* ===== verification/Journal_Sequencer.thy ===== *)
theory Journal_Sequencer
  imports Journal_Record
begin

text \<open>
  The in-memory sequencing authority of a session (\<open>SequencerCore\<close> of
  \<open>src/session/journal/appender.rs\<close>): it assigns sequence numbers before publication, keeps
  recent events in a byte-bounded cache until the journal can serve them, and tracks how far
  the journal has got. The monotonic clock is an argument of \<open>publish\<close>.
\<close>

section \<open>State and operations\<close>

record JournalCursor =
  jc_incarnation :: nat
  jc_seq :: nat

record OrderedEvent =
  ev_cursor :: JournalCursor
  ev_elapsed_ms :: nat
  ev_kind :: RecordKind
  ev_payload :: bytes

abbreviation ev_seq :: "OrderedEvent \<Rightarrow> nat" where
  "ev_seq e \<equiv> jc_seq (ev_cursor e)"

record SequencerCore =
  core_incarnation :: nat
  next_seq :: nat
  journal_seq :: nat
  durable_seq :: nat
  degraded :: "string option"
  cache :: "OrderedEvent list"
  cache_bytes :: nat
  cache_budget_bytes :: nat

definition DEFAULT_CACHE_BUDGET_BYTES :: nat where
  "DEFAULT_CACHE_BUDGET_BYTES = 8 * 1024 * 1024"

definition SequencerCore_with_budget :: "nat \<Rightarrow> nat \<Rightarrow> SequencerCore" where
  "SequencerCore_with_budget incarnation budget =
     \<lparr>core_incarnation = incarnation, next_seq = 1, journal_seq = 0, durable_seq = 0,
      degraded = None, cache = [], cache_bytes = 0, cache_budget_bytes = budget\<rparr>"

definition SequencerCore_new :: "nat \<Rightarrow> SequencerCore" where
  "SequencerCore_new incarnation = SequencerCore_with_budget incarnation DEFAULT_CACHE_BUDGET_BYTES"

fun evict_front :: "nat \<Rightarrow> OrderedEvent list \<Rightarrow> nat \<Rightarrow> OrderedEvent list \<times> nat" where
  "evict_front journaled [] bytes = ([], bytes)"
| "evict_front journaled (front # rest) bytes =
     (if journaled < ev_seq front then (front # rest, bytes)
      else evict_front journaled rest (bytes - length (ev_payload front)))"

definition evict_journaled :: "SequencerCore \<Rightarrow> SequencerCore" where
  "evict_journaled c =
     (let (kept, bytes) = evict_front (journal_seq c) (cache c) (cache_bytes c)
      in c\<lparr>cache := kept, cache_bytes := bytes\<rparr>)"

definition publish ::
  "SequencerCore \<Rightarrow> nat \<Rightarrow> RecordKind \<Rightarrow> bytes \<Rightarrow> OrderedEvent \<times> SequencerCore" where
  "publish c elapsed_ms kind payload =
     (let event = \<lparr>ev_cursor = \<lparr>jc_incarnation = core_incarnation c, jc_seq = next_seq c\<rparr>,
                   ev_elapsed_ms = elapsed_ms, ev_kind = kind, ev_payload = payload\<rparr>;
          c1 = c\<lparr>next_seq := next_seq c + 1, cache_bytes := cache_bytes c + length payload\<rparr>;
          c2 = (if cache_budget_bytes c1 < cache_bytes c1 then evict_journaled c1 else c1)
      in (event, c2\<lparr>cache := cache c2 @ [event]\<rparr>))"

definition over_budget :: "SequencerCore \<Rightarrow> bool" where
  "over_budget c \<longleftrightarrow> cache_budget_bytes c < cache_bytes c"

definition note_journaled :: "SequencerCore \<Rightarrow> nat \<Rightarrow> SequencerCore" where
  "note_journaled c seq = c\<lparr>journal_seq := max (journal_seq c) seq\<rparr>"

definition note_durable :: "SequencerCore \<Rightarrow> nat \<Rightarrow> SequencerCore" where
  "note_durable c seq = c\<lparr>durable_seq := max (durable_seq c) seq\<rparr>"

definition degrade :: "SequencerCore \<Rightarrow> string \<Rightarrow> SequencerCore" where
  "degrade c reason = (if degraded c = None then c\<lparr>degraded := Some reason\<rparr> else c)"

definition is_degraded :: "SequencerCore \<Rightarrow> bool" where
  "is_degraded c \<longleftrightarrow> degraded c \<noteq> None"

definition is_fully_durable :: "SequencerCore \<Rightarrow> bool" where
  "is_fully_durable c \<longleftrightarrow> \<not> is_degraded c \<and> next_seq c - 1 \<le> durable_seq c"

definition head_seq :: "SequencerCore \<Rightarrow> nat option" where
  "head_seq c = (if 1 < next_seq c then Some (next_seq c - 1) else None)"

section \<open>Invariant\<close>

definition payload_bytes :: "OrderedEvent list \<Rightarrow> nat" where
  "payload_bytes es = sum_list (map (\<lambda>e. length (ev_payload e)) es)"

text \<open>
  The cache is the contiguous run of events that ends at the newest one; its byte counter is
  exact; and every event the journal has not confirmed is still in it.
\<close>

definition core_inv :: "SequencerCore \<Rightarrow> bool" where
  "core_inv c \<longleftrightarrow>
     length (cache c) < next_seq c
     \<and> seq_run (next_seq c - length (cache c)) (map ev_seq (cache c))
     \<and> cache_bytes c = payload_bytes (cache c)
     \<and> (\<forall>e \<in> set (cache c). jc_incarnation (ev_cursor e) = core_incarnation c)
     \<and> next_seq c \<le> Suc (journal_seq c) + length (cache c)"

lemma payload_bytes_simps [simp]:
  "payload_bytes [] = 0"
  "payload_bytes (e # es) = length (ev_payload e) + payload_bytes es"
  "payload_bytes (es @ es') = payload_bytes es + payload_bytes es'"
  by (simp_all add: payload_bytes_def)

lemma evict_front_eq:
  "evict_front j es (payload_bytes es + n)
     = (dropWhile (\<lambda>e. ev_seq e \<le> j) es,
        payload_bytes (dropWhile (\<lambda>e. ev_seq e \<le> j) es) + n)"
  by (induction es) (auto simp: add.assoc)

lemma dropWhile_seq_run:
  assumes "seq_run s (map ev_seq es)"
  shows "dropWhile (\<lambda>e. ev_seq e \<le> j) es = drop (Suc j - s) es"
  using assms
proof (induction es arbitrary: s)
  case Nil
  then show ?case by simp
next
  case (Cons e es)
  then have "ev_seq e = s" and IH: "dropWhile (\<lambda>e. ev_seq e \<le> j) es = drop (Suc j - Suc s) es"
    by auto
  then show ?case
    by (cases "s \<le> j") (simp_all add: Suc_diff_le)
qed

lemma seq_run_drop: "seq_run s xs \<Longrightarrow> seq_run (s + min n (length xs)) (drop n xs)"
proof (induction xs arbitrary: s n)
  case Nil
  then show ?case by simp
next
  case (Cons x xs)
  then show ?case using Cons.IH [of "Suc s"] by (cases n) auto
qed

text \<open>Evicting before the new event is pushed drops exactly the confirmed prefix.\<close>

lemma publish_cache:
  assumes "core_inv c" and "publish c el k p = (e, c')"
  shows "cache c' = (if cache_budget_bytes c < cache_bytes c + length p
                     then drop (Suc (journal_seq c) - (next_seq c - length (cache c))) (cache c)
                     else cache c) @ [e]
       \<and> cache_bytes c' = payload_bytes (cache c')
       \<and> ev_seq e = next_seq c \<and> next_seq c' = Suc (next_seq c)
       \<and> jc_incarnation (ev_cursor e) = core_incarnation c
       \<and> journal_seq c' = journal_seq c \<and> durable_seq c' = durable_seq c
       \<and> core_incarnation c' = core_incarnation c \<and> degraded c' = degraded c
       \<and> ev_payload e = p \<and> ev_kind e = k \<and> ev_elapsed_ms e = el"
proof -
  have run: "seq_run (next_seq c - length (cache c)) (map ev_seq (cache c))"
    and bytes: "cache_bytes c = payload_bytes (cache c)"
    using assms(1) by (simp_all add: core_inv_def)
  show ?thesis
    using assms(2) bytes
    by (auto simp: publish_def Let_def evict_journaled_def evict_front_eq
        dropWhile_seq_run [OF run])
qed

lemma publish_inv:
  assumes inv: "core_inv c" and pub: "publish c el k p = (e, c')"
  shows "core_inv c'"
proof -
  let ?s = "next_seq c - length (cache c)"
  note eqs = publish_cache [OF inv pub]
  define kept where "kept = (if cache_budget_bytes c < cache_bytes c + length p
                     then drop (Suc (journal_seq c) - ?s) (cache c) else cache c)"
  have lt: "length (cache c) < next_seq c" and run: "seq_run ?s (map ev_seq (cache c))"
    and keep: "next_seq c \<le> Suc (journal_seq c) + length (cache c)"
    using inv by (simp_all add: core_inv_def)
  have len: "length kept \<le> length (cache c)" by (simp add: kept_def)
  have "seq_run (next_seq c - length kept) (map ev_seq kept)"
  proof (cases "cache_budget_bytes c < cache_bytes c + length p")
    case True
    let ?n = "Suc (journal_seq c) - ?s"
    have "seq_run (?s + min ?n (length (cache c))) (drop ?n (map ev_seq (cache c)))"
      using seq_run_drop [OF run, of ?n] by simp
    moreover have "?s + min ?n (length (cache c)) = next_seq c - length kept"
      using True lt by (simp add: kept_def min_def)
    ultimately show ?thesis using True by (simp add: kept_def drop_map)
  next
    case False
    then show ?thesis using run by (simp add: kept_def)
  qed
  moreover have "next_seq c \<le> Suc (journal_seq c) + length kept"
    using keep lt by (auto simp: kept_def)
  moreover have "set kept \<subseteq> set (cache c)" by (auto simp: kept_def dest: in_set_dropD)
  moreover have "cache c' = kept @ [e]" using eqs by (simp add: kept_def)
  ultimately show ?thesis
    using eqs len lt inv unfolding core_inv_def by (auto simp: Suc_diff_le)
qed

lemma core_inv_new: "core_inv (SequencerCore_with_budget i b)"
  by (simp add: core_inv_def SequencerCore_with_budget_def)

lemma note_journaled_inv: "core_inv c \<Longrightarrow> core_inv (note_journaled c s)"
  by (auto simp: core_inv_def note_journaled_def)

lemma note_durable_inv: "core_inv c \<Longrightarrow> core_inv (note_durable c s)"
  by (simp add: core_inv_def note_durable_def)

lemma degrade_inv: "core_inv c \<Longrightarrow> core_inv (degrade c r)"
  by (simp add: core_inv_def degrade_def)

text \<open>Every published event the journal has not confirmed can be served from the cache.\<close>

lemma unjournaled_cached:
  assumes "core_inv c" and "journal_seq c < s" and "s < next_seq c"
  shows "\<exists>e \<in> set (cache c). ev_seq e = s"
proof -
  have "set (map ev_seq (cache c))
      = {next_seq c - length (cache c)..<next_seq c - length (cache c) + length (cache c)}"
    using assms(1) seq_run_set by (fastforce simp: core_inv_def)
  moreover have "s \<in> {next_seq c - length (cache c)..<next_seq c}"
    using assms by (auto simp: core_inv_def)
  moreover have "next_seq c - length (cache c) + length (cache c) = next_seq c"
    using assms(1) by (simp add: core_inv_def)
  ultimately have "s \<in> set (map ev_seq (cache c))" by metis
  then show ?thesis by auto
qed

text \<open>Publishing an event: it takes the next sequence of the incarnation, the cache stays
  the contiguous, exactly counted run of the newest events, nothing the journal has not
  confirmed is evicted, and eviction happens only when the budget would be exceeded.\<close>

theorem publish_keeps_unconfirmed:
  assumes "core_inv c" and "publish c el k p = (e, c')"
  shows "core_inv c' \<and> ev_seq e = next_seq c \<and> next_seq c' = Suc (next_seq c)
     \<and> (\<forall>s. journal_seq c < s \<and> s < next_seq c' \<longrightarrow> (\<exists>x \<in> set (cache c'). ev_seq x = s))
     \<and> (cache_bytes c + length p \<le> cache_budget_bytes c \<longrightarrow> cache c' = cache c @ [e])"
  using publish_inv [OF assms] publish_cache [OF assms]
    unjournaled_cached [OF publish_inv [OF assms]]
  by auto

theorem publish_keeps_unconfirmed_witness:
  "let c = snd (publish (SequencerCore_with_budget 3 4) 0 Output [1, 2, 3]);
       c' = snd (publish (note_journaled c 1) 9 Output [4, 5]) in
     core_inv c' \<and> map ev_seq (cache c') = [2]"
proof -
  let ?c = "snd (publish (SequencerCore_with_budget 3 4) 0 Output [1, 2, 3])"
  have inv: "core_inv (note_journaled ?c 1)"
    by (rule note_journaled_inv, rule publish_inv [OF core_inv_new], rule prod.collapse [symmetric])
  show ?thesis
    using publish_keeps_unconfirmed [OF inv, of 9 Output "[4, 5]"]
    by (auto simp: publish_def SequencerCore_with_budget_def note_journaled_def Let_def
        evict_journaled_def)
qed

end
