(* ===== verification/Journal_Stream.thy ===== *)
theory Journal_Stream
  imports Journal_Segment Journal_Sequencer
begin

text \<open>
  Reading an incarnation back (\<open>src/session/journal/stream.rs\<close>): the list of its parts, and the
  streaming reader that pulls bounded batches of records, resumes after a checkpoint anchor and
  follows a live tail.
\<close>

section \<open>Parts of an incarnation\<close>

definition incarnation_parts :: "disk \<Rightarrow> nat \<Rightarrow> (nat \<times> string) list result" where
  "incarnation_parts d incarnation =
     (let parts = map (\<lambda>(inc, part). (part, segment_path inc part))
                    (filter (\<lambda>ip. fst ip = incarnation) (list_segments d))
      in if parts = [] then Inl NotFound
         else if list_ex (\<lambda>(index, part, _). part \<noteq> index + 1) (zip [0..<length parts] parts)
         then Inl InvalidData
         else Inr parts)"

section \<open>The streaming reader\<close>

record CheckpointAnchor =
  ca_filtered_offset :: nat
  ca_cursor :: JournalCursor
  ca_part :: nat
  ca_record_end_offset :: nat

record SegmentStream =
  ss_parts :: "(nat \<times> string) list"
  ss_part_index :: nat
  ss_byte_offset :: nat
  ss_next_seq :: nat
  ss_done :: bool

definition SegmentStream_open :: "disk \<Rightarrow> nat \<Rightarrow> SegmentStream result" where
  "SegmentStream_open d incarnation =
     bind_result (incarnation_parts d incarnation) (\<lambda>parts.
     Inr \<lparr>ss_parts = parts, ss_part_index = 0, ss_byte_offset = 0, ss_next_seq = 1,
          ss_done = False\<rparr>)"

fun position :: "('a \<Rightarrow> bool) \<Rightarrow> 'a list \<Rightarrow> nat option" where
  "position p [] = None"
| "position p (x # xs) = (if p x then Some 0 else map_option Suc (position p xs))"

definition SegmentStream_open_at :: "disk \<Rightarrow> nat \<Rightarrow> CheckpointAnchor \<Rightarrow> SegmentStream result" where
  "SegmentStream_open_at d incarnation anchor =
     bind_result (incarnation_parts d incarnation) (\<lambda>parts.
     case position (\<lambda>(part, _). part = ca_part anchor) parts of
       None \<Rightarrow> Inl InvalidData
     | Some part_index \<Rightarrow>
         Inr \<lparr>ss_parts = parts, ss_part_index = part_index,
              ss_byte_offset = ca_record_end_offset anchor,
              ss_next_seq = u64_add (jc_seq (ca_cursor anchor)) 1, ss_done = False\<rparr>)"

definition SegmentStream_refresh :: "disk \<Rightarrow> nat \<Rightarrow> SegmentStream \<Rightarrow> unit result \<times> SegmentStream" where
  "SegmentStream_refresh d incarnation s =
     (case incarnation_parts d incarnation of
        Inl err \<Rightarrow> (Inl err, s)
      | Inr parts \<Rightarrow> (Inr (), s\<lparr>ss_parts := parts, ss_done := False\<rparr>))"

text \<open>The scan one turn of \<open>next_batch\<close> makes.\<close>

definition batch_scan :: "'h hasher \<Rightarrow> nat \<Rightarrow> SegmentStream \<Rightarrow> bytes \<Rightarrow> ScanResult" where
  "batch_scan H max_bytes s content =
     scan_impl H content
       (ScanWindow \<lparr>from_seq = ss_next_seq s, to_seq = u64_max, max_buffered_bytes = max_bytes\<rparr>)
       (if ss_byte_offset s = 0 then Some (ss_next_seq s) else None)
       (if 0 < ss_byte_offset s
        then Some \<lparr>start_offset = ss_byte_offset s, start_seq = ss_next_seq s\<rparr> else None)"

text \<open>Where the reader stands after a scan that did not end in corruption.\<close>

definition batch_advance :: "ScanResult \<Rightarrow> SegmentStream \<Rightarrow> SegmentStream" where
  "batch_advance result s =
     (let records = so_records (sr_outcome result);
          s1 = s\<lparr>ss_next_seq := (if records = [] then ss_next_seq s
                                 else u64_add (rec_seq (last records)) 1),
                 ss_byte_offset := so_valid_len (sr_outcome result)\<rparr>
      in if so_stop (sr_outcome result) = CleanEof \<and> sr_truncated result then s1
         else if ss_part_index s + 1 < length (ss_parts s) \<and> so_stop (sr_outcome result) = CleanEof
         then s1\<lparr>ss_part_index := ss_part_index s + 1, ss_byte_offset := 0\<rparr>
         else s1\<lparr>ss_done := True\<rparr>)"

definition batch_corrupt :: "ScanResult \<Rightarrow> SegmentStream \<Rightarrow> SegmentStream" where
  "batch_corrupt result s =
     (let records = so_records (sr_outcome result)
      in s\<lparr>ss_next_seq := (if records = [] then ss_next_seq s
                           else u64_add (rec_seq (last records)) 1), ss_done := True\<rparr>)"

text \<open>A scan is cut by its budget only after it has kept a record.\<close>

lemma scan_step_truncated:
  "scan_step H mode inp st = Inl res \<Longrightarrow> sr_truncated res \<Longrightarrow> so_records (sr_outcome res) \<noteq> []"
  by (auto simp: scan_step_def scan_body_def scan_collect_def Let_def window_over_budget_def
      scan_stop_def split: ReadPiece.splits if_splits option.splits sum.splits ScanMode.splits)

lemma scan_loop_truncated:
  "sr_truncated (scan_loop H mode inp st) \<Longrightarrow> so_records (sr_outcome (scan_loop H mode inp st)) \<noteq> []"
proof (induction H mode inp st rule: scan_loop.induct)
  case (1 H mode inp st)
  show ?case
  proof (cases "scan_step H mode inp st")
    case (Inl res)
    with "1.prems" scan_step_truncated [OF Inl] show ?thesis
      by (simp add: scan_loop.simps [of H mode inp st])
  next
    case (Inr p)
    obtain st' inp' where "p = (st', inp')" by (cases p)
    with Inr "1.IH" [OF Inr] "1.prems" show ?thesis
      by (simp add: scan_loop.simps [of H mode inp st])
  qed
qed

function next_batch ::
  "'h hasher \<Rightarrow> disk \<Rightarrow> nat \<Rightarrow> SegmentStream \<Rightarrow> Record list result \<times> SegmentStream" where
  "next_batch H d max_bytes s =
     (if ss_done s then (Inr [], s)
      else if length (ss_parts s) \<le> ss_part_index s then (Inr [], s\<lparr>ss_done := True\<rparr>)
      else
        case fs_read d (snd (ss_parts s ! ss_part_index s)) of
          Inl err \<Rightarrow> (Inl err, s)
        | Inr content \<Rightarrow>
            let result = batch_scan H max_bytes s content;
                records = so_records (sr_outcome result)
            in if so_stop (sr_outcome result) \<noteq> CleanEof \<and> so_stop (sr_outcome result) \<noteq> PartialTail
               then (Inl InvalidData, batch_corrupt result s)
               else if records \<noteq> [] then (Inr records, batch_advance result s)
               else next_batch H d max_bytes (batch_advance result s))"
  by pat_completeness auto
termination
proof (relation "measure (\<lambda>(H, d, m, s). if ss_done s then 0
    else Suc (length (ss_parts s) - ss_part_index s))", goal_cases)
  case 1
  then show ?case by simp
next
  case (2 H d m s content result records)
  have "\<not> sr_truncated result"
    using 2 scan_loop_truncated unfolding batch_scan_def scan_impl_def by metis
  with 2 show ?case by (auto simp: batch_advance_def Let_def)
qed

declare next_batch.simps [simp del]

section \<open>A batch is bounded\<close>

definition records_bytes :: "Record list \<Rightarrow> nat" where
  "records_bytes rs = sum_list (map (\<lambda>r. length (rec_payload r)) rs)"

lemma records_bytes_simps [simp]:
  "records_bytes [] = 0" "records_bytes [r] = length (rec_payload r)"
  "records_bytes (rs @ [r]) = records_bytes rs + length (rec_payload r)"
  by (simp_all add: records_bytes_def)

definition batch_ok :: "nat \<Rightarrow> Record list \<Rightarrow> bool" where
  "batch_ok max_bytes rs \<longleftrightarrow> length rs \<le> 1 \<or> records_bytes rs \<le> max_bytes"

definition window_inv :: "nat \<Rightarrow> scan_state \<Rightarrow> bool" where
  "window_inv m st \<longleftrightarrow> sc_buffered st = records_bytes (sc_records st) \<and> batch_ok m (sc_records st)"

lemma scan_body_window:
  assumes "window_inv (max_buffered_bytes w) st"
    and "scan_body H (ScanWindow w) h k inp st = Inr (st', inp')"
  shows "window_inv (max_buffered_bytes w) st'"
  using assms
  by (auto simp: scan_body_def scan_collect_def Let_def window_inv_def batch_ok_def Suc_le_eq
      split: sum.splits prod.splits if_splits option.splits)

lemma scan_step_window:
  assumes "window_inv (max_buffered_bytes w) st"
    and "scan_step H (ScanWindow w) inp st = Inr (st', inp')"
  shows "window_inv (max_buffered_bytes w) st'"
  using assms(2) scan_body_window [OF assms(1)]
  by (auto simp: scan_step_def split: ReadPiece.splits if_splits option.splits)

lemma scan_step_window_stop:
  assumes "batch_ok m (sc_records st)" and "scan_step H mode inp st = Inl res"
  shows "batch_ok m (so_records (sr_outcome res))"
proof -
  have "so_records (sr_outcome res) = sc_records st"
    using assms(2)
    by (auto simp: scan_step_def scan_body_def scan_collect_def Let_def scan_stop_def
        split: ReadPiece.splits if_splits option.splits sum.splits prod.splits ScanMode.splits)
  with assms(1) show ?thesis by simp
qed

lemma scan_loop_window:
  "window_inv (max_buffered_bytes w) st \<Longrightarrow>
     batch_ok (max_buffered_bytes w) (so_records (sr_outcome (scan_loop H (ScanWindow w) inp st)))"
proof (induction "length inp" arbitrary: inp st rule: less_induct)
  case less
  show ?case
  proof (cases "scan_step H (ScanWindow w) inp st")
    case (Inl res)
    have "batch_ok (max_buffered_bytes w) (sc_records st)"
      using less.prems by (simp add: window_inv_def)
    from scan_step_window_stop [OF this Inl] Inl show ?thesis
      by (simp add: scan_loop.simps [of H _ inp])
  next
    case (Inr p)
    obtain st' inp' where p: "p = (st', inp')" by (cases p)
    with Inr have step: "scan_step H (ScanWindow w) inp st = Inr (st', inp')" by simp
    then have "length inp' < length inp" by (auto simp: HEADER_LEN_36 dest!: scan_step_rest)
    from less.hyps [OF this scan_step_window [OF less.prems step]] step show ?thesis
      by (simp add: scan_loop.simps [of H _ inp])
  qed
qed

lemma batch_scan_loop:
  "batch_scan H m s content =
     scan_loop H (ScanWindow \<lparr>from_seq = ss_next_seq s, to_seq = u64_max, max_buffered_bytes = m\<rparr>)
       (drop (ss_byte_offset s) content)
       \<lparr>sc_records = [], sc_index = [], sc_buffered = 0, sc_offset = ss_byte_offset s,
        sc_expected = Some (ss_next_seq s), sc_count = 0, sc_last = None\<rparr>"
  by (simp add: batch_scan_def scan_impl_def scan_init_def)

lemma batch_scan_ok: "batch_ok m (so_records (sr_outcome (batch_scan H m s content)))"
proof -
  let ?w = "\<lparr>from_seq = ss_next_seq s, to_seq = u64_max, max_buffered_bytes = m\<rparr>"
  have "max_buffered_bytes ?w = m" by simp
  then show ?thesis
    unfolding batch_scan_loop
    by (metis (no_types, lifting) scan_loop_window window_inv_def batch_ok_def records_bytes_simps(1)
        scan_state.select_convs(1,3) list.size(3) zero_le)
qed

lemma next_batch_bounded:
  "next_batch H d m s = (Inr batch, s') \<Longrightarrow> batch_ok m batch"
proof (induction H d m s rule: next_batch.induct)
  case (1 H d m s)
  show ?case
  proof (cases "ss_done s \<or> length (ss_parts s) \<le> ss_part_index s")
    case True
    with "1.prems" have "batch = []"
      by (cases "ss_done s") (simp_all add: next_batch.simps [of H d m s])
    then show ?thesis by (simp add: batch_ok_def)
  next
    case False
    show ?thesis
    proof (cases "fs_read d (snd (ss_parts s ! ss_part_index s))")
      case (Inl e)
      with False "1.prems" show ?thesis by (simp add: next_batch.simps [of H d m s])
    next
      case (Inr content)
      with False "1.prems" "1.IH" [OF _ _ Inr refl refl] batch_scan_ok [of m H s content] show ?thesis
        by (auto simp: next_batch.simps [of H d m s] Let_def split: if_splits)
    qed
  qed
qed

section \<open>The stream delivers everything, once and in order\<close>

text \<open>
  \<open>stored\<close>: the parts of the incarnation hold the records \<open>rss\<close>, part by part, and the newest
  one may end in a torn record.
\<close>

definition torn_tail :: "'h hasher \<Rightarrow> bytes \<Rightarrow> bool" where
  "torn_tail H junk \<longleftrightarrow>
     junk = [] \<or> (\<exists>r n. record_ok r \<and> junk = take n (encode_record H r) \<and> 0 < n
                        \<and> n < length (encode_record H r))"

definition stored :: "'h hasher \<Rightarrow> disk \<Rightarrow> nat \<Rightarrow> Record list list \<Rightarrow> bytes \<Rightarrow> bool" where
  "stored H d i rss junk \<longleftrightarrow>
     record_run 1 (concat rss) \<and> Suc (length (concat rss)) < 2 ^ 64 \<and> torn_tail H junk
     \<and> incarnation_parts d i = Inr (map (\<lambda>k. (Suc k, segment_path i (Suc k))) [0..<length rss])
     \<and> (\<forall>k < length rss. fs_read d (segment_path i (Suc k))
           = Inr (encode_records H (rss ! k) @ (if Suc k = length rss then junk else [])))"

text \<open>The reader has delivered \<open>a\<close> of part \<open>k\<close> and stands before \<open>b\<close>.\<close>

definition stream_pos ::
  "nat \<Rightarrow> Record list list \<Rightarrow> SegmentStream \<Rightarrow> nat \<Rightarrow> Record list \<Rightarrow> Record list \<Rightarrow> bool" where
  "stream_pos i rss s k a b \<longleftrightarrow>
     ss_parts s = map (\<lambda>k. (Suc k, segment_path i (Suc k))) [0..<length rss]
     \<and> ss_part_index s = k \<and> k < length rss \<and> rss ! k = a @ b
     \<and> ss_byte_offset s = frames_len a
     \<and> ss_next_seq s = Suc (length (concat (take k rss) @ a)) \<and> \<not> ss_done s"

definition stream_at :: "nat \<Rightarrow> Record list list \<Rightarrow> SegmentStream \<Rightarrow> Record list \<Rightarrow> bool" where
  "stream_at i rss s rem \<longleftrightarrow>
     ss_done s \<and> rem = []
     \<or> (\<exists>k a b. stream_pos i rss s k a b \<and> rem = b @ concat (drop (Suc k) rss))"

lemma frames_len_append [simp]: "frames_len (a @ b) = frames_len a + frames_len b"
  by (simp add: frames_len_def)

lemma concat_at:
  "k < length xss \<Longrightarrow> concat xss = concat (take k xss) @ (xss ! k) @ concat (drop (Suc k) xss)"
  by (metis concat.simps(2) concat_append id_take_nth_drop)

text \<open>A windowed pass over records it wants: a prefix that fills the budget, or all of them.\<close>

lemma scan_records_window:
  assumes "\<forall>r \<in> set rs. from_seq w \<le> rec_seq r \<and> rec_seq r \<le> to_seq w"
  shows "scan_records (ScanWindow w) st rs = Inr (foldl (scan_advance (ScanWindow w)) st rs)
     \<or> (\<exists>j < length rs. sc_records st @ take j rs \<noteq> []
          \<and> scan_records (ScanWindow w) st rs
              = Inl (scan_stop (foldl (scan_advance (ScanWindow w)) st (take j rs)) True CleanEof))"
  using assms
proof (induction rs arbitrary: st)
  case Nil
  then show ?case by simp
next
  case (Cons r rs)
  let ?m = "ScanWindow w"
  have past: "\<not> window_past ?m (rec_seq r)" using Cons.prems by (simp add: window_past_def)
  show ?case
  proof (cases "window_over_budget ?m st (length (rec_payload r))")
    case True
    then have "sc_records st \<noteq> []" by (simp add: window_over_budget_def)
    with True past show ?thesis by (intro disjI2 exI [of _ 0]) simp
  next
    case False
    have keep: "sc_records (scan_advance ?m st r) = sc_records st @ [r]"
      using Cons.prems by (simp add: scan_advance_def)
    from Cons.IH [of "scan_advance ?m st r"] Cons.prems
    consider "scan_records ?m (scan_advance ?m st r) rs = Inr (foldl (scan_advance ?m) (scan_advance ?m st r) rs)"
      | j where "j < length rs" "scan_records ?m (scan_advance ?m st r) rs
          = Inl (scan_stop (foldl (scan_advance ?m) (scan_advance ?m st r) (take j rs)) True CleanEof)"
      by auto
    then show ?thesis
    proof cases
      case 1
      with past False show ?thesis by simp
    next
      case 2
      with past False show ?thesis by (intro disjI2 exI [of _ "Suc j"]) simp
    qed
  qed
qed

lemma window_fold_records:
  "\<forall>r \<in> set rs. from_seq w \<le> rec_seq r \<Longrightarrow>
     sc_records (foldl (scan_advance (ScanWindow w)) st rs) = sc_records st @ rs"
  by (induction rs arbitrary: st) (simp_all add: scan_advance_def)

lemma window_fold_offset:
  "sc_offset (foldl (scan_advance mode) st rs) = sc_offset st + frames_len rs"
  by (induction rs arbitrary: st) simp_all

context crc_hasher
begin

text \<open>Behind the last record: a clean end, a torn end, or a torn record the budget stops at.\<close>

lemma scan_loop_junk:
  assumes "torn_tail H junk"
  shows "\<exists>trunc reason. scan_loop H (ScanWindow w) junk st = scan_stop st trunc reason
     \<and> (reason = CleanEof \<or> reason = PartialTail)
     \<and> (trunc \<longrightarrow> sc_records st \<noteq> [] \<and> reason = CleanEof)
     \<and> (junk = [] \<longrightarrow> reason = CleanEof \<and> \<not> trunc)
     \<and> (junk \<noteq> [] \<and> to_seq w = u64_max \<longrightarrow> trunc \<or> reason = PartialTail)"
proof (cases "junk = []")
  case True
  then show ?thesis by (intro exI [of _ False] exI [of _ CleanEof]) (simp add: scan_loop_end)
next
  case False
  with assms obtain r n where ok: "record_ok r" and j: "junk = take n (encode_record H r)"
    and n: "0 < n" "n < length (encode_record H r)" by (auto simp: torn_tail_def)
  show ?thesis
  proof (cases "window_past (ScanWindow w) (rec_seq r) \<or> window_over_budget (ScanWindow w) st (length (rec_payload r))")
    case False
    then have "scan_loop H (ScanWindow w) junk st = scan_stop st False PartialTail"
      unfolding j by (intro scan_loop_torn [OF ok n]) auto
    then show ?thesis by (intro exI [of _ False] exI [of _ PartialTail]) (use \<open>junk \<noteq> []\<close> in simp)
  next
    case True
    show ?thesis
    proof (cases "n < HEADER_LEN")
      case True
      then have "scan_step H (ScanWindow w) junk st = Inl (scan_stop st False PartialTail)"
        using \<open>junk \<noteq> []\<close> j by (simp add: scan_step_def read_exact_or_partial_def)
      then have "scan_loop H (ScanWindow w) junk st = scan_stop st False PartialTail"
        by (simp add: scan_loop.simps [of H _ junk])
      then show ?thesis by (intro exI [of _ False] exI [of _ PartialTail]) (use \<open>junk \<noteq> []\<close> in simp)
    next
      case big: False
      have pre: "take HEADER_LEN junk = take HEADER_LEN (encode_record H r)" "HEADER_LEN \<le> length junk"
        using big n j by (simp_all add: min_def)
      note hd = scan_step_header [OF ok pre(2,1), of "ScanWindow w" st]
      show ?thesis
      proof (cases "window_past (ScanWindow w) (rec_seq r)")
        case past: True
        with hd have "scan_loop H (ScanWindow w) junk st = scan_stop st False CleanEof"
          by (simp add: scan_loop.simps [of H _ junk])
        moreover have "to_seq w \<noteq> u64_max"
          using past ok by (auto simp: window_past_def record_ok_def u64_max_def)
        ultimately show ?thesis
          using \<open>junk \<noteq> []\<close> by (intro exI [of _ False] exI [of _ CleanEof]) simp
      next
        case False
        with True hd have "scan_loop H (ScanWindow w) junk st = scan_stop st True CleanEof"
          and "sc_records st \<noteq> []"
          by (auto simp: scan_loop.simps [of H _ junk] window_over_budget_def)
        with \<open>junk \<noteq> []\<close> show ?thesis
          by (intro exI [of _ True] exI [of _ CleanEof]) simp
      qed
    qed
  qed
qed

text \<open>One scan from a position: a part of what is left there, or all of it and its end.\<close>

lemma batch_scan_pos:
  assumes st: "stored H d i rss junk" and pos: "stream_pos i rss s k a b"
    and rd: "fs_read d (segment_path i (Suc k)) = Inr content"
  obtains (cut) j where "0 < j" "j < length b"
      "sr_outcome (batch_scan H m s content)
         = \<lparr>so_records = take j b, so_valid_len = frames_len (a @ take j b), so_stop = CleanEof\<rparr>"
      "sr_truncated (batch_scan H m s content)"
  | (whole) trunc reason where
      "sr_outcome (batch_scan H m s content)
         = \<lparr>so_records = b, so_valid_len = frames_len (a @ b), so_stop = reason\<rparr>"
      "sr_truncated (batch_scan H m s content) = trunc"
      "reason = CleanEof \<or> reason = PartialTail"
      "trunc \<longrightarrow> b \<noteq> [] \<and> reason = CleanEof \<and> Suc k = length rss"
      "reason = PartialTail \<longrightarrow> Suc k = length rss"
proof -
  let ?w = "\<lparr>from_seq = ss_next_seq s, to_seq = u64_max, max_buffered_bytes = m\<rparr>"
  let ?m = "ScanWindow ?w"
  let ?st = "\<lparr>sc_records = [], sc_index = [], sc_buffered = 0, sc_offset = ss_byte_offset s,
      sc_expected = Some (ss_next_seq s), sc_count = 0, sc_last = None\<rparr> :: scan_state"
  let ?j = "if Suc k = length rss then junk else []"
  have k: "k < length rss" and ab: "rss ! k = a @ b" and off: "ss_byte_offset s = frames_len a"
    and nx: "ss_next_seq s = Suc (length (concat (take k rss) @ a))"
    using pos by (auto simp: stream_pos_def)
  have content: "content = encode_records H (a @ b) @ ?j"
    using st rd k ab by (auto simp: stored_def)
  have drop: "drop (ss_byte_offset s) content = encode_records H b @ ?j"
    unfolding content off frames_len_encode [where H = H] by simp
  have "concat rss = concat (take k rss) @ (a @ b) @ concat (drop (Suc k) rss)"
    using concat_at [OF k] ab by simp
  then have run: "record_run (ss_next_seq s) b"
    using st by (simp add: stored_def nx add.assoc)
  have "from_seq ?w \<le> rec_seq r \<and> rec_seq r \<le> to_seq ?w" if "r \<in> set b" for r
  proof -
    have "rec_seq r \<in> set (map rec_seq b)" using that by simp
    with seq_run_set [of "ss_next_seq s" "map rec_seq b"] run have "ss_next_seq s \<le> rec_seq r"
      by (auto simp: record_run_def)
    moreover have "rec_seq r \<le> u64_max"
      using run that by (auto simp: record_run_def record_ok_def u64_max_def)
    ultimately show ?thesis by simp
  qed
  then have want: "\<forall>r \<in> set b. from_seq ?w \<le> rec_seq r \<and> rec_seq r \<le> to_seq ?w" by blast
  have ex: "b \<noteq> [] \<Longrightarrow> expects ?st (ss_next_seq s)" by (simp add: expects_def)
  have bs: "batch_scan H m s content
      = (case scan_records ?m ?st b of Inl res \<Rightarrow> res | Inr st' \<Rightarrow> scan_loop H ?m ?j st')"
    unfolding batch_scan_loop drop by (rule scan_loop_refines [OF run ex])
  from scan_records_window [OF want, of ?st] show thesis
  proof (elim disjE exE conjE)
    assume all: "scan_records ?m ?st b = Inr (foldl (scan_advance ?m) ?st b)"
    let ?st' = "foldl (scan_advance ?m) ?st b"
    have torn: "torn_tail H ?j" using st by (auto simp: stored_def torn_tail_def)
    have recs: "sc_records ?st' = b" and len: "sc_offset ?st' = frames_len (a @ b)"
      using want by (simp_all add: window_fold_records window_fold_offset off)
    from scan_loop_junk [OF torn, of ?w ?st'] obtain trunc reason where
      lp: "scan_loop H ?m ?j ?st' = scan_stop ?st' trunc reason"
      and rs: "reason = CleanEof \<or> reason = PartialTail"
      and tr: "trunc \<longrightarrow> b \<noteq> [] \<and> reason = CleanEof"
      and jn: "?j = [] \<longrightarrow> reason = CleanEof \<and> \<not> trunc"
      unfolding recs by blast
    have res: "batch_scan H m s content = scan_stop ?st' trunc reason"
      unfolding bs all by (simp only: sum.case lp)
    show thesis
    proof (rule whole)
      show "sr_outcome (batch_scan H m s content)
          = \<lparr>so_records = b, so_valid_len = frames_len (a @ b), so_stop = reason\<rparr>"
        unfolding res scan_stop_def recs len by simp
      show "sr_truncated (batch_scan H m s content) = trunc" unfolding res scan_stop_def by simp
      show "reason = CleanEof \<or> reason = PartialTail" by (rule rs)
      show "trunc \<longrightarrow> b \<noteq> [] \<and> reason = CleanEof \<and> Suc k = length rss"
        using tr jn by presburger
      show "reason = PartialTail \<longrightarrow> Suc k = length rss"
        using jn by (auto split: if_splits)
    qed
  next
    fix j
    assume j: "j < length b" and ne: "sc_records ?st @ take j b \<noteq> []"
      and part: "scan_records ?m ?st b
        = Inl (scan_stop (foldl (scan_advance ?m) ?st (take j b)) True CleanEof)"
    have "sc_records (foldl (scan_advance ?m) ?st (take j b)) = take j b"
      using want by (subst window_fold_records) (auto dest: in_set_takeD)
    then show thesis
      using cut [of j] j ne part bs by (auto simp: scan_stop_def window_fold_offset off)
  qed
qed

lemma stored_last_seq:
  assumes st: "stored H d i rss junk" and pos: "stream_pos i rss s k a b"
    and c: "c \<noteq> []" "b = c @ c'"
  shows "u64_add (rec_seq (last c)) 1 = Suc (length (concat (take k rss) @ a @ c))"
proof -
  have "concat rss = concat (take k rss) @ (a @ b) @ concat (drop (Suc k) rss)"
    using concat_at [of k rss] pos by (simp add: stream_pos_def)
  then have run: "record_run (Suc (length (concat (take k rss) @ a))) c"
    using st c(2) by (simp add: stored_def add.assoc)
  then have "last (map rec_seq c) = Suc (length (concat (take k rss) @ a)) + length (map rec_seq c) - 1"
    using c(1) by (intro seq_run_last) (simp_all add: record_run_def)
  then have "rec_seq (last c) = length (concat (take k rss) @ a @ c)"
    using c(1) by (simp add: last_map)
  moreover have "rec_seq (last c) < 2 ^ 64"
    using run c(1) by (simp add: record_run_def record_ok_def)
  moreover have "Suc (length (concat rss)) < 2 ^ 64" using st by (simp add: stored_def)
  moreover have "length (concat (take k rss) @ a @ c) \<le> length (concat rss)"
    using \<open>concat rss = _\<close> c(2) by simp
  ultimately show ?thesis by (simp add: u64_add_def)
qed

lemma stream_advance_whole:
  assumes st: "stored H d i rss junk" and pos: "stream_pos i rss s k a b"
    and out: "sr_outcome r = \<lparr>so_records = b, so_valid_len = frames_len (a @ b), so_stop = reason\<rparr>"
    and trunc: "sr_truncated r = trunc" and reason: "reason = CleanEof \<or> reason = PartialTail"
    and tr: "trunc \<longrightarrow> b \<noteq> [] \<and> reason = CleanEof \<and> Suc k = length rss"
    and pt: "reason = PartialTail \<longrightarrow> Suc k = length rss"
  shows "stream_at i rss (batch_advance r s) (concat (drop (Suc k) rss))
     \<and> (b = [] \<longrightarrow> ss_done (batch_advance r s) \<or> ss_part_index (batch_advance r s) = Suc k)"
proof -
  note p = pos [unfolded stream_pos_def]
  let ?s' = "batch_advance r s"
  let ?next = "Suc (length (concat (take k rss) @ a @ b))"
  have nx: "(if b = [] then ss_next_seq s else u64_add (rec_seq (last b)) 1) = ?next"
    using p stored_last_seq [OF st pos, of b "[]"] by auto
  consider (full) "trunc" | (step) "\<not> trunc" "reason = CleanEof" "Suc k < length rss"
    | (fin) "\<not> trunc" "Suc k = length rss"
    using reason pt p by (metis Suc_lessI)
  then show ?thesis
  proof cases
    case full
    then have "stream_pos i rss ?s' k (a @ b) []"
      using p out trunc tr nx by (auto simp: stream_pos_def batch_advance_def Let_def)
    then have "stream_at i rss ?s' ([] @ concat (drop (Suc k) rss))" unfolding stream_at_def by blast
    with full tr show ?thesis by simp
  next
    case step
    have "concat (take (Suc k) rss) = concat (take k rss) @ a @ b"
      using p by (simp add: take_Suc_conv_app_nth)
    then have "stream_pos i rss ?s' (Suc k) [] (rss ! Suc k)"
      using p out trunc step nx by (auto simp: stream_pos_def batch_advance_def Let_def)
    then have "stream_at i rss ?s' (rss ! Suc k @ concat (drop (Suc (Suc k)) rss))"
      unfolding stream_at_def by blast
    moreover have "concat (drop (Suc k) rss) = rss ! Suc k @ concat (drop (Suc (Suc k)) rss)"
      using step(3) by (simp add: Cons_nth_drop_Suc [symmetric])
    ultimately show ?thesis using p out trunc step by (simp add: batch_advance_def Let_def)
  next
    case fin
    then show ?thesis
      using p out trunc by (auto simp: stream_at_def batch_advance_def Let_def)
  qed
qed

lemma next_batch_at:
  assumes st: "stored H d i rss junk" and at: "stream_at i rss s rem"
  shows "\<exists>batch rem' s'. next_batch H d m s = (Inr batch, s') \<and> rem = batch @ rem'
     \<and> stream_at i rss s' rem' \<and> (batch = [] \<longrightarrow> rem = [] \<and> ss_done s')"
  using at
proof (induction "length rss - ss_part_index s" arbitrary: s rule: less_induct)
  case less
  from less.prems consider (over) "ss_done s" "rem = []"
    | (pos) k a b where "stream_pos i rss s k a b" "rem = b @ concat (drop (Suc k) rss)"
    by (auto simp: stream_at_def)
  then show ?case
  proof cases
    case over
    then show ?thesis by (simp add: next_batch.simps [of H d m s] stream_at_def)
  next
    case (pos k a b)
    note p = pos(1) [unfolded stream_pos_def]
    obtain content where rd: "fs_read d (segment_path i (Suc k)) = Inr content"
      using st p by (auto simp: stored_def)
    let ?r = "batch_scan H m s content" and ?s' = "batch_advance (batch_scan H m s content) s"
    have nb: "next_batch H d m s =
        (if so_stop (sr_outcome ?r) \<noteq> CleanEof \<and> so_stop (sr_outcome ?r) \<noteq> PartialTail
         then (Inl InvalidData, batch_corrupt ?r s)
         else if so_records (sr_outcome ?r) \<noteq> [] then (Inr (so_records (sr_outcome ?r)), ?s')
         else next_batch H d m ?s')"
      using p rd by (subst next_batch.simps) (simp add: Let_def)
    have last_seq: "u64_add (rec_seq (last c)) 1 = Suc (length (concat (take k rss) @ a @ c))"
      if c: "c \<noteq> []" "b = c @ c'" for c c'
      using stored_last_seq [OF st pos(1) c] .
    from st pos(1) rd show ?thesis
    proof (cases rule: batch_scan_pos [where m = m])
      case (cut j)
      let ?c = "take j b"
      have "?c \<noteq> []" using cut(1,2) by auto
      then have "stream_pos i rss ?s' k (a @ ?c) (drop j b)"
        using p cut last_seq [of ?c "drop j b"] by (auto simp: stream_pos_def batch_advance_def Let_def)
      then have "stream_at i rss ?s' (drop j b @ concat (drop (Suc k) rss))"
        unfolding stream_at_def by blast
      with nb cut \<open>?c \<noteq> []\<close> pos(2) show ?thesis
        by (intro exI [of _ ?c] exI [of _ "drop j b @ concat (drop (Suc k) rss)"] exI [of _ ?s']) simp
    next
      case (whole trunc reason)
      have at': "stream_at i rss ?s' (concat (drop (Suc k) rss))
          \<and> (b = [] \<longrightarrow> ss_done ?s' \<or> ss_part_index ?s' = Suc k)"
        using stream_advance_whole [OF st pos(1) whole] .
      show ?thesis
      proof (cases "b = []")
        case False
        with nb whole at' pos(2) show ?thesis
          by (intro exI [of _ b] exI [of _ "concat (drop (Suc k) rss)"] exI [of _ ?s']) auto
      next
        case True
        have nb': "next_batch H d m s = next_batch H d m ?s'"
          using nb whole True by auto
        from at' True consider "ss_done ?s'" | "ss_part_index ?s' = Suc k" by blast
        then show ?thesis
        proof cases
          case 1
          with at' have "concat (drop (Suc k) rss) = []"
            by (auto simp: stream_at_def stream_pos_def)
          with 1 nb' pos(2) True at' show ?thesis
            by (intro exI [of _ "[]"] exI [of _ "[]"] exI [of _ ?s'])
              (simp add: next_batch.simps [of H d m ?s'])
        next
          case 2
          then have "length rss - ss_part_index ?s' < length rss - ss_part_index s"
            using p by (simp add: diff_less_mono2)
          from less.hyps [OF this] at' pos(2) True nb' show ?thesis by simp
        qed
      qed
    qed
  qed
qed

end

text \<open>A client that pulls batches until one is empty; \<open>fuel\<close> bounds the number of calls.\<close>

fun stream_drain ::
  "'h hasher \<Rightarrow> disk \<Rightarrow> nat \<Rightarrow> nat \<Rightarrow> SegmentStream \<Rightarrow> Record list result option" where
  "stream_drain H d m 0 s = None"
| "stream_drain H d m (Suc fuel) s =
     (case next_batch H d m s of
        (Inl err, s') \<Rightarrow> Some (Inl err)
      | (Inr [], s') \<Rightarrow> Some (Inr [])
      | (Inr batch, s') \<Rightarrow>
          map_option (\<lambda>r. bind_result r (\<lambda>rs. Inr (batch @ rs))) (stream_drain H d m fuel s'))"

context crc_hasher
begin

lemma stream_drain_at:
  assumes "stored H d i rss junk"
  shows "stream_at i rss s rem \<Longrightarrow> length rem < fuel \<Longrightarrow> stream_drain H d m fuel s = Some (Inr rem)"
proof (induction fuel arbitrary: s rem)
  case 0
  then show ?case by simp
next
  case (Suc fuel)
  from next_batch_at [OF assms Suc.prems(1), of m] obtain batch rem' s' where
    nb: "next_batch H d m s = (Inr batch, s')" "rem = batch @ rem'" "stream_at i rss s' rem'"
    "batch = [] \<longrightarrow> rem = []" by blast
  show ?case
  proof (cases batch)
    case Nil
    with nb show ?thesis by simp
  next
    case (Cons r rs)
    with nb(2) Suc.prems(2) have "length rem' < fuel" by simp
    from Suc.IH [OF nb(3) this] nb(1,2) Cons show ?thesis by simp
  qed
qed

end

lemma stream_open_at_start:
  assumes "stored H d i rss junk"
  shows "\<exists>s. SegmentStream_open d i = Inr s \<and> stream_at i rss s (concat rss)"
proof -
  have parts: "incarnation_parts d i = Inr (map (\<lambda>k. (Suc k, segment_path i (Suc k))) [0..<length rss])"
    using assms by (simp add: stored_def)
  have "rss \<noteq> []" using parts by (auto simp: incarnation_parts_def Let_def split: if_splits)
  then obtain r rs where rss: "rss = r # rs" by (cases rss) auto
  let ?s = "\<lparr>ss_parts = map (\<lambda>k. (Suc k, segment_path i (Suc k))) [0..<length rss],
    ss_part_index = 0, ss_byte_offset = 0, ss_next_seq = 1, ss_done = False\<rparr>"
  have "stream_pos i rss ?s 0 [] r" by (simp add: stream_pos_def rss)
  then have "stream_at i rss ?s (r @ concat (drop (Suc 0) rss))" unfolding stream_at_def by blast
  then show ?thesis using parts by (simp add: SegmentStream_open_def rss)
qed

text \<open>The anchor that a record at the end of \<open>a\<close> in part \<open>k\<close> gives.\<close>

lemma position_parts:
  "k < n \<Longrightarrow> position (\<lambda>(part, _). part = Suc k) (map (\<lambda>k. (Suc k, f k)) [0..<n]) = Some k"
proof -
  have gen: "k < n \<Longrightarrow> position (\<lambda>(part, _). part = Suc (m + k)) (map (\<lambda>k. (Suc k, f k)) [m..<m + n]) = Some k" for m
  proof (induction n arbitrary: m k)
    case (Suc n)
    have up: "[m..<m + Suc n] = m # [Suc m..<Suc m + n]" by (simp add: upt_conv_Cons)
    show ?case
    proof (cases k)
      case 0
      then show ?thesis unfolding up by simp
    next
      case (Suc k')
      with Suc.IH [of k' "Suc m"] Suc.prems show ?thesis unfolding up by simp
    qed
  qed simp
  assume "k < n"
  from gen [OF this, of 0] show ?thesis by simp
qed

lemma stream_open_at_anchor:
  assumes st: "stored H d i rss junk" and k: "k < length rss" and ab: "rss ! k = a @ b"
    and anchor: "ca_part anchor = Suc k" "ca_record_end_offset anchor = frames_len a"
      "jc_seq (ca_cursor anchor) = length (concat (take k rss) @ a)"
  shows "\<exists>s. SegmentStream_open_at d i anchor = Inr s
     \<and> stream_at i rss s (b @ concat (drop (Suc k) rss))"
proof -
  have parts: "incarnation_parts d i = Inr (map (\<lambda>k. (Suc k, segment_path i (Suc k))) [0..<length rss])"
    and len: "Suc (length (concat rss)) < 2 ^ 64"
    using st by (simp_all add: stored_def)
  let ?n = "length (concat (take k rss) @ a)"
  have "?n \<le> length (concat rss)" using concat_at [OF k] ab by simp
  then have nx: "u64_add ?n 1 = Suc ?n" using len by (simp add: u64_add_def)
  let ?s = "\<lparr>ss_parts = map (\<lambda>k. (Suc k, segment_path i (Suc k))) [0..<length rss],
    ss_part_index = k, ss_byte_offset = frames_len a, ss_next_seq = Suc ?n, ss_done = False\<rparr>"
  have "position (\<lambda>(part, _). part = Suc k) (map (\<lambda>k. (Suc k, segment_path i (Suc k))) [0..<length rss])
      = Some k" by (rule position_parts [OF k])
  then have "SegmentStream_open_at d i anchor = Inr ?s"
    unfolding SegmentStream_open_at_def anchor parts using nx by simp
  moreover have "stream_pos i rss ?s k a b" using k ab by (simp add: stream_pos_def)
  ultimately show ?thesis unfolding stream_at_def by blast
qed

section \<open>Properties\<close>

text \<open>Streaming an incarnation from its start delivers exactly its records, in order and
  once, whatever the batch size: pulling batches until one is empty, at most one more call than
  there are records, gives the records of all parts, and a torn record at the end of the newest
  part neither adds nor hides anything.\<close>

theorem stream_delivers_all:
  assumes "crc_hasher H" and "stored H d i rss junk"
  shows "\<exists>s. SegmentStream_open d i = Inr s
     \<and> stream_drain H d max_bytes (Suc (length (concat rss))) s = Some (Inr (concat rss))"
  using stream_open_at_start [OF assms(2)] crc_hasher.stream_drain_at [OF assms] by blast

text \<open>Resuming from an anchor delivers exactly the rest: an anchor whose part, end offset and
  sequence name the end of a record opens a stream whose batches are the records after it, with
  nothing repeated and nothing skipped.\<close>

theorem stream_resumes_at_anchor:
  assumes "crc_hasher H" and "stored H d i rss junk" and "k < length rss" and "rss ! k = a @ b"
    and "ca_part anchor = Suc k" and "ca_record_end_offset anchor = frames_len a"
    and "jc_seq (ca_cursor anchor) = length (concat (take k rss) @ a)"
  shows "\<exists>s. SegmentStream_open_at d i anchor = Inr s
     \<and> stream_drain H d max_bytes (Suc (length (b @ concat (drop (Suc k) rss)))) s
         = Some (Inr (b @ concat (drop (Suc k) rss)))"
  using stream_open_at_anchor [OF assms(2-7)] crc_hasher.stream_drain_at [OF assms(1,2)] by blast

text \<open>Every batch respects its memory bound, on any disk contents: it holds at most one
  record, or payloads of at most \<open>max_bytes\<close> together.\<close>

theorem batch_within_budget:
  assumes "next_batch H d max_bytes s = (Inr batch, s')"
  shows "length batch \<le> 1 \<or> records_bytes batch \<le> max_bytes"
  using next_batch_bounded [OF assms] by (simp add: batch_ok_def)

text \<open>A part whose records all fit the budget and which ends in a torn record.\<close>

lemma scan_records_fit:
  assumes "\<forall>r \<in> set rs. from_seq w \<le> rec_seq r \<and> rec_seq r \<le> to_seq w"
    and "sc_buffered st + records_bytes rs \<le> max_buffered_bytes w"
  shows "scan_records (ScanWindow w) st rs = Inr (foldl (scan_advance (ScanWindow w)) st rs)
     \<and> sc_buffered (foldl (scan_advance (ScanWindow w)) st rs) = sc_buffered st + records_bytes rs"
  using assms
proof (induction rs arbitrary: st)
  case Nil
  then show ?case by simp
next
  case (Cons r rs)
  have "\<not> window_past (ScanWindow w) (rec_seq r)"
    "\<not> window_over_budget (ScanWindow w) st (length (rec_payload r))"
    using Cons.prems by (auto simp: window_past_def window_over_budget_def records_bytes_def)
  moreover have "sc_buffered (scan_advance (ScanWindow w) st r) = sc_buffered st + length (rec_payload r)"
    using Cons.prems by (simp add: scan_advance_def)
  ultimately show ?case
    using Cons.IH [of "scan_advance (ScanWindow w) st r"] Cons.prems by (simp add: records_bytes_def)
qed

context crc_hasher
begin

lemma torn_part_batch:
  assumes run: "record_run 1 (rs @ [r])" and n: "0 < n" "n < length (encode_record H r)"
    and rd: "fs_read d path = Inr (encode_records H rs @ take n (encode_record H r))"
    and rs: "rs \<noteq> []" and fit: "records_bytes (rs @ [r]) \<le> m"
    and s: "s = \<lparr>ss_parts = (1, path) # later, ss_part_index = 0, ss_byte_offset = 0,
                 ss_next_seq = 1, ss_done = False\<rparr>"
  shows "\<exists>s'. next_batch H d m s = (Inr rs, s') \<and> ss_done s'"
proof -
  let ?w = "\<lparr>from_seq = 1, to_seq = u64_max, max_buffered_bytes = m\<rparr>"
  let ?m = "ScanWindow ?w"
  let ?st = "\<lparr>sc_records = [], sc_index = [], sc_buffered = 0, sc_offset = 0, sc_expected = Some 1,
      sc_count = 0, sc_last = None\<rparr> :: scan_state"
  let ?st' = "foldl (scan_advance ?m) ?st rs"
  have run1: "record_run 1 rs" and ok: "record_ok r" and sq: "rec_seq r = Suc (length rs)"
    using run by simp_all
  have want: "\<forall>x \<in> set rs. from_seq ?w \<le> rec_seq x \<and> rec_seq x \<le> to_seq ?w"
  proof
    fix x assume "x \<in> set rs"
    then have "rec_seq x \<in> set (map rec_seq rs)" and "record_ok x"
      using run1 by (auto simp: record_run_def)
    with seq_run_set [of 1 "map rec_seq rs"] run1
    show "from_seq ?w \<le> rec_seq x \<and> rec_seq x \<le> to_seq ?w"
      by (auto simp: record_run_def record_ok_def u64_max_def)
  qed
  have pass: "scan_records ?m ?st rs = Inr ?st'" and buf: "sc_buffered ?st' = records_bytes rs"
    using scan_records_fit [OF want, of ?st] fit by simp_all
  have recs: "sc_records ?st' = rs" using want by (simp add: window_fold_records)
  have past: "\<not> window_past ?m (rec_seq r)"
    using ok by (simp add: window_past_def record_ok_def u64_max_def)
  have room: "\<not> window_over_budget ?m ?st' (length (rec_payload r))"
    unfolding window_over_budget_def ScanMode.case buf using fit by simp
  note torn = scan_loop_torn [OF ok n past room]
  have ex: "rs \<noteq> [] \<Longrightarrow> expects ?st 1" by (simp add: expects_def)
  let ?b = "batch_scan H m s (encode_records H rs @ take n (encode_record H r))"
  have "?b = scan_stop ?st' False PartialTail"
    unfolding batch_scan_loop s using scan_loop_refines [OF run1 ex, of ?m] pass torn by simp
  then have out: "so_records (sr_outcome ?b) = rs" "so_stop (sr_outcome ?b) = PartialTail"
    by (simp_all only: scan_stop_def recs ScanResult.select_convs ScanOutcome.select_convs)
  have "next_batch H d m s = (Inr rs, batch_advance ?b s)"
    using rd rs out by (subst next_batch.simps) (simp add: s Let_def)
  moreover have "ss_done (batch_advance ?b s)"
    using out by (simp add: batch_advance_def Let_def)
  ultimately show ?thesis by blast
qed

end

text \<open>A torn part that is not the newest ends the stream without an error: the reader delivers
  its complete records, marks itself done and reports success, and the records of every later
  part are never delivered.\<close>

theorem torn_sealed_part_ends_stream:
  assumes "crc_hasher H" and "record_run 1 (rs @ [r])" and "0 < n"
    and "n < length (encode_record H r)"
    and "fs_read d path = Inr (encode_records H rs @ take n (encode_record H r))"
    and "rs \<noteq> []" and "records_bytes (rs @ [r]) \<le> max_bytes"
    and "s = \<lparr>ss_parts = (1, path) # later, ss_part_index = 0, ss_byte_offset = 0, ss_next_seq = 1,
             ss_done = False\<rparr>"
  shows "stream_drain H d max_bytes 2 s = Some (Inr rs)"
proof -
  from crc_hasher.torn_part_batch [OF assms] obtain s' where
    "next_batch H d max_bytes s = (Inr rs, s')" "ss_done s'" by blast
  moreover have "next_batch H d max_bytes s' = (Inr [], s')"
    using \<open>ss_done s'\<close> by (simp add: next_batch.simps [of H d max_bytes s'])
  ultimately show ?thesis
    using assms(6) by (simp add: numeral_2_eq_2 split: list.splits)
qed

subsection \<open>Concrete instances\<close>

definition stream_record :: "nat \<Rightarrow> Record" where
  "stream_record s = \<lparr>rec_kind = Output, rec_seq = s, rec_elapsed_ms = 0, rec_payload = [1, 2, 3]\<rparr>"

definition stream_disk :: "bytes \<Rightarrow> disk" where
  "stream_disk tail =
     \<lparr>jd_files = [(segment_path 4 1, \<lparr>jf_bytes = encode_records table_hasher [stream_record 1] @ tail,
                                     jf_synced = 0\<rparr>)],
      jd_manifest = [], jd_faults = []\<rparr>"

lemma stream_disk_stored: "stored table_hasher (stream_disk []) 4 [[stream_record 1]] []"
proof -
  have "list_segments (stream_disk []) = [(4, 1)]"
    by (simp add: list_segments_def stream_disk_def List.map_filter_simps parse_segment_path)
  then have "incarnation_parts (stream_disk []) 4 = Inr [(1, segment_path 4 1)]"
    by (simp add: incarnation_parts_def)
  moreover have "record_ok (stream_record 1)"
    by (simp add: record_ok_def stream_record_def MAX_PAYLOAD_LEN_def)
  ultimately show ?thesis
    by (simp add: stored_def torn_tail_def fs_read_def stream_disk_def) (simp add: stream_record_def)
qed

theorem stream_delivers_all_witness:
  "\<exists>s. SegmentStream_open (stream_disk []) 4 = Inr s
     \<and> stream_drain table_hasher (stream_disk []) 100 2 s = Some (Inr [stream_record 1])"
  using stream_delivers_all [OF table_crc.crc_hasher_axioms stream_disk_stored, of 100]
  by (simp add: numeral_2_eq_2)

theorem stream_resumes_at_anchor_witness:
  "\<exists>s. SegmentStream_open_at (stream_disk []) 4
       \<lparr>ca_filtered_offset = 9, ca_cursor = \<lparr>jc_incarnation = 4, jc_seq = 1\<rparr>, ca_part = 1,
        ca_record_end_offset = frames_len [stream_record 1]\<rparr> = Inr s
     \<and> stream_drain table_hasher (stream_disk []) 100 1 s = Some (Inr [])"
  using stream_resumes_at_anchor [OF table_crc.crc_hasher_axioms stream_disk_stored, of 0
      "[stream_record 1]" "[]" "\<lparr>ca_filtered_offset = 9, ca_cursor = \<lparr>jc_incarnation = 4, jc_seq = 1\<rparr>,
      ca_part = 1, ca_record_end_offset = frames_len [stream_record 1]\<rparr>" 100]
  by simp

theorem batch_within_budget_witness:
  "length ([] :: Record list) \<le> 1 \<or> records_bytes [] \<le> 7"
proof (rule batch_within_budget)
  show "next_batch table_hasher (stream_disk []) 7
      \<lparr>ss_parts = [], ss_part_index = 0, ss_byte_offset = 0, ss_next_seq = 1, ss_done = True\<rparr>
    = (Inr [], \<lparr>ss_parts = [], ss_part_index = 0, ss_byte_offset = 0, ss_next_seq = 1, ss_done = True\<rparr>)"
    by (subst next_batch.simps) simp
qed

theorem torn_sealed_part_ends_stream_witness:
  "stream_drain table_hasher (stream_disk (take 5 (encode_record table_hasher (stream_record 2)))) 100 2
     \<lparr>ss_parts = [(1, segment_path 4 1), (2, segment_path 4 2)], ss_part_index = 0,
      ss_byte_offset = 0, ss_next_seq = 1, ss_done = False\<rparr> = Some (Inr [stream_record 1])"
proof (rule torn_sealed_part_ends_stream [OF table_crc.crc_hasher_axioms])
  show "record_run 1 ([stream_record 1] @ [stream_record 2])"
    by (simp add: stream_record_def record_ok_def MAX_PAYLOAD_LEN_def)
  show "0 < (5 :: nat)" by simp
  show "5 < length (encode_record table_hasher (stream_record 2))" by (simp add: HEADER_LEN_36)
  show "fs_read (stream_disk (take 5 (encode_record table_hasher (stream_record 2)))) (segment_path 4 1)
      = Inr (encode_records table_hasher [stream_record 1]
          @ take 5 (encode_record table_hasher (stream_record 2)))"
    by (simp add: fs_read_def stream_disk_def)
  show "records_bytes ([stream_record 1] @ [stream_record 2]) \<le> 100"
    by (simp add: records_bytes_def stream_record_def)
qed simp_all

end
