(* ===== verification/Journal_Manifest.thy ===== *)
theory Journal_Manifest
  imports Journal_Segment
begin

text \<open>
  The sealed-part manifest (\<open>src/session/journal/manifest.rs\<close>): appending lines, reading them
  back, and the integrity check of the whole journal directory against them.
\<close>

section \<open>Appending and reading lines\<close>

text \<open>The text of a line, as \<open>serde_json::to_vec\<close> writes it: a compact object with the fields in
  the order of the struct. Every proper prefix of it lacks the closing brace and does not parse.\<close>

definition json_field :: "string \<Rightarrow> nat \<Rightarrow> string" where
  "json_field name v = [CHR 0x22] @ name @ [CHR 0x22] @ '':'' @ show_dec v"

fun manifest_text :: "ManifestLine \<Rightarrow> string" where
  "manifest_text (Sealed e) =
     ''{'' @ json_field ''incarnation'' (me_incarnation e)
     @ '','' @ json_field ''part'' (me_part e)
     @ '','' @ json_field ''first_seq'' (me_first_seq e)
     @ '','' @ json_field ''last_seq'' (me_last_seq e)
     @ '','' @ json_field ''bytes'' (me_bytes e)
     @ '','' @ json_field ''crc32'' (unat (me_crc32 e)) @ ''}''"
| "manifest_text (Retired i) = ''{'' @ json_field ''retired'' i @ ''}''"

text \<open>The file is opened for appending, so text written after a line without a newline joins it.
  The joined line does not parse: it holds more than one value, or an object that is not closed.\<close>

fun unended :: "manifest_row \<Rightarrow> bool" where
  "unended Torn = True"
| "unended (Unended _) = True"
| "unended _ = False"

definition append_row :: "manifest_row list \<Rightarrow> manifest_row \<Rightarrow> manifest_row list" where
  "append_row rows r =
     (if rows \<noteq> [] \<and> unended (last rows)
      then butlast rows @ [if unended r then Torn else Malformed]
      else rows @ [r])"

text \<open>What the first \<open>n\<close> bytes of a line and its newline amount to.\<close>

definition cut_row :: "ManifestLine \<Rightarrow> nat \<Rightarrow> manifest_row" where
  "cut_row line n =
     (if n < length (manifest_text line) then Torn
      else if n = length (manifest_text line) then Unended line
      else Row line)"

definition manifest_open :: "unit io" where
  "manifest_open d =
     (case next_fault d of (Some _, d1) \<Rightarrow> (Inl OtherIo, d1) | (None, d1) \<Rightarrow> (Inr (), d1))"

definition manifest_write :: "ManifestLine \<Rightarrow> unit io" where
  "manifest_write line d =
     (case next_fault d of
        (Some n, d1) \<Rightarrow>
          (Inl OtherIo,
           if n = 0 then d1
           else d1\<lparr>jd_manifest := append_row (jd_manifest d1) (cut_row line n)\<rparr>)
      | (None, d1) \<Rightarrow> (Inr (), d1\<lparr>jd_manifest := append_row (jd_manifest d1) (Row line)\<rparr>))"

definition append_manifest_line :: "ManifestLine \<Rightarrow> unit io" where
  "append_manifest_line line =
     io_bind manifest_open (\<lambda>_. io_bind (manifest_write line) (\<lambda>_. sync_dir))"

definition SegmentManifestEntry_append_to :: "SegmentManifestEntry \<Rightarrow> unit io" where
  "SegmentManifestEntry_append_to entry = append_manifest_line (Sealed entry)"

definition RetiredIncarnation_append_to :: "nat \<Rightarrow> unit io" where
  "RetiredIncarnation_append_to retired = append_manifest_line (Retired retired)"

text \<open>\<open>lines()\<close> yields a last line with or without its newline.\<close>

fun read_rows :: "manifest_row list \<Rightarrow> ManifestLine list result" where
  "read_rows [] = Inr []"
| "read_rows (Row line # rows) = bind_result (read_rows rows) (\<lambda>ls. Inr (line # ls))"
| "read_rows (Unended line # rows) = bind_result (read_rows rows) (\<lambda>ls. Inr (line # ls))"
| "read_rows (_ # rows) = Inl InvalidData"

definition read_manifest_lines :: "disk \<Rightarrow> ManifestLine list result" where
  "read_manifest_lines d = read_rows (jd_manifest d)"

fun sealed_of :: "ManifestLine \<Rightarrow> SegmentManifestEntry option" where
  "sealed_of (Sealed e) = Some e"
| "sealed_of (Retired _) = None"

fun retired_of :: "ManifestLine \<Rightarrow> nat option" where
  "retired_of (Retired i) = Some i"
| "retired_of (Sealed _) = None"

definition read_manifest :: "disk \<Rightarrow> SegmentManifestEntry list result" where
  "read_manifest d =
     bind_result (read_manifest_lines d) (\<lambda>lines. Inr (List.map_filter sealed_of lines))"

definition retired_incarnations :: "disk \<Rightarrow> nat list result" where
  "retired_incarnations d =
     bind_result (read_manifest_lines d) (\<lambda>lines. Inr (List.map_filter retired_of lines))"

section \<open>Verification\<close>

text \<open>One constructor per message of \<open>verify_manifest\<close>.\<close>

datatype manifest_issue =
    ManifestUnreadable io_error
  | DuplicateEntry nat nat
  | PartUnreadable string io_error
  | PartLength string nat nat
  | PartCrc string u32 u32
  | TombstonedRemains nat nat
  | NotManifested nat nat

definition entry_key :: "SegmentManifestEntry \<Rightarrow> nat \<times> nat" where
  "entry_key e = (me_incarnation e, me_part e)"

text \<open>The first loop: collect sealed entries and tombstones, report duplicates.\<close>

record verify_state =
  vs_seen :: "(nat \<times> nat) list"
  vs_retired :: "nat list"
  vs_sealed :: "SegmentManifestEntry list"
  vs_issues :: "manifest_issue list"

fun verify_line :: "verify_state \<Rightarrow> ManifestLine \<Rightarrow> verify_state" where
  "verify_line v (Sealed e) =
     (if entry_key e \<in> set (vs_seen v)
      then v\<lparr>vs_issues := vs_issues v @ [DuplicateEntry (me_incarnation e) (me_part e)]\<rparr>
      else v\<lparr>vs_seen := entry_key e # vs_seen v, vs_sealed := vs_sealed v @ [e]\<rparr>)"
| "verify_line v (Retired i) = v\<lparr>vs_retired := i # vs_retired v\<rparr>"

definition verify_entry :: "'h hasher \<Rightarrow> disk \<Rightarrow> SegmentManifestEntry \<Rightarrow> manifest_issue list" where
  "verify_entry H d e =
     (let path = segment_path (me_incarnation e) (me_part e)
      in case fs_read d path of
           Inl err \<Rightarrow> [PartUnreadable path err]
         | Inr bs \<Rightarrow>
             if length bs \<noteq> me_bytes e then [PartLength path (length bs) (me_bytes e)]
             else if Crc32_of H bs \<noteq> me_crc32 e then [PartCrc path (me_crc32 e) (Crc32_of H bs)]
             else [])"

definition verify_part ::
  "nat list \<Rightarrow> (nat \<times> nat) list \<Rightarrow> (nat \<times> nat) option \<Rightarrow> nat \<times> nat \<Rightarrow> manifest_issue list" where
  "verify_part retired seen active_tail ip =
     (if fst ip \<in> set retired then [TombstonedRemains (fst ip) (snd ip)]
      else if ip \<notin> set seen \<and> Some ip \<noteq> active_tail then [NotManifested (fst ip) (snd ip)]
      else [])"

definition last_option :: "'a list \<Rightarrow> 'a option" where
  "last_option xs = (if xs = [] then None else Some (last xs))"

definition verify_manifest :: "'h hasher \<Rightarrow> disk \<Rightarrow> manifest_issue list" where
  "verify_manifest H d =
     (case read_manifest_lines d of
        Inl err \<Rightarrow> [ManifestUnreadable err]
      | Inr lines \<Rightarrow>
          let v = foldl verify_line
                    \<lparr>vs_seen = [], vs_retired = [], vs_sealed = [], vs_issues = []\<rparr> lines;
              segments = list_segments d
          in vs_issues v
             @ concat (map (verify_entry H d)
                 (filter (\<lambda>e. me_incarnation e \<notin> set (vs_retired v)) (vs_sealed v)))
             @ concat (map (verify_part (vs_retired v) (vs_seen v) (last_option segments)) segments))"

section \<open>Reading what was appended\<close>

lemma read_rows_append:
  "read_rows (rows @ rows') =
     bind_result (read_rows rows) (\<lambda>ls. bind_result (read_rows rows') (\<lambda>ls'. Inr (ls @ ls')))"
  by (induction rows rule: read_rows.induct) (auto simp: bind_result_def split: sum.splits)

fun row_line :: "manifest_row \<Rightarrow> ManifestLine option" where
  "row_line (Row line) = Some line"
| "row_line (Unended line) = Some line"
| "row_line _ = None"

lemma read_rows_Inr: "read_rows rows = Inr ls \<longleftrightarrow> map row_line rows = map Some ls"
  by (induction rows arbitrary: ls rule: read_rows.induct)
    (auto simp: bind_result_eq_Inr map_eq_Cons_conv)

lemma read_rows_Row [simp]: "read_rows (map Row ls) = Inr ls"
  by (simp add: read_rows_Inr)

text \<open>Every line of the manifest has its newline: no append was cut off inside a line.\<close>

definition manifest_ended :: "disk \<Rightarrow> bool" where
  "manifest_ended d \<longleftrightarrow> (\<forall>r \<in> set (jd_manifest d). \<not> unended r)"

lemma row_line_ended: "row_line r = Some l \<Longrightarrow> \<not> unended r \<Longrightarrow> r = Row l"
  by (cases r) auto

lemma read_rows_ended:
  "read_rows rows = Inr ls \<Longrightarrow> (\<And>r. r \<in> set rows \<Longrightarrow> \<not> unended r) \<Longrightarrow> rows = map Row ls"
  unfolding read_rows_Inr
  by (induction rows arbitrary: ls) (auto simp: map_eq_Cons_conv row_line_ended)

lemma read_manifest_ended:
  "read_manifest_lines d = Inr ls \<Longrightarrow> manifest_ended d \<Longrightarrow> jd_manifest d = map Row ls"
  by (auto simp: read_manifest_lines_def manifest_ended_def intro!: read_rows_ended)

lemma append_row_ended [simp]: "append_row (map Row ls) r = map Row ls @ [r]"
  by (auto simp: append_row_def last_map)

lemma read_rows_Inl: "read_rows rows = Inl e \<Longrightarrow> e = InvalidData"
  by (induction rows rule: read_rows.induct) (auto simp: bind_result_eq_Inl)

lemma read_rows_bad:
  assumes "row_line r = None"
  shows "read_rows (rows @ [r]) = Inl InvalidData"
proof -
  have "read_rows [r] = Inl InvalidData" using assms by (cases r) auto
  then show ?thesis
    by (cases "read_rows rows") (auto simp: read_rows_append dest: read_rows_Inl)
qed

lemma append_torn_unreadable: "read_rows (append_row rows Torn) = Inl InvalidData"
  by (simp add: append_row_def read_rows_bad)

lemma append_row_last: "\<exists>rows' r'. append_row rows r = rows' @ [r'] \<and> (unended r \<longrightarrow> unended r')"
  by (auto simp: append_row_def)

lemma append_unended_unreadable:
  assumes "unended r"
  shows "read_rows (append_row (append_row rows r) r') = Inl InvalidData"
proof -
  obtain rows' r1 where "append_row rows r = rows' @ [r1]" "unended r1"
    using append_row_last [of rows r] assms by blast
  then show ?thesis by (simp add: append_row_def read_rows_bad)
qed

lemma map_filter_sealed_append [simp]:
  "List.map_filter f (xs @ ys) = List.map_filter f xs @ List.map_filter f ys"
  by (simp add: List.map_filter_def)

text \<open>Appending a line either adds the row, adds it and fails to sync, or does not add it.\<close>

lemma append_manifest_line_cases:
  assumes "append_manifest_line line d = (r, d')"
  shows "jd_files d' = jd_files d
     \<and> (r = Inr () \<longrightarrow> jd_manifest d' = append_row (jd_manifest d) (Row line))"
proof -
  have wr: "jd_files d2 = jd_files d1
      \<and> (q = Inr () \<longrightarrow> jd_manifest d2 = append_row (jd_manifest d1) (Row line))"
    if "manifest_write line d1 = (q, d2)" for d1 q d2
    using that
    by (auto simp: manifest_write_def dest!: next_fault_frame split: prod.splits option.splits if_splits)
  have op: "jd_files d1 = jd_files d \<and> jd_manifest d1 = jd_manifest d"
    if "manifest_open d = (q, d1)" for q d1
    using that by (auto simp: manifest_open_def dest: next_fault_frame split: prod.splits option.splits)
  from assms show ?thesis
    unfolding append_manifest_line_def io_bind_eq
    by (auto dest!: wr op sync_dir_frame)
qed

section \<open>What a clean verification means\<close>

lemma foldl_verify_retired:
  "set (vs_retired (foldl verify_line v lines))
     = set (vs_retired v) \<union> set (List.map_filter retired_of lines)"
proof (induction lines arbitrary: v)
  case Nil
  then show ?case by (simp add: List.map_filter_simps)
next
  case (Cons l lines)
  show ?case by (cases l) (auto simp: Cons.IH List.map_filter_simps)
qed

lemma foldl_verify_issues:
  "vs_issues (foldl verify_line v lines) = [] \<longleftrightarrow>
     vs_issues v = [] \<and> distinct (map entry_key (List.map_filter sealed_of lines))
     \<and> set (map entry_key (List.map_filter sealed_of lines)) \<inter> set (vs_seen v) = {}"
proof (induction lines arbitrary: v)
  case Nil
  then show ?case by (simp add: List.map_filter_simps)
next
  case (Cons l lines)
  show ?case
    by (cases l) (auto simp: Cons.IH List.map_filter_simps)
qed

lemma foldl_verify_sealed:
  "vs_issues (foldl verify_line v lines) = [] \<Longrightarrow>
     vs_sealed (foldl verify_line v lines) = vs_sealed v @ List.map_filter sealed_of lines
     \<and> set (vs_seen (foldl verify_line v lines))
         = set (vs_seen v) \<union> set (map entry_key (List.map_filter sealed_of lines))"
proof (induction lines arbitrary: v)
  case Nil
  then show ?case by (simp add: List.map_filter_simps)
next
  case (Cons l lines)
  show ?case
  proof (cases l)
    case (Sealed e)
    have "entry_key e \<notin> set (vs_seen v)"
      using Cons.prems Sealed by (auto simp: foldl_verify_issues)
    with Cons.prems Sealed show ?thesis
      by (auto simp: Cons.IH List.map_filter_simps)
  next
    case (Retired i)
    with Cons show ?thesis by (simp add: List.map_filter_simps)
  qed
qed

lemma verify_entry_Nil:
  "verify_entry H d e = [] \<longleftrightarrow>
     (\<exists>bs. fs_read d (segment_path (me_incarnation e) (me_part e)) = Inr bs
           \<and> length bs = me_bytes e \<and> Crc32_of H bs = me_crc32 e)"
  by (auto simp: verify_entry_def Let_def split: sum.splits if_splits)

lemma verify_part_Nil:
  "verify_part retired seen tail ip = [] \<longleftrightarrow>
     fst ip \<notin> set retired \<and> (ip \<in> set seen \<or> Some ip = tail)"
  by (auto simp: verify_part_def)

text \<open>What \<open>verify_manifest\<close> promises when it reports nothing, stated without its loops.\<close>

definition journal_intact :: "'h hasher \<Rightarrow> disk \<Rightarrow> bool" where
  "journal_intact H d \<longleftrightarrow>
     (\<exists>lines. map row_line (jd_manifest d) = map Some lines \<and>
       (let sealed = List.map_filter sealed_of lines; retired = List.map_filter retired_of lines in
        distinct (map entry_key sealed)
        \<and> (\<forall>e \<in> set sealed. me_incarnation e \<notin> set retired \<longrightarrow>
              (\<exists>bs. fs_read d (segment_path (me_incarnation e) (me_part e)) = Inr bs
                    \<and> length bs = me_bytes e \<and> Crc32_of H bs = me_crc32 e))
        \<and> (\<forall>ip \<in> set (list_segments d). fst ip \<notin> set retired
              \<and> (ip \<in> entry_key ` set sealed \<or> Some ip = last_option (list_segments d)))))"

lemma verify_lines:
  assumes "read_manifest_lines d = Inr lines"
  shows "verify_manifest H d = [] \<longleftrightarrow>
     (let sealed = List.map_filter sealed_of lines; retired = List.map_filter retired_of lines in
        distinct (map entry_key sealed)
        \<and> (\<forall>e \<in> set sealed. me_incarnation e \<notin> set retired \<longrightarrow> verify_entry H d e = [])
        \<and> (\<forall>ip \<in> set (list_segments d). fst ip \<notin> set retired
              \<and> (ip \<in> entry_key ` set sealed \<or> Some ip = last_option (list_segments d))))"
proof -
  let ?v = "foldl verify_line \<lparr>vs_seen = [], vs_retired = [], vs_sealed = [], vs_issues = []\<rparr> lines"
  have ret: "set (vs_retired ?v) = set (List.map_filter retired_of lines)"
    by (simp add: foldl_verify_retired)
  have iss: "vs_issues ?v = [] \<longleftrightarrow> distinct (map entry_key (List.map_filter sealed_of lines))"
    by (simp add: foldl_verify_issues)
  have sea: "vs_issues ?v = [] \<Longrightarrow> vs_sealed ?v = List.map_filter sealed_of lines
      \<and> set (vs_seen ?v) = set (map entry_key (List.map_filter sealed_of lines))"
    using foldl_verify_sealed
      [of "\<lparr>vs_seen = [], vs_retired = [], vs_sealed = [], vs_issues = []\<rparr>" lines] by simp
  show ?thesis
  proof (cases "vs_issues ?v = []")
    case True
    with sea iss show ?thesis
      unfolding verify_manifest_def assms by (auto simp: Let_def ret verify_part_Nil)
  next
    case False
    with iss show ?thesis
      unfolding verify_manifest_def assms by (auto simp: Let_def)
  qed
qed

lemma verify_manifest_intact: "verify_manifest H d = [] \<longleftrightarrow> journal_intact H d"
proof (cases "read_manifest_lines d")
  case (Inl e)
  then have "\<not> journal_intact H d"
    by (auto simp: journal_intact_def read_manifest_lines_def read_rows_Inr [symmetric])
  with Inl show ?thesis by (simp add: verify_manifest_def)
next
  case (Inr lines)
  then have "map row_line (jd_manifest d) = map Some lines"
    by (simp add: read_manifest_lines_def read_rows_Inr)
  then have "map row_line (jd_manifest d) = map Some ls \<longleftrightarrow> ls = lines" for ls
    by (auto simp: inj_map_eq_map)
  then show ?thesis
    unfolding verify_lines [OF Inr] journal_intact_def
    by (simp add: verify_entry_Nil)
qed

text \<open>C18. \<open>verify_manifest\<close> reports no issue exactly when the journal is intact: the manifest
  reads, no part is sealed twice, every sealed part of an incarnation that is not retired is
  on disk with the recorded length and checksum, and every segment file belongs to a live
  incarnation and is sealed unless it is the newest part.\<close>

theorem verify_manifest_complete: "verify_manifest H d = [] \<longleftrightarrow> journal_intact H d"
  by (rule verify_manifest_intact)

end
