(* ===== verification/Journal_Open.thy ===== *)
theory Journal_Open
  imports Journal_Manifest
begin

text \<open>
  Opening a journal for appending (\<open>src/session/journal/open.rs\<close>): finish an interrupted
  retention, recover the newest segment part (rewind a torn tail, seal what a crash left
  unsealed), reconcile older parts, and create the first part of a new incarnation.
\<close>

section \<open>Operations\<close>

record RecoveryReport =
  rr_incarnation :: nat
  rr_records :: nat
  rr_last_seq :: "nat option"
  rr_stop :: ScanStop
  rr_rewound :: bool

record OpenedJournal =
  oj_incarnation :: nat
  oj_report :: "RecoveryReport option"
  oj_writer :: SegmentWriter

text \<open>\<open>fs::create_dir_all\<close>; the directory itself is not part of the model.\<close>

definition create_dir_all :: "unit io" where
  "create_dir_all d =
     (case next_fault d of (Some _, d1) \<Rightarrow> (Inl OtherIo, d1) | (None, d1) \<Rightarrow> (Inr (), d1))"

fun remove_parts :: "(nat \<times> nat) list \<Rightarrow> unit io" where
  "remove_parts [] = io_return ()"
| "remove_parts ((i, p) # ips) =
     io_bind (fs_remove_file (segment_path i p)) (\<lambda>_. remove_parts ips)"

definition complete_retired_retention :: "nat list \<Rightarrow> unit io" where
  "complete_retired_retention retired d =
     (if retired = [] then io_return () d
      else let gone = filter (\<lambda>ip. fst ip \<in> set retired) (list_segments d)
           in io_bind (remove_parts gone)
                (\<lambda>_. if gone \<noteq> [] then sync_dir else io_return ()) d)"

definition seal_validated_part :: "'h hasher \<Rightarrow> nat \<Rightarrow> nat \<Rightarrow> nat \<Rightarrow> nat \<Rightarrow> unit io" where
  "seal_validated_part H incarnation part first_seq last_seq =
     io_bind (io_lift (\<lambda>d. fs_read d (segment_path incarnation part))) (\<lambda>bs.
     let entry = \<lparr>me_incarnation = incarnation, me_part = part, me_first_seq = first_seq,
                  me_last_seq = last_seq, me_bytes = length bs, me_crc32 = Crc32_of H bs\<rparr>
     in io_bind (SegmentManifestEntry_append_to entry) (\<lambda>_. sync_dir))"

definition remove_empty_part :: "string \<Rightarrow> unit io" where
  "remove_empty_part path = io_bind (fs_remove_file path) (\<lambda>_. sync_dir)"

text \<open>The \<open>match\<close> that decides what becomes of an unmanifested part.\<close>

definition settle_part ::
  "'h hasher \<Rightarrow> bool \<Rightarrow> nat \<Rightarrow> nat \<Rightarrow> nat option \<Rightarrow> SegmentStats \<Rightarrow> unit io" where
  "settle_part H tail incarnation part expected_first stats =
     (case (expected_first, stat_last_seq stats) of
        (Some first, Some last_seq) \<Rightarrow>
          if stat_stop stats = CleanEof \<or> tail \<and> stat_stop stats = PartialTail
          then seal_validated_part H incarnation part first last_seq
          else io_return ()
      | (None, None) \<Rightarrow>
          if stat_stop stats = CleanEof \<and> stat_valid_len stats = 0
          then remove_empty_part (segment_path incarnation part)
          else io_return ()
      | _ \<Rightarrow> io_return ())"

text \<open>A first header that cannot be read is left for the scanner to classify.\<close>

definition first_or_none :: "nat option result \<Rightarrow> nat option" where
  "first_or_none r = (case r of Inr first \<Rightarrow> first | Inl _ \<Rightarrow> None)"

definition rewind_tail :: "string \<Rightarrow> SegmentStats \<Rightarrow> unit io" where
  "rewind_tail path stats =
     (if may_rewind (stat_stop stats)
      then io_bind (fs_set_len path (stat_valid_len stats)) (\<lambda>_. sync_dir)
      else io_return ())"

text \<open>Recovery of the newest part.\<close>

definition recover_tail ::
  "'h hasher \<Rightarrow> (nat \<times> nat) list \<Rightarrow> nat \<times> nat \<Rightarrow> RecoveryReport io" where
  "recover_tail H manifested ip =
     (case ip of (previous, part) \<Rightarrow>
      let path = segment_path previous part in
      io_bind (io_lift (\<lambda>d. fs_read d path)) (\<lambda>content.
      let expected_first = first_or_none (part_first_seq content) in
      if part = 1 \<and> (case expected_first of Some first \<Rightarrow> first \<noteq> 1 | None \<Rightarrow> False)
      then io_lift (\<lambda>d. Inl InvalidData)
      else
        let stats = scan_segment_stats_from H content expected_first in
        io_bind (rewind_tail path stats) (\<lambda>_.
        io_bind (if ip \<in> set manifested then io_return ()
                 else settle_part H True previous part expected_first stats) (\<lambda>_.
        io_return \<lparr>rr_incarnation = previous, rr_records = stat_records stats,
                   rr_last_seq = stat_last_seq stats, rr_stop = stat_stop stats,
                   rr_rewound = may_rewind (stat_stop stats)\<rparr>))))"

text \<open>Reconciliation of one older part.\<close>

definition reconcile_part :: "'h hasher \<Rightarrow> nat \<times> nat \<Rightarrow> unit io" where
  "reconcile_part H ip =
     (case ip of (incarnation, part) \<Rightarrow>
      io_bind (io_lift (\<lambda>d. fs_read d (segment_path incarnation part))) (\<lambda>content.
      case part_first_seq content of
        Inl _ \<Rightarrow> io_return ()
      | Inr expected_first \<Rightarrow>
          settle_part H False incarnation part expected_first
            (scan_segment_stats_from H content expected_first)))"

fun reconcile_parts ::
  "'h hasher \<Rightarrow> (nat \<times> nat) list \<Rightarrow> (nat \<times> nat) option \<Rightarrow> (nat \<times> nat) list \<Rightarrow> unit io" where
  "reconcile_parts H manifested tail [] = io_return ()"
| "reconcile_parts H manifested tail (ip # ips) =
     io_bind (if Some ip = tail \<or> ip \<in> set manifested then io_return () else reconcile_part H ip)
       (\<lambda>_. reconcile_parts H manifested tail ips)"

text \<open>The sum is a \<open>u64\<close>; the release profile leaves overflow checks off, so it wraps.\<close>

definition next_incarnation :: "(nat \<times> nat) list \<Rightarrow> nat list \<Rightarrow> nat" where
  "next_incarnation segments retired =
     (max (case last_option segments of Some ip \<Rightarrow> fst ip | None \<Rightarrow> 0) (foldr max retired 0) + 1)
       mod 2 ^ 64"

definition create_incarnation :: "nat \<Rightarrow> SegmentWriter io" where
  "create_incarnation incarnation =
     io_bind (SegmentWriter_create (segment_path incarnation 1)) (\<lambda>writer.
     io_bind sync_dir (\<lambda>_. io_return writer))"

definition recover_newest ::
  "'h hasher \<Rightarrow> (nat \<times> nat) list \<Rightarrow> (nat \<times> nat) option \<Rightarrow> RecoveryReport option io" where
  "recover_newest H manifested tail =
     (case tail of
        None \<Rightarrow> io_return None
      | Some ip \<Rightarrow> io_bind (recover_tail H manifested ip) (\<lambda>r. io_return (Some r)))"

text \<open>The body of \<open>open\<close> once the set of retired incarnations is known.\<close>

definition open_retired :: "'h hasher \<Rightarrow> nat list \<Rightarrow> OpenedJournal io" where
  "open_retired H retired =
     io_bind (complete_retired_retention retired) (\<lambda>_.
     io_bind (io_lift (\<lambda>d. Inr (list_segments d))) (\<lambda>segments.
     io_bind (io_lift read_manifest) (\<lambda>entries.
     let manifested = map entry_key entries; tail = last_option segments in
     io_bind (recover_newest H manifested tail) (\<lambda>report.
     io_bind (reconcile_parts H manifested tail segments) (\<lambda>_.
     let incarnation = next_incarnation segments retired in
     io_bind (create_incarnation incarnation) (\<lambda>writer.
     io_return \<lparr>oj_incarnation = incarnation, oj_report = report, oj_writer = writer\<rparr>))))))"

definition journal_open :: "'h hasher \<Rightarrow> OpenedJournal io" where
  "journal_open H =
     io_bind create_dir_all (\<lambda>_. io_bind (io_lift retired_incarnations) (open_retired H))"

section \<open>Effects of the steps\<close>

lemma io_lift_eq [simp]: "io_lift f d = (r, d') \<longleftrightarrow> f d = r \<and> d' = d"
  by (auto simp: io_lift_def)

lemma fs_set_len_cases:
  assumes "fs_set_len name n d = (r, d')"
  obtains (ok) "r = Inr ()" "jd_manifest d' = jd_manifest d"
      "\<And>m. file_at d' m = (if m = name
          then map_option (\<lambda>x. x\<lparr>jf_bytes := take n (jf_bytes x)
                                   @ replicate (n - length (jf_bytes x)) 0,
                                 jf_synced := min n (jf_synced x)\<rparr>) (file_at d m)
          else file_at d m)"
  | (err) e where "r = Inl e" "jd_manifest d' = jd_manifest d" "jd_files d' = jd_files d"
proof -
  obtain f d1 where nf: "next_fault d = (f, d1)" by fastforce
  note frame = next_fault_frame [OF nf]
  show ?thesis
  proof (cases "f = None \<and> file_at d1 name \<noteq> None")
    case True
    with nf assms frame show ?thesis
      by (auto simp: fs_set_len_def split: option.splits intro!: ok)
  next
    case False
    with nf assms frame show ?thesis
      by (auto simp: fs_set_len_def split: option.splits if_splits intro!: err)
  qed
qed

lemma map_of_filter_key:
  "map_of (filter (\<lambda>(n, x). n \<noteq> k) xs) m = (if m = k then None else map_of xs m)"
  by (induction xs) auto

lemma fs_remove_file_cases:
  assumes "fs_remove_file name d = (r, d')"
  obtains (ok) "r = Inr ()" "jd_manifest d' = jd_manifest d"
      "\<And>m. file_at d' m = (if m = name then None else file_at d m)"
  | (err) e where "r = Inl e" "jd_manifest d' = jd_manifest d" "jd_files d' = jd_files d"
proof -
  obtain f d1 where nf: "next_fault d = (f, d1)" by fastforce
  note frame = next_fault_frame [OF nf]
  show ?thesis
  proof (cases "f = None \<and> file_at d1 name \<noteq> None")
    case True
    with nf assms frame show ?thesis
      by (auto simp: fs_remove_file_def map_of_filter_key split: option.splits intro!: ok)
  next
    case False
    with nf assms frame show ?thesis
      by (auto simp: fs_remove_file_def split: option.splits if_splits intro!: err)
  qed
qed

lemma create_dir_all_frame:
  "create_dir_all d = (r, d') \<Longrightarrow> jd_files d' = jd_files d \<and> jd_manifest d' = jd_manifest d"
  by (auto simp: create_dir_all_def dest: next_fault_frame split: prod.splits option.splits)

section \<open>What opening does to the records on disk\<close>

text \<open>Outside the incarnations \<open>R\<close>, every part still scans to the same records.\<close>

definition keeps_records :: "'h hasher \<Rightarrow> nat set \<Rightarrow> disk \<Rightarrow> disk \<Rightarrow> bool" where
  "keeps_records H R d d' \<longleftrightarrow>
     (\<forall>i p. i \<notin> R \<longrightarrow>
        so_records (scan_segment H (part_bytes d' i p)) = so_records (scan_segment H (part_bytes d i p)))"

lemma keeps_records_files: "jd_files d' = jd_files d \<Longrightarrow> keeps_records H R d d'"
  by (simp add: keeps_records_def part_bytes_def)

lemma keeps_records_refl [simp]: "keeps_records H R d d"
  by (simp add: keeps_records_def)

lemma keeps_records_trans:
  "keeps_records H R d d1 \<Longrightarrow> keeps_records H R d1 d2 \<Longrightarrow> keeps_records H R d d2"
  by (simp add: keeps_records_def)

lemma io_bind_keeps:
  assumes "io_bind m f d = (r, d')"
    and "\<And>q d1. m d = (q, d1) \<Longrightarrow> keeps_records H R d d1"
    and "\<And>a d1. m d = (Inr a, d1) \<Longrightarrow> f a d1 = (r, d') \<Longrightarrow> keeps_records H R d1 d'"
  shows "keeps_records H R d d'"
  using assms(1) unfolding io_bind_eq by (auto intro: assms(2) keeps_records_trans [OF assms(2) assms(3)])

lemma sync_dir_keeps: "sync_dir d = (r, d') \<Longrightarrow> keeps_records H R d d'"
  by (auto intro: keeps_records_files dest: sync_dir_frame)

lemma io_return_keeps: "io_return a d = (r, d') \<Longrightarrow> keeps_records H R d d'"
  by (simp add: keeps_records_files)

lemma io_lift_keeps: "io_lift f d = (r, d') \<Longrightarrow> keeps_records H R d d'"
  by (simp add: keeps_records_files)

lemma remove_parts_keeps:
  "remove_parts ips d = (r, d') \<Longrightarrow> fst ` set ips \<subseteq> R \<Longrightarrow> keeps_records H R d d'"
proof (induction ips arbitrary: d)
  case Nil
  then show ?case by (simp add: keeps_records_files)
next
  case (Cons ip ips)
  obtain i p where ip: "ip = (i, p)" by (cases ip)
  have one: "keeps_records H R d d1" if "fs_remove_file (segment_path i p) d = (q, d1)" for q d1
    using that
  proof (cases rule: fs_remove_file_cases)
    case ok
    then show ?thesis using Cons.prems(2) ip by (auto simp: keeps_records_def part_bytes_def)
  next
    case (err e)
    then show ?thesis by (simp add: keeps_records_files)
  qed
  from Cons.prems(1) [unfolded ip remove_parts.simps] show ?case
    by (rule io_bind_keeps) (use one Cons.IH Cons.prems(2) in auto)
qed

lemma seal_validated_files:
  "seal_validated_part H i p a b d = (r, d') \<Longrightarrow> jd_files d' = jd_files d"
  by (auto simp: seal_validated_part_def io_bind_eq Let_def SegmentManifestEntry_append_to_def
      dest!: append_manifest_line_cases sync_dir_frame)

context crc_hasher
begin

lemma stats_first_or_none:
  "scan_segment_stats_from H content (first_or_none (part_first_seq content)) =
     \<lparr>stat_records = length (so_records (scan_segment H content)),
      stat_last_seq = (if so_records (scan_segment H content) = [] then None
                       else Some (rec_seq (last (so_records (scan_segment H content))))),
      stat_valid_len = so_valid_len (scan_segment H content),
      stat_stop = so_stop (scan_segment H content)\<rparr>"
proof -
  have "frames H (first_or_none (part_first_seq content)) content = frames H None content"
    by (auto simp: part_first_seq_def first_or_none_def read_exact_or_partial_def frames_expected)
  then show ?thesis
    by (simp add: scan_stats_frames scan_segment_frames split: prod.splits)
qed

lemma rewind_tail_keeps:
  assumes "rewind_tail (segment_path i p) stats d = (r, d')"
    and "stat_valid_len stats = so_valid_len (scan_segment H (part_bytes d i p))"
  shows "keeps_records H R d d'"
proof -
  have len: "so_valid_len (scan_segment H c) \<le> length c" for c
    using frames_len_le [of H None c] by (simp add: scan_segment_frames split: prod.splits)
  have one: "keeps_records H R d d1"
    if "fs_set_len (segment_path i p) (stat_valid_len stats) d = (q, d1)" for q d1
    using that
  proof (cases rule: fs_set_len_cases)
    case ok
    show ?thesis
    proof (cases "file_at d (segment_path i p)")
      case None
      with ok show ?thesis by (simp add: keeps_records_def part_bytes_def)
    next
      case (Some x)
      then have cut: "part_bytes d1 i p
          = take (so_valid_len (scan_segment H (part_bytes d i p))) (part_bytes d i p)"
        using ok(3) assms(2) len [of "jf_bytes x"] by (simp add: part_bytes_def)
      have same: "part_bytes d1 i' p' = part_bytes d i' p'" if "(i', p') \<noteq> (i, p)" for i' p'
        using ok(3) that by (auto simp: part_bytes_def)
      have "so_records (scan_segment H (part_bytes d1 i p))
          = so_records (scan_segment H (part_bytes d i p))"
        unfolding cut scan_segment_cut by simp
      with same show ?thesis unfolding keeps_records_def by (metis Pair_inject)
    qed
  next
    case (err e)
    then show ?thesis by (simp add: keeps_records_files)
  qed
  from assms(1) show ?thesis
    by (auto simp: rewind_tail_def split: if_splits
        intro: io_return_keeps sync_dir_keeps one elim!: io_bind_keeps)
qed

lemma remove_empty_keeps:
  assumes "remove_empty_part (segment_path i p) d = (r, d')"
    and "so_records (scan_segment H (part_bytes d i p)) = []"
  shows "keeps_records H R d d'"
proof -
  have nil: "so_records (scan_segment H []) = []"
    by (simp add: scan_segment_frames frames.simps [of H None "[]"] next_frame_def)
  have one: "keeps_records H R d d1" if "fs_remove_file (segment_path i p) d = (q, d1)" for q d1
    using that
  proof (cases rule: fs_remove_file_cases)
    case ok
    have "part_bytes d1 i' p' = (if i' = i \<and> p' = p then [] else part_bytes d i' p')" for i' p'
      using ok(3) by (auto simp: part_bytes_def)
    then show ?thesis using assms(2) nil by (simp add: keeps_records_def)
  next
    case (err e)
    then show ?thesis by (simp add: keeps_records_files)
  qed
  from assms(1) show ?thesis
    unfolding remove_empty_part_def by (rule io_bind_keeps) (use one sync_dir_keeps in auto)
qed

lemma settle_part_keeps:
  assumes "settle_part H tail i p first stats d = (r, d')"
    and "stat_last_seq stats = None \<Longrightarrow> stat_stop stats = CleanEof \<Longrightarrow>
           so_records (scan_segment H (part_bytes d i p)) = []"
  shows "keeps_records H R d d'"
  using assms
  by (auto simp: settle_part_def keeps_records_files split: option.splits if_splits
      dest!: seal_validated_files remove_empty_keeps)

lemma recover_tail_keeps:
  assumes "recover_tail H man (i, p) d = (r, d')"
  shows "keeps_records H R d d'"
proof (rule io_bind_keeps [OF assms [unfolded recover_tail_def Let_def prod.case]])
  fix content d0
  assume "io_lift (\<lambda>d. fs_read d (segment_path i p)) d = (Inr content, d0)"
  then have d0: "d0 = d" and Inr: "fs_read d (segment_path i p) = Inr content" by auto
  let ?first = "first_or_none (part_first_seq content)"
  let ?stats = "scan_segment_stats_from H content ?first"
  have pb: "part_bytes d i p = content" using Inr by (rule part_bytes_read)
  note stats = stats_first_or_none [of content]
  have rew: "keeps_records H R d d1" if "rewind_tail (segment_path i p) ?stats d = (q, d1)" for q d1
    using rewind_tail_keeps [OF that] by (simp add: pb stats)
  have settle: "keeps_records H R d1 d2"
    if "rewind_tail (segment_path i p) ?stats d = (q, d1)"
      "settle_part H True i p ?first ?stats d1 = (q', d2)" for q d1 q' d2
  proof (rule settle_part_keeps [OF that(2)])
    assume none: "stat_last_seq ?stats = None" and cl: "stat_stop ?stats = CleanEof"
    have "d1 = d" using that(1) cl by (simp add: rewind_tail_def may_rewind_def)
    with none pb show "so_records (scan_segment H (part_bytes d1 i p)) = []"
      by (auto simp: stats split: if_splits)
  qed
  assume "(if p = 1 \<and> (case ?first of Some first \<Rightarrow> first \<noteq> 1 | None \<Rightarrow> False)
      then io_lift (\<lambda>d. Inl InvalidData)
      else io_bind (rewind_tail (segment_path i p) ?stats) (\<lambda>_.
        io_bind (if (i, p) \<in> set man then io_return ()
                 else settle_part H True i p ?first ?stats) (\<lambda>_.
        io_return \<lparr>rr_incarnation = i, rr_records = stat_records ?stats,
                   rr_last_seq = stat_last_seq ?stats, rr_stop = stat_stop ?stats,
                   rr_rewound = may_rewind (stat_stop ?stats)\<rparr>))) d0 = (r, d')"
  then show "keeps_records H R d0 d'"
    unfolding d0
    by (auto split: if_splits intro: io_return_keeps io_lift_keeps rew settle elim!: io_bind_keeps)
qed (rule io_lift_keeps)

lemma reconcile_part_keeps:
  assumes "reconcile_part H (i, p) d = (r, d')"
  shows "keeps_records H R d d'"
proof (rule io_bind_keeps [OF assms [unfolded reconcile_part_def prod.case]])
  fix content d0
  assume "io_lift (\<lambda>d. fs_read d (segment_path i p)) d = (Inr content, d0)"
  then have d0: "d0 = d" and pb: "part_bytes d i p = content" by (auto intro: part_bytes_read)
  have settle: "keeps_records H R d d'"
    if "part_first_seq content = Inr first"
      "settle_part H False i p first (scan_segment_stats_from H content first) d = (r, d')" for first
    using stats_first_or_none [of content] that(1) pb
    by (intro settle_part_keeps [OF that(2)]) (auto simp: first_or_none_def split: if_splits)
  assume "(case part_first_seq content of Inl _ \<Rightarrow> io_return ()
      | Inr first \<Rightarrow> settle_part H False i p first (scan_segment_stats_from H content first)) d0
      = (r, d')"
  then show "keeps_records H R d0 d'"
    unfolding d0 by (auto split: sum.splits intro: io_return_keeps settle)
qed (rule io_lift_keeps)

lemma reconcile_parts_keeps:
  "reconcile_parts H man tail ips d = (r, d') \<Longrightarrow> keeps_records H R d d'"
proof (induction ips arbitrary: d)
  case Nil
  then show ?case by (simp add: keeps_records_files)
next
  case (Cons ip ips)
  obtain i p where ip: "ip = (i, p)" by (cases ip)
  from Cons.prems [unfolded reconcile_parts.simps] show ?case
    by (rule io_bind_keeps)
      (use Cons.IH ip in \<open>auto split: if_splits intro: io_return_keeps reconcile_part_keeps\<close>)
qed

lemma complete_retention_keeps:
  assumes "complete_retired_retention retired d = (r, d')"
  shows "keeps_records H (set retired) d d'"
proof (cases "retired = []")
  case True
  with assms show ?thesis by (simp add: complete_retired_retention_def)
next
  case False
  let ?gone = "filter (\<lambda>ip. fst ip \<in> set retired) (list_segments d)"
  have "io_bind (remove_parts ?gone) (\<lambda>_. if ?gone \<noteq> [] then sync_dir else io_return ()) d = (r, d')"
    using assms False unfolding complete_retired_retention_def Let_def by simp
  then show ?thesis
  proof (rule io_bind_keeps)
    fix q d1
    assume "remove_parts ?gone d = (q, d1)"
    then show "keeps_records H (set retired) d d1" by (rule remove_parts_keeps) auto
  qed (auto split: if_splits intro: sync_dir_keeps)
qed

lemma create_incarnation_keeps:
  assumes "create_incarnation n d = (r, d')"
  shows "keeps_records H R d d'"
proof -
  have nil: "so_records (scan_segment H []) = []"
    by (simp add: scan_segment_frames frames.simps [of H None "[]"] next_frame_def)
  have new: "keeps_records H R d0 d1" if "fs_create_new (segment_path n 1) d0 = (q, d1)" for d0 q d1
    using that
  proof (cases rule: fs_create_new_cases)
    case ok
    have "part_bytes d1 i p = part_bytes d0 i p" for i p
      using ok(3,4) by (auto simp: part_bytes_def)
    then show ?thesis by (simp add: keeps_records_def)
  next
    case (err e)
    then show ?thesis by (simp add: keeps_records_files)
  qed
  have sw: "keeps_records H R d0 d1" if "SegmentWriter_create (segment_path n 1) d0 = (q, d1)" for d0 q d1
    using that unfolding SegmentWriter_create_def
    by (rule io_bind_keeps) (use new io_return_keeps in auto)
  from assms show ?thesis
    unfolding create_incarnation_def
    by (auto elim!: io_bind_keeps intro: sw sync_dir_keeps io_return_keeps)
qed

lemma recover_newest_keeps:
  "recover_newest H man tail d = (r, d') \<Longrightarrow> keeps_records H R d d'"
  by (auto simp: recover_newest_def split: option.splits prod.splits
      intro: recover_tail_keeps elim!: io_bind_keeps)

lemma open_retired_keeps:
  assumes "open_retired H retired d = (r, d')"
  shows "keeps_records H (set retired) d d'"
  using assms unfolding open_retired_def Let_def
  by (auto intro: complete_retention_keeps recover_newest_keeps reconcile_parts_keeps
      create_incarnation_keeps elim!: io_bind_keeps)

lemma journal_open_keeps:
  assumes "journal_open H d = (r, d')" and "retired_incarnations d = Inr retired"
  shows "keeps_records H (set retired) d d'"
proof (rule io_bind_keeps [OF assms(1) [unfolded journal_open_def]])
  fix q d1
  assume "create_dir_all d = (q, d1)"
  then show "keeps_records H (set retired) d d1"
    by (auto dest: create_dir_all_frame intro: keeps_records_files)
next
  fix u d1
  assume dir: "create_dir_all d = (Inr u, d1)"
    and run: "io_bind (io_lift retired_incarnations) (open_retired H) d1 = (r, d')"
  have "retired_incarnations d1 = Inr retired"
    using create_dir_all_frame [OF dir] assms(2)
    by (simp add: retired_incarnations_def read_manifest_lines_def)
  with run show "keeps_records H (set retired) d1 d'"
    by (auto simp: io_bind_eq intro: open_retired_keeps)
qed

end

section \<open>The new incarnation\<close>

text \<open>Successful steps leave the manifest readable.\<close>

definition rows_kept :: "disk \<Rightarrow> disk \<Rightarrow> bool" where
  "rows_kept d d' \<longleftrightarrow>
     (\<forall>ls. jd_manifest d = map Row ls \<longrightarrow> (\<exists>ls'. jd_manifest d' = map Row (ls @ map Sealed ls')))"

lemma rows_kept_same: "jd_manifest d' = jd_manifest d \<Longrightarrow> rows_kept d d'"
  by (auto simp: rows_kept_def intro: exI [of _ "[]"])

lemma rows_kept_refl [simp]: "rows_kept d d"
  by (simp add: rows_kept_same)

lemma rows_kept_trans:
  assumes "rows_kept d d1" and "rows_kept d1 d2"
  shows "rows_kept d d2"
proof -
  have "\<exists>ls'. jd_manifest d2 = map Row (ls @ map Sealed ls')" if "jd_manifest d = map Row ls" for ls
  proof -
    from assms(1) that obtain a where "jd_manifest d1 = map Row (ls @ map Sealed a)"
      unfolding rows_kept_def by blast
    with assms(2) obtain b where "jd_manifest d2 = map Row ((ls @ map Sealed a) @ map Sealed b)"
      unfolding rows_kept_def by blast
    then show ?thesis by (intro exI [of _ "a @ b"]) simp
  qed
  then show ?thesis unfolding rows_kept_def by blast
qed

lemma io_bind_rows:
  assumes "io_bind m f d = (Inr b, d')"
    and "\<And>a d1. m d = (Inr a, d1) \<Longrightarrow> rows_kept d d1"
    and "\<And>a d1. m d = (Inr a, d1) \<Longrightarrow> f a d1 = (Inr b, d') \<Longrightarrow> rows_kept d1 d'"
  shows "rows_kept d d'"
  using assms(1) unfolding io_bind_eq by (auto intro: rows_kept_trans [OF assms(2) assms(3)])

lemma step_rows:
  "sync_dir d = (r1, d') \<Longrightarrow> rows_kept d d'"
  "fs_remove_file n d = (r1, d') \<Longrightarrow> rows_kept d d'"
  "fs_set_len n k d = (r1, d') \<Longrightarrow> rows_kept d d'"
  "fs_create_new n d = (r1, d') \<Longrightarrow> rows_kept d d'"
  by (auto dest: sync_dir_frame intro: rows_kept_same elim: fs_remove_file_cases fs_set_len_cases
      fs_create_new_cases)

lemma seal_validated_rows:
  assumes "seal_validated_part H i p a b d = (Inr u, d')"
  shows "rows_kept d d'"
proof -
  have line: "rows_kept d1 d2" if "append_manifest_line (Sealed e) d1 = (Inr v, d2)" for e d1 v d2
    using append_manifest_line_cases [OF that]
    by (auto simp: rows_kept_def intro!: exI [of _ "[e]"])
  from assms show ?thesis
    unfolding seal_validated_part_def Let_def SegmentManifestEntry_append_to_def
    by (auto elim!: io_bind_rows intro: line step_rows)
qed

lemma settle_part_rows: "settle_part H tail i p first stats d = (Inr u, d') \<Longrightarrow> rows_kept d d'"
  by (auto simp: settle_part_def remove_empty_part_def split: option.splits if_splits
      intro: seal_validated_rows step_rows elim!: io_bind_rows)

lemma reconcile_parts_rows:
  "reconcile_parts H man tail ips d = (Inr u, d') \<Longrightarrow> rows_kept d d'"
proof (induction ips arbitrary: d)
  case Nil
  then show ?case by (simp add: rows_kept_same)
next
  case (Cons ip ips)
  have "rows_kept d0 d1" if "reconcile_part H ip d0 = (Inr v, d1)" for d0 v d1
    using that unfolding reconcile_part_def
    by (auto split: sum.splits prod.splits intro: settle_part_rows step_rows elim!: io_bind_rows)
  with Cons show ?case
    by (auto split: if_splits intro: step_rows elim!: io_bind_rows)
qed

lemma recover_newest_rows: "recover_newest H man tail d = (Inr u, d') \<Longrightarrow> rows_kept d d'"
  by (auto simp: recover_newest_def recover_tail_def rewind_tail_def Let_def
      split: option.splits prod.splits if_splits
      intro: settle_part_rows step_rows elim!: io_bind_rows)

lemma remove_parts_manifest: "remove_parts ips d = (r, d') \<Longrightarrow> jd_manifest d' = jd_manifest d"
proof (induction ips arbitrary: d)
  case (Cons ip ips)
  obtain i p where "ip = (i, p)" by (cases ip)
  with Cons show ?case by (auto simp: io_bind_eq elim: fs_remove_file_cases)
qed simp

lemma complete_retention_manifest:
  "complete_retired_retention retired d = (r, d') \<Longrightarrow> jd_manifest d' = jd_manifest d"
  by (auto simp: complete_retired_retention_def Let_def io_bind_eq split: if_splits
      dest!: remove_parts_manifest sync_dir_frame)

lemma remove_parts_others:
  assumes "remove_parts ips d = (Inr u, d')" and "name \<notin> (\<lambda>(i, p). segment_path i p) ` set ips"
  shows "file_at d' name = file_at d name"
  using assms
proof (induction ips arbitrary: d)
  case Nil
  then show ?case by simp
next
  case (Cons ip ips)
  obtain i p where ip: "ip = (i, p)" by (cases ip)
  from Cons.prems(1) obtain v d1 where rm: "fs_remove_file (segment_path i p) d = (Inr v, d1)"
    and rest: "remove_parts ips d1 = (Inr u, d')"
    by (auto simp: ip io_bind_eq)
  from rm have "file_at d1 name = file_at d name"
    by (cases rule: fs_remove_file_cases) (use Cons.prems(2) ip in auto)
  with Cons.IH [OF rest] Cons.prems(2) show ?case by simp
qed

text \<open>Completing retention removes no part of an incarnation that is not retired.\<close>

lemma complete_retention_lists:
  assumes run: "complete_retired_retention retired d = (Inr u, d')"
    and ip: "ip \<in> set (list_segments d)" "fst ip \<notin> set retired"
  shows "ip \<in> set (list_segments d')"
proof (cases "retired = []")
  case True
  with run ip show ?thesis by (simp add: complete_retired_retention_def)
next
  case False
  let ?gone = "filter (\<lambda>ip. fst ip \<in> set retired) (list_segments d)"
  from run False obtain v d1 where rm: "remove_parts ?gone d = (Inr v, d1)"
    and files: "jd_files d' = jd_files d1"
    unfolding complete_retired_retention_def Let_def
    by (auto simp: io_bind_eq split: if_splits dest: sync_dir_frame)
  from ip(1) obtain name where name: "file_at d name \<noteq> None" "parse_segment_name name = Some ip"
    by (auto simp: in_list_segments)
  have "name \<notin> (\<lambda>(i, p). segment_path i p) ` set ?gone"
  proof
    assume "name \<in> (\<lambda>(i, p). segment_path i p) ` set ?gone"
    then obtain i p where g: "(i, p) \<in> set (list_segments d)" "i \<in> set retired"
      "name = segment_path i p" by auto
    then have "i < 2 ^ 64 \<and> p < 2 ^ 64" by (auto simp: in_list_segments dest: parse_segment_less)
    with g(3) have "parse_segment_name name = Some (i, p)" by (simp add: parse_segment_path)
    with name(2) ip(2) g(2) show False by auto
  qed
  from remove_parts_others [OF rm this] name files show ?thesis
    unfolding in_list_segments by metis
qed

lemma sorted_last_le: "sorted xs \<Longrightarrow> x \<in> set xs \<Longrightarrow> x \<le> last xs"
  by (induction xs) auto

lemma foldr_max_bounds:
  "r \<in> set rs \<Longrightarrow> r \<le> foldr max rs (0 :: nat)"
  "(\<And>r. r \<in> set rs \<Longrightarrow> r < b) \<Longrightarrow> 0 < b \<Longrightarrow> foldr max rs 0 < b"
  by (induction rs) auto

text \<open>The largest incarnation number is never in use or retired, so the next one does not wrap.\<close>

definition numbers_left :: "nat list \<Rightarrow> disk \<Rightarrow> bool" where
  "numbers_left retired d \<longleftrightarrow>
     (\<forall>ip \<in> set (list_segments d). fst ip < 2 ^ 64 - 1) \<and> (\<forall>r \<in> set retired. r < 2 ^ 64 - 1)"

lemma next_incarnation_above:
  assumes "sorted segments" and "\<And>ip. ip \<in> set segments \<Longrightarrow> fst ip < 2 ^ 64 - 1"
    and "\<And>r. r \<in> set retired \<Longrightarrow> r < 2 ^ 64 - 1"
  shows "ip \<in> set segments \<Longrightarrow> fst ip < next_incarnation segments retired"
    and "r \<in> set retired \<Longrightarrow> r < next_incarnation segments retired"
proof -
  let ?top = "case last_option segments of Some ip \<Rightarrow> fst ip | None \<Rightarrow> 0"
  have "?top < 2 ^ 64 - 1" using assms(2) by (auto simp: last_option_def)
  moreover have "foldr max retired 0 < 2 ^ 64 - 1"
    by (rule foldr_max_bounds(2)) (use assms(3) in auto)
  ultimately have n: "next_incarnation segments retired = max ?top (foldr max retired 0) + 1"
    by (simp add: next_incarnation_def)
  show "fst ip < next_incarnation segments retired" if "ip \<in> set segments"
  proof -
    from that have "segments \<noteq> []" and "ip \<le> last segments"
      using sorted_last_le [OF assms(1)] by auto
    then show ?thesis by (auto simp: n last_option_def less_eq_prod_def)
  qed
  show "r < next_incarnation segments retired" if "r \<in> set retired"
    using foldr_max_bounds(1) [OF that] by (simp add: n)
qed

lemma create_incarnation_fresh:
  assumes "create_incarnation n d = (Inr w, d')"
  shows "w = \<lparr>sw_file = segment_path n 1, sw_written = 0\<rparr>
     \<and> file_at d' (segment_path n 1) = Some \<lparr>jf_bytes = [], jf_synced = 0\<rparr>
     \<and> jd_manifest d' = jd_manifest d"
proof -
  from assms obtain d1 where cr: "fs_create_new (segment_path n 1) d = (Inr (), d1)"
    and w: "w = \<lparr>sw_file = segment_path n 1, sw_written = 0\<rparr>"
    and fr: "jd_files d' = jd_files d1 \<and> jd_manifest d' = jd_manifest d1"
    by (auto simp: create_incarnation_def SegmentWriter_create_def io_bind_eq dest!: sync_dir_frame)
  from cr show ?thesis by (cases rule: fs_create_new_cases) (use w fr in auto)
qed

lemma journal_open_Inr:
  assumes "journal_open H d = (Inr oj, d')"
  obtains retired d1 d2 d3 d4 segments report where
    "retired_incarnations d = Inr retired" "jd_files d1 = jd_files d" "jd_manifest d1 = jd_manifest d"
    "complete_retired_retention retired d1 = (Inr (), d2)" "segments = list_segments d2"
    "rows_kept d2 d4" "oj_incarnation oj = next_incarnation segments retired"
    "oj_report oj = report" "create_incarnation (oj_incarnation oj) d4 = (Inr (oj_writer oj), d')"
proof -
  from assms obtain u d1 retired where dir: "create_dir_all d = (Inr u, d1)"
    and ret: "retired_incarnations d1 = Inr retired"
    and op: "open_retired H retired d1 = (Inr oj, d')"
    by (auto simp: journal_open_def io_bind_eq)
  note fr = create_dir_all_frame [OF dir]
  have ret': "retired_incarnations d = Inr retired"
    using ret fr by (simp add: retired_incarnations_def read_manifest_lines_def)
  from op obtain d2 entries d3 d4 report where
    "complete_retired_retention retired d1 = (Inr (), d2)"
    "recover_newest H (map entry_key entries) (last_option (list_segments d2)) d2 = (Inr report, d3)"
    "reconcile_parts H (map entry_key entries) (last_option (list_segments d2)) (list_segments d2) d3
       = (Inr (), d4)"
    "oj_incarnation oj = next_incarnation (list_segments d2) retired" "oj_report oj = report"
    "create_incarnation (oj_incarnation oj) d4 = (Inr (oj_writer oj), d')"
    by (auto simp: open_retired_def io_bind_eq Let_def)
  moreover have "rows_kept d2 d4"
    using rows_kept_trans [OF recover_newest_rows reconcile_parts_rows] calculation by blast
  ultimately show thesis using that ret' fr by blast
qed

lemma remove_parts_shrinks:
  "remove_parts ips d = (r, d') \<Longrightarrow> file_at d' name \<noteq> None \<Longrightarrow> file_at d name \<noteq> None"
proof (induction ips arbitrary: d)
  case (Cons ip ips)
  obtain i p where ip: "ip = (i, p)" by (cases ip)
  have "file_at d name \<noteq> None"
    if "fs_remove_file (segment_path i p) d = (q, d1)" "file_at d1 name \<noteq> None" for q d1
    using that(1) by (cases rule: fs_remove_file_cases) (use that(2) in \<open>auto split: if_splits\<close>)
  with Cons show ?case by (auto simp: ip io_bind_eq)
qed simp

lemma complete_retention_shrinks:
  assumes "complete_retired_retention retired d = (Inr u, d')" and "ip \<in> set (list_segments d')"
  shows "ip \<in> set (list_segments d)"
proof -
  have "file_at d name \<noteq> None" if "file_at d' name \<noteq> None" for name
    using assms(1) that unfolding complete_retired_retention_def Let_def
    by (auto simp: io_bind_eq split: if_splits dest!: sync_dir_frame remove_parts_shrinks)
  with assms(2) show ?thesis unfolding in_list_segments by blast
qed

lemma journal_open_fresh:
  assumes "journal_open H d = (Inr oj, d')" and "retired_incarnations d = Inr retired"
    and "numbers_left retired d" and "manifest_ended d"
  shows "(\<forall>ip \<in> set (list_segments d). fst ip < oj_incarnation oj)
     \<and> (\<forall>r \<in> set retired. r < oj_incarnation oj)
     \<and> oj_writer oj = \<lparr>sw_file = segment_path (oj_incarnation oj) 1, sw_written = 0\<rparr>
     \<and> file_at d' (segment_path (oj_incarnation oj) 1) = Some \<lparr>jf_bytes = [], jf_synced = 0\<rparr>
     \<and> (\<exists>rows. jd_manifest d' = map Row rows)"
proof -
  from assms(1) obtain d1 d2 d4 segments where fr: "jd_files d1 = jd_files d"
    "jd_manifest d1 = jd_manifest d"
    and cr: "complete_retired_retention retired d1 = (Inr (), d2)" and seg: "segments = list_segments d2"
    and rows: "rows_kept d2 d4" and n: "oj_incarnation oj = next_incarnation segments retired"
    and new: "create_incarnation (oj_incarnation oj) d4 = (Inr (oj_writer oj), d')"
    by (rule journal_open_Inr) (use assms(2) in auto)
  have "sorted segments" by (simp add: seg list_segments_sorted)
  moreover have "fst ip < 2 ^ 64 - 1" if "ip \<in> set segments" for ip
    using complete_retention_shrinks [OF cr] that assms(3) list_segments_files [OF fr(1)]
    unfolding seg numbers_left_def by metis
  moreover have "r < 2 ^ 64 - 1" if "r \<in> set retired" for r
    using that assms(3) by (simp add: numbers_left_def)
  ultimately have above: "ip \<in> set segments \<Longrightarrow> fst ip < oj_incarnation oj"
    "r \<in> set retired \<Longrightarrow> r < oj_incarnation oj" for ip r
    unfolding n by (rule next_incarnation_above; blast)+
  have "fst ip < oj_incarnation oj" if "ip \<in> set (list_segments d)" for ip
  proof (cases "fst ip \<in> set retired")
    case True
    then show ?thesis by (rule above(2))
  next
    case False
    then have "ip \<in> set segments"
      unfolding seg using complete_retention_lists [OF cr] that list_segments_files [OF fr(1)] by simp
    then show ?thesis by (rule above(1))
  qed
  moreover have "\<exists>rows. jd_manifest d' = map Row rows"
  proof -
    from assms(2) obtain ls where "read_manifest_lines d = Inr ls"
      by (auto simp: retired_incarnations_def bind_result_eq_Inr)
    then have "jd_manifest d = map Row ls" using assms(4) by (rule read_manifest_ended)
    then have "jd_manifest d2 = map Row ls"
      using fr complete_retention_manifest [OF cr] by simp
    with rows obtain ls' where "jd_manifest d4 = map Row (ls @ map Sealed ls')"
      unfolding rows_kept_def by blast
    then show ?thesis using create_incarnation_fresh [OF new] by metis
  qed
  ultimately show ?thesis using above create_incarnation_fresh [OF new] by blast
qed

text \<open>Opening a journal starts an incarnation that never existed: as long as the last number is
  not in use and every manifest line has its newline, the new number is above every incarnation
  with a file in the directory and above every retired one, its first part is a new empty file, the
  returned writer is at its start, and the manifest is readable.\<close>

theorem open_new_incarnation:
  assumes "journal_open H d = (Inr oj, d')" and "retired_incarnations d = Inr retired"
    and "numbers_left retired d" and "manifest_ended d"
  shows "(\<forall>ip \<in> set (list_segments d). fst ip < oj_incarnation oj)
     \<and> (\<forall>r \<in> set retired. r < oj_incarnation oj)
     \<and> oj_writer oj = \<lparr>sw_file = segment_path (oj_incarnation oj) 1, sw_written = 0\<rparr>
     \<and> file_at d' (segment_path (oj_incarnation oj) 1) = Some \<lparr>jf_bytes = [], jf_synced = 0\<rparr>
     \<and> (\<exists>rows. jd_manifest d' = map Row rows)"
  using assms by (rule journal_open_fresh)

lemma append_line_eval:
  "jd_faults d = [None, Some n] \<Longrightarrow> 0 < n \<Longrightarrow> append_manifest_line line d
     = (Inl OtherIo, d\<lparr>jd_faults := [], jd_manifest := append_row (jd_manifest d) (cut_row line n)\<rparr>)"
  "jd_faults d = [] \<Longrightarrow> append_manifest_line line d
     = (Inr (), d\<lparr>jd_manifest := append_row (jd_manifest d) (Row line)\<rparr>)"
  by (simp_all add: append_manifest_line_def io_bind_def manifest_open_def manifest_write_def
      next_fault_def sync_dir_def)

lemma open_unreadable:
  "jd_faults d = [] \<Longrightarrow> read_rows (jd_manifest d) = Inl e \<Longrightarrow> journal_open H d = (Inl e, d)"
  by (simp add: journal_open_def io_bind_def create_dir_all_def next_fault_def io_lift_def
      retired_incarnations_def read_manifest_lines_def bind_result_def)

text \<open>C21. Opening a journal loses no record: whatever faults strike it and whether or not it
  succeeds, every part of an incarnation that is not retired scans to exactly the records it had
  before, although a torn tail was cut off, empty leftovers were removed and parts were sealed.\<close>

theorem open_keeps_records:
  assumes "crc_hasher H" and "journal_open H d = (r, d')" and "retired_incarnations d = Inr retired"
    and "i \<notin> set retired"
  shows "so_records (scan_segment H (part_bytes d' i p)) = so_records (scan_segment H (part_bytes d i p))"
  using crc_hasher.journal_open_keeps [OF assms(1-3)] assms(4) unfolding keeps_records_def by blast

text \<open>An empty directory, and one that holds a torn part.\<close>

definition empty_disk :: disk where
  "empty_disk = \<lparr>jd_files = [], jd_manifest = [], jd_faults = []\<rparr>"

lemmas open_eval = journal_open_def open_retired_def create_dir_all_def retired_incarnations_def
  read_manifest_lines_def complete_retired_retention_def list_segments_def read_manifest_def
  recover_newest_def last_option_def next_incarnation_def create_incarnation_def
  SegmentWriter_create_def fs_create_new_def sync_dir_def next_fault_def io_bind_def io_lift_def
  io_return_def List.map_filter_simps Let_def

theorem open_new_incarnation_witness:
  "oj_writer \<lparr>oj_incarnation = 1, oj_report = None,
              oj_writer = \<lparr>sw_file = segment_path 1 1, sw_written = 0\<rparr>\<rparr>
     = \<lparr>sw_file = segment_path 1 1, sw_written = 0\<rparr>
   \<and> fst (journal_open table_hasher empty_disk)
     = Inr \<lparr>oj_incarnation = 1, oj_report = None,
            oj_writer = \<lparr>sw_file = segment_path 1 1, sw_written = 0\<rparr>\<rparr>"
proof -
  have "journal_open table_hasher empty_disk
      = (Inr \<lparr>oj_incarnation = 1, oj_report = None,
              oj_writer = \<lparr>sw_file = segment_path 1 1, sw_written = 0\<rparr>\<rparr>,
         \<lparr>jd_files = [(segment_path 1 1, \<lparr>jf_bytes = [], jf_synced = 0\<rparr>)], jd_manifest = [],
          jd_faults = []\<rparr>)"
    by (simp add: open_eval empty_disk_def)
  moreover have "retired_incarnations empty_disk = Inr []" "numbers_left [] empty_disk"
    "manifest_ended empty_disk"
    by (simp_all add: empty_disk_def retired_incarnations_def read_manifest_lines_def
        numbers_left_def list_segments_def manifest_ended_def List.map_filter_simps)
  ultimately show ?thesis using open_new_incarnation by force
qed

definition torn_disk :: disk where
  "torn_disk =
     \<lparr>jd_files = [(segment_path 5 1, \<lparr>jf_bytes = encode_records table_hasher [hd sample_records]
          @ take 37 (encode_record table_hasher (last sample_records)), jf_synced = 0\<rparr>)],
      jd_manifest = [], jd_faults = []\<rparr>"

lemma torn_disk_records:
  "so_records (scan_segment table_hasher (part_bytes torn_disk 5 1)) = [hd sample_records]"
proof -
  have "record_run 7 ([hd sample_records] @ [last sample_records])"
    using sample_record_run by (simp add: sample_records_def)
  moreover have "37 < length (encode_record table_hasher (last sample_records))"
    by (simp add: sample_records_def HEADER_LEN_36)
  ultimately show ?thesis
    using table_crc.segment_scan_torn [of 7 "[hd sample_records]" "last sample_records" 37]
    by (simp add: part_bytes_def torn_disk_def)
qed

theorem open_keeps_records_witness:
  "so_records (scan_segment table_hasher
     (part_bytes (snd (journal_open table_hasher torn_disk)) 5 1)) = [hd sample_records]"
proof -
  have "retired_incarnations torn_disk = Inr []"
    by (simp add: torn_disk_def retired_incarnations_def read_manifest_lines_def List.map_filter_simps)
  from open_keeps_records [OF table_crc.crc_hasher_axioms prod.collapse [symmetric] this, of 5 1]
  show ?thesis by (simp add: torn_disk_records del: One_nat_def)
qed

text \<open>C22. A manifest line whose append was cut short is never repaired. Let the write stop after
  \<open>n\<close> bytes, inside the line or just before its newline: the call fails and no segment byte is
  touched. If the text was cut, opening the journal fails with \<open>InvalidData\<close> from then on. If only
  the newline was lost, the line still reads; but in both cases the next append, although it
  succeeds, joins the unended line, and every later attempt to open the journal fails with
  \<open>InvalidData\<close> and changes nothing.\<close>

theorem torn_manifest_blocks_open:
  assumes "jd_faults d = [None, Some n]" and "0 < n" and "n \<le> length (manifest_text line)"
    and "append_manifest_line line d = (r1, d1)" and "append_manifest_line line' d1 = (r2, d2)"
  shows "r1 = Inl OtherIo \<and> jd_files d1 = jd_files d
     \<and> (n < length (manifest_text line) \<longrightarrow> journal_open H d1 = (Inl InvalidData, d1))
     \<and> (\<forall>ls. n = length (manifest_text line) \<and> jd_manifest d = map Row ls \<longrightarrow>
          read_manifest_lines d1 = Inr (ls @ [line]))
     \<and> r2 = Inr () \<and> jd_files d2 = jd_files d \<and> journal_open H d2 = (Inl InvalidData, d2)"
proof -
  have cut: "unended (cut_row line n)" using assms(3) by (simp add: cut_row_def)
  let ?d1 = "d\<lparr>jd_faults := [], jd_manifest := append_row (jd_manifest d) (cut_row line n)\<rparr>"
  have d1: "r1 = Inl OtherIo" "d1 = ?d1"
    using assms(1,2,4) by (simp_all add: append_line_eval)
  have d2: "r2 = Inr ()" "d2 = d1\<lparr>jd_manifest := append_row (jd_manifest d1) (Row line')\<rparr>"
    using assms(5) by (simp_all add: d1 append_line_eval)
  have "journal_open H d2 = (Inl InvalidData, d2)"
    by (rule open_unreadable) (simp_all add: d1 d2 append_unended_unreadable [OF cut])
  moreover have "journal_open H d1 = (Inl InvalidData, d1)" if "n < length (manifest_text line)"
    by (rule open_unreadable) (use that in \<open>simp_all add: d1 cut_row_def append_torn_unreadable\<close>)
  moreover have "read_manifest_lines d1 = Inr (ls @ [line])"
    if "n = length (manifest_text line)" "jd_manifest d = map Row ls" for ls
    using that by (simp add: d1 read_manifest_lines_def cut_row_def read_rows_append bind_result_def)
  ultimately show ?thesis by (simp add: d1 d2)
qed

text \<open>The whole tombstone \<open>{"retired":1}\<close> without its newline, and then another one.\<close>

theorem torn_manifest_blocks_open_witness:
  "let d1 = snd (append_manifest_line (Retired 1) (empty_disk\<lparr>jd_faults := [None, Some 13]\<rparr>));
       d2 = snd (append_manifest_line (Retired 2) d1)
   in read_manifest_lines d1 = Inr [Retired 1] \<and> journal_open table_hasher d2 = (Inl InvalidData, d2)"
proof -
  have "length (manifest_text (Retired 1)) = 13"
    by (simp add: json_field_def show_dec.simps)
  then show ?thesis
    using torn_manifest_blocks_open [OF _ _ _ prod.collapse [symmetric] prod.collapse [symmetric],
        of "empty_disk\<lparr>jd_faults := [None, Some 13]\<rparr>" 13 "Retired 1" table_hasher "Retired 2"]
    by (simp add: Let_def empty_disk_def)
qed

end
