(* ===== verification/Journal_Checkpoint.thy ===== *)
theory Journal_Checkpoint
  imports Journal_Record
begin

unbundle bit_operations_syntax

text \<open>
  The checkpoint payload (\<open>Checkpoint\<close>, \<open>encode_checkpoint\<close>, \<open>decode_checkpoint\<close> of
  \<open>src/session/journal/checkpoint.rs\<close>): the versioned restore anchor that a record of kind
  \<open>CheckpointRef\<close> carries.
\<close>

section \<open>The codec\<close>

definition CHECKPOINT_VERSION :: nat where
  "CHECKPOINT_VERSION = 2"

definition CHECKPOINT_MAGIC :: bytes where
  "CHECKPOINT_MAGIC = ascii ''OJCK''"

record Checkpoint =
  cp_rows :: nat
  cp_cols :: nat
  cp_cursor :: "nat \<times> nat"
  cp_alt_screen :: bool
  cp_app_cursor_keys :: bool
  cp_bracketed_paste :: bool
  cp_filtered_offset :: nat
  cp_program :: bytes

definition checkpoint_flags :: "Checkpoint \<Rightarrow> byte" where
  "checkpoint_flags c =
     (of_bool (cp_alt_screen c)
        OR push_bit 1 (of_bool (cp_app_cursor_keys c))
        OR push_bit 2 (of_bool (cp_bracketed_paste c)))"

definition encode_checkpoint :: "Checkpoint \<Rightarrow> bytes" where
  "encode_checkpoint c =
     CHECKPOINT_MAGIC @ le_bytes 2 CHECKPOINT_VERSION
       @ le_bytes 2 (cp_rows c) @ le_bytes 2 (cp_cols c)
       @ le_bytes 2 (fst (cp_cursor c)) @ le_bytes 2 (snd (cp_cursor c))
       @ [checkpoint_flags c]
       @ le_bytes 8 (cp_filtered_offset c)
       @ le_bytes 4 (length (cp_program c)) @ cp_program c"

text \<open>\<open>take(&mut rest, n)\<close>: the first \<open>n\<close> bytes and the remainder.\<close>

definition take_bytes :: "nat \<Rightarrow> bytes \<Rightarrow> (bytes \<times> bytes) result" where
  "take_bytes n payload =
     (if length payload < n then Inl InvalidData else Inr (take n payload, drop n payload))"

text \<open>The filtered offset, which records of format version 1 do not carry.\<close>

definition take_filtered_offset :: "nat \<Rightarrow> bytes \<Rightarrow> (nat \<times> bytes) result" where
  "take_filtered_offset version rest =
     (if 2 \<le> version
      then bind_result (take_bytes 8 rest) (\<lambda>(o8, rest). Inr (from_le o8, rest))
      else Inr (0, rest))"

definition decode_checkpoint :: "bytes \<Rightarrow> Checkpoint result" where
  "decode_checkpoint payload =
     bind_result (take_bytes 4 payload) (\<lambda>(magic, rest).
     if magic \<noteq> CHECKPOINT_MAGIC then Inl InvalidData else
     bind_result (take_bytes 2 rest) (\<lambda>(v, rest).
     let version = from_le v in
     if \<not> (1 \<le> version \<and> version \<le> CHECKPOINT_VERSION) then Inl InvalidData else
     bind_result (take_bytes 2 rest) (\<lambda>(rows, rest).
     bind_result (take_bytes 2 rest) (\<lambda>(cols, rest).
     bind_result (take_bytes 2 rest) (\<lambda>(cursor_row, rest).
     bind_result (take_bytes 2 rest) (\<lambda>(cursor_col, rest).
     bind_result (take_bytes 1 rest) (\<lambda>(fs, rest).
     bind_result (take_filtered_offset version rest) (\<lambda>(filtered_offset, rest).
     bind_result (take_bytes 4 rest) (\<lambda>(l, rest).
     bind_result (take_bytes (from_le l) rest) (\<lambda>(program, rest).
     if rest \<noteq> [] then Inl InvalidData else
     let flags = fs ! 0 in
     Inr \<lparr>cp_rows = from_le rows, cp_cols = from_le cols,
          cp_cursor = (from_le cursor_row, from_le cursor_col),
          cp_alt_screen = (flags AND 1 \<noteq> 0),
          cp_app_cursor_keys = (flags AND 2 \<noteq> 0),
          cp_bracketed_paste = (flags AND 4 \<noteq> 0),
          cp_filtered_offset = filtered_offset, cp_program = program\<rparr>))))))))))"

section \<open>Round trip\<close>

text \<open>Field widths: what the Rust types of the fields guarantee.\<close>

definition checkpoint_ok :: "Checkpoint \<Rightarrow> bool" where
  "checkpoint_ok c \<longleftrightarrow>
     cp_rows c < 2 ^ 16 \<and> cp_cols c < 2 ^ 16
     \<and> fst (cp_cursor c) < 2 ^ 16 \<and> snd (cp_cursor c) < 2 ^ 16
     \<and> cp_filtered_offset c < 2 ^ 64 \<and> length (cp_program c) < 2 ^ 32"

lemma take_bytes_append [simp]: "length a = n \<Longrightarrow> take_bytes n (a @ b) = Inr (a, b)"
  by (simp add: take_bytes_def)

lemma take_bytes_all: "length a = n \<Longrightarrow> take_bytes n a = Inr (a, [])"
  by (simp add: take_bytes_def)

lemma take_bytes_Cons [simp]: "take_bytes 1 (x # b) = Inr ([x], b)"
  "take_bytes (Suc 0) (x # b) = Inr ([x], b)"
  by (simp_all add: take_bytes_def)

lemma length_CHECKPOINT_MAGIC [simp]: "length CHECKPOINT_MAGIC = 4"
  by (simp add: CHECKPOINT_MAGIC_def ascii_def)

lemma checkpoint_flag_bits:
  "checkpoint_flags c AND 1 \<noteq> 0 \<longleftrightarrow> cp_alt_screen c"
  "checkpoint_flags c AND 2 \<noteq> 0 \<longleftrightarrow> cp_app_cursor_keys c"
  "checkpoint_flags c AND 4 \<noteq> 0 \<longleftrightarrow> cp_bracketed_paste c"
  by (cases "cp_alt_screen c"; cases "cp_app_cursor_keys c"; cases "cp_bracketed_paste c";
      simp add: checkpoint_flags_def)+

lemma version_field [simp]:
  "from_le (le_bytes 2 CHECKPOINT_VERSION) = 2" "CHECKPOINT_VERSION = 2"
  by (simp_all add: CHECKPOINT_VERSION_def from_le_le_bytes)

lemma decode_encode_checkpoint:
  assumes "checkpoint_ok c"
  shows "decode_checkpoint (encode_checkpoint c) = Inr c"
  using assms
  by (simp add: decode_checkpoint_def encode_checkpoint_def checkpoint_ok_def from_le_le_bytes
      checkpoint_flag_bits Let_def take_bytes_all take_filtered_offset_def)

lemma take_bytes_extend: "take_bytes n p = Inr (a, b) \<Longrightarrow> take_bytes n (p @ x) = Inr (a, b @ x)"
  by (auto simp: take_bytes_def split: if_splits)

lemma take_bytes_error: "take_bytes n p = Inl e \<Longrightarrow> e = InvalidData"
  by (auto simp: take_bytes_def split: if_splits)

lemma take_offset_extend:
  "take_filtered_offset v p = Inr (a, b) \<Longrightarrow> take_filtered_offset v (p @ x) = Inr (a, b @ x)"
  by (auto simp: take_filtered_offset_def bind_result_eq_Inr take_bytes_extend split: if_splits)

lemma take_offset_error: "take_filtered_offset v p = Inl e \<Longrightarrow> e = InvalidData"
  by (auto simp: take_filtered_offset_def bind_result_eq_Inl split: if_splits
      dest: take_bytes_error)

text \<open>Decoding consumes the whole payload: bytes after an accepted payload make it invalid.\<close>

lemma decode_checkpoint_extend:
  assumes "decode_checkpoint p = Inr c" and "x \<noteq> []"
  shows "decode_checkpoint (p @ x) = Inl InvalidData"
  using assms
  by (clarsimp simp: decode_checkpoint_def bind_result_eq_Inr Let_def split: if_splits)
    (simp_all add: take_bytes_extend take_offset_extend)

lemma decode_checkpoint_error: "decode_checkpoint p = Inl e \<Longrightarrow> e = InvalidData"
  by (auto simp: decode_checkpoint_def bind_result_eq_Inl Let_def split: if_splits
      dest: take_bytes_error take_offset_error)

text \<open>Checkpoints round-trip: every checkpoint whose fields fit their widths decodes from
  its own encoding to itself, flags, filtered offset and restore program included; and its
  encoding cut short anywhere, or followed by anything, is refused as \<open>InvalidData\<close>, so a torn
  checkpoint is never taken for a smaller one.\<close>

theorem checkpoint_round_trip:
  assumes "checkpoint_ok c"
  shows "decode_checkpoint (encode_checkpoint c) = Inr c
     \<and> (\<forall>n < length (encode_checkpoint c).
           decode_checkpoint (take n (encode_checkpoint c)) = Inl InvalidData)
     \<and> (\<forall>x. x \<noteq> [] \<longrightarrow> decode_checkpoint (encode_checkpoint c @ x) = Inl InvalidData)"
proof -
  let ?e = "encode_checkpoint c"
  note ok = decode_encode_checkpoint [OF assms]
  have "decode_checkpoint (take n ?e) = Inl InvalidData" if "n < length ?e" for n
  proof (cases "decode_checkpoint (take n ?e)")
    case (Inl e)
    then show ?thesis using decode_checkpoint_error by blast
  next
    case (Inr c')
    have "drop n ?e \<noteq> []" using that by simp
    from decode_checkpoint_extend [OF Inr this] ok show ?thesis by simp
  qed
  with ok decode_checkpoint_extend [OF ok] show ?thesis by blast
qed

theorem checkpoint_round_trip_witness:
  "decode_checkpoint (encode_checkpoint
     \<lparr>cp_rows = 24, cp_cols = 80, cp_cursor = (1, 5), cp_alt_screen = False,
      cp_app_cursor_keys = True, cp_bracketed_paste = True, cp_filtered_offset = 70000,
      cp_program = [27, 91, 72]\<rparr>)
   = Inr \<lparr>cp_rows = 24, cp_cols = 80, cp_cursor = (1, 5), cp_alt_screen = False,
          cp_app_cursor_keys = True, cp_bracketed_paste = True, cp_filtered_offset = 70000,
          cp_program = [27, 91, 72]\<rparr>"
  by (rule checkpoint_round_trip [THEN conjunct1]) (simp add: checkpoint_ok_def)

end
