(* ===== verification/Journal_Retention.thy ===== *)
theory Journal_Retention
  imports Journal_Stream Journal_Open Journal_Checkpoint
begin

text \<open>
  Checkpoint anchors and checkpoint-gated retention (\<open>src/session/journal/checkpoint.rs\<close>): the
  header-only pass that finds where replay may resume, the gate below which incarnations may be
  deleted, the deletion itself, and the byte-budget horizon.
\<close>

section \<open>Anchors\<close>

definition CHECKPOINT_FIXED_HEADER_LEN :: nat where
  "CHECKPOINT_FIXED_HEADER_LEN = 4 + 2 + 2 + 2 + 2 + 2 + 1 + 8 + 4"

lemma CHECKPOINT_FIXED_27: "CHECKPOINT_FIXED_HEADER_LEN = 27"
  by (simp add: CHECKPOINT_FIXED_HEADER_LEN_def)

text \<open>What one record header contributes: an anchor, when its payload starts a version 2 checkpoint.\<close>

definition record_anchor ::
  "nat \<Rightarrow> nat \<Rightarrow> bytes \<Rightarrow> bytes \<Rightarrow> nat \<Rightarrow> CheckpointAnchor list" where
  "record_anchor incarnation part header rest record_end =
     (let n = from_le (slice 28 32 header); fixed = take CHECKPOINT_FIXED_HEADER_LEN rest in
      if from_le (slice 6 8 header) = RecordKind_as_u16 CheckpointRef
         \<and> CHECKPOINT_FIXED_HEADER_LEN \<le> n \<and> 2 \<le> from_le (slice 4 6 fixed)
      then [\<lparr>ca_filtered_offset = from_le (slice 15 23 fixed),
             ca_cursor = \<lparr>jc_incarnation = incarnation, jc_seq = from_le (slice 12 20 header)\<rparr>,
             ca_part = part, ca_record_end_offset = record_end\<rparr>]
      else [])"

text \<open>
  The loop over one part: the anchors found, and either the sequence to expect in the next part or
  \<open>None\<close> when the pass ends for good. \<open>inp\<close> is what remains to be read from \<open>byte_pos\<close> on.
\<close>

function anchor_part ::
  "nat \<Rightarrow> nat \<Rightarrow> nat \<Rightarrow> nat \<Rightarrow> nat \<Rightarrow> bytes \<Rightarrow> CheckpointAnchor list \<times> nat option" where
  "anchor_part incarnation part part_len expected_seq byte_pos inp =
     (if length inp < HEADER_LEN then ([], Some expected_seq)
      else
        let header = take HEADER_LEN inp; rest = drop HEADER_LEN inp;
            n = from_le (slice 28 32 header); record_end = byte_pos + HEADER_LEN + n in
        if slice 0 4 header \<noteq> RECORD_MAGIC then ([], None)
        else if from_le (slice 12 20 header) \<noteq> expected_seq then ([], None)
        else if part_len < record_end then ([], None)
        else if from_le (slice 6 8 header) = RecordKind_as_u16 CheckpointRef
                \<and> CHECKPOINT_FIXED_HEADER_LEN \<le> n \<and> length rest < CHECKPOINT_FIXED_HEADER_LEN
        then ([], None)
        else
          case anchor_part incarnation part part_len (u64_add expected_seq 1) record_end (drop n rest) of
            (anchors, nxt) \<Rightarrow> (record_anchor incarnation part header rest record_end @ anchors, nxt))"
  by pat_completeness auto
termination
  by (relation "measure (\<lambda>(i, p, l, e, b, inp). length inp)") (auto simp: HEADER_LEN_36)

declare anchor_part.simps [simp del]

fun anchor_parts ::
  "disk \<Rightarrow> nat \<Rightarrow> nat \<Rightarrow> (nat \<times> string) list \<Rightarrow> CheckpointAnchor list result" where
  "anchor_parts d incarnation expected_seq [] = Inr []"
| "anchor_parts d incarnation expected_seq ((part, path) # parts) =
     bind_result (fs_read d path) (\<lambda>content.
     case anchor_part incarnation part (length content) expected_seq 0 content of
       (anchors, None) \<Rightarrow> Inr anchors
     | (anchors, Some expected_seq') \<Rightarrow>
         bind_result (anchor_parts d incarnation expected_seq' parts) (\<lambda>more. Inr (anchors @ more)))"

definition checkpoint_anchors :: "disk \<Rightarrow> nat \<Rightarrow> CheckpointAnchor list result" where
  "checkpoint_anchors d incarnation =
     bind_result (incarnation_parts d incarnation) (anchor_parts d incarnation 1)"

section \<open>The checkpoint gate\<close>

function has_checkpoint_part :: "bytes \<Rightarrow> bool" where
  "has_checkpoint_part inp =
     (if length inp < HEADER_LEN then False
      else
        let header = take HEADER_LEN inp in
        if slice 0 4 header \<noteq> RECORD_MAGIC then False
        else if from_le (slice 6 8 header) = RecordKind_as_u16 CheckpointRef then True
        else has_checkpoint_part (drop (HEADER_LEN + from_le (slice 28 32 header)) inp))"
  by pat_completeness auto
termination
  by (relation "measure length") (auto simp: HEADER_LEN_36)

declare has_checkpoint_part.simps [simp del]

fun any_part_has_checkpoint :: "disk \<Rightarrow> nat \<Rightarrow> nat list \<Rightarrow> bool result" where
  "any_part_has_checkpoint d incarnation [] = Inr False"
| "any_part_has_checkpoint d incarnation (part # parts) =
     bind_result (fs_read d (segment_path incarnation part)) (\<lambda>content.
     if has_checkpoint_part content then Inr True
     else any_part_has_checkpoint d incarnation parts)"

definition incarnation_has_checkpoint :: "disk \<Rightarrow> nat \<Rightarrow> bool result" where
  "incarnation_has_checkpoint d incarnation =
     any_part_has_checkpoint d incarnation
       (sort (map snd (filter (\<lambda>ip. fst ip = incarnation) (list_segments d))))"

fun first_with_checkpoint :: "disk \<Rightarrow> nat list \<Rightarrow> nat option result" where
  "first_with_checkpoint d [] = Inr None"
| "first_with_checkpoint d (i # is) =
     bind_result (incarnation_has_checkpoint d i) (\<lambda>found.
     if found then Inr (Some i) else first_with_checkpoint d is)"

definition latest_checkpoint_incarnation :: "disk \<Rightarrow> nat option result" where
  "latest_checkpoint_incarnation d = first_with_checkpoint d (rev (list_incarnations d))"

section \<open>Retention\<close>

definition retire_incarnation :: "nat \<Rightarrow> unit io" where
  "retire_incarnation i =
     io_bind (RetiredIncarnation_append_to i) (\<lambda>_.
     io_bind (io_lift (\<lambda>d. Inr (rev (filter (\<lambda>ip. fst ip = i) (list_segments d))))) remove_parts)"

fun retain_loop :: "nat \<Rightarrow> nat option \<Rightarrow> nat list \<Rightarrow> nat list \<Rightarrow> nat list io" where
  "retain_loop min_incarnation latest retired [] = io_return []"
| "retain_loop min_incarnation latest retired (i # is) =
     (if min_incarnation \<le> i \<or> Some i = latest \<or> i \<in> set retired
      then retain_loop min_incarnation latest retired is
      else io_bind (retire_incarnation i) (\<lambda>_.
           io_bind (retain_loop min_incarnation latest retired is) (\<lambda>deleted.
           io_return (i # deleted))))"

definition retain_before :: "nat \<Rightarrow> nat list io" where
  "retain_before min_incarnation =
     io_bind (io_lift latest_checkpoint_incarnation) (\<lambda>gate.
     case gate of
       None \<Rightarrow> io_return []
     | Some gate \<Rightarrow>
         io_bind (io_lift (\<lambda>d. Inr (list_incarnations d))) (\<lambda>incarnations.
         io_bind (io_lift retired_incarnations) (\<lambda>retired.
         io_bind (retain_loop (min min_incarnation gate) (last_option incarnations) retired incarnations)
           (\<lambda>deleted.
         io_bind (if deleted \<noteq> [] then sync_dir else io_return ()) (\<lambda>_.
         io_return deleted)))))"

subsection \<open>The byte budget\<close>

definition bytes_of_inc :: "SegmentManifestEntry list \<Rightarrow> nat \<Rightarrow> nat" where
  "bytes_of_inc manifest i =
     sum_list (map me_bytes (filter (\<lambda>e. me_incarnation e = i) manifest))"

text \<open>Bytes of the incarnations from \<open>h\<close> to \<open>latest\<close>.\<close>

definition kept_bytes :: "SegmentManifestEntry list \<Rightarrow> nat \<Rightarrow> nat \<Rightarrow> nat" where
  "kept_bytes manifest h latest =
     sum_list (map me_bytes (filter (\<lambda>e. h \<le> me_incarnation e \<and> me_incarnation e \<le> latest) manifest))"

definition budget_step ::
  "SegmentManifestEntry list \<Rightarrow> nat \<Rightarrow> nat \<times> nat \<Rightarrow> nat \<Rightarrow> nat \<times> nat" where
  "budget_step manifest byte_cap acc inc =
     (case acc of (h, kept) \<Rightarrow>
        let bytes = bytes_of_inc manifest inc in
        if byte_cap < kept + bytes then (h, kept) else (inc, kept + bytes))"

definition min_incarnation_for_byte_budget :: "disk \<Rightarrow> nat \<Rightarrow> nat result" where
  "min_incarnation_for_byte_budget d byte_cap =
     (if byte_cap = 0 then Inr u64_max
      else
        let incarnations = list_incarnations d in
        if incarnations = [] then Inr u64_max
        else
          let latest = last incarnations in
          bind_result (latest_checkpoint_incarnation d) (\<lambda>g.
          let gate = (case g of Some gate \<Rightarrow> gate | None \<Rightarrow> latest) in
          bind_result (read_manifest d) (\<lambda>manifest.
          Inr (fst (foldl (budget_step manifest byte_cap) (gate, kept_bytes manifest gate latest)
                 (rev [1..<gate]))))))"

section \<open>Anchors name checkpoint records exactly\<close>

definition anchors_record :: "Record \<Rightarrow> bool" where
  "anchors_record r \<longleftrightarrow>
     rec_kind r = CheckpointRef \<and> CHECKPOINT_FIXED_HEADER_LEN \<le> length (rec_payload r)
     \<and> 2 \<le> from_le (slice 4 6 (rec_payload r))"

definition anchor_of :: "nat \<Rightarrow> nat \<Rightarrow> nat \<Rightarrow> Record \<Rightarrow> CheckpointAnchor" where
  "anchor_of i p record_end r =
     \<lparr>ca_filtered_offset = from_le (slice 15 23 (rec_payload r)),
      ca_cursor = \<lparr>jc_incarnation = i, jc_seq = rec_seq r\<rparr>, ca_part = p,
      ca_record_end_offset = record_end\<rparr>"

fun anchors_of :: "nat \<Rightarrow> nat \<Rightarrow> nat \<Rightarrow> Record list \<Rightarrow> CheckpointAnchor list" where
  "anchors_of i p pos [] = []"
| "anchors_of i p pos (r # rs) =
     (let record_end = pos + HEADER_LEN + length (rec_payload r) in
      (if anchors_record r then [anchor_of i p record_end r] else [])
        @ anchors_of i p record_end rs)"

lemma anchors_of_mem:
  "x \<in> set (anchors_of i p pos rs) \<longleftrightarrow>
     (\<exists>a r b. rs = a @ r # b \<and> anchors_record r \<and> x = anchor_of i p (pos + frames_len (a @ [r])) r)"
proof (induction rs arbitrary: pos)
  case Nil
  then show ?case by simp
next
  case (Cons r rs)
  let ?e = "pos + HEADER_LEN + length (rec_payload r)"
  have "(\<exists>a q b. r # rs = a @ q # b \<and> anchors_record q \<and> x = anchor_of i p (pos + frames_len (a @ [q])) q)
      \<longleftrightarrow> (anchors_record r \<and> x = anchor_of i p ?e r)
        \<or> (\<exists>a q b. rs = a @ q # b \<and> anchors_record q \<and> x = anchor_of i p (?e + frames_len (a @ [q])) q)"
    (is "?l \<longleftrightarrow> ?here \<or> ?later")
  proof
    assume ?l
    then obtain a q b where q: "r # rs = a @ q # b" "anchors_record q"
      "x = anchor_of i p (pos + frames_len (a @ [q])) q" by blast
    show "?here \<or> ?later"
    proof (cases a)
      case Nil
      with q show ?thesis by (simp add: add.assoc)
    next
      case (Cons y ys)
      with q show ?thesis by (intro disjI2 exI [of _ ys] exI [of _ q] exI [of _ b]) (simp add: add.assoc)
    qed
  next
    assume "?here \<or> ?later"
    then show ?l
    proof
      assume ?here
      then show ?l by (intro exI [of _ "[]"] exI [of _ r] exI [of _ rs]) (simp add: add.assoc)
    next
      assume ?later
      then obtain a q b where "rs = a @ q # b" "anchors_record q"
        "x = anchor_of i p (?e + frames_len (a @ [q])) q" by blast
      then show ?l by (intro exI [of _ "r # a"] exI [of _ q] exI [of _ b]) (simp add: add.assoc)
    qed
  qed
  with Cons show ?case by (auto simp: Let_def)
qed

context crc_hasher
begin

lemma record_anchor_encoded:
  assumes "record_ok r"
  shows "record_anchor i p (take HEADER_LEN (encode_record H r)) (rec_payload r @ rest) e
     = (if anchors_record r then [anchor_of i p e r] else [])"
proof -
  have kind: "RecordKind_as_u16 (rec_kind r) = RecordKind_as_u16 CheckpointRef \<longleftrightarrow> rec_kind r = CheckpointRef"
    by (cases "rec_kind r") simp_all
  have sl: "slice u v (take CHECKPOINT_FIXED_HEADER_LEN (rec_payload r @ rest)) = slice u v (rec_payload r)"
    if "v \<le> CHECKPOINT_FIXED_HEADER_LEN" "CHECKPOINT_FIXED_HEADER_LEN \<le> length (rec_payload r)" for u v
    using that by (simp add: slice_def drop_take min_def)
  have six: "6 \<le> CHECKPOINT_FIXED_HEADER_LEN" "23 \<le> CHECKPOINT_FIXED_HEADER_LEN"
    by (simp_all add: CHECKPOINT_FIXED_27)
  show ?thesis
    unfolding record_anchor_def Let_def encoded_header [OF assms] kind
    by (auto simp: anchors_record_def anchor_of_def sl six slice_take)
qed

lemma anchor_part_step:
  assumes "record_ok r" and "rec_seq r = e"
    and "L = pos + HEADER_LEN + length (rec_payload r) + length rest"
  shows "anchor_part i p L e pos (encode_record H r @ rest)
     = (case anchor_part i p L (u64_add e 1) (pos + HEADER_LEN + length (rec_payload r)) rest of
          (anchors, nxt) \<Rightarrow>
            ((if anchors_record r
              then [anchor_of i p (pos + HEADER_LEN + length (rec_payload r)) r] else []) @ anchors, nxt))"
proof -
  let ?inp = "encode_record H r @ rest"
  have hd: "take HEADER_LEN ?inp = take HEADER_LEN (encode_record H r)" by simp
  have rest: "drop HEADER_LEN ?inp = rec_payload r @ rest"
    by (simp add: encode_record_split HEADER_LEN_36)
  show ?thesis
    apply (subst anchor_part.simps)
    unfolding hd rest Let_def encoded_header [OF assms(1)] record_anchor_encoded [OF assms(1)]
    using assms(2,3) by (auto split: prod.splits)
qed

lemma anchor_part_torn:
  assumes "torn_tail H junk"
  shows "\<exists>nxt. anchor_part i p (pos + length junk) e pos junk = ([], nxt)
     \<and> (junk = [] \<longrightarrow> nxt = Some e)"
proof (cases "length junk < HEADER_LEN")
  case True
  then show ?thesis by (simp add: anchor_part.simps)
next
  case False
  with assms obtain r n where ok: "record_ok r" and j: "junk = take n (encode_record H r)"
    and n: "n < length (encode_record H r)" by (auto simp: torn_tail_def)
  have hd: "take HEADER_LEN junk = take HEADER_LEN (encode_record H r)"
    using False j n by (simp add: min_def)
  have "length junk < HEADER_LEN + length (rec_payload r)" using j n by simp
  then have "anchor_part i p (pos + length junk) e pos junk = ([], None)"
    using False
    apply (subst anchor_part.simps)
    unfolding hd Let_def encoded_header [OF ok] by auto
  moreover have "junk \<noteq> []" using False by auto
  ultimately show ?thesis by blast
qed

lemma anchor_part_encoded:
  assumes "record_run e rs" and "e + length rs < 2 ^ 64" and "torn_tail H junk"
    and "L = pos + length (encode_records H rs @ junk)"
  shows "\<exists>nxt. anchor_part i p L e pos (encode_records H rs @ junk) = (anchors_of i p pos rs, nxt)
     \<and> (junk = [] \<longrightarrow> nxt = Some (e + length rs))"
  using assms(1,2,4)
proof (induction rs arbitrary: e pos)
  case Nil
  then show ?case using anchor_part_torn [OF assms(3), of i p pos e] by simp
next
  case (Cons r rs)
  let ?pos = "pos + HEADER_LEN + length (rec_payload r)"
  have ok: "record_ok r" and sq: "rec_seq r = e" and run: "record_run (Suc e) rs"
    using Cons.prems(1) by simp_all
  have "L = ?pos + length (encode_records H rs @ junk)" and "Suc e + length rs < 2 ^ 64"
    using Cons.prems(2,3) by simp_all
  from Cons.IH [OF run this(2,1)] obtain nxt where
    ih: "anchor_part i p L (Suc e) ?pos (encode_records H rs @ junk) = (anchors_of i p ?pos rs, nxt)"
    "junk = [] \<longrightarrow> nxt = Some (Suc e + length rs)" by blast
  have "u64_add e 1 = Suc e" using Cons.prems(2) by (simp add: u64_add_def)
  with anchor_part_step [OF ok sq, of L pos "encode_records H rs @ junk" i p] Cons.prems(3) ih
  show ?case by (simp add: Let_def)
qed

lemma anchor_parts_encoded:
  assumes "record_run e (concat rss)" and "e + length (concat rss) < 2 ^ 64" and "torn_tail H junk"
    and "\<forall>k < length rss. fs_read d (segment_path i (Suc (m + k)))
           = Inr (encode_records H (rss ! k) @ (if Suc k = length rss then junk else []))"
  shows "anchor_parts d i e (map (\<lambda>k. (Suc k, segment_path i (Suc k))) [m..<m + length rss])
     = Inr (concat (map (\<lambda>k. anchors_of i (Suc (m + k)) 0 (rss ! k)) [0..<length rss]))"
  using assms(1,2,4)
proof (induction rss arbitrary: e m)
  case Nil
  then show ?case by simp
next
  case (Cons rs rss)
  let ?j = "if rss = [] then junk else []"
  have up: "[m..<m + length (rs # rss)] = m # [Suc m..<Suc m + length rss]"
    by (simp add: upt_conv_Cons del: upt_Suc)
  have idx: "[0..<length (rs # rss)] = 0 # map Suc [0..<length rss]"
    by (simp add: upt_conv_Cons map_Suc_upt del: upt_Suc)
  have rd: "fs_read d (segment_path i (Suc m)) = Inr (encode_records H rs @ ?j)"
    using Cons.prems(3) by auto
  have torn: "torn_tail H ?j" using assms(3) by (simp add: torn_tail_def)
  have run: "record_run e rs" "record_run (e + length rs) (concat rss)"
    and len: "e + length rs < 2 ^ 64" "e + length rs + length (concat rss) < 2 ^ 64"
    using Cons.prems(1,2) by simp_all
  from anchor_part_encoded [OF run(1) len(1) torn, where i = i and p = "Suc m" and pos = 0] obtain nxt where
    ap: "anchor_part i (Suc m) (length (encode_records H rs @ ?j)) e 0 (encode_records H rs @ ?j)
           = (anchors_of i (Suc m) 0 rs, nxt)" "?j = [] \<longrightarrow> nxt = Some (e + length rs)"
    by auto
  have rest: "\<forall>k < length rss. fs_read d (segment_path i (Suc (Suc m + k)))
      = Inr (encode_records H (rss ! k) @ (if Suc k = length rss then junk else []))"
  proof (intro allI impI)
    fix k
    assume "k < length rss"
    with Cons.prems(3) [rule_format, of "Suc k"]
    show "fs_read d (segment_path i (Suc (Suc m + k)))
        = Inr (encode_records H (rss ! k) @ (if Suc k = length rss then junk else []))" by simp
  qed
  note ih = Cons.IH [OF run(2) len(2) rest]
  show ?case
  proof (cases "rss = []")
    case True
    then show ?thesis using rd ap(1) by (cases nxt) (simp_all add: upt_conv_Cons)
  next
    case False
    then have "nxt = Some (e + length rs)" using ap(2) by simp
    then show ?thesis unfolding up idx using rd ap(1) ih False by (simp add: comp_def)
  qed
qed

lemma anchors_stored:
  assumes "stored H d i rss junk"
  shows "checkpoint_anchors d i
     = Inr (concat (map (\<lambda>k. anchors_of i (Suc k) 0 (rss ! k)) [0..<length rss]))"
  using assms anchor_parts_encoded [of 1 rss junk d i 0]
  by (simp add: stored_def checkpoint_anchors_def)

end

text \<open>The anchor pass over a stored incarnation succeeds and returns an anchor exactly for every
  version 2 checkpoint record: with that record's sequence number, its part, the byte position
  where it ends, and the filtered-stream offset read from its payload.\<close>

theorem checkpoint_anchors_exact:
  assumes "crc_hasher H" and "stored H d i rss junk"
  shows "\<exists>anchors. checkpoint_anchors d i = Inr anchors \<and>
     (\<forall>x. x \<in> set anchors \<longleftrightarrow>
        (\<exists>k a r b. k < length rss \<and> rss ! k = a @ r # b \<and> anchors_record r
           \<and> x = anchor_of i (Suc k) (frames_len (a @ [r])) r))"
proof -
  let ?as = "concat (map (\<lambda>k. anchors_of i (Suc k) 0 (rss ! k)) [0..<length rss])"
  have "x \<in> set (concat (map (\<lambda>k. anchors_of i (Suc k) 0 (rss ! k)) [0..<length rss]))
      \<longleftrightarrow> (\<exists>k < length rss. x \<in> set (anchors_of i (Suc k) 0 (rss ! k)))" for x by auto
  then have "x \<in> set ?as \<longleftrightarrow>
      (\<exists>k a r b. k < length rss \<and> rss ! k = a @ r # b \<and> anchors_record r
         \<and> x = anchor_of i (Suc k) (frames_len (a @ [r])) r)" for x
    by (simp only: anchors_of_mem add_0 ex_simps)
  then show ?thesis
    by (intro exI [of _ ?as] conjI allI crc_hasher.anchors_stored [OF assms])
qed

section \<open>Retention is safe\<close>

text \<open>What any run of the retention loop may do to the directory, completed or not. Tombstones can
  be read back when the manifest was \<open>ended\<close>, so that no line was joined to an older one.\<close>

definition retains :: "bool \<Rightarrow> nat \<Rightarrow> nat option \<Rightarrow> disk \<Rightarrow> disk \<Rightarrow> bool" where
  "retains ended lo latest d d' \<longleftrightarrow>
     (ended \<longrightarrow> set (jd_manifest d) \<subseteq> set (jd_manifest d'))
     \<and> (\<forall>name. file_at d' name = file_at d name \<or>
          file_at d' name = None \<and> (\<exists>i p. name = segment_path i p \<and> i < lo \<and> Some i \<noteq> latest
            \<and> (ended \<longrightarrow> Row (Retired i) \<in> set (jd_manifest d'))))
     \<and> (\<forall>i p q. p < q \<longrightarrow> p < 2 ^ 64 \<longrightarrow> i < 2 ^ 64 \<longrightarrow> q < 2 ^ 64 \<longrightarrow>
          file_at d' (segment_path i q) \<noteq> None \<longrightarrow>
          file_at d' (segment_path i p) = file_at d (segment_path i p))"

lemma retains_refl: "jd_files d' = jd_files d \<Longrightarrow>
    (ended \<Longrightarrow> set (jd_manifest d) \<subseteq> set (jd_manifest d')) \<Longrightarrow> retains ended lo latest d d'"
  by (simp add: retains_def)

lemma retains_trans:
  assumes a: "retains ended lo latest d d1" and b: "retains ended lo latest d1 d'"
  shows "retains ended lo latest d d'"
proof -
  have gone: "file_at d1 x \<noteq> None" if "file_at d' x \<noteq> None" for x
    using b that unfolding retains_def by metis
  have "file_at d' (segment_path i p) = file_at d (segment_path i p)"
    if "p < q" "p < 2 ^ 64" "i < 2 ^ 64" "q < 2 ^ 64" "file_at d' (segment_path i q) \<noteq> None" for i p q
    using a b that gone [OF that(5)] unfolding retains_def by metis
  moreover have "file_at d' x = file_at d x \<or>
      file_at d' x = None \<and> (\<exists>i p. x = segment_path i p \<and> i < lo \<and> Some i \<noteq> latest
        \<and> (ended \<longrightarrow> Row (Retired i) \<in> set (jd_manifest d')))" for x
    using a b unfolding retains_def by (metis subsetD)
  moreover have "ended \<longrightarrow> set (jd_manifest d) \<subseteq> set (jd_manifest d')"
    using a b unfolding retains_def by blast
  ultimately show ?thesis unfolding retains_def by blast
qed

lemma append_manifest_line_grows:
  assumes "append_manifest_line line d = (r, d')" and "jd_manifest d = map Row ls"
  shows "set (jd_manifest d) \<subseteq> set (jd_manifest d')"
proof -
  have wr: "set (jd_manifest d1) \<subseteq> set (jd_manifest d2)"
    if "manifest_write line d1 = (q, d2)" "jd_manifest d1 = jd_manifest d" for d1 q d2
    using that assms(2)
    by (auto simp: manifest_write_def dest!: next_fault_frame split: prod.splits option.splits if_splits)
  have op: "jd_manifest d1 = jd_manifest d" if "manifest_open d = (q, d1)" for q d1
    using that by (auto simp: manifest_open_def dest: next_fault_frame split: prod.splits option.splits)
  from assms(1) show ?thesis
    unfolding append_manifest_line_def io_bind_eq
    by (auto dest!: op sync_dir_frame) (metis (no_types, lifting) wr subsetD)+
qed

text \<open>Deleting the parts of one tombstoned incarnation, newest first.\<close>

lemma remove_parts_retains:
  assumes "remove_parts (map (Pair i) ps) d = (r, d')" and "sorted_wrt (\<ge>) ps"
    and "\<And>q. q < 2 ^ 64 \<Longrightarrow> i < 2 ^ 64 \<Longrightarrow> file_at d (segment_path i q) \<noteq> None \<Longrightarrow> q \<in> set ps"
    and "i < lo" and "Some i \<noteq> latest" and "ended \<Longrightarrow> Row (Retired i) \<in> set (jd_manifest d)"
  shows "retains ended lo latest d d' \<and> jd_manifest d' = jd_manifest d \<and>
     (r = Inr () \<longrightarrow> i < 2 ^ 64 \<longrightarrow> (\<forall>q < 2 ^ 64. file_at d' (segment_path i q) = None))"
  using assms(1,2,3,6)
proof (induction ps arbitrary: d)
  case Nil
  then have "file_at d (segment_path i q) = None" if "q < 2 ^ 64" "i < 2 ^ 64" for q
    using Nil.prems(3) [OF that] by (cases "file_at d (segment_path i q)") auto
  with Nil show ?case by (auto simp: retains_refl)
next
  case (Cons p ps)
  have one: "retains ended lo latest d d1 \<and> jd_manifest d1 = jd_manifest d \<and>
      (q = Inr () \<longrightarrow> (\<forall>m. file_at d1 m = (if m = segment_path i p then None else file_at d m)))"
    if "fs_remove_file (segment_path i p) d = (q, d1)" for q d1
    using that
  proof (cases rule: fs_remove_file_cases)
    case ok
    have "p' \<noteq> p" if "p' < q'" "q' < 2 ^ 64" "i < 2 ^ 64" "file_at d (segment_path i q') \<noteq> None" for p' q'
      using Cons.prems(2) Cons.prems(3) [OF that(2,3,4)] that(1) by auto
    with ok assms(4,5) Cons.prems(4) show ?thesis
      by (auto simp: retains_def split: if_splits)
  next
    case (err e)
    then show ?thesis by (simp add: retains_refl)
  qed
  from Cons.prems(1) consider
    (go) d1 where "fs_remove_file (segment_path i p) d = (Inr (), d1)"
      "remove_parts (map (Pair i) ps) d1 = (r, d')"
  | (stop) e where "fs_remove_file (segment_path i p) d = (Inl e, d')" "r = Inl e"
    by (auto simp: io_bind_eq)
  then show ?case
  proof cases
    case go
    note d1 = one [OF go(1)]
    have "retains ended lo latest d1 d' \<and> jd_manifest d' = jd_manifest d1 \<and>
       (r = Inr () \<longrightarrow> i < 2 ^ 64 \<longrightarrow> (\<forall>q < 2 ^ 64. file_at d' (segment_path i q) = None))"
    proof (rule Cons.IH [OF go(2)])
      show "sorted_wrt (\<ge>) ps" using Cons.prems(2) by simp
      show "q \<in> set ps" if "q < 2 ^ 64" "i < 2 ^ 64" "file_at d1 (segment_path i q) \<noteq> None" for q
        using d1 that Cons.prems(3) [OF that(1,2)] by (auto split: if_splits)
      show "Row (Retired i) \<in> set (jd_manifest d1)" if ended using d1 Cons.prems(4) that by simp
    qed
    with d1 show ?thesis by (auto intro: retains_trans)
  next
    case stop
    with one show ?thesis by auto
  qed
qed

lemma parts_descending:
  "\<exists>ps. rev (filter (\<lambda>ip. fst ip = i) (list_segments d)) = map (Pair i) ps \<and> sorted_wrt (\<ge>) ps"
proof -
  let ?f = "filter (\<lambda>ip. fst ip = i) (list_segments d)"
  have "sorted ?f" by (rule sorted_wrt_filter [OF list_segments_sorted])
  then have "sorted (map snd ?f)"
    unfolding sorted_map by (rule sorted_wrt_mono_rel [rotated]) (auto simp: less_eq_prod_def)
  then have "sorted_wrt (\<ge>) (map snd (rev ?f))"
    by (simp add: rev_map [symmetric] sorted_wrt_rev)
  moreover have "map (Pair i) (map snd (rev ?f)) = rev ?f" by (auto intro!: map_idI)
  ultimately show ?thesis by (metis map_map)
qed

lemma retire_incarnation_retains:
  assumes "retire_incarnation i d = (r, d')" and "ended \<Longrightarrow> jd_manifest d = map Row ls"
    and "i < lo" and "Some i \<noteq> latest"
  shows "retains ended lo latest d d' \<and> (r = Inr () \<longrightarrow>
     (ended \<longrightarrow> jd_manifest d' = map Row (ls @ [Retired i])) \<and>
     (i < 2 ^ 64 \<longrightarrow> (\<forall>q < 2 ^ 64. file_at d' (segment_path i q) = None)))"
proof -
  have app: "retains ended lo latest d d1 \<and> jd_files d1 = jd_files d \<and>
      (q = Inr () \<longrightarrow> ended \<longrightarrow> jd_manifest d1 = map Row (ls @ [Retired i]))"
    if "RetiredIncarnation_append_to i d = (q, d1)" for q d1
  proof -
    note line = that [unfolded RetiredIncarnation_append_to_def]
    show ?thesis
      using append_manifest_line_cases [OF line]
        retains_refl [OF _ append_manifest_line_grows [OF line assms(2)]]
        assms(2) by simp
  qed
  from assms(1) consider
    (go) d1 where "RetiredIncarnation_append_to i d = (Inr (), d1)"
      "remove_parts (rev (filter (\<lambda>ip. fst ip = i) (list_segments d1))) d1 = (r, d')"
  | (stop) e where "RetiredIncarnation_append_to i d = (Inl e, d')" "r = Inl e"
    by (auto simp: retire_incarnation_def io_bind_eq)
  then show ?thesis
  proof cases
    case go
    obtain ps where ps: "rev (filter (\<lambda>ip. fst ip = i) (list_segments d1)) = map (Pair i) ps"
      "sorted_wrt (\<ge>) ps" using parts_descending by blast
    have "q \<in> set ps" if "q < 2 ^ 64" "i < 2 ^ 64" "file_at d1 (segment_path i q) \<noteq> None" for q
    proof -
      have "(i, q) \<in> set (list_segments d1)"
        using that parse_segment_path [of i q] by (auto simp: in_list_segments)
      then have "(i, q) \<in> set (map (Pair i) ps)" unfolding ps(1) [symmetric] by simp
      then show ?thesis by auto
    qed
    from remove_parts_retains [OF go(2) [unfolded ps(1)] ps(2) this assms(3,4)] app [OF go(1)]
    show ?thesis by (auto intro: retains_trans)
  next
    case stop
    with app show ?thesis by auto
  qed
qed

lemma io_bind_return_eq:
  "io_bind m (\<lambda>a. io_return (f a)) d = (r, d') \<longleftrightarrow>
     (\<exists>q. m d = (q, d') \<and> r = (case q of Inl e \<Rightarrow> Inl e | Inr a \<Rightarrow> Inr (f a)))"
  by (cases "m d"; cases "fst (m d)") (auto simp: io_bind_def io_return_def)

lemma retain_loop_retains:
  assumes "retain_loop lo latest retired is d = (r, d')" and "ended \<Longrightarrow> jd_manifest d = map Row ls"
  shows "retains ended lo latest d d' \<and> (\<forall>deleted. r = Inr deleted \<longrightarrow>
     deleted = filter (\<lambda>i. i < lo \<and> Some i \<noteq> latest \<and> i \<notin> set retired) is \<and>
     (\<forall>i \<in> set deleted. i < 2 ^ 64 \<longrightarrow> (\<forall>q < 2 ^ 64. file_at d' (segment_path i q) = None)))"
  using assms
proof (induction "is" arbitrary: d r ls)
  case Nil
  then show ?case by (auto simp: retains_refl)
next
  case (Cons i "is")
  show ?case
  proof (cases "lo \<le> i \<or> Some i = latest \<or> i \<in> set retired")
    case True
    with Cons.prems(1) have "retain_loop lo latest retired is d = (r, d')" by simp
    from Cons.IH [OF this Cons.prems(2)] True show ?thesis by auto
  next
    case False
    then have i: "i < lo" "Some i \<noteq> latest" "i \<notin> set retired" by auto
    from Cons.prems(1) False have split: "io_bind (retire_incarnation i) (\<lambda>_.
        io_bind (retain_loop lo latest retired is) (\<lambda>deleted. io_return (i # deleted))) d = (r, d')"
      by simp
    consider
      (go) d1 q where "retire_incarnation i d = (Inr (), d1)"
        "retain_loop lo latest retired is d1 = (q, d')"
        "r = (case q of Inl e \<Rightarrow> Inl e | Inr deleted \<Rightarrow> Inr (i # deleted))"
    | (stop) e where "retire_incarnation i d = (Inl e, d')" "r = Inl e"
      using split [unfolded io_bind_eq [of "retire_incarnation i"] io_bind_return_eq] by auto
    then show ?thesis
    proof cases
      case go
      note one = retire_incarnation_retains [OF go(1) Cons.prems(2) i(1,2)]
      then have m1: "ended \<Longrightarrow> jd_manifest d1 = map Row (ls @ [Retired i])" by simp
      note rest = Cons.IH [OF go(2) m1]
      have "file_at d' x = None" if "file_at d1 x = None" for x
        using rest that unfolding retains_def by metis
      with one rest go(3) i show ?thesis
        by (auto intro: retains_trans split: sum.splits)
    next
      case stop
      with retire_incarnation_retains [OF stop(1) Cons.prems(2) i(1,2)] show ?thesis by auto
    qed
  qed
qed

lemma retain_before_retains:
  assumes "retain_before m d = (r, d')" and "latest_checkpoint_incarnation d = Inr (Some gate)"
  shows "retains (manifest_ended d) (min m gate) (last_option (list_incarnations d)) d d' \<and> (\<forall>deleted. r = Inr deleted \<longrightarrow>
     (\<exists>retired. retired_incarnations d = Inr retired \<and>
       deleted = filter (\<lambda>i. i < min m gate \<and> Some i \<noteq> last_option (list_incarnations d)
                            \<and> i \<notin> set retired) (list_incarnations d)) \<and>
     (\<forall>i \<in> set deleted. i < 2 ^ 64 \<longrightarrow> (\<forall>q < 2 ^ 64. file_at d' (segment_path i q) = None)))"
proof (cases "read_manifest_lines d")
  case (Inl e)
  with assms show ?thesis
    by (auto simp: retain_before_def io_bind_eq retired_incarnations_def intro: retains_refl)
next
  case (Inr ls)
  let ?last = "last_option (list_incarnations d)"
  let ?ret = "List.map_filter retired_of ls"
  have ret: "retired_incarnations d = Inr ?ret"
    using Inr by (simp add: retired_incarnations_def)
  from assms ret obtain q d1 where
    loop: "retain_loop (min m gate) ?last ?ret (list_incarnations d) d = (q, d1)"
    and r: "jd_files d' = jd_files d1" "jd_manifest d' = jd_manifest d1"
      "\<forall>deleted. r = Inr deleted \<longrightarrow> q = Inr deleted"
    by (cases "retain_loop (min m gate) ?last ?ret (list_incarnations d) d")
      (auto simp: retain_before_def io_bind_def io_lift_def io_return_def
        dest: sync_dir_frame split: prod.splits sum.splits if_splits)
  note retain_loop_retains [OF loop read_manifest_ended [OF Inr]]
  with r ret show ?thesis by (auto simp: retains_def)
qed

lemma retain_before_no_gate:
  assumes "retain_before m d = (r, d')" and "\<And>gate. latest_checkpoint_incarnation d \<noteq> Inr (Some gate)"
  shows "d' = d \<and> r \<in> {Inr []} \<union> range Inl"
  using assms by (cases "latest_checkpoint_incarnation d")
    (auto simp: retain_before_def io_bind_def io_lift_def split: option.splits)


text \<open>Retention deletes newest part first: at whatever point it stops, an incarnation keeps a
  prefix of its parts, so while a part is still there every earlier part is there unchanged and a
  reader never meets a hole.\<close>

theorem retain_before_prefix:
  assumes "retain_before m d = (r, d')" and "p < q" and "i < 2 ^ 64" and "q < 2 ^ 64"
    and "file_at d' (segment_path i q) \<noteq> None"
  shows "file_at d' (segment_path i p) = file_at d (segment_path i p)"
proof (cases "\<exists>gate. latest_checkpoint_incarnation d = Inr (Some gate)")
  case True
  then obtain gate where "latest_checkpoint_incarnation d = Inr (Some gate)" by blast
  from retain_before_retains [OF assms(1) this]
  have "retains (manifest_ended d) (min m gate) (last_option (list_incarnations d)) d d'" by blast
  then show ?thesis unfolding retains_def using assms(2-5) order.strict_trans [of p q] by blast
next
  case False
  then show ?thesis using retain_before_no_gate [OF assms(1)] by blast
qed

text \<open>When retention succeeds past a checkpoint it reports exactly the live incarnations below
  the horizon, the newest checkpoint and the newest incarnation, in order, and no part of a
  reported incarnation is left.\<close>

theorem retain_before_result:
  assumes "retain_before m d = (Inr deleted, d')"
    and "latest_checkpoint_incarnation d = Inr (Some gate)"
  shows "(\<exists>retired. retired_incarnations d = Inr retired \<and>
       deleted = filter (\<lambda>i. i < min m gate \<and> Some i \<noteq> last_option (list_incarnations d)
                            \<and> i \<notin> set retired) (list_incarnations d)) \<and>
     (\<forall>i q. i \<in> set deleted \<and> q < 2 ^ 64 \<longrightarrow> file_at d' (segment_path i q) = None)"
proof -
  have "i < 2 ^ 64" if "i \<in> set (list_incarnations d)" for i
    using that by (auto simp: list_incarnations_def in_list_segments dest!: parse_segment_less)
  with retain_before_retains [OF assms] show ?thesis by auto
qed

subsection \<open>The byte budget can be exceeded\<close>

lemma has_checkpoint_part_Nil: "\<not> has_checkpoint_part []"
  by (subst has_checkpoint_part.simps) (simp add: HEADER_LEN_36)

definition budget_entry :: "nat \<Rightarrow> nat \<Rightarrow> manifest_row" where
  "budget_entry i n = Row (Sealed \<lparr>me_incarnation = i, me_part = 1, me_first_seq = 1, me_last_seq = 1,
                                   me_bytes = n, me_crc32 = 0\<rparr>)"

definition budget_disk :: disk where
  "budget_disk =
     \<lparr>jd_files = [(segment_path 4 1, \<lparr>jf_bytes = [], jf_synced = 0\<rparr>)],
      jd_manifest = [budget_entry 1 10, budget_entry 2 10, budget_entry 3 200], jd_faults = []\<rparr>"

text \<open>The byte-budget horizon does not stop at the first incarnation that does not fit: it
  skips over it and settles on an older one, so the range it keeps can exceed the cap.\<close>

theorem byte_budget_overshoot:
  "\<exists>h. min_incarnation_for_byte_budget budget_disk 100 = Inr h
     \<and> (\<exists>manifest. read_manifest budget_disk = Inr manifest \<and> 100 < kept_bytes manifest h 4)"
proof -
  have inc: "list_incarnations budget_disk = [4]"
    by (simp add: list_incarnations_def list_segments_def budget_disk_def List.map_filter_simps
        parse_segment_path)
  have seg: "list_segments budget_disk = [(4, 1)]"
    by (simp add: list_segments_def budget_disk_def List.map_filter_simps parse_segment_path)
  have man: "read_manifest budget_disk = Inr [\<lparr>me_incarnation = 1, me_part = 1, me_first_seq = 1,
      me_last_seq = 1, me_bytes = 10, me_crc32 = 0\<rparr>, \<lparr>me_incarnation = 2, me_part = 1,
      me_first_seq = 1, me_last_seq = 1, me_bytes = 10, me_crc32 = 0\<rparr>, \<lparr>me_incarnation = 3,
      me_part = 1, me_first_seq = 1, me_last_seq = 1, me_bytes = 200, me_crc32 = 0\<rparr>]"
    by (simp add: read_manifest_def read_manifest_lines_def budget_disk_def budget_entry_def
        List.map_filter_simps)
  have rd: "fs_read budget_disk (segment_path 4 (Suc 0)) = Inr []" by (simp add: fs_read_def budget_disk_def)
  have gate: "latest_checkpoint_incarnation budget_disk = Inr None"
    by (simp add: latest_checkpoint_incarnation_def inc incarnation_has_checkpoint_def seg rd
        has_checkpoint_part_Nil)
  have down: "rev [Suc 0..<4] = [3, 2, 1 :: nat]" by (simp add: upt_rec)
  have "min_incarnation_for_byte_budget budget_disk 100 = Inr 1"
    by (simp add: min_incarnation_for_byte_budget_def inc gate man Let_def down budget_step_def
        bytes_of_inc_def kept_bytes_def)
  then show ?thesis using man by (simp add: kept_bytes_def)
qed

subsection \<open>Concrete instances\<close>

theorem checkpoint_anchors_exact_witness:
  "\<exists>anchors. checkpoint_anchors (stream_disk []) 4 = Inr anchors \<and>
     (\<forall>x. x \<in> set anchors \<longleftrightarrow>
        (\<exists>k a r b. k < length [[stream_record 1]] \<and> [[stream_record 1]] ! k = a @ r # b \<and> anchors_record r
           \<and> x = anchor_of 4 (Suc k) (frames_len (a @ [r])) r))"
  by (rule checkpoint_anchors_exact [OF table_crc.crc_hasher_axioms stream_disk_stored])

definition checkpoint_header :: bytes where
  "checkpoint_header = RECORD_MAGIC @ le_bytes 2 1 @ le_bytes 2 (RecordKind_as_u16 CheckpointRef) @ replicate 28 0"

definition retain_disk :: disk where
  "retain_disk =
     \<lparr>jd_files = [(segment_path 1 1, \<lparr>jf_bytes = [], jf_synced = 0\<rparr>),
                  (segment_path 1 2, \<lparr>jf_bytes = [], jf_synced = 0\<rparr>),
                  (segment_path 2 1, \<lparr>jf_bytes = checkpoint_header, jf_synced = 0\<rparr>),
                  (segment_path 3 1, \<lparr>jf_bytes = [], jf_synced = 0\<rparr>)],
      jd_manifest = [], jd_faults = []\<rparr>"

lemma retain_disk_gate: "latest_checkpoint_incarnation retain_disk = Inr (Some 2)"
proof -
  have seg: "list_segments retain_disk = [(1, 1), (1, 2), (2, 1), (3, 1)]"
    by (simp add: list_segments_def retain_disk_def List.map_filter_simps parse_segment_path)
  have rd: "fs_read retain_disk (segment_path 3 (Suc 0)) = Inr []"
    "fs_read retain_disk (segment_path 2 (Suc 0)) = Inr checkpoint_header"
    by (simp_all add: fs_read_def retain_disk_def)
  have "has_checkpoint_part checkpoint_header"
    by (subst has_checkpoint_part.simps)
      (simp add: HEADER_LEN_36 checkpoint_header_def RECORD_MAGIC_def slice_def Let_def ascii_def
        from_le_le_bytes)
  then show ?thesis
    by (simp add: latest_checkpoint_incarnation_def list_incarnations_def
        incarnation_has_checkpoint_def seg rd has_checkpoint_part_Nil)
qed

lemma retain_disk_run:
  "retain_before 3 retain_disk = (Inr [1],
     \<lparr>jd_files = [(segment_path 2 1, \<lparr>jf_bytes = checkpoint_header, jf_synced = 0\<rparr>),
                  (segment_path 3 1, \<lparr>jf_bytes = [], jf_synced = 0\<rparr>)],
      jd_manifest = [Row (Retired 1)], jd_faults = []\<rparr>)"
  by (simp add: retain_before_def io_bind_def io_lift_def retain_disk_gate)
    (simp add: retain_disk_def list_incarnations_def list_segments_def List.map_filter_simps
      parse_segment_path retired_incarnations_def read_manifest_lines_def last_option_def
      retire_incarnation_def RetiredIncarnation_append_to_def append_manifest_line_def io_bind_def
      manifest_open_def manifest_write_def next_fault_def append_row_def io_lift_def sync_dir_def
      fs_remove_file_def io_return_def)


theorem retain_before_prefix_witness:
  "file_at (snd (retain_before 3 retain_disk)) (segment_path 3 0) = file_at retain_disk (segment_path 3 0)"
  using retain_before_prefix [OF retain_disk_run, of 0 1 3] by (simp add: retain_disk_run)

theorem retain_before_result_witness:
  "file_at (snd (retain_before 3 retain_disk)) (segment_path 1 1) = None"
  using retain_before_result [OF retain_disk_run retain_disk_gate] by (simp add: retain_disk_run)

end
