(* ===== verification/Text_Bytes.thy ===== *)
theory Text_Bytes
  imports Prelude
begin

text \<open>
  The parts of Rust's \<open>str\<close> and \<open>[u8]\<close> that the terminal-facing code uses, on UTF-8 byte strings:
  splitting, trimming, ASCII classes, characters and small decimal numbers.
\<close>

section \<open>Splitting\<close>

abbreviation chr :: "char \<Rightarrow> byte" where
  "chr c \<equiv> of_char c"

text \<open>\<open>split(c)\<close> on a slice or a string: never empty.\<close>

fun split_on :: "byte \<Rightarrow> bytes \<Rightarrow> bytes list" where
  "split_on c [] = [[]]"
| "split_on c (b # bs) =
     (if b = c then [] # split_on c bs
      else case split_on c bs of [] \<Rightarrow> [[b]] | s # ss \<Rightarrow> (b # s) # ss)"

text \<open>\<open>rsplit_once(c)\<close>: at the last occurrence.\<close>

definition rsplit_once :: "byte \<Rightarrow> bytes \<Rightarrow> (bytes \<times> bytes) option" where
  "rsplit_once c bs = map_option (\<lambda>(r, l). (rev l, rev r)) (split_once c (rev bs))"

definition starts_with :: "bytes \<Rightarrow> bytes \<Rightarrow> bool" where
  "starts_with p bs \<longleftrightarrow> take (length p) bs = p"

definition strip_prefix_bytes :: "bytes \<Rightarrow> bytes \<Rightarrow> bytes option" where
  "strip_prefix_bytes p bs = (if starts_with p bs then Some (drop (length p) bs) else None)"

text \<open>\<open>trim_matches(f)\<close>.\<close>

definition trim_matches :: "(byte \<Rightarrow> bool) \<Rightarrow> bytes \<Rightarrow> bytes" where
  "trim_matches f bs = rev (dropWhile f (rev (dropWhile f bs)))"

section \<open>ASCII classes\<close>

definition is_ascii_digit :: "byte \<Rightarrow> bool" where
  "is_ascii_digit b \<longleftrightarrow> 48 \<le> b \<and> b \<le> 57"

definition is_ascii_lowercase :: "byte \<Rightarrow> bool" where
  "is_ascii_lowercase b \<longleftrightarrow> 97 \<le> b \<and> b \<le> 122"

definition is_ascii_uppercase :: "byte \<Rightarrow> bool" where
  "is_ascii_uppercase b \<longleftrightarrow> 65 \<le> b \<and> b \<le> 90"

definition is_ascii_alphanumeric :: "byte \<Rightarrow> bool" where
  "is_ascii_alphanumeric b \<longleftrightarrow> is_ascii_digit b \<or> is_ascii_lowercase b \<or> is_ascii_uppercase b"

definition is_ascii_whitespace :: "byte \<Rightarrow> bool" where
  "is_ascii_whitespace b \<longleftrightarrow> b \<in> set [9, 10, 12, 13, 32]"

lemmas ascii_class_defs = is_ascii_digit_def is_ascii_lowercase_def is_ascii_uppercase_def
  is_ascii_alphanumeric_def is_ascii_whitespace_def

section \<open>Numbers\<close>

text \<open>The value of a run of ASCII digits, and \<open>parse::<u8>\<close> and \<open>parse::<u32>\<close> on such a run.\<close>

definition digits_value :: "bytes \<Rightarrow> nat" where
  "digits_value ds = foldl (\<lambda>n d. 10 * n + (unat d - 48)) 0 ds"

definition parse_digits :: "nat \<Rightarrow> bytes \<Rightarrow> nat option" where
  "parse_digits bound ds =
     (if ds \<noteq> [] \<and> list_all is_ascii_digit ds \<and> digits_value ds < bound
      then Some (digits_value ds) else None)"

section \<open>Characters\<close>

definition utf8_len :: "byte \<Rightarrow> nat" where
  "utf8_len b = (let n = unat b in if n < 128 then 1 else if n \<le> 223 then 2 else if n \<le> 239 then 3 else 4)"

text \<open>\<open>chars()\<close> of a valid string, each character as its encoding.\<close>

function utf8_chars :: "bytes \<Rightarrow> bytes list" where
  "utf8_chars [] = []"
| "utf8_chars (b # bs) =
     take (utf8_len b) (b # bs) # utf8_chars (drop (utf8_len b) (b # bs))"
  by pat_completeness auto
termination
  by (relation "measure length") (auto simp: utf8_len_def Let_def)

definition utf8_code :: "bytes \<Rightarrow> nat" where
  "utf8_code c =
     (case c of
        [a] \<Rightarrow> unat a
      | [a, b] \<Rightarrow> (unat a mod 32) * 64 + unat b mod 64
      | [a, b, d] \<Rightarrow> (unat a mod 16) * 4096 + (unat b mod 64) * 64 + unat d mod 64
      | [a, b, d, e] \<Rightarrow>
          (unat a mod 8) * 262144 + (unat b mod 64) * 4096 + (unat d mod 64) * 64 + unat e mod 64
      | _ \<Rightarrow> 0)"

text \<open>\<open>char::is_control\<close>.\<close>

definition is_control :: "bytes \<Rightarrow> bool" where
  "is_control c \<longleftrightarrow> (let n = utf8_code c in n < 32 \<or> 127 \<le> n \<and> n \<le> 159)"

section \<open>Lemmas\<close>

lemma split_on_nonempty [simp]: "split_on c bs \<noteq> []"
  by (cases bs) (auto split: list.splits)

lemma split_on_no: "c \<notin> set bs \<Longrightarrow> split_on c bs = [bs]"
  by (induction bs) auto

lemma rsplit_once_shorter: "rsplit_once c bs = Some (l, r) \<Longrightarrow> length l < length bs"
proof -
  assume "rsplit_once c bs = Some (l, r)"
  then have "split_once c (rev bs) = Some (rev r, rev l)" by (auto simp: rsplit_once_def)
  then have "rev bs = rev r @ c # rev l" by (auto dest: split_once_Some)
  then have "length (rev bs) = length (rev r @ c # rev l)" by simp
  then show ?thesis by simp
qed

lemma starts_with_self [simp]: "starts_with p (p @ bs)"
  by (simp add: starts_with_def)

lemma starts_with_iff: "starts_with p bs \<longleftrightarrow> (\<exists>r. bs = p @ r)"
  by (metis append_take_drop_id starts_with_def starts_with_self)

lemma utf8_len_pos [simp]: "0 < utf8_len b"
  by (simp add: utf8_len_def Let_def)

text \<open>One encoded character, of the length its first byte announces.\<close>

definition char_ok :: "bytes \<Rightarrow> bool" where
  "char_ok c \<longleftrightarrow> c \<noteq> [] \<and> length c = utf8_len (hd c)"

lemma concat_utf8_chars: "concat (utf8_chars bs) = bs"
  by (induction bs rule: utf8_chars.induct) simp_all

lemma utf8_valid_first:
  assumes "utf8_valid (b # bs)"
  shows "utf8_len b \<le> Suc (length bs) \<and> utf8_valid (take (utf8_len b) (b # bs))
     \<and> utf8_valid (drop (utf8_len b) (b # bs))"
proof -
  let ?n = "unat b"
  consider (one) "?n < 128" | (two) "194 \<le> ?n" "?n \<le> 223" | (three) "224 \<le> ?n" "?n \<le> 239"
    | (four) "240 \<le> ?n" "?n \<le> 244"
    using assms by (fastforce simp: Let_def split: if_splits)
  then show ?thesis
  proof cases
    case one
    with assms show ?thesis by (simp add: utf8_len_def)
  next
    case two
    with assms show ?thesis
      by (cases bs) (simp_all add: utf8_len_def numeral_2_eq_2)
  next
    case three
    have "utf8_len b = Suc (Suc (Suc 0))" using three by (simp add: utf8_len_def)
    with assms three show ?thesis
      by (cases bs; cases "tl bs") (simp_all add: Let_def)
  next
    case four
    have "utf8_len b = Suc (Suc (Suc (Suc 0)))" using four by (simp add: utf8_len_def)
    with assms four show ?thesis
      by (cases bs; cases "tl bs"; cases "tl (tl bs)") (simp_all add: Let_def)
  qed
qed

lemma utf8_chars_ok: "utf8_valid bs \<Longrightarrow> \<forall>c \<in> set (utf8_chars bs). char_ok c \<and> utf8_valid c"
proof (induction bs rule: utf8_chars.induct)
  case 1
  then show ?case by simp
next
  case (2 b bs)
  note first = utf8_valid_first [OF "2.prems"]
  then have "char_ok (take (utf8_len b) (b # bs))"
    using utf8_len_pos [of b] by (cases "utf8_len b") (simp_all add: char_ok_def del: utf8_valid.simps)
  with first "2.IH" show ?case by simp
qed

lemma utf8_chars_concat: "\<forall>c \<in> set cs. char_ok c \<Longrightarrow> utf8_chars (concat cs) = cs"
proof (induction cs)
  case Nil
  then show ?case by simp
next
  case (Cons c cs)
  then obtain b r where c: "c = b # r" "utf8_len b = Suc (length r)"
    by (cases c) (auto simp: char_ok_def)
  with Cons show ?case by simp
qed

lemma utf8_valid_concat: "\<forall>c \<in> set cs. utf8_valid c \<Longrightarrow> utf8_valid (concat cs)"
  by (induction cs) (simp_all add: utf8_valid_append)

end
