(* ===== verification/Program_Status.thy ===== *)
theory Program_Status
  imports Text_Bytes
begin

text \<open>
  The program status protocol, OSC 7501 (\<open>src/session/program_status.rs\<close>): parsing of untrusted
  report bodies, the bounded table of live reports and the selection of the one that is shown.
  The base64 decoders of the \<open>base64\<close> crate are an argument (\<open>b64 padded\<close>), the clock is the
  argument \<open>now\<close>.
\<close>

section \<open>Reports\<close>

definition MAX_RECORDS :: nat where
  "MAX_RECORDS = 256"

definition QUERY_REPLY :: bytes where
  "QUERY_REPLY = ascii ''?:states=idle,working,done,blocked,error:kinds=permission,question,auth''"

datatype ProgramState = Idle | Working | Done | Blocked | ErrorState

datatype BlockedKind = Permission | Question | Auth

record ProgramStatus =
  st_state :: ProgramState
  st_id :: "bytes option"
  st_kind :: "BlockedKind option"
  st_progress :: "nat option"
  st_app :: "bytes option"
  st_title :: "bytes option"
  st_msg :: "bytes option"

record ProgramStatuses =
  sts_records :: "ProgramStatus list"
  sts_changed_at :: "nat option"

type_synonym base64 = "bool \<Rightarrow> bytes \<Rightarrow> bytes option"

section \<open>Parsing\<close>

definition name :: "bytes \<Rightarrow> bool" where
  "name value \<longleftrightarrow>
     value \<noteq> [] \<and> list_all (\<lambda>b. is_ascii_alphanumeric b \<or> b \<in> set (ascii ''_.+-'')) value"

definition invisible :: "bytes \<Rightarrow> bool" where
  "invisible c \<longleftrightarrow>
     (let n = utf8_code c in
      n = 0x61c \<or> 0x200b \<le> n \<and> n \<le> 0x200f \<or> 0x202a \<le> n \<and> n \<le> 0x202e
      \<or> 0x2060 \<le> n \<and> n \<le> 0x206f \<or> n = 0xfeff)"

text \<open>The outer option is the \<open>?\<close> of the caller, the inner one the absent field.\<close>

definition status_text :: "base64 \<Rightarrow> bytes option \<Rightarrow> nat \<Rightarrow> bytes option option" where
  "status_text b64 value n =
     (case (case value of Some v \<Rightarrow> if v = [] then None else Some v | None \<Rightarrow> None) of
        None \<Rightarrow> Some None
      | Some v \<Rightarrow>
          (case b64 (last v = chr CHR ''='') v of
             None \<Rightarrow> None
           | Some bs \<Rightarrow>
               if n < length bs then None
               else if \<not> utf8_valid bs then None
               else if list_ex is_control (utf8_chars bs) then None
               else Some (Some (concat (filter (\<lambda>c. \<not> invisible c) (utf8_chars bs))))))"

record parse_fields =
  pf_state :: "bytes option"
  pf_id :: "bytes option"
  pf_kind :: "bytes option"
  pf_progress :: "bytes option"
  pf_app :: "bytes option"
  pf_title :: "bytes option"
  pf_msg :: "bytes option"

definition no_fields :: parse_fields where
  "no_fields = \<lparr>pf_state = None, pf_id = None, pf_kind = None, pf_progress = None, pf_app = None,
                pf_title = None, pf_msg = None\<rparr>"

text \<open>The first \<open>match\<close>: an oversized or malformed value refuses the whole report.\<close>

definition refused_value :: "bytes \<Rightarrow> bytes \<Rightarrow> bool" where
  "refused_value key value \<longleftrightarrow>
     (if key = ascii ''id'' then
        128 < length value \<or> 8 < length (split_on (chr CHR ''/'') value)
        \<or> list_ex (\<lambda>s. 32 < length s \<or> \<not> name s) (split_on (chr CHR ''/'') value)
      else if key = ascii ''app'' then 32 < length value
      else if key = ascii ''title'' then 256 < length value
      else if key = ascii ''msg'' then 2732 < length value
      else False)"

text \<open>The second \<open>match\<close>: store the value.\<close>

definition store_value :: "base64 \<Rightarrow> parse_fields \<Rightarrow> bytes \<Rightarrow> bytes \<Rightarrow> parse_fields option" where
  "store_value b64 f key value =
     (if key = ascii ''state'' then Some (f\<lparr>pf_state := Some value\<rparr>)
      else if key = ascii ''id'' then Some (f\<lparr>pf_id := Some value\<rparr>)
      else if key = ascii ''app'' then Some (f\<lparr>pf_app := Some value\<rparr>)
      else if key = ascii ''title''
      then map_option (\<lambda>t. f\<lparr>pf_title := t\<rparr>) (status_text b64 (Some value) 192)
      else if key = ascii ''msg''
      then map_option (\<lambda>t. f\<lparr>pf_msg := t\<rparr>) (status_text b64 (Some value) 2048)
      else if key = ascii ''kind'' then Some (f\<lparr>pf_kind := Some value\<rparr>)
      else if key = ascii ''progress'' then Some (f\<lparr>pf_progress := Some value\<rparr>)
      else Some f)"

definition parse_pair :: "base64 \<Rightarrow> parse_fields \<Rightarrow> bytes \<Rightarrow> parse_fields option" where
  "parse_pair b64 f pair =
     (case split_once (chr CHR ''='') pair of
        None \<Rightarrow> Some f
      | Some (key0, value0) \<Rightarrow>
          let key = trim_matches is_ascii_whitespace key0;
              value = trim_matches is_ascii_whitespace value0 in
          if 16 < length key then None
          else if key = [] \<or> \<not> list_all is_ascii_lowercase key then Some f
          else if refused_value key value then None
          else if \<not> list_all (\<lambda>b. is_ascii_alphanumeric b \<or> b \<in> set (ascii ''_.,+/=-'')) value
          then Some f
          else store_value b64 f key value)"

fun parse_pairs :: "base64 \<Rightarrow> parse_fields \<Rightarrow> bytes list \<Rightarrow> parse_fields option" where
  "parse_pairs b64 f [] = Some f"
| "parse_pairs b64 f (pair # pairs) =
     (case parse_pair b64 f pair of None \<Rightarrow> None | Some f' \<Rightarrow> parse_pairs b64 f' pairs)"

datatype state_word = StateWord ProgramState | ClearWord

definition parse_state :: "bytes \<Rightarrow> state_word option" where
  "parse_state v =
     (if v = ascii ''idle'' then Some (StateWord Idle)
      else if v = ascii ''working'' then Some (StateWord Working)
      else if v = ascii ''done'' then Some (StateWord Done)
      else if v = ascii ''blocked'' then Some (StateWord Blocked)
      else if v = ascii ''error'' then Some (StateWord ErrorState)
      else if v = ascii ''clear'' then Some ClearWord
      else None)"

definition parse_kind :: "ProgramState \<Rightarrow> bytes option \<Rightarrow> BlockedKind option" where
  "parse_kind state kind =
     (if state = Blocked then
        if kind = Some (ascii ''permission'') then Some Permission
        else if kind = Some (ascii ''question'') then Some Question
        else if kind = Some (ascii ''auth'') then Some Auth
        else None
      else None)"

definition parse_progress :: "ProgramState \<Rightarrow> bytes option \<Rightarrow> nat option" where
  "parse_progress state progress =
     (case progress of
        None \<Rightarrow> None
      | Some v \<Rightarrow>
          (case parse_digits 256 v of
             None \<Rightarrow> None
           | Some n \<Rightarrow> if n \<le> 100 \<and> (state = Working \<or> state = Blocked) then Some n else None))"

definition filter_option :: "('a \<Rightarrow> bool) \<Rightarrow> 'a option \<Rightarrow> 'a option" where
  "filter_option p x = (case x of Some v \<Rightarrow> if p v then Some v else None | None \<Rightarrow> None)"

text \<open>The report the collected fields make.\<close>

definition finish_parse :: "parse_fields \<Rightarrow> (bytes option \<times> ProgramStatus option) option" where
  "finish_parse f =
     (case Option.bind (pf_state f) parse_state of
        None \<Rightarrow> None
      | Some ClearWord \<Rightarrow> Some (pf_id f, None)
      | Some (StateWord state) \<Rightarrow>
          Some (pf_id f,
            Some \<lparr>st_state = state, st_id = pf_id f, st_kind = parse_kind state (pf_kind f),
                  st_progress = parse_progress state (pf_progress f),
                  st_app = filter_option name (pf_app f),
                  st_title = pf_title f, st_msg = pf_msg f\<rparr>))"

text \<open>\<open>None\<close> is an invalid report, \<open>Some (id, None)\<close> a clear, otherwise a replacement.\<close>

definition parse :: "base64 \<Rightarrow> bytes \<Rightarrow> (bytes option \<times> ProgramStatus option) option" where
  "parse b64 body =
     (if 4088 < length body then None
      else if \<not> utf8_valid body then None
      else Option.bind (parse_pairs b64 no_fields (split_on (chr CHR '':'') body)) finish_parse)"

section \<open>The table\<close>

definition priority :: "ProgramStatus \<Rightarrow> nat" where
  "priority r =
     (case st_state r of Blocked \<Rightarrow> 5 | ErrorState \<Rightarrow> 4 | Working \<Rightarrow> 3 | Done \<Rightarrow> 2 | Idle \<Rightarrow> 1)"

text \<open>\<open>Iterator::max_by_key\<close>: the last of the maximal elements.\<close>

definition max_by_key :: "('a \<Rightarrow> nat) \<Rightarrow> 'a list \<Rightarrow> 'a option" where
  "max_by_key key xs =
     foldl (\<lambda>acc x. case acc of None \<Rightarrow> Some x | Some y \<Rightarrow> if key y \<le> key x then Some x else Some y)
       None xs"

text \<open>The walk to the nearest ancestor that has an app; the root is the record without an id.\<close>

function inherit_app :: "ProgramStatus list \<Rightarrow> bytes option \<Rightarrow> bytes option" where
  "inherit_app records None = None"
| "inherit_app records (Some path) =
     (let parent = map_option fst (rsplit_once (chr CHR ''/'') path) in
      case Option.bind (find (\<lambda>r. st_id r = parent) records) st_app of
        Some app \<Rightarrow> Some app
      | None \<Rightarrow> inherit_app records parent)"
  by pat_completeness auto
termination
  by (relation "measure (\<lambda>(records, ident). case ident of None \<Rightarrow> 0 | Some p \<Rightarrow> Suc (length p))")
    (auto split: option.splits dest: rsplit_once_shorter)

definition current :: "ProgramStatuses \<Rightarrow> ProgramStatus option" where
  "current s =
     (case max_by_key priority (sts_records s) of
        None \<Rightarrow> None
      | Some record \<Rightarrow>
          Some (if st_app record = None
                then (case inherit_app (sts_records s) (st_id record) of
                        Some app \<Rightarrow> record\<lparr>st_app := Some app\<rparr>
                      | None \<Rightarrow> record)
                else record))"

text \<open>Operations return what the method returns and the updated table.\<close>

definition touch :: "nat \<Rightarrow> ProgramStatuses \<Rightarrow> ProgramStatuses \<Rightarrow> ProgramStatuses" where
  "touch now old s = (if current s \<noteq> current old then s\<lparr>sts_changed_at := Some now\<rparr> else s)"

definition remove_where ::
  "nat \<Rightarrow> (ProgramStatus \<Rightarrow> bool) \<Rightarrow> ProgramStatuses \<Rightarrow> bool \<times> ProgramStatuses" where
  "remove_where now predicate s =
     (let s' = s\<lparr>sts_records := filter (\<lambda>r. \<not> predicate r) (sts_records s)\<rparr>
      in (length (sts_records s') \<noteq> length (sts_records s), touch now s s'))"

definition cleared_by :: "bytes option \<Rightarrow> ProgramStatus \<Rightarrow> bool" where
  "cleared_by ident r \<longleftrightarrow>
     (case ident of
        None \<Rightarrow> True
      | Some i \<Rightarrow>
          (case st_id r of
             None \<Rightarrow> False
           | Some other \<Rightarrow>
               other = i \<or> (case strip_prefix_bytes i other of
                              None \<Rightarrow> False
                            | Some tail \<Rightarrow> starts_with (ascii ''/'') tail)))"

text \<open>Replace the record of \<open>id\<close>, dropping the oldest one when the table is full.\<close>

fun remove1_by :: "('a \<Rightarrow> bool) \<Rightarrow> 'a list \<Rightarrow> 'a list" where
  "remove1_by p [] = []"
| "remove1_by p (x # xs) = (if p x then xs else x # remove1_by p xs)"

definition replace_record :: "bytes option \<Rightarrow> ProgramStatus \<Rightarrow> ProgramStatus list \<Rightarrow> ProgramStatus list" where
  "replace_record ident record records =
     (let rest = remove1_by (\<lambda>r. st_id r = ident) records
      in (if length rest = MAX_RECORDS then tl rest else rest) @ [record])"

definition report :: "base64 \<Rightarrow> nat \<Rightarrow> bytes \<Rightarrow> ProgramStatuses \<Rightarrow> bool \<times> ProgramStatuses" where
  "report b64 now body s =
     (case parse b64 body of
        None \<Rightarrow> (False, s)
      | Some (ident, Some record) \<Rightarrow>
          let changed = (case find (\<lambda>r. st_id r = ident) (sts_records s) of
                           None \<Rightarrow> True | Some r \<Rightarrow> r \<noteq> record);
              s' = s\<lparr>sts_records := replace_record ident record (sts_records s)\<rparr>
          in (changed \<or> current s' \<noteq> current s, touch now s s')
      | Some (ident, None) \<Rightarrow> remove_where now (cleared_by ident) s)"

definition clear :: "nat \<Rightarrow> ProgramStatuses \<Rightarrow> bool \<times> ProgramStatuses" where
  "clear now s = remove_where now (\<lambda>_. True) s"

definition drop_transient :: "nat \<Rightarrow> ProgramStatuses \<Rightarrow> bool \<times> ProgramStatuses" where
  "drop_transient now s = remove_where now (\<lambda>r. st_state r = Working \<or> st_state r = Blocked) s"

section \<open>Every report in the table is well formed\<close>

definition id_ok :: "bytes \<Rightarrow> bool" where
  "id_ok v \<longleftrightarrow> length v \<le> 128 \<and> length (split_on (chr CHR ''/'') v) \<le> 8
     \<and> list_all (\<lambda>s. length s \<le> 32 \<and> name s) (split_on (chr CHR ''/'') v)"

text \<open>Displayable text: valid UTF-8 of bounded size, no control and no invisible characters.\<close>

definition text_ok :: "nat \<Rightarrow> bytes \<Rightarrow> bool" where
  "text_ok n t \<longleftrightarrow> length t \<le> n \<and> utf8_valid t
     \<and> list_all (\<lambda>c. \<not> is_control c \<and> \<not> invisible c) (utf8_chars t)"

definition status_ok :: "ProgramStatus \<Rightarrow> bool" where
  "status_ok r \<longleftrightarrow>
     pred_option id_ok (st_id r)
     \<and> (st_kind r \<noteq> None \<longrightarrow> st_state r = Blocked)
     \<and> pred_option (\<lambda>n. n \<le> 100 \<and> (st_state r = Working \<or> st_state r = Blocked)) (st_progress r)
     \<and> pred_option (\<lambda>a. length a \<le> 32 \<and> name a) (st_app r)
     \<and> pred_option (text_ok 192) (st_title r)
     \<and> pred_option (text_ok 2048) (st_msg r)"

definition statuses_inv :: "ProgramStatuses \<Rightarrow> bool" where
  "statuses_inv s \<longleftrightarrow> length (sts_records s) \<le> MAX_RECORDS
     \<and> distinct (map st_id (sts_records s)) \<and> list_all status_ok (sts_records s)"

lemma status_text_ok:
  assumes "status_text b64 value n = Some (Some t)"
  shows "text_ok n t"
proof -
  obtain bs where bs: "length bs \<le> n" "utf8_valid bs" "\<not> list_ex is_control (utf8_chars bs)"
    and t: "t = concat (filter (\<lambda>c. \<not> invisible c) (utf8_chars bs))"
    using assms that by (auto simp: status_text_def not_less split: option.splits if_splits)
  let ?cs = "filter (\<lambda>c. \<not> invisible c) (utf8_chars bs)"
  have ok: "\<forall>c \<in> set ?cs. char_ok c \<and> utf8_valid c" using utf8_chars_ok [OF bs(2)] by auto
  then have "utf8_chars t = ?cs" and "utf8_valid t"
    unfolding t by (auto intro!: utf8_chars_concat utf8_valid_concat)
  moreover have "length t \<le> length bs"
  proof -
    have "length (concat (filter p cs)) \<le> length (concat cs)" for p and cs :: "bytes list"
      by (induction cs) auto
    from this [of "\<lambda>c. \<not> invisible c" "utf8_chars bs"] show ?thesis
      unfolding t concat_utf8_chars .
  qed
  ultimately show ?thesis using bs by (auto simp: text_ok_def list_all_iff list_ex_iff)
qed

definition fields_ok :: "parse_fields \<Rightarrow> bool" where
  "fields_ok f \<longleftrightarrow>
     pred_option id_ok (pf_id f) \<and> pred_option (\<lambda>a. length a \<le> 32) (pf_app f)
     \<and> pred_option (text_ok 192) (pf_title f) \<and> pred_option (text_ok 2048) (pf_msg f)"

lemma status_text_pred: "status_text b64 value n = Some t \<Longrightarrow> pred_option (text_ok n) t"
  by (cases t) (auto dest: status_text_ok)

lemma ascii_eq_iff [simp]: "ascii s = ascii t \<longleftrightarrow> map (of_char :: char \<Rightarrow> byte) s = map of_char t"
  by (simp add: ascii_def)

lemma store_value_ok:
  assumes "fields_ok f" and "\<not> refused_value key value" and "store_value b64 f key value = Some f'"
  shows "fields_ok f'"
  using assms
  by (auto simp: fields_ok_def store_value_def refused_value_def id_ok_def list_all_iff list_ex_iff
      not_less ascii_def dest!: status_text_pred split: if_splits)

lemma parse_pair_ok: "fields_ok f \<Longrightarrow> parse_pair b64 f pair = Some f' \<Longrightarrow> fields_ok f'"
  by (auto simp: parse_pair_def Let_def intro: store_value_ok split: option.splits prod.splits if_splits)

lemma parse_pairs_ok: "parse_pairs b64 f pairs = Some f' \<Longrightarrow> fields_ok f \<Longrightarrow> fields_ok f'"
  by (induction b64 f pairs rule: parse_pairs.induct) (auto dest: parse_pair_ok split: option.splits)

lemma finish_parse_ok:
  "fields_ok f \<Longrightarrow> finish_parse f = Some (ident, Some r) \<Longrightarrow> st_id r = ident \<and> status_ok r"
  by (auto simp: finish_parse_def status_ok_def fields_ok_def parse_kind_def parse_progress_def
      filter_option_def split: option.splits if_splits state_word.splits)

lemma parse_status_ok:
  assumes "parse b64 body = Some (ident, Some r)"
  shows "st_id r = ident \<and> status_ok r"
proof -
  obtain f where "parse_pairs b64 no_fields (split_on (chr CHR '':'') body) = Some f"
    and fin: "finish_parse f = Some (ident, Some r)"
    using assms by (auto simp: parse_def bind_eq_Some_conv split: if_splits)
  moreover have "fields_ok no_fields" by (simp add: fields_ok_def no_fields_def)
  ultimately have "fields_ok f" by (blast intro: parse_pairs_ok)
  from finish_parse_ok [OF this fin] show ?thesis .
qed

lemma remove1_by_subset: "set (remove1_by p xs) \<subseteq> set xs"
  by (induction xs) auto

lemma remove1_by_length:
  "length (remove1_by p xs) = (if list_ex p xs then length xs - 1 else length xs)"
  by (induction xs) (auto simp: list_ex_iff dest: length_pos_if_in_set)

lemma remove1_by_distinct:
  "distinct (map f xs) \<Longrightarrow>
     distinct (map f (remove1_by (\<lambda>x. f x = k) xs)) \<and> k \<notin> f ` set (remove1_by (\<lambda>x. f x = k) xs)"
proof (induction xs)
  case Nil
  then show ?case by simp
next
  case (Cons x xs)
  then show ?case using remove1_by_subset [of "\<lambda>x. f x = k" xs] by auto
qed

lemma replace_record_inv:
  assumes "statuses_inv s" and "st_id record = ident" and "status_ok record"
  shows "statuses_inv (s\<lparr>sts_records := replace_record ident record (sts_records s)\<rparr>)"
proof -
  let ?rest = "remove1_by (\<lambda>r. st_id r = ident) (sts_records s)"
  let ?kept = "if length ?rest = MAX_RECORDS then tl ?rest else ?rest"
  have dist: "distinct (map st_id ?rest)" "ident \<notin> st_id ` set ?rest"
    using remove1_by_distinct [of st_id "sts_records s" ident] assms(1) by (auto simp: statuses_inv_def)
  have sub: "set ?kept \<subseteq> set ?rest" by (cases ?rest) auto
  have "distinct (map st_id ?kept)"
    using dist(1) by (simp add: map_tl distinct_tl)
  moreover have "length ?kept < MAX_RECORDS"
    using assms(1) remove1_by_length [of "\<lambda>r. st_id r = ident" "sts_records s"]
    by (auto simp: statuses_inv_def MAX_RECORDS_def split: if_splits)
  moreover have "list_all status_ok ?kept"
    using assms(1) sub remove1_by_subset [of "\<lambda>r. st_id r = ident" "sts_records s"]
    by (simp only: statuses_inv_def list_all_iff) blast
  ultimately show ?thesis
    using assms(2,3) dist(2) sub
    by (auto simp: statuses_inv_def replace_record_def Let_def)
qed

lemma touch_records [simp]: "sts_records (touch now old s) = sts_records s"
  by (simp add: touch_def)

lemma statuses_inv_touch [simp]: "statuses_inv (touch now old s) \<longleftrightarrow> statuses_inv s"
  by (simp add: statuses_inv_def)

lemma remove_where_inv: "statuses_inv s \<Longrightarrow> statuses_inv (snd (remove_where now p s))"
  by (auto simp: remove_where_def Let_def statuses_inv_def list_all_iff distinct_map_filter
      intro: order_trans [OF length_filter_le])

lemma report_inv: "statuses_inv s \<Longrightarrow> statuses_inv (snd (report b64 now body s))"
  using replace_record_inv parse_status_ok
  by (fastforce simp: report_def Let_def intro: remove_where_inv split: option.splits prod.splits)

section \<open>Which report is shown\<close>

lemma max_by_key_snoc:
  "max_by_key key (xs @ [x]) =
     (case max_by_key key xs of None \<Rightarrow> Some x | Some y \<Rightarrow> if key y \<le> key x then Some x else Some y)"
  by (simp add: max_by_key_def)

lemma max_by_key_None [simp]: "max_by_key key xs = None \<longleftrightarrow> xs = []"
  by (induction xs rule: rev_induct) (auto simp: max_by_key_snoc max_by_key_def split: option.splits)

lemma max_by_key_Some:
  "max_by_key key xs = Some x \<Longrightarrow>
     \<exists>a b. xs = a @ x # b \<and> (\<forall>y \<in> set a. key y \<le> key x) \<and> (\<forall>y \<in> set b. key y < key x)"
proof (induction xs arbitrary: x rule: rev_induct)
  case Nil
  then show ?case by (simp add: max_by_key_def)
next
  case (snoc z xs)
  show ?case
  proof (cases "max_by_key key xs")
    case None
    with snoc.prems have "x = z" "xs = []" by (simp_all add: max_by_key_snoc)
    then show ?thesis by (intro exI [of _ "[]"]) simp
  next
    case (Some y)
    from snoc.IH [OF this] obtain a b where
      y: "xs = a @ y # b" "\<forall>w \<in> set a. key w \<le> key y" "\<forall>w \<in> set b. key w < key y" by blast
    show ?thesis
    proof (cases "key y \<le> key z")
      case True
      then have "x = z" using Some snoc.prems by (simp add: max_by_key_snoc)
      with y True show ?thesis by (intro exI [of _ xs] exI [of _ "[]"]) force
    next
      case False
      then have "x = y" using Some snoc.prems by (simp add: max_by_key_snoc)
      with y False show ?thesis by (intro exI [of _ a] exI [of _ "b @ [z]"]) auto
    qed
  qed
qed

lemma current_Some:
  assumes "current s = Some c"
  obtains r where "max_by_key priority (sts_records s) = Some r" "c = r\<lparr>st_app := st_app c\<rparr>"
    "st_app c = (if st_app r = None then inherit_app (sts_records s) (st_id r) else st_app r)"
  using assms by (auto simp: current_def split: option.splits if_splits)

lemma current_records: "sts_records s' = sts_records s \<Longrightarrow> current s' = current s"
  unfolding current_def by (simp only:)

lemma current_touch [simp]: "current (touch now old s) = current s"
  by (rule current_records) simp

lemma replace_same:
  assumes "statuses_inv s" and "find (\<lambda>r. st_id r = ident) (sts_records s) = Some record"
  shows "set (replace_record ident record (sts_records s)) = set (sts_records s)"
proof -
  have "set (remove1_by p xs) \<union> {x} = set xs" if "find p xs = Some x" for p x and xs :: "ProgramStatus list"
    using that by (induction xs) (auto split: if_splits)
  note this [OF assms(2)]
  moreover have "list_ex (\<lambda>r. st_id r = ident) (sts_records s)"
    using assms(2) by (auto simp: find_Some_iff list_ex_length)
  then have "length (remove1_by (\<lambda>r. st_id r = ident) (sts_records s)) < MAX_RECORDS"
    using assms(1) by (auto simp: remove1_by_length statuses_inv_def MAX_RECORDS_def)
  ultimately show ?thesis by (auto simp: replace_record_def Let_def)
qed

section \<open>Properties\<close>

text \<open>C40. The table of program reports stays well formed whatever the program writes: after any
  report, full clear or expiry it holds at most 256 reports with pairwise different ids, and every
  report in it has a bounded path id, a kind only when it is blocked, a progress of at most 100
  only while it is working or blocked, and titles and messages of bounded size without control or
  invisible characters.\<close>

theorem statuses_stay_well_formed:
  assumes "statuses_inv s"
  shows "statuses_inv (snd (report b64 now body s)) \<and> statuses_inv (snd (clear now s))
     \<and> statuses_inv (snd (drop_transient now s))"
  using assms by (simp add: report_inv clear_def drop_transient_def remove_where_inv)

text \<open>The selected report is the newest among those of the highest priority, and it is shown
  as reported except that a missing app is taken from its nearest ancestor that has one.\<close>

theorem current_is_newest_of_highest:
  assumes "current s = Some c"
  shows "\<exists>a r b. sts_records s = a @ r # b
     \<and> (\<forall>y \<in> set a. priority y \<le> priority r) \<and> (\<forall>y \<in> set b. priority y < priority r)
     \<and> c = r\<lparr>st_app := (if st_app r = None then inherit_app (sts_records s) (st_id r) else st_app r)\<rparr>"
proof -
  from assms obtain r where r: "max_by_key priority (sts_records s) = Some r" "c = r\<lparr>st_app := st_app c\<rparr>"
    "st_app c = (if st_app r = None then inherit_app (sts_records s) (st_id r) else st_app r)"
    by (rule current_Some)
  from max_by_key_Some [OF r(1)] r(2) [unfolded r(3)] show ?thesis by blast
qed

text \<open>A report that answers \<open>false\<close> changed nothing a reader can see: the table holds the same
  reports, the same one is selected, and its epoch is the same.\<close>

theorem unchanged_report_is_invisible:
  assumes "statuses_inv s" and "report b64 now body s = (False, s')"
  shows "set (sts_records s') = set (sts_records s) \<and> current s' = current s
     \<and> sts_changed_at s' = sts_changed_at s"
proof -
  consider (bad) "parse b64 body = None"
    | (new) ident r where "parse b64 body = Some (ident, Some r)"
    | (clear) ident where "parse b64 body = Some (ident, None)"
    by (metis option.exhaust surj_pair)
  then show ?thesis
  proof cases
    case bad
    with assms(2) show ?thesis by (simp add: report_def)
  next
    case (new ident r)
    let ?s = "s\<lparr>sts_records := replace_record ident r (sts_records s)\<rparr>"
    from assms(2) new have s': "s' = touch now s ?s" and same: "current ?s = current s"
      and "find (\<lambda>r. st_id r = ident) (sts_records s) = Some r"
      by (auto simp: report_def Let_def split: option.splits)
    from replace_same [OF assms(1) this(3)] same show ?thesis
      unfolding s' by (simp add: touch_def)
  next
    case (clear ident)
    with assms(2) have len: "length (filter (\<lambda>r. \<not> cleared_by ident r) (sts_records s)) = length (sts_records s)"
      and s': "s' = touch now s (s\<lparr>sts_records := filter (\<lambda>r. \<not> cleared_by ident r) (sts_records s)\<rparr>)"
      by (auto simp: report_def remove_where_def Let_def)
    from len have "filter (\<lambda>r. \<not> cleared_by ident r) (sts_records s) = sts_records s"
      by (metis (no_types, lifting) filter_id_conv length_filter_less linorder_neq_iff)
    then show ?thesis unfolding s' by (simp add: touch_def)
  qed
qed

text \<open>A clear report with an id removes exactly the report of that id and those below it in the
  path hierarchy, and keeps the others in order.\<close>

theorem clear_removes_subtree:
  assumes "parse b64 body = Some (Some i, None)"
  shows "sts_records (snd (report b64 now body s)) =
     filter (\<lambda>r. \<not> (st_id r = Some i \<or> (\<exists>t. st_id r = Some (i @ ascii ''/'' @ t)))) (sts_records s)"
proof -
  have "cleared_by (Some i) r \<longleftrightarrow> st_id r = Some i \<or> (\<exists>t. st_id r = Some (i @ ascii ''/'' @ t))" for r
    by (auto simp: cleared_by_def strip_prefix_bytes_def starts_with_iff split: option.splits if_splits)
  with assms show ?thesis by (simp add: report_def remove_where_def Let_def)
qed

subsection \<open>Concrete instances\<close>

definition no_base64 :: base64 where
  "no_base64 padded v = None"

definition no_statuses :: ProgramStatuses where
  "no_statuses = \<lparr>sts_records = [], sts_changed_at = None\<rparr>"

definition working_body :: bytes where
  "working_body = ascii ''state=working:id=a/b:progress=50''"

definition working_status :: ProgramStatus where
  "working_status = \<lparr>st_state = Working, st_id = Some (ascii ''a/b''), st_kind = None,
     st_progress = Some 50, st_app = None, st_title = None, st_msg = None\<rparr>"

lemma parse_working: "parse no_base64 working_body = Some (Some (ascii ''a/b''), Some working_status)"
  unfolding working_body_def working_status_def no_base64_def by code_simp

lemma parse_clear: "parse no_base64 (ascii ''state=clear:id=a'') = Some (Some (ascii ''a''), None)"
  by code_simp

theorem statuses_stay_well_formed_witness:
  "statuses_inv no_statuses \<and> statuses_inv (snd (report no_base64 7 working_body no_statuses))"
proof -
  have "statuses_inv no_statuses" by (simp add: statuses_inv_def no_statuses_def)
  with statuses_stay_well_formed [OF this] show ?thesis by blast
qed

theorem current_is_newest_of_highest_witness:
  "\<exists>a r b. [working_status] = a @ r # b \<and> (\<forall>y \<in> set a. priority y \<le> priority r)
     \<and> (\<forall>y \<in> set b. priority y < priority r)
     \<and> working_status = r\<lparr>st_app := (if st_app r = None then inherit_app [working_status] (st_id r) else st_app r)\<rparr>"
proof -
  have "current \<lparr>sts_records = [working_status], sts_changed_at = None\<rparr> = Some working_status"
    by code_simp
  from current_is_newest_of_highest [OF this] show ?thesis by (simp only: ProgramStatuses.select_convs)
qed

theorem unchanged_report_is_invisible_witness:
  "current (snd (report no_base64 9 working_body \<lparr>sts_records = [working_status], sts_changed_at = Some 7\<rparr>))
     = Some working_status"
proof -
  let ?s = "\<lparr>sts_records = [working_status], sts_changed_at = Some 7\<rparr>"
  have "report no_base64 9 working_body ?s = (False, ?s)"
    unfolding report_def parse_working by code_simp
  moreover have "id_ok (ascii ''a/b'')" by code_simp
  then have "statuses_inv ?s"
    by (simp add: statuses_inv_def status_ok_def working_status_def MAX_RECORDS_def)
  ultimately have "current ?s = current ?s" and "report no_base64 9 working_body ?s = (False, ?s)"
    using unchanged_report_is_invisible by blast+
  moreover have "current ?s = Some working_status" by code_simp
  ultimately show ?thesis by simp
qed

theorem clear_removes_subtree_witness:
  "sts_records (snd (report no_base64 9 (ascii ''state=clear:id=a'')
     \<lparr>sts_records = [working_status], sts_changed_at = Some 7\<rparr>)) = []"
  unfolding clear_removes_subtree [OF parse_clear]
  by (simp add: working_status_def ascii_def)

end
