(* ===== verification/Terminal_Signals.thy ===== *)
theory Terminal_Signals
  imports Program_Status
begin

text \<open>
  The one-way terminal notifications a session retains (\<open>TerminalSignals\<close> of
  \<open>src/session/pty.rs\<close>), the colours it reports for colour probes, and the escape sequences that
  replay the notifications on a freshly attached terminal.
\<close>

section \<open>Queries and colours\<close>

datatype TerminalQuery = CursorPositionReport | DeviceStatusReport | ForegroundColor | BackgroundColor

type_synonym rgb = "nat \<times> nat \<times> nat"

definition color_levels :: "nat list" where
  "color_levels = [0x00, 0x5f, 0x87, 0xaf, 0xd7, 0xff]"

definition base_colors :: "rgb list" where
  "base_colors =
     [(0x00, 0x00, 0x00), (0xcd, 0x00, 0x00), (0x00, 0xcd, 0x00), (0xcd, 0xcd, 0x00),
      (0x00, 0x00, 0xee), (0xcd, 0x00, 0xcd), (0x00, 0xcd, 0xcd), (0xe5, 0xe5, 0xe5),
      (0x7f, 0x7f, 0x7f), (0xff, 0x00, 0x00), (0x00, 0xff, 0x00), (0xff, 0xff, 0x00),
      (0x5c, 0x5c, 0xff), (0xff, 0x00, 0xff), (0x00, 0xff, 0xff), (0xff, 0xff, 0xff)]"

text \<open>The index is a \<open>u8\<close>; the grey ramp is computed in \<open>u8\<close> arithmetic.\<close>

definition xterm_color_to_rgb :: "nat \<Rightarrow> rgb" where
  "xterm_color_to_rgb index =
     (if index < 16 then base_colors ! index
      else if index < 232 then
        let v = index - 16 in
        (color_levels ! (v div 36), color_levels ! (v mod 36 div 6), color_levels ! (v mod 6))
      else let level = (8 + (index - 232) * 10) mod 256 in (level, level, level))"

text \<open>\<open>str::trim\<close> restricted to ASCII white space and vertical tab, and \<open>parse::<u8>\<close>.\<close>

definition parse_u8 :: "bytes \<Rightarrow> nat option" where
  "parse_u8 bs = parse_digits 256 (case bs of b # r \<Rightarrow> if b = chr CHR ''+'' then r else bs | [] \<Rightarrow> [])"

definition terminal_report_rgb :: "bytes option \<Rightarrow> rgb \<times> rgb" where
  "terminal_report_rgb colorfgbg =
     (let parsed = (case colorfgbg of
          None \<Rightarrow> []
        | Some raw \<Rightarrow> List.map_filter
            (\<lambda>p. parse_u8 (trim_matches (\<lambda>b. is_ascii_whitespace b \<or> b = 11) p))
            (split_on (chr CHR '';'') raw))
      in if 2 \<le> length parsed
         then (xterm_color_to_rgb (parsed ! (length parsed - 2)),
               xterm_color_to_rgb (parsed ! (length parsed - 1)))
         else ((0xff, 0xff, 0xff), (0x00, 0x00, 0x00)))"

section \<open>Retained signals\<close>

definition MAX_RETAINED_SIGNAL_PAYLOAD_BYTES :: nat where
  "MAX_RETAINED_SIGNAL_PAYLOAD_BYTES = 1024"

record TerminalSignals =
  ts_icon_title :: "bytes option"
  ts_window_title :: "bytes option"
  ts_progress :: "bytes option"
  ts_cursor_style :: "bytes option"
  ts_foreground :: "bytes option"
  ts_background :: "bytes option"
  ts_program_statuses :: ProgramStatuses

definition no_signals :: TerminalSignals where
  "no_signals = \<lparr>ts_icon_title = None, ts_window_title = None, ts_progress = None,
     ts_cursor_style = None, ts_foreground = None, ts_background = None,
     ts_program_statuses = \<lparr>sts_records = [], sts_changed_at = None\<rparr>\<rparr>"

text \<open>\<open>replace_slot\<close>: whether the slot changed; the caller stores the new value.\<close>

definition replace_slot :: "bytes option \<Rightarrow> bytes option \<Rightarrow> bool \<times> bytes option" where
  "replace_slot slot nxt = (if slot = nxt then (False, slot) else (True, nxt))"

definition some_unless_empty :: "bytes \<Rightarrow> bytes option" where
  "some_unless_empty payload = (if payload = [] then None else Some payload)"

definition set_icon_title :: "bytes option \<Rightarrow> TerminalSignals \<Rightarrow> bool \<times> TerminalSignals" where
  "set_icon_title v s = (case replace_slot (ts_icon_title s) v of (c, x) \<Rightarrow> (c, s\<lparr>ts_icon_title := x\<rparr>))"

definition set_window_title :: "bytes option \<Rightarrow> TerminalSignals \<Rightarrow> bool \<times> TerminalSignals" where
  "set_window_title v s =
     (case replace_slot (ts_window_title s) v of (c, x) \<Rightarrow> (c, s\<lparr>ts_window_title := x\<rparr>))"

definition set_progress :: "bytes option \<Rightarrow> TerminalSignals \<Rightarrow> bool \<times> TerminalSignals" where
  "set_progress v s = (case replace_slot (ts_progress s) v of (c, x) \<Rightarrow> (c, s\<lparr>ts_progress := x\<rparr>))"

definition set_foreground :: "bytes option \<Rightarrow> TerminalSignals \<Rightarrow> bool \<times> TerminalSignals" where
  "set_foreground v s = (case replace_slot (ts_foreground s) v of (c, x) \<Rightarrow> (c, s\<lparr>ts_foreground := x\<rparr>))"

definition set_background :: "bytes option \<Rightarrow> TerminalSignals \<Rightarrow> bool \<times> TerminalSignals" where
  "set_background v s = (case replace_slot (ts_background s) v of (c, x) \<Rightarrow> (c, s\<lparr>ts_background := x\<rparr>))"

definition set_both_titles :: "bytes \<Rightarrow> TerminalSignals \<Rightarrow> bool \<times> TerminalSignals" where
  "set_both_titles payload s =
     (let changed = (ts_icon_title s \<noteq> Some payload \<or> ts_window_title s \<noteq> Some payload)
      in (changed, if changed then s\<lparr>ts_icon_title := Some payload, ts_window_title := Some payload\<rparr> else s))"

definition report_status :: "base64 \<Rightarrow> nat \<Rightarrow> bytes \<Rightarrow> TerminalSignals \<Rightarrow> bool \<times> TerminalSignals" where
  "report_status b64 now payload s =
     (case report b64 now payload (ts_program_statuses s) of
        (changed, sts) \<Rightarrow> (changed, s\<lparr>ts_program_statuses := sts\<rparr>))"

text \<open>The value a progress notification leaves: \<open>9;4;0\<close> removes the indicator.\<close>

definition progress_value :: "bytes \<Rightarrow> bytes option" where
  "progress_value payload =
     (if hd (split_on (chr CHR '';'') (drop 2 payload)) = ascii ''0'' then None else Some payload)"

definition signals_record_osc ::
  "base64 \<Rightarrow> nat \<Rightarrow> bytes \<Rightarrow> bytes \<Rightarrow> TerminalSignals \<Rightarrow> bool \<times> TerminalSignals" where
  "signals_record_osc b64 now ps payload s =
     (if ps \<noteq> ascii ''7501'' \<and> MAX_RETAINED_SIGNAL_PAYLOAD_BYTES < length payload then (False, s)
      else if ps = ascii ''7501'' then report_status b64 now payload s
      else if ps = ascii ''0'' then set_both_titles payload s
      else if ps = ascii ''1'' then set_icon_title (Some payload) s
      else if ps = ascii ''2'' then set_window_title (Some payload) s
      else if ps = ascii ''10'' then set_foreground (some_unless_empty payload) s
      else if ps = ascii ''11'' then set_background (some_unless_empty payload) s
      else if ps = ascii ''9'' \<and> starts_with (ascii ''4;'') payload
      then set_progress (progress_value payload) s
      else (False, s))"

definition signals_title :: "TerminalSignals \<Rightarrow> bytes option" where
  "signals_title s = (case ts_window_title s of Some t \<Rightarrow> Some t | None \<Rightarrow> ts_icon_title s)"

definition set_cursor_style :: "bytes option \<Rightarrow> TerminalSignals \<Rightarrow> bool \<times> TerminalSignals" where
  "set_cursor_style params s =
     (if ts_cursor_style s = params then (False, s) else (True, s\<lparr>ts_cursor_style := params\<rparr>))"

section \<open>Replay\<close>

definition push_osc :: "bytes \<Rightarrow> bytes \<Rightarrow> bytes" where
  "push_osc ps payload = [0x1b, 0x5d] @ ps @ [0x3b] @ payload @ [0x07]"

definition restore_titles :: "TerminalSignals \<Rightarrow> bytes" where
  "restore_titles s =
     (case (ts_icon_title s, ts_window_title s) of
        (Some icon, Some window) \<Rightarrow>
          if icon = window then push_osc (ascii ''0'') icon
          else push_osc (ascii ''1'') icon @ push_osc (ascii ''2'') window
      | (Some icon, None) \<Rightarrow> push_osc (ascii ''1'') icon
      | (None, Some window) \<Rightarrow> push_osc (ascii ''2'') window
      | (None, None) \<Rightarrow> [])"

definition restore_bytes :: "TerminalSignals \<Rightarrow> bytes" where
  "restore_bytes s =
     restore_titles s
     @ (case ts_progress s of Some p \<Rightarrow> push_osc (ascii ''9'') p | None \<Rightarrow> [])
     @ (case ts_cursor_style s of Some c \<Rightarrow> [0x1b, 0x5b] @ c @ [0x20, 0x71] | None \<Rightarrow> [])"

definition collect_chunk_bytes :: "(nat \<times> bytes) list \<Rightarrow> bytes" where
  "collect_chunk_bytes chunks = concat (map snd chunks)"

section \<open>Bounds and change reports\<close>

text \<open>Every retained payload is bounded, and the statuses are well formed.\<close>

definition payload_bounded :: "bytes option \<Rightarrow> bool" where
  "payload_bounded x \<longleftrightarrow> pred_option (\<lambda>p. length p \<le> MAX_RETAINED_SIGNAL_PAYLOAD_BYTES) x"

definition signals_bounded :: "TerminalSignals \<Rightarrow> bool" where
  "signals_bounded s \<longleftrightarrow>
     payload_bounded (ts_icon_title s) \<and> payload_bounded (ts_window_title s)
     \<and> payload_bounded (ts_progress s) \<and> payload_bounded (ts_foreground s)
     \<and> payload_bounded (ts_background s) \<and> statuses_inv (ts_program_statuses s)"

lemmas slot_defs = set_icon_title_def set_window_title_def set_progress_def set_foreground_def
  set_background_def set_both_titles_def replace_slot_def

lemma record_osc_bounded:
  assumes "signals_bounded s"
  shows "signals_bounded (snd (signals_record_osc b64 now ps payload s))"
proof (cases "ps = ascii ''7501''")
  case True
  then have "signals_record_osc b64 now ps payload s = report_status b64 now payload s"
    by (simp add: signals_record_osc_def)
  with assms show ?thesis
    using report_inv [of "ts_program_statuses s" b64 now payload]
    by (auto simp: report_status_def signals_bounded_def split: prod.splits)
next
  case False
  with assms show ?thesis
    by (auto simp: signals_record_osc_def signals_bounded_def slot_defs payload_bounded_def
        progress_value_def some_unless_empty_def Let_def)
qed

lemma set_cursor_style_bounded:
  "signals_bounded s \<Longrightarrow> signals_bounded (snd (set_cursor_style p s))"
  by (simp add: set_cursor_style_def signals_bounded_def)

lemma slot_exact:
  "fst (set_icon_title v s) \<longleftrightarrow> snd (set_icon_title v s) \<noteq> s"
  "fst (set_window_title v s) \<longleftrightarrow> snd (set_window_title v s) \<noteq> s"
  "fst (set_progress v s) \<longleftrightarrow> snd (set_progress v s) \<noteq> s"
  "fst (set_foreground v s) \<longleftrightarrow> snd (set_foreground v s) \<noteq> s"
  "fst (set_background v s) \<longleftrightarrow> snd (set_background v s) \<noteq> s"
  "fst (set_both_titles p s) \<longleftrightarrow> snd (set_both_titles p s) \<noteq> s"
  "fst (set_cursor_style v s) \<longleftrightarrow> snd (set_cursor_style v s) \<noteq> s"
  by (cases s, auto simp: slot_defs set_cursor_style_def Let_def)+

text \<open>Outside the status protocol, \<open>false\<close> means that nothing changed, \<open>true\<close> that something did.\<close>

lemma record_osc_exact:
  assumes "ps \<noteq> ascii ''7501''"
  shows "fst (signals_record_osc b64 now ps payload s) \<longleftrightarrow> snd (signals_record_osc b64 now ps payload s) \<noteq> s"
  using assms
  by (simp add: signals_record_osc_def slot_exact)

section \<open>The palette\<close>

text \<open>Every component of a palette entry is a byte, and the grey ramp does not wrap around.\<close>

lemma xterm_color_in_range:
  assumes "index < 256"
  shows "case xterm_color_to_rgb index of (r, g, b) \<Rightarrow> r < 256 \<and> g < 256 \<and> b < 256
     \<and> (232 \<le> index \<longrightarrow> r = 8 + 10 * (index - 232))"
proof -
  consider (base) "index < 16" | (cube) "16 \<le> index" "index < 232" | (grey) "232 \<le> index" by linarith
  then show ?thesis
  proof cases
    case base
    have "list_all (\<lambda>(r, g, b). r < 256 \<and> g < 256 \<and> b < 256) base_colors"
      by (simp add: base_colors_def)
    moreover have "length base_colors = 16" by (simp add: base_colors_def)
    ultimately show ?thesis using base
      by (auto simp: xterm_color_to_rgb_def list_all_length split: prod.splits)
  next
    case cube
    have lvl: "color_levels ! k < 256" if "k < 6" for k
    proof -
      have "list_all (\<lambda>x. x < 256) color_levels" "length color_levels = 6"
        by (simp_all add: color_levels_def)
      with that show ?thesis by (simp add: list_all_length)
    qed
    have "(index - 16) div 36 < 6" "(index - 16) mod 36 div 6 < 6" "(index - 16) mod 6 < 6"
      using cube by auto
    with cube lvl show ?thesis by (simp add: xterm_color_to_rgb_def Let_def)
  next
    case grey
    with assms show ?thesis by (simp add: xterm_color_to_rgb_def Let_def mult.commute)
  qed
qed

end
