(* ===== verification/Pty_Scanner.thy ===== *)
theory Pty_Scanner
  imports Terminal_Signals
begin

text \<open>
  The pseudo-terminal output scanner (\<open>src/session/scan.rs\<close>): the byte-level state machine that
  every byte a session's program writes goes through. It answers or strips terminal protocol
  traffic, retains one-way notifications, and carries an incomplete sequence over to the next
  chunk.

  The code walks an index over the chunk and only ever looks forward from it, so the model walks
  the rest of the chunk: \<open>rest\<close> is \<open>&data[start..]\<close>. \<open>BARE_CONPTY_FORMS\<close>, a compile-time
  constant that is true on Windows only, is the argument \<open>bare\<close>. Buffer reuse is left out.
\<close>

section \<open>State\<close>

definition MAX_PENDING_ESCAPE_BYTES :: nat where
  "MAX_PENDING_ESCAPE_BYTES = 4096"

record ScanOut =
  out_filtered :: bytes
  out_queries :: "TerminalQuery list"
  out_responses :: "bytes list"
  out_signal_bytes :: nat

definition no_out :: ScanOut where
  "no_out = \<lparr>out_filtered = [], out_queries = [], out_responses = [], out_signal_bytes = 0\<rparr>"

definition meaningful_bytes :: "ScanOut \<Rightarrow> nat" where
  "meaningful_bytes out = length (out_filtered out) - out_signal_bytes out"

record PtyScanner =
  pt_pending :: bytes
  pt_signals :: TerminalSignals
  pt_signals_dirty :: bool

definition PtyScanner_new :: PtyScanner where
  "PtyScanner_new = \<lparr>pt_pending = [], pt_signals = no_signals, pt_signals_dirty = False\<rparr>"

definition is_idle :: "PtyScanner \<Rightarrow> bool" where
  "is_idle sc \<longleftrightarrow> pt_pending sc = []"

definition take_changed_signals :: "PtyScanner \<Rightarrow> TerminalSignals option \<times> PtyScanner" where
  "take_changed_signals sc =
     (if \<not> pt_signals_dirty sc then (None, sc)
      else (Some (pt_signals sc), sc\<lparr>pt_signals_dirty := False\<rparr>))"

text \<open>What the sequence handlers update: the scanner and the output of the current chunk.\<close>

type_synonym scan_io = "PtyScanner \<times> ScanOut"

definition emit :: "bytes \<Rightarrow> scan_io \<Rightarrow> scan_io" where
  "emit bs s = (fst s, (snd s)\<lparr>out_filtered := out_filtered (snd s) @ bs\<rparr>)"

definition push_query :: "TerminalQuery \<Rightarrow> scan_io \<Rightarrow> scan_io" where
  "push_query q s = (fst s, (snd s)\<lparr>out_queries := out_queries (snd s) @ [q]\<rparr>)"

definition push_response :: "bytes \<Rightarrow> scan_io \<Rightarrow> scan_io" where
  "push_response r s = (fst s, (snd s)\<lparr>out_responses := out_responses (snd s) @ [r]\<rparr>)"

definition add_signal_bytes :: "nat \<Rightarrow> scan_io \<Rightarrow> scan_io" where
  "add_signal_bytes n s = (fst s, (snd s)\<lparr>out_signal_bytes := out_signal_bytes (snd s) + n\<rparr>)"

text \<open>Apply an update of the signals and remember whether it changed something.\<close>

definition update_signals ::
  "(TerminalSignals \<Rightarrow> bool \<times> TerminalSignals) \<Rightarrow> scan_io \<Rightarrow> scan_io" where
  "update_signals f s =
     (case f (pt_signals (fst s)) of (changed, sig) \<Rightarrow>
        ((fst s)\<lparr>pt_signals := sig, pt_signals_dirty := pt_signals_dirty (fst s) \<or> changed\<rparr>, snd s))"

definition on_statuses ::
  "(ProgramStatuses \<Rightarrow> bool \<times> ProgramStatuses) \<Rightarrow> TerminalSignals \<Rightarrow> bool \<times> TerminalSignals" where
  "on_statuses f sig =
     (case f (ts_program_statuses sig) of (changed, sts) \<Rightarrow> (changed, sig\<lparr>ts_program_statuses := sts\<rparr>))"

definition record_osc :: "base64 \<Rightarrow> nat \<Rightarrow> bytes \<Rightarrow> bytes \<Rightarrow> scan_io \<Rightarrow> scan_io" where
  "record_osc b64 now ps payload = update_signals (signals_record_osc b64 now ps payload)"

definition record_cursor_style :: "bytes \<Rightarrow> scan_io \<Rightarrow> scan_io" where
  "record_cursor_style params =
     update_signals (set_cursor_style (if params = [] \<or> params = ascii ''0'' then None else Some params))"

section \<open>Control sequences\<close>

datatype CsiAction = Emit | Strip | StripAndAnswer TerminalQuery

definition is_two_numeric_params :: "bytes \<Rightarrow> bool" where
  "is_two_numeric_params digits =
     (case split_on (chr CHR '';'') digits of
        [a, b] \<Rightarrow> a \<noteq> [] \<and> b \<noteq> [] \<and> list_all is_ascii_digit a \<and> list_all is_ascii_digit b
      | _ \<Rightarrow> False)"

definition leading_number :: "bytes \<Rightarrow> nat option" where
  "leading_number digits = parse_digits (2 ^ 32) (hd (split_on (chr CHR '';'') digits))"

definition csi_private :: "bytes \<Rightarrow> byte" where
  "csi_private params =
     (case params of b # _ \<Rightarrow> if 0x3c \<le> b \<and> b \<le> 0x3f then b else 0 | [] \<Rightarrow> 0)"

definition classify_csi :: "bytes \<Rightarrow> bytes \<Rightarrow> byte \<Rightarrow> CsiAction" where
  "classify_csi params intermediates final_byte =
     (let private = csi_private params; digits = (if private = 0 then params else drop 1 params) in
      if final_byte = chr CHR ''R'' \<and> (private = 0 \<or> private = chr CHR ''?'') \<and> is_two_numeric_params digits
      then Strip
      else if final_byte = chr CHR ''n'' \<and> private = chr CHR ''?'' then Strip
      else if final_byte = chr CHR ''n'' \<and> private = 0 \<and> digits \<noteq> [] \<and> list_all is_ascii_digit digits
      then (if digits = ascii ''6'' then StripAndAnswer CursorPositionReport
            else if digits = ascii ''5'' then StripAndAnswer DeviceStatusReport
            else Strip)
      else if final_byte = chr CHR ''c'' then Strip
      else if final_byte = chr CHR ''p'' \<and> private = chr CHR ''?'' \<and> intermediates = ascii ''$'' then Strip
      else if final_byte = chr CHR ''q'' \<and> private = chr CHR ''>'' then Strip
      else if final_byte = chr CHR ''u'' \<and> private = chr CHR ''?'' then Strip
      else if final_byte = chr CHR ''t'' \<and> private = 0
              \<and> (case leading_number digits of Some n \<Rightarrow> 14 \<le> n \<and> n \<le> 19 | None \<Rightarrow> False)
      then Strip
      else Emit)"

definition param_byte :: "byte \<Rightarrow> bool" where
  "param_byte b \<longleftrightarrow> 0x30 \<le> b \<and> b \<le> 0x3f"

definition intermediate_byte :: "byte \<Rightarrow> bool" where
  "intermediate_byte b \<longleftrightarrow> 0x20 \<le> b \<and> b \<le> 0x2f"

definition csi_action :: "bytes \<Rightarrow> bytes \<Rightarrow> byte \<Rightarrow> bytes \<Rightarrow> scan_io \<Rightarrow> scan_io" where
  "csi_action params intermediates final_byte whole s =
     (case classify_csi params intermediates final_byte of
        Emit \<Rightarrow>
          emit whole (if final_byte = chr CHR ''q'' \<and> intermediates = ascii '' ''
                      then record_cursor_style params s else s)
      | Strip \<Rightarrow> s
      | StripAndAnswer query \<Rightarrow> push_query query s)"

text \<open>\<open>None\<close>: the sequence is not complete in this chunk. \<open>rest\<close> starts with \<open>ESC [\<close>.\<close>

definition csi :: "bytes \<Rightarrow> scan_io \<Rightarrow> nat option \<times> scan_io" where
  "csi rest s =
     (let params = takeWhile param_byte (drop 2 rest);
          r1 = dropWhile param_byte (drop 2 rest);
          intermediates = takeWhile intermediate_byte r1
      in case dropWhile intermediate_byte r1 of
           [] \<Rightarrow> (None, s)
         | final_byte # _ \<Rightarrow>
             if \<not> (0x40 \<le> final_byte \<and> final_byte \<le> 0x7e) then (Some 2, emit (take 2 rest) s)
             else let n = 2 + length params + length intermediates + 1
                  in (Some n, csi_action params intermediates final_byte (take n rest) s))"

section \<open>Operating system commands\<close>

definition is_passthrough_osc :: "bytes \<Rightarrow> bytes \<Rightarrow> bool" where
  "is_passthrough_osc ps payload \<longleftrightarrow>
     ps = ascii ''0'' \<or> ps = ascii ''1'' \<or> ps = ascii ''2''
     \<or> ps = ascii ''9'' \<and> starts_with (ascii ''4;'') payload"

text \<open>The search for the string terminator, from the payload on: not there yet, an embedded escape,
  or the payload and the length of the terminator.\<close>

datatype osc_end = OscOpen | OscBroken | OscEnd bytes nat

fun osc_terminator :: "bool \<Rightarrow> bytes \<Rightarrow> osc_end" where
  "osc_terminator escaped [] = OscOpen"
| "osc_terminator escaped (b # bs) =
     (if b = 0x07 then OscEnd [] 1
      else if b = 0x1b then
        (case bs of
           [] \<Rightarrow> OscOpen
         | c # _ \<Rightarrow> if escaped \<and> c = 0x5c then OscEnd [] 2 else OscBroken)
      else case osc_terminator escaped bs of OscEnd p n \<Rightarrow> OscEnd (b # p) n | r \<Rightarrow> r)"

text \<open>What a complete command does. \<open>whole\<close> is the sequence without its introducer, of
  \<open>ps\<close>, an optional separator, \<open>payload\<close> and the terminator \<open>term\<close>; \<open>span\<close> is the length
  with the introducer.\<close>

definition osc_status ::
  "base64 \<Rightarrow> nat \<Rightarrow> bool \<Rightarrow> bytes \<Rightarrow> bytes \<Rightarrow> nat \<Rightarrow> scan_io \<Rightarrow> scan_io" where
  "osc_status b64 now separated payload trm span s =
     (if separated \<and> span \<le> MAX_PENDING_ESCAPE_BYTES then
        if payload = ascii ''?''
        then push_response ([0x1b, 0x5d] @ ascii ''7501;'' @ QUERY_REPLY @ trm) s
        else record_osc b64 now (ascii ''7501'') payload s
      else s)"

definition osc_probe :: "bytes \<Rightarrow> scan_io \<Rightarrow> scan_io" where
  "osc_probe ps s =
     (if ps = ascii ''10'' then push_query ForegroundColor s
      else if ps = ascii ''11'' then push_query BackgroundColor s
      else s)"

definition osc_prompt :: "nat \<Rightarrow> bytes \<Rightarrow> bytes \<Rightarrow> scan_io \<Rightarrow> scan_io" where
  "osc_prompt now ps payload s =
     (if ps = ascii ''133'' \<and> hd (split_on (chr CHR '';'') payload) = ascii ''A''
      then update_signals (on_statuses (drop_transient now)) s else s)"

definition osc_action ::
  "base64 \<Rightarrow> nat \<Rightarrow> bytes \<Rightarrow> bool \<Rightarrow> bytes \<Rightarrow> bytes \<Rightarrow> bytes \<Rightarrow> nat \<Rightarrow> scan_io \<Rightarrow> scan_io" where
  "osc_action b64 now ps separated payload trm whole span s0 =
     (if ps = ascii ''7501'' then osc_status b64 now separated payload trm span s0
      else
        let s = osc_prompt now ps payload s0 in
        if take 1 payload = ascii ''?'' then osc_probe ps s
        else if ps = ascii ''10'' \<or> ps = ascii ''11'' then record_osc b64 now ps payload s
        else if \<not> separated \<or> \<not> is_passthrough_osc ps payload then s
        else add_signal_bytes (2 + length whole) (emit ([0x1b, 0x5d] @ whole) (record_osc b64 now ps payload s)))"

text \<open>\<open>intro\<close> is the length of the introducer: 2 for \<open>ESC ]\<close> (\<open>escaped\<close>), 1 for the bare form.\<close>

definition osc :: "base64 \<Rightarrow> nat \<Rightarrow> nat \<Rightarrow> bool \<Rightarrow> bytes \<Rightarrow> scan_io \<Rightarrow> nat option \<times> scan_io" where
  "osc b64 now intr escaped rest s =
     (let ps = takeWhile is_ascii_digit (drop intr rest);
          r1 = dropWhile is_ascii_digit (drop intr rest)
      in if ps = [] \<or> 5 < length ps then
           if r1 = [] then (None, s) else (Some intr, emit (take intr rest) s)
         else
           let separated = (take 1 r1 = [0x3b]); body = (if separated then drop 1 r1 else r1) in
           case osc_terminator escaped body of
             OscOpen \<Rightarrow> (None, s)
           | OscBroken \<Rightarrow> (Some intr, emit (take intr rest) s)
           | OscEnd payload t \<Rightarrow>
               let n = length ps + (if separated then 1 else 0) + length payload + t
               in (Some (intr + n),
                   osc_action b64 now ps separated payload (take t (drop (length payload) body))
                     (take n (drop intr rest)) (intr + n) s))"

section \<open>Other sequences\<close>

text \<open>The length of a string sequence's payload and terminator.\<close>

fun string_end :: "bytes \<Rightarrow> nat option" where
  "string_end [] = None"
| "string_end (b # bs) =
     (if b = 0x07 then Some 1
      else if b = 0x1b then
        (case bs of
           [] \<Rightarrow> None
         | c # _ \<Rightarrow> if c = 0x5c then Some 2 else map_option Suc (string_end bs))
      else map_option Suc (string_end bs))"

definition string_sequence :: "bytes \<Rightarrow> nat option" where
  "string_sequence rest = map_option (\<lambda>n. 2 + n) (string_end (drop 2 rest))"

definition bare_csi :: "bytes \<Rightarrow> scan_io \<Rightarrow> nat \<times> scan_io" where
  "bare_csi rest s =
     (let q = (if take 1 (drop 1 rest) = ascii ''?'' then 1 else 0);
          r0 = drop (1 + q) rest;
          digits = takeWhile is_ascii_digit r0;
          r1 = dropWhile is_ascii_digit r0;
          literal = (1, emit (ascii ''['') s)
      in if digits = [] then literal
         else if take 1 r1 = ascii ''n'' then
           if digits = ascii ''5'' \<or> digits = ascii ''6'' then (1 + q + length digits + 1, s) else literal
         else if take 1 r1 \<noteq> ascii '';'' then literal
         else
           let second = takeWhile is_ascii_digit (drop 1 r1);
               r2 = dropWhile is_ascii_digit (drop 1 r1)
           in if second = [] \<or> take 1 r2 \<noteq> ascii ''R'' then literal
              else (1 + q + length digits + 1 + length second + 1, s))"

definition escape :: "base64 \<Rightarrow> nat \<Rightarrow> bytes \<Rightarrow> scan_io \<Rightarrow> nat option \<times> scan_io" where
  "escape b64 now rest s =
     (case drop 1 rest of
        [] \<Rightarrow> (None, s)
      | introducer # _ \<Rightarrow>
          if introducer = chr CHR ''['' then csi rest s
          else if introducer = chr CHR '']'' then osc b64 now 2 True rest s
          else if introducer \<in> set (ascii ''P_^X'') then (string_sequence rest, s)
          else if introducer = chr CHR ''c''
          then (Some 2, emit (take 2 rest) (update_signals (on_statuses (clear now)) s))
          else (Some 2, emit (take 2 rest) s))"

section \<open>The scan\<close>

text \<open>The bytes that end a run of plain text.\<close>

definition introduces :: "bool \<Rightarrow> byte \<Rightarrow> bool" where
  "introduces bare b \<longleftrightarrow> b = 0x1b \<or> bare \<and> (b = 0x5b \<or> b = 0x5d)"

definition sequence :: "base64 \<Rightarrow> nat \<Rightarrow> bytes \<Rightarrow> scan_io \<Rightarrow> nat option \<times> scan_io" where
  "sequence b64 now rest s =
     (if take 1 rest = [0x1b] then escape b64 now rest s
      else if take 1 rest = [0x5b] then (case bare_csi rest s of (n, s') \<Rightarrow> (Some n, s'))
      else osc b64 now 1 False rest s)"

lemma osc_consumes: "osc b64 now intr escaped rest s = (Some n, s') \<Longrightarrow> 0 < intr \<Longrightarrow> 0 < n"
  by (auto simp: osc_def Let_def split: if_splits osc_end.splits)

lemma sequence_consumes: "sequence b64 now rest s = (Some n, s') \<Longrightarrow> 0 < n"
  by (auto simp: sequence_def escape_def csi_def bare_csi_def string_sequence_def Let_def
      dest: osc_consumes split: if_splits list.splits)

text \<open>The loop: what is left when a sequence is not complete, and the updated state.\<close>

function scan_tokens :: "base64 \<Rightarrow> bool \<Rightarrow> nat \<Rightarrow> bytes \<Rightarrow> scan_io \<Rightarrow> bytes \<times> scan_io" where
  "scan_tokens b64 bare now data s =
     (let rest = dropWhile (\<lambda>b. \<not> introduces bare b) data;
          s1 = emit (takeWhile (\<lambda>b. \<not> introduces bare b) data) s
      in if rest = [] then ([], s1)
         else case sequence b64 now rest s1 of
                (None, s2) \<Rightarrow> (rest, s2)
              | (Some n, s2) \<Rightarrow> scan_tokens b64 bare now (drop n rest) s2)"
  by pat_completeness auto
termination
proof (relation "measure (\<lambda>(b64, bare, now, data, s). length data)", goal_cases)
  case (2 b64 bare now data s rest s1 x s2 n)
  have "length rest \<le> length data" using 2(1) by (simp add: length_dropWhile_le)
  moreover have "0 < n" using 2(4,5) by (metis sequence_consumes)
  ultimately show ?case using 2(3) by (cases rest) auto
qed simp

declare scan_tokens.simps [simp del]

text \<open>One turn of the loop, by how it goes on.\<close>

abbreviation plain_run :: "bool \<Rightarrow> bytes \<Rightarrow> bytes" where
  "plain_run bare data \<equiv> takeWhile (\<lambda>b. \<not> introduces bare b) data"

abbreviation from_intro :: "bool \<Rightarrow> bytes \<Rightarrow> bytes" where
  "from_intro bare data \<equiv> dropWhile (\<lambda>b. \<not> introduces bare b) data"

lemma scan_tokens_end:
  "from_intro bare data = [] \<Longrightarrow> scan_tokens b64 bare now data s = ([], emit (plain_run bare data) s)"
  by (subst scan_tokens.simps) (simp only: Let_def if_True refl)

lemma scan_tokens_open:
  "from_intro bare data \<noteq> [] \<Longrightarrow>
     sequence b64 now (from_intro bare data) (emit (plain_run bare data) s) = (None, s') \<Longrightarrow>
     scan_tokens b64 bare now data s = (from_intro bare data, s')"
  by (subst scan_tokens.simps) (simp only: Let_def if_False prod.case option.case)

lemma scan_tokens_next:
  "from_intro bare data \<noteq> [] \<Longrightarrow>
     sequence b64 now (from_intro bare data) (emit (plain_run bare data) s) = (Some n, s') \<Longrightarrow>
     scan_tokens b64 bare now data s = scan_tokens b64 bare now (drop n (from_intro bare data)) s'"
  by (subst scan_tokens.simps) (simp only: Let_def if_False prod.case option.case)

lemma scan_tokens_cases:
  obtains (stop) "from_intro bare data = []"
      "scan_tokens b64 bare now data s = ([], emit (plain_run bare data) s)"
  | (held) s' where "from_intro bare data \<noteq> []"
      "sequence b64 now (from_intro bare data) (emit (plain_run bare data) s) = (None, s')"
      "scan_tokens b64 bare now data s = (from_intro bare data, s')"
  | (go) n s' where "from_intro bare data \<noteq> []"
      "sequence b64 now (from_intro bare data) (emit (plain_run bare data) s) = (Some n, s')"
      "scan_tokens b64 bare now data s = scan_tokens b64 bare now (drop n (from_intro bare data)) s'"
proof -
  obtain c s' where sq: "sequence b64 now (from_intro bare data) (emit (plain_run bare data) s) = (c, s')"
    by (rule prod.exhaust)
  show ?thesis
  proof (cases "from_intro bare data = []")
    case True
    show ?thesis by (rule stop [OF True scan_tokens_end [OF True]])
  next
    case False
    then show ?thesis
      using sq scan_tokens_open [OF False, of b64 now s s'] scan_tokens_next [OF False, of b64 now s _ s']
      by (cases c) (blast intro: held go)+
  qed
qed

lemma scan_tokens_induct [case_names step]:
  assumes "\<And>data s. (\<And>n s'. from_intro bare data \<noteq> [] \<Longrightarrow>
      sequence b64 now (from_intro bare data) (emit (plain_run bare data) s) = (Some n, s') \<Longrightarrow>
      P (drop n (from_intro bare data)) s') \<Longrightarrow> P data s"
  shows "P data s"
proof (induction b64\<equiv>b64 bare\<equiv>bare now\<equiv>now data s rule: scan_tokens.induct)
  case (1 data s)
  show ?case
  proof (rule assms)
    fix n s'
    assume "from_intro bare data \<noteq> []"
      and "sequence b64 now (from_intro bare data) (emit (plain_run bare data) s) = (Some n, s')"
    from 1 [OF refl refl this(1) this(2) [symmetric] refl] show "P (drop n (from_intro bare data)) s'" .
  qed
qed

definition hold_or_flush :: "bytes \<times> scan_io \<Rightarrow> scan_io" where
  "hold_or_flush res =
     (case res of (rest, s) \<Rightarrow>
        if MAX_PENDING_ESCAPE_BYTES \<le> length rest then emit rest s
        else ((fst s)\<lparr>pt_pending := pt_pending (fst s) @ rest\<rparr>, snd s))"

definition scan_slice :: "base64 \<Rightarrow> bool \<Rightarrow> nat \<Rightarrow> bytes \<Rightarrow> scan_io \<Rightarrow> scan_io" where
  "scan_slice b64 bare now data s = hold_or_flush (scan_tokens b64 bare now data s)"

definition pty_scan :: "base64 \<Rightarrow> bool \<Rightarrow> nat \<Rightarrow> PtyScanner \<Rightarrow> bytes \<Rightarrow> scan_io" where
  "pty_scan b64 bare now sc data =
     scan_slice b64 bare now (pt_pending sc @ data) (sc\<lparr>pt_pending := []\<rparr>, no_out)"

section \<open>Output is only ever appended\<close>

definition out_append :: "ScanOut \<Rightarrow> ScanOut \<Rightarrow> ScanOut" where
  "out_append a b = \<lparr>out_filtered = out_filtered a @ out_filtered b,
     out_queries = out_queries a @ out_queries b, out_responses = out_responses a @ out_responses b,
     out_signal_bytes = out_signal_bytes a + out_signal_bytes b\<rparr>"

definition shift :: "ScanOut \<Rightarrow> scan_io \<Rightarrow> scan_io" where
  "shift o0 s = (fst s, out_append o0 (snd s))"

lemma out_append_no_out [simp]: "out_append a no_out = a" "out_append no_out a = a"
  by (simp_all add: out_append_def no_out_def)

lemma out_append_assoc: "out_append (out_append a b) c = out_append a (out_append b c)"
  by (simp add: out_append_def)

lemma shift_primitives [simp]:
  "emit bs (shift o0 s) = shift o0 (emit bs s)"
  "push_query q (shift o0 s) = shift o0 (push_query q s)"
  "push_response r (shift o0 s) = shift o0 (push_response r s)"
  "add_signal_bytes n (shift o0 s) = shift o0 (add_signal_bytes n s)"
  "update_signals f (shift o0 s) = shift o0 (update_signals f s)"
  by (simp_all add: emit_def push_query_def push_response_def add_signal_bytes_def update_signals_def
      shift_def out_append_def split: prod.splits)

lemma shift_records [simp]:
  "record_osc b64 now ps pl (shift o0 s) = shift o0 (record_osc b64 now ps pl s)"
  "record_cursor_style ps (shift o0 s) = shift o0 (record_cursor_style ps s)"
  "osc_status b64 now sep pl trm n (shift o0 s) = shift o0 (osc_status b64 now sep pl trm n s)"
  "osc_probe ps (shift o0 s) = shift o0 (osc_probe ps s)"
  "osc_prompt now ps pl (shift o0 s) = shift o0 (osc_prompt now ps pl s)"
  by (simp_all add: record_osc_def record_cursor_style_def osc_status_def osc_probe_def osc_prompt_def)

lemma shift_csi_action [simp]: "csi_action ps im f w (shift o0 s) = shift o0 (csi_action ps im f w s)"
  by (cases "classify_csi ps im f") (simp_all add: csi_action_def)

lemma shift_osc_action [simp]:
  "osc_action b64 now ps sep pl trm w n (shift o0 s) = shift o0 (osc_action b64 now ps sep pl trm w n s)"
  by (simp add: osc_action_def Let_def)

lemma shift_csi: "csi rest (shift o0 s) = map_prod (\<lambda>x. x) (shift o0) (csi rest s)"
  unfolding csi_def Let_def by (simp split: list.splits del: dropWhile_eq_Nil_conv)

lemma shift_osc: "osc b64 now i e rest (shift o0 s) = map_prod (\<lambda>x. x) (shift o0) (osc b64 now i e rest s)"
  unfolding osc_def Let_def by (auto split: osc_end.splits)

lemma shift_bare_csi: "bare_csi rest (shift o0 s) = map_prod (\<lambda>x. x) (shift o0) (bare_csi rest s)"
  unfolding bare_csi_def Let_def by simp

lemma shift_escape: "escape b64 now rest (shift o0 s) = map_prod (\<lambda>x. x) (shift o0) (escape b64 now rest s)"
  unfolding escape_def by (simp add: shift_csi shift_osc split: list.splits)

lemma shift_sequence:
  "sequence b64 now rest (shift o0 s) = map_prod (\<lambda>x. x) (shift o0) (sequence b64 now rest s)"
  unfolding sequence_def by (simp add: shift_escape shift_osc shift_bare_csi split: prod.splits)

lemma shift_scan_tokens:
  "scan_tokens b64 bare now data (shift o0 s) = map_prod (\<lambda>x. x) (shift o0) (scan_tokens b64 bare now data s)"
proof (induction data s rule: scan_tokens_induct [of bare b64 now])
  case (step data s)
  show ?case
  proof (cases rule: scan_tokens_cases [of bare data b64 now s])
    case stop
    then show ?thesis by (simp only: scan_tokens_end shift_primitives map_prod_simp)
  next
    case (held s')
    then show ?thesis
      by (subst scan_tokens_open [OF held(1)]) (simp_all only: shift_primitives shift_sequence map_prod_simp)
  next
    case (go n s')
    have "sequence b64 now (from_intro bare data) (emit (plain_run bare data) (shift o0 s)) = (Some n, shift o0 s')"
      by (simp only: shift_primitives shift_sequence go(2) map_prod_simp)
    from scan_tokens_next [OF go(1) this] step [OF go(1,2)] go(3) show ?thesis by simp
  qed
qed

section \<open>The pending prefix is not touched while scanning\<close>

lemma pending_primitives [simp]:
  "pt_pending (fst (emit bs s)) = pt_pending (fst s)"
  "pt_pending (fst (push_query q s)) = pt_pending (fst s)"
  "pt_pending (fst (push_response r s)) = pt_pending (fst s)"
  "pt_pending (fst (add_signal_bytes n s)) = pt_pending (fst s)"
  "pt_pending (fst (update_signals f s)) = pt_pending (fst s)"
  by (simp_all add: emit_def push_query_def push_response_def add_signal_bytes_def update_signals_def
      split: prod.splits)

lemma pending_records [simp]:
  "pt_pending (fst (record_osc b64 now ps pl s)) = pt_pending (fst s)"
  "pt_pending (fst (record_cursor_style ps s)) = pt_pending (fst s)"
  "pt_pending (fst (osc_status b64 now sep pl trm n s)) = pt_pending (fst s)"
  "pt_pending (fst (osc_probe ps s)) = pt_pending (fst s)"
  "pt_pending (fst (osc_prompt now ps pl s)) = pt_pending (fst s)"
  by (simp_all add: record_osc_def record_cursor_style_def osc_status_def osc_probe_def osc_prompt_def)

lemma pending_actions [simp]:
  "pt_pending (fst (csi_action ps im f w s)) = pt_pending (fst s)"
  "pt_pending (fst (osc_action b64 now ps sep pl trm w n s)) = pt_pending (fst s)"
  by (cases "classify_csi ps im f") (simp_all add: csi_action_def osc_action_def Let_def)

lemma pending_sequence: "sequence b64 now rest s = (c, s') \<Longrightarrow> pt_pending (fst s') = pt_pending (fst s)"
  by (auto simp: sequence_def escape_def csi_def osc_def bare_csi_def Let_def
      split: list.splits osc_end.splits if_splits prod.splits)

text \<open>Rule induction over the scan: a reflexive and transitive relation that plain text and every
  sequence establish holds between the first and the last state.\<close>

lemma scan_tokens_invariant:
  assumes trans: "\<And>a b c. R a b \<Longrightarrow> R b c \<Longrightarrow> R a c"
    and plain: "\<And>bs s. R s (emit bs s)"
    and sq: "\<And>rest s c s'. sequence b64 now rest s = (c, s') \<Longrightarrow> R s s'"
  shows "R s (snd (scan_tokens b64 bare now data s))"
proof (induction data s rule: scan_tokens_induct [of bare b64 now])
  case (step data s)
  show ?case
  proof (cases rule: scan_tokens_cases [of bare data b64 now s])
    case stop
    then show ?thesis by (simp only: snd_conv plain)
  next
    case (held s')
    from trans [OF plain sq [OF held(2)]] show ?thesis by (simp only: held(3) snd_conv)
  next
    case (go n s')
    from trans [OF trans [OF plain sq [OF go(2)]] step [OF go(1,2)]] show ?thesis by (simp only: go(3))
  qed
qed

lemma pending_scan_tokens:
  "pt_pending (fst (snd (scan_tokens b64 bare now data s))) = pt_pending (fst s)"
  by (rule scan_tokens_invariant [where R = "\<lambda>s s'. pt_pending (fst s') = pt_pending (fst s)"])
    (auto dest: pending_sequence)

section \<open>A complete sequence does not depend on what follows it\<close>

lemma takeWhile_stable: "dropWhile P xs \<noteq> [] \<Longrightarrow> takeWhile P (xs @ ys) = takeWhile P xs"
  by (induction xs) auto

lemma dropWhile_stable: "dropWhile P xs \<noteq> [] \<Longrightarrow> dropWhile P (xs @ ys) = dropWhile P xs @ ys"
  by (induction xs) auto

lemma take_drop_While: "length (takeWhile P xs) + length (dropWhile P xs) = length xs"
  by (metis length_append takeWhile_dropWhile_id)

lemma drop_stable: "drop n xs \<noteq> [] \<Longrightarrow> drop n (xs @ ys) = drop n xs @ ys"
  by simp

lemma take1_eq: "take 1 xs = [x] \<longleftrightarrow> (\<exists>r. xs = x # r)"
  by (cases xs) auto

lemma take_stable: "n \<le> length xs \<Longrightarrow> take n (xs @ ys) = take n xs"
  by simp

lemma csi_stable:
  assumes "csi rest s = (Some n, s')"
  shows "csi (rest @ ext) s = (Some n, s') \<and> n \<le> length rest"
proof -
  let ?b = "drop 2 rest"
  let ?r1 = "dropWhile param_byte ?b"
  let ?r2 = "dropWhile intermediate_byte ?r1"
  have r2: "?r2 \<noteq> []"
  proof
    assume "?r2 = []"
    then have "csi rest s = (None, s)" unfolding csi_def Let_def by (simp only: list.case)
    with assms show False by simp
  qed
  have r1: "?r1 \<noteq> []" using r2 by (cases ?r1) simp_all
  have b: "?b \<noteq> []" using r1 by (cases ?b) simp_all
  have two: "2 < length rest" using b by simp
  have len: "2 + length (takeWhile param_byte ?b) + length (takeWhile intermediate_byte ?r1) + 1 \<le> length rest"
    using take_drop_While [of param_byte ?b] take_drop_While [of intermediate_byte ?r1] r2 two
    by (cases ?r2) auto
  show ?thesis
  proof (cases ?r2)
    case (Cons f tl)
    show ?thesis
      using assms len two unfolding csi_def Let_def drop_stable [OF b] takeWhile_stable [OF r1]
        dropWhile_stable [OF r1] takeWhile_stable [OF r2] dropWhile_stable [OF r2]
      unfolding Cons append_Cons list.case take_stable [OF len] take_stable [OF less_imp_le [OF two]]
      by (simp split: if_splits)
  qed (use r2 in simp)
qed

lemma osc_terminator_stable:
  "osc_terminator e bs \<noteq> OscOpen \<Longrightarrow> osc_terminator e (bs @ ext) = osc_terminator e bs"
proof (induction bs)
  case Nil
  then show ?case by simp
next
  case (Cons b bs)
  then show ?case
    by (cases bs; cases "osc_terminator e bs") (auto split: if_splits)
qed

lemma osc_terminator_end:
  "osc_terminator e bs = OscEnd p t \<Longrightarrow> length p + t \<le> length bs \<and> 0 < t \<and> take (length p) bs = p
     \<and> 0x07 \<notin> set p \<and> 0x1b \<notin> set p"
proof (induction bs arbitrary: p)
  case Nil
  then show ?case by simp
next
  case (Cons b bs)
  show ?case
  proof (cases "b = 0x07 \<or> b = 0x1b")
    case True
    with Cons.prems show ?thesis by (auto split: list.splits if_splits)
  next
    case False
    with Cons.prems obtain p' where "osc_terminator e bs = OscEnd p' t" "p = b # p'"
      by (auto split: osc_end.splits)
    with Cons.IH [OF this(1)] False show ?thesis by auto
  qed
qed

lemma osc_stable:
  assumes "osc b64 now intr e rest s = (Some n, s')" and "intr \<le> length rest"
  shows "osc b64 now intr e (rest @ ext) s = (Some n, s') \<and> n \<le> length rest"
proof -
  let ?b = "drop intr rest"
  let ?ps = "takeWhile is_ascii_digit ?b"
  let ?r1 = "dropWhile is_ascii_digit ?b"
  let ?sep = "take 1 ?r1 = [0x3b]"
  let ?body = "if ?sep then drop 1 ?r1 else ?r1"
  have r1: "?r1 \<noteq> []"
  proof
    assume "?r1 = []"
    then have "osc b64 now intr e rest s = (None, s)"
      unfolding osc_def Let_def by (simp del: dropWhile_eq_Nil_conv)
    with assms(1) show False by simp
  qed
  have b: "?b \<noteq> []" using r1 by (cases ?b) simp_all
  have one: "take 1 (?r1 @ ext) = take 1 ?r1" using r1 by (cases ?r1) simp_all
  have body: "(if ?sep then drop 1 (?r1 @ ext) else ?r1 @ ext) = ?body @ ext"
    using r1 by (cases ?r1) simp_all
  have blen: "intr + length ?ps + (if ?sep then 1 else 0) + length ?body = length rest"
    using take_drop_While [of is_ascii_digit ?b] b r1 assms(2) by (cases ?r1) auto
  show ?thesis
  proof (cases "?ps = [] \<or> 5 < length ?ps")
    case True
    then have "osc b64 now intr e rest s = (Some intr, emit (take intr rest) s)"
      "osc b64 now intr e (rest @ ext) s = (Some intr, emit (take intr (rest @ ext)) s)"
      unfolding osc_def Let_def drop_stable [OF b] takeWhile_stable [OF r1] dropWhile_stable [OF r1]
      using r1 by simp_all
    with assms show ?thesis by auto
  next
    case False
    note unf = osc_def Let_def drop_stable [OF b] takeWhile_stable [OF r1] dropWhile_stable [OF r1]
      one body if_not_P [OF False]
    show ?thesis
    proof (cases "osc_terminator e ?body")
      case OscOpen
      then have "osc b64 now intr e rest s = (None, s)" unfolding unf by (simp only: osc_end.case)
      with assms(1) show ?thesis by simp
    next
      case OscBroken
      then have t: "osc_terminator e (?body @ ext) = OscBroken"
        using osc_terminator_stable [of e ?body ext] by (simp only: osc_end.distinct simp_thms)
      have "osc b64 now intr e rest s = (Some intr, emit (take intr rest) s)"
        using OscBroken unfolding unf by (simp only: osc_end.case)
      moreover have "osc b64 now intr e (rest @ ext) s = (Some intr, emit (take intr (rest @ ext)) s)"
        using t unfolding unf by (simp only: osc_end.case)
      ultimately show ?thesis using assms by simp
    next
      case (OscEnd pl t)
      then have tt: "osc_terminator e (?body @ ext) = OscEnd pl t"
        using osc_terminator_stable [of e ?body ext] by (simp only: osc_end.distinct simp_thms)
      let ?n = "length ?ps + (if ?sep then 1 else 0) + length pl + t"
      have pt: "length pl + t \<le> length ?body" using osc_terminator_end [OF OscEnd] by simp
      have nb: "?n \<le> length ?b" and nr: "intr + ?n \<le> length rest" using blen pt by auto
      have trm: "take t (drop (length pl) (?body @ ext)) = take t (drop (length pl) ?body)"
        using pt by simp
      have "osc b64 now intr e rest s = (Some (intr + ?n), osc_action b64 now ?ps ?sep pl
          (take t (drop (length pl) ?body)) (take ?n ?b) (intr + ?n) s)"
        using OscEnd unfolding unf by (simp only: osc_end.case)
      moreover have "osc b64 now intr e (rest @ ext) s = (Some (intr + ?n), osc_action b64 now ?ps ?sep pl
          (take t (drop (length pl) ?body)) (take ?n ?b) (intr + ?n) s)"
        using tt unfolding unf by (simp only: osc_end.case trm take_stable [OF nb])
      ultimately show ?thesis using assms(1) nr by simp
    qed
  qed
qed

lemma osc_cases:
  assumes "osc b64 now intr e rest s = (Some n, s')"
  obtains (literal) "n = intr" "s' = emit (take intr rest) s"
  | (command) ps sep pl trm k where "n = intr + k"
      "s' = osc_action b64 now ps sep pl trm (take k (drop intr rest)) n s"
      "0x07 \<notin> set pl" "0x1b \<notin> set pl"
proof -
  let ?ps = "takeWhile is_ascii_digit (drop intr rest)"
  let ?r1 = "dropWhile is_ascii_digit (drop intr rest)"
  let ?sep = "take 1 ?r1 = [0x3b]"
  let ?body = "if ?sep then drop 1 ?r1 else ?r1"
  show ?thesis
  proof (cases "?ps = [] \<or> 5 < length ?ps")
    case True
    with assms have "n = intr \<and> s' = emit (take intr rest) s"
      unfolding osc_def Let_def by (auto split: if_splits)
    then show ?thesis using literal by blast
  next
    case False
    note unf = osc_def Let_def if_not_P [OF False]
    show ?thesis
    proof (cases "osc_terminator e ?body")
      case OscOpen
      then have "osc b64 now intr e rest s = (None, s)" unfolding unf by (simp only: osc_end.case)
      with assms show ?thesis by simp
    next
      case OscBroken
      then have "osc b64 now intr e rest s = (Some intr, emit (take intr rest) s)"
        unfolding unf by (simp only: osc_end.case)
      with assms show ?thesis by (auto intro: literal)
    next
      case (OscEnd pl t)
      let ?n = "length ?ps + (if ?sep then 1 else 0) + length pl + t"
      have "osc b64 now intr e rest s = (Some (intr + ?n), osc_action b64 now ?ps ?sep pl
          (take t (drop (length pl) ?body)) (take ?n (drop intr rest)) (intr + ?n) s)"
        using OscEnd unfolding unf by (simp only: osc_end.case)
      with assms have res: "n = intr + ?n" "s' = osc_action b64 now ?ps ?sep pl
          (take t (drop (length pl) ?body)) (take ?n (drop intr rest)) n s" by auto
      show ?thesis using osc_terminator_end [OF OscEnd] by (intro command [OF res]) simp_all
    qed
  qed
qed

lemma string_end_stable:
  "string_end bs = Some n \<Longrightarrow> string_end (bs @ ext) = Some n \<and> n \<le> length bs"
proof (induction bs arbitrary: n)
  case Nil
  then show ?case by simp
next
  case (Cons b bs)
  then show ?case
    by (cases bs; cases "string_end bs") (auto split: if_splits)
qed

lemma escape_stable:
  assumes "escape b64 now rest s = (Some n, s')"
  shows "escape b64 now (rest @ ext) s = (Some n, s') \<and> n \<le> length rest"
proof -
  obtain i r where d: "drop 1 rest = i # r"
    using assms by (cases "drop 1 rest") (auto simp: escape_def)
  then have two: "2 \<le> length rest" by (cases rest) auto
  have dx: "drop 1 (rest @ ext) = i # r @ ext" using d two by simp
  have st: "string_sequence (rest @ ext) = Some k \<and> k \<le> length rest" if "string_sequence rest = Some k" for k
    using that string_end_stable [of "drop 2 rest" _ ext] two by (auto simp: string_sequence_def)
  show ?thesis
    using assms csi_stable [of rest s n s' ext] osc_stable [of b64 now 2 True rest s n s' ext] st two
    unfolding escape_def d dx list.case by (auto split: if_splits)
qed

lemma escape_open: "escape b64 now rest s = (None, s') \<Longrightarrow> s' = s"
  by (auto simp: escape_def csi_def osc_def Let_def split: list.splits if_splits osc_end.splits)

section \<open>Chunk boundaries do not matter\<close>

text \<open>On a stream where only the escape byte introduces sequences.\<close>

lemma introduces_False [simp]: "introduces False b \<longleftrightarrow> b = 0x1b"
  by (simp add: introduces_def)

lemma emit_emit: "emit b (emit a s) = emit (a @ b) s"
  by (simp add: emit_def)

lemma emit_Nil [simp]: "emit [] s = s"
  by (simp add: emit_def)

lemma from_intro_hd: "from_intro False data \<noteq> [] \<Longrightarrow> take 1 (from_intro False data) = [0x1b]"
  using hd_dropWhile [of "\<lambda>b. \<not> introduces False b" data] by (cases "from_intro False data") auto

lemma scan_tokens_plain:
  assumes "0x1b \<notin> set run"
  shows "scan_tokens b64 False now (run @ b) s = scan_tokens b64 False now b (emit run s)"
proof -
  have "takeWhile (\<lambda>b. \<not> introduces False b) (run @ b) = run @ plain_run False b"
    "dropWhile (\<lambda>b. \<not> introduces False b) (run @ b) = from_intro False b"
    using assms by (induction run) auto
  then show ?thesis
    unfolding scan_tokens.simps [of b64 False now "run @ b" s]
      scan_tokens.simps [of b64 False now b "emit run s"] Let_def emit_emit by (simp only:)
qed

lemma scan_tokens_escape:
  assumes "escape b64 now (0x1b # r) s = (Some n, s')"
  shows "scan_tokens b64 False now (0x1b # r) s = scan_tokens b64 False now (drop n (0x1b # r)) s'"
proof -
  have "from_intro False (0x1b # r) = 0x1b # r" "plain_run False (0x1b # r) = []" by simp_all
  with assms scan_tokens_next [of False "0x1b # r" b64 now s n s'] show ?thesis
    by (simp add: sequence_def)
qed

lemma scan_tokens_append:
  assumes "scan_tokens b64 False now a s = (l, s')"
  shows "scan_tokens b64 False now (a @ b) s = scan_tokens b64 False now (l @ b) s'"
  using assms
proof (induction a s rule: scan_tokens_induct [of False b64 now])
  case (step a s)
  let ?rest = "from_intro False a"
  have pl: "0x1b \<notin> set (plain_run False a)" by (auto dest: set_takeWhileD)
  have a: "a = plain_run False a @ ?rest" by simp
  have tokens: "scan_tokens b64 False now (a @ b) s
      = scan_tokens b64 False now (?rest @ b) (emit (plain_run False a) s)"
    using scan_tokens_plain [OF pl, of b64 now "?rest @ b" s]
    unfolding append_assoc [symmetric] takeWhile_dropWhile_id .
  show ?case
  proof (cases rule: scan_tokens_cases [of False a b64 now s])
    case stop
    show ?thesis unfolding tokens stop(1) using stop(2) step.prems by simp
  next
    case (held s2)
    have "s2 = emit (plain_run False a) s"
      using held(2) from_intro_hd [OF held(1)] unfolding sequence_def by (simp add: escape_open)
    with held(3) step.prems tokens show ?thesis by simp
  next
    case (go n s2)
    let ?s1 = "emit (plain_run False a) s"
    have hd: "take 1 ?rest = [0x1b]" by (rule from_intro_hd [OF go(1)])
    have "escape b64 now ?rest ?s1 = (Some n, s2)" using go(2) hd by (simp add: sequence_def)
    from escape_stable [OF this, of b] have n: "escape b64 now (?rest @ b) ?s1 = (Some n, s2)"
      "n \<le> length ?rest" by simp_all
    have hd': "take 1 (?rest @ b) = [0x1b]" using hd go(1) by (cases ?rest) auto
    then obtain r' where r': "?rest @ b = 0x1b # r'" unfolding take1_eq by blast
    have "scan_tokens b64 False now (?rest @ b) ?s1 = scan_tokens b64 False now (drop n (?rest @ b)) s2"
      using n(1) unfolding r' by (rule scan_tokens_escape)
    also have "\<dots> = scan_tokens b64 False now (drop n ?rest @ b) s2" using n(2) by simp
    also have "\<dots> = scan_tokens b64 False now (l @ b) s'"
      by (rule step.IH [OF go(1,2)]) (use go(3) step.prems in simp)
    finally show ?thesis using tokens by simp
  qed
qed

text \<open>The bytes a scan would hold back.\<close>

definition held_bytes :: "base64 \<Rightarrow> bool \<Rightarrow> nat \<Rightarrow> PtyScanner \<Rightarrow> bytes \<Rightarrow> bytes" where
  "held_bytes b64 bare now sc data =
     fst (scan_tokens b64 bare now (pt_pending sc @ data) (sc\<lparr>pt_pending := []\<rparr>, no_out))"

fun scan_chunks :: "base64 \<Rightarrow> bool \<Rightarrow> nat \<Rightarrow> PtyScanner \<Rightarrow> bytes list \<Rightarrow> scan_io" where
  "scan_chunks b64 bare now sc [] = (sc, no_out)"
| "scan_chunks b64 bare now sc (c # cs) =
     (case pty_scan b64 bare now sc c of (sc1, o1) \<Rightarrow> shift o1 (scan_chunks b64 bare now sc1 cs))"

text \<open>No chunk ends inside a sequence candidate that has grown past the limit.\<close>

fun no_stall :: "base64 \<Rightarrow> nat \<Rightarrow> PtyScanner \<Rightarrow> bytes list \<Rightarrow> bool" where
  "no_stall b64 now sc [] \<longleftrightarrow> True"
| "no_stall b64 now sc (c # cs) \<longleftrightarrow>
     length (held_bytes b64 False now sc c) < MAX_PENDING_ESCAPE_BYTES
     \<and> no_stall b64 now (fst (pty_scan b64 False now sc c)) cs"

lemma shift_hold_or_flush: "hold_or_flush (map_prod (\<lambda>x. x) (shift o0) res) = shift o0 (hold_or_flush res)"
  by (cases res) (simp add: hold_or_flush_def, simp add: shift_def)

lemma pty_scan_append:
  assumes "length (held_bytes b64 False now sc a) < MAX_PENDING_ESCAPE_BYTES"
    and "pty_scan b64 False now sc a = (sc1, o1)"
  shows "pty_scan b64 False now sc (a @ b) = shift o1 (pty_scan b64 False now sc1 b)"
proof -
  let ?s0 = "(sc\<lparr>pt_pending := []\<rparr>, no_out)"
  obtain l sc2 o2 where tok: "scan_tokens b64 False now (pt_pending sc @ a) ?s0 = (l, sc2, o2)"
    by (metis prod.exhaust)
  have pend: "pt_pending sc2 = []"
    using pending_scan_tokens [of b64 False now "pt_pending sc @ a" ?s0] tok by simp
  have l: "length l < MAX_PENDING_ESCAPE_BYTES" using assms(1) tok by (simp add: held_bytes_def)
  then have one: "sc1 = sc2\<lparr>pt_pending := l\<rparr>" "o1 = o2"
    using assms(2) tok pend by (auto simp: pty_scan_def scan_slice_def hold_or_flush_def)
  have "sc2 = sc1\<lparr>pt_pending := []\<rparr>" using one(1) pend by simp
  then have s2: "(sc2, o2) = shift o1 (sc1\<lparr>pt_pending := []\<rparr>, no_out)"
    using one(2) by (simp add: shift_def)
  have pl: "pt_pending sc1 = l" using one(1) by simp
  have "pty_scan b64 False now sc (a @ b) = hold_or_flush (scan_tokens b64 False now (l @ b) (sc2, o2))"
    using scan_tokens_append [OF tok, of b] by (simp add: pty_scan_def scan_slice_def)
  also have "\<dots> = shift o1 (hold_or_flush (scan_tokens b64 False now (l @ b) (sc1\<lparr>pt_pending := []\<rparr>, no_out)))"
    unfolding s2 by (simp only: shift_scan_tokens shift_hold_or_flush)
  finally show ?thesis using pl by (simp add: pty_scan_def scan_slice_def)
qed

lemma shift_no_out [simp]: "shift o0 (sc, no_out) = (sc, o0)"
  by (simp add: shift_def)

lemma scan_chunks_concat:
  "no_stall b64 now sc (c # cs) \<Longrightarrow>
     scan_chunks b64 False now sc (c # cs) = pty_scan b64 False now sc (concat (c # cs))"
proof (induction cs arbitrary: sc c)
  case Nil
  show ?case by (cases "pty_scan b64 False now sc c") simp
next
  case (Cons d ds)
  obtain sc1 o1 where one: "pty_scan b64 False now sc c = (sc1, o1)" by (rule prod.exhaust)
  with Cons.prems have "no_stall b64 now sc1 (d # ds)" by simp
  from Cons.IH [OF this] pty_scan_append [OF _ one, of "concat (d # ds)"] Cons.prems one show ?case
    by simp
qed

section \<open>Bounds\<close>

lemma filtered_primitives [simp]:
  "out_filtered (snd (emit bs s)) = out_filtered (snd s) @ bs"
  "out_filtered (snd (push_query q s)) = out_filtered (snd s)"
  "out_filtered (snd (push_response r s)) = out_filtered (snd s)"
  "out_filtered (snd (add_signal_bytes n s)) = out_filtered (snd s)"
  "out_filtered (snd (update_signals f s)) = out_filtered (snd s)"
  "out_signal_bytes (snd (emit bs s)) = out_signal_bytes (snd s)"
  "out_signal_bytes (snd (push_query q s)) = out_signal_bytes (snd s)"
  "out_signal_bytes (snd (push_response r s)) = out_signal_bytes (snd s)"
  "out_signal_bytes (snd (add_signal_bytes n s)) = out_signal_bytes (snd s) + n"
  "out_signal_bytes (snd (update_signals f s)) = out_signal_bytes (snd s)"
  by (simp_all add: emit_def push_query_def push_response_def add_signal_bytes_def update_signals_def
      split: prod.splits)

lemma filtered_records [simp]:
  "out_filtered (snd (record_osc b64 now ps pl s)) = out_filtered (snd s)"
  "out_filtered (snd (record_cursor_style ps s)) = out_filtered (snd s)"
  "out_filtered (snd (osc_status b64 now sep pl trm n s)) = out_filtered (snd s)"
  "out_filtered (snd (osc_probe ps s)) = out_filtered (snd s)"
  "out_filtered (snd (osc_prompt now ps pl s)) = out_filtered (snd s)"
  "out_signal_bytes (snd (record_osc b64 now ps pl s)) = out_signal_bytes (snd s)"
  "out_signal_bytes (snd (record_cursor_style ps s)) = out_signal_bytes (snd s)"
  "out_signal_bytes (snd (osc_status b64 now sep pl trm n s)) = out_signal_bytes (snd s)"
  "out_signal_bytes (snd (osc_probe ps s)) = out_signal_bytes (snd s)"
  "out_signal_bytes (snd (osc_prompt now ps pl s)) = out_signal_bytes (snd s)"
  by (simp_all add: record_osc_def record_cursor_style_def osc_status_def osc_probe_def osc_prompt_def)

text \<open>\<open>grows k s s'\<close>: the output grew by at most \<open>k\<close> bytes, and the signal bytes are among them.\<close>

definition grows :: "nat \<Rightarrow> scan_io \<Rightarrow> scan_io \<Rightarrow> bool" where
  "grows k s s' \<longleftrightarrow> length (out_filtered (snd s')) \<le> length (out_filtered (snd s)) + k
     \<and> (out_signal_bytes (snd s) \<le> length (out_filtered (snd s))
        \<longrightarrow> out_signal_bytes (snd s') \<le> length (out_filtered (snd s')))"

lemma grows_trans: "grows k s s1 \<Longrightarrow> grows m s1 s2 \<Longrightarrow> k + m \<le> n \<Longrightarrow> grows n s s2"
  by (auto simp: grows_def)

lemma grows_emit: "length bs \<le> k \<Longrightarrow> grows k s (emit bs s)"
  by (simp add: grows_def)

lemma csi_action_grows: "grows (length w) s (csi_action ps im f w s)"
  by (cases "classify_csi ps im f") (simp_all add: csi_action_def grows_def)

lemma osc_action_grows: "grows (2 + length w) s (osc_action b64 now ps sep pl trm w n s)"
  by (simp add: osc_action_def grows_def Let_def)

lemma csi_grows: "csi rest s = (Some n, s') \<Longrightarrow> grows n s s'"
proof -
  assume csi: "csi rest s = (Some n, s')"
  have *: "grows m s (csi_action ps im f (take m rest) s)" for m ps im f
    using csi_action_grows [of "take m rest" s ps im f] by (auto simp: grows_def)
  from csi show ?thesis
    unfolding csi_def Let_def by (auto simp: grows_emit * split: list.splits if_splits)
qed

lemma osc_grows: "osc b64 now intr e rest s = (Some n, s') \<Longrightarrow> 2 \<le> intr \<Longrightarrow> grows n s s'"
proof (erule osc_cases)
  fix ps sep pl trm k
  assume "2 \<le> intr" "n = intr + k" "s' = osc_action b64 now ps sep pl trm (take k (drop intr rest)) n s"
  then show "grows n s s'"
    using osc_action_grows [of "take k (drop intr rest)" s b64 now ps sep pl trm n] by (auto simp: grows_def)
qed (simp add: grows_emit)

lemma escape_grows: "escape b64 now rest s = (Some n, s') \<Longrightarrow> grows n s s'"
  using osc_grows [of b64 now 2 True rest s n s'] csi_grows [of rest s n s']
  by (auto simp: escape_def grows_def string_sequence_def split: list.splits if_splits)

lemma scan_tokens_grows:
  "scan_tokens b64 False now data s = (l, s') \<Longrightarrow> length l \<le> length data \<and> grows (length data - length l) s s'"
proof (induction data s rule: scan_tokens_induct [of False b64 now])
  case (step data s)
  let ?rest = "from_intro False data" let ?s1 = "emit (plain_run False data) s"
  have len: "length (plain_run False data) + length ?rest = length data" by (rule take_drop_While)
  have run: "grows (length (plain_run False data)) s ?s1" by (simp add: grows_emit)
  show ?case
  proof (cases rule: scan_tokens_cases [of False data b64 now s])
    case stop
    with step.prems len run show ?thesis by (auto simp: grows_def)
  next
    case (held s2)
    have "s2 = ?s1"
      using held(2) from_intro_hd [OF held(1)] unfolding sequence_def by (simp add: escape_open)
    with held(3) step.prems len run show ?thesis by (auto simp: grows_def)
  next
    case (go n s2)
    have esc: "escape b64 now ?rest ?s1 = (Some n, s2)"
      using go(2) from_intro_hd [OF go(1)] by (simp add: sequence_def)
    have n: "n \<le> length ?rest" using escape_stable [OF esc, of "[]"] by simp
    have "scan_tokens b64 False now (drop n ?rest) s2 = (l, s')" using go(3) step.prems by simp
    from step.IH [OF go(1,2) this] have rec: "length l \<le> length ?rest - n"
      "grows (length ?rest - n - length l) s2 s'" by simp_all
    have "grows (length (plain_run False data) + n) s s2"
      by (rule grows_trans [OF run escape_grows [OF esc]]) simp
    from grows_trans [OF this rec(2)] len n rec(1) show ?thesis by auto
  qed
qed

section \<open>What the retained signals look like\<close>

definition plain_payload :: "bytes \<Rightarrow> bool" where
  "plain_payload p \<longleftrightarrow> 0x07 \<notin> set p \<and> 0x1b \<notin> set p \<and> length p \<le> MAX_RETAINED_SIGNAL_PAYLOAD_BYTES"

definition title_ok :: "bytes \<Rightarrow> bool" where
  "title_ok p \<longleftrightarrow> plain_payload p \<and> take 1 p \<noteq> ascii ''?''"

definition progress_ok :: "bytes \<Rightarrow> bool" where
  "progress_ok p \<longleftrightarrow> plain_payload p \<and> starts_with (ascii ''4;'') p \<and> progress_value p = Some p"

definition cursor_ok :: "bytes \<Rightarrow> bool" where
  "cursor_ok c \<longleftrightarrow> c \<noteq> [] \<and> c \<noteq> ascii ''0'' \<and> list_all param_byte c
     \<and> classify_csi c (ascii '' '') (chr CHR ''q'') = Emit"

definition signals_clean :: "TerminalSignals \<Rightarrow> bool" where
  "signals_clean s \<longleftrightarrow> pred_option title_ok (ts_icon_title s) \<and> pred_option title_ok (ts_window_title s)
     \<and> pred_option progress_ok (ts_progress s) \<and> pred_option cursor_ok (ts_cursor_style s)"

text \<open>Everything that holds of the signals from one sequence to the next.\<close>

definition signals_inv :: "TerminalSignals \<Rightarrow> bool" where
  "signals_inv sig \<longleftrightarrow> signals_bounded sig \<and> signals_clean sig"

definition keeps_signals :: "scan_io \<Rightarrow> scan_io \<Rightarrow> bool" where
  "keeps_signals s s' \<longleftrightarrow> (signals_inv (pt_signals (fst s)) \<longrightarrow> signals_inv (pt_signals (fst s')))"

lemma signals_primitives [simp]:
  "pt_signals (fst (emit bs s)) = pt_signals (fst s)"
  "pt_signals (fst (push_query q s)) = pt_signals (fst s)"
  "pt_signals (fst (push_response r s)) = pt_signals (fst s)"
  "pt_signals (fst (add_signal_bytes n s)) = pt_signals (fst s)"
  "pt_signals (fst (update_signals f s)) = snd (f (pt_signals (fst s)))"
  by (simp_all add: emit_def push_query_def push_response_def add_signal_bytes_def update_signals_def
      split: prod.splits)

lemma signals_probe [simp]: "pt_signals (fst (osc_probe ps s)) = pt_signals (fst s)"
  by (simp add: osc_probe_def)

lemma clean_signals_record_osc:
  assumes "signals_clean sig" and "0x07 \<notin> set pl" and "0x1b \<notin> set pl"
    and "is_passthrough_osc ps pl \<Longrightarrow> take 1 pl \<noteq> ascii ''?''"
  shows "signals_clean (snd (signals_record_osc b64 now ps pl sig))"
proof (cases "ps = ascii ''7501''")
  case True
  then have "signals_record_osc b64 now ps pl sig = report_status b64 now pl sig"
    by (simp add: signals_record_osc_def)
  with assms(1) show ?thesis by (auto simp: report_status_def signals_clean_def split: prod.splits)
next
  case False
  show ?thesis
  proof (cases "MAX_RETAINED_SIGNAL_PAYLOAD_BYTES < length pl")
    case True
    with False assms(1) show ?thesis by (simp add: signals_record_osc_def)
  next
    case short: False
    then have pl: "plain_payload pl" using assms(2,3) by (simp add: plain_payload_def)
    have both: "signals_clean (snd (set_both_titles pl sig))" if "title_ok pl"
      using that assms(1) by (simp add: set_both_titles_def signals_clean_def Let_def)
    have icon: "signals_clean (snd (set_icon_title (Some pl) sig))" if "title_ok pl"
      using that assms(1) by (simp add: set_icon_title_def replace_slot_def signals_clean_def)
    have window: "signals_clean (snd (set_window_title (Some pl) sig))" if "title_ok pl"
      using that assms(1) by (simp add: set_window_title_def replace_slot_def signals_clean_def)
    have fg: "signals_clean (snd (set_foreground v sig))" and bg: "signals_clean (snd (set_background v sig))" for v
      using assms(1) by (simp_all add: set_foreground_def set_background_def replace_slot_def signals_clean_def)
    have "pred_option progress_ok (progress_value pl)" if "starts_with (ascii ''4;'') pl"
      using that pl by (simp add: progress_ok_def progress_value_def)
    then have prog: "signals_clean (snd (set_progress (progress_value pl) sig))" if "starts_with (ascii ''4;'') pl"
      using that assms(1) by (simp add: set_progress_def replace_slot_def signals_clean_def)
    have t: "title_ok pl" if "ps = ascii ''0'' \<or> ps = ascii ''1'' \<or> ps = ascii ''2''"
      using assms(4) that pl by (auto simp: title_ok_def is_passthrough_osc_def)
    show ?thesis
      using both icon window fg bg prog t False short assms(1) by (simp add: signals_record_osc_def)
  qed
qed

lemma keeps_record_osc:
  assumes "0x07 \<notin> set pl" and "0x1b \<notin> set pl"
    and "is_passthrough_osc ps pl \<Longrightarrow> take 1 pl \<noteq> ascii ''?''"
  shows "keeps_signals s (record_osc b64 now ps pl s)"
  using record_osc_bounded clean_signals_record_osc [OF _ assms]
  by (auto simp: keeps_signals_def record_osc_def signals_inv_def)

lemma keeps_statuses:
  assumes "\<And>sts. statuses_inv sts \<Longrightarrow> statuses_inv (snd (f sts))"
  shows "keeps_signals s (update_signals (on_statuses f) s)"
proof -
  have "signals_inv sig \<Longrightarrow> signals_inv (snd (on_statuses f sig))" for sig
    using assms [of "ts_program_statuses sig"]
    by (cases "f (ts_program_statuses sig)")
      (simp add: on_statuses_def signals_inv_def signals_bounded_def signals_clean_def)
  then show ?thesis by (simp add: keeps_signals_def)
qed

lemma keeps_cursor_style:
  assumes "list_all param_byte ps" and "classify_csi ps (ascii '' '') (chr CHR ''q'') = Emit"
  shows "keeps_signals s (record_cursor_style ps s)"
proof -
  let ?v = "if ps = [] \<or> ps = ascii ''0'' then None else Some ps"
  have "pred_option cursor_ok ?v" using assms by (simp add: cursor_ok_def)
  then have "signals_inv sig \<Longrightarrow> signals_inv (snd (set_cursor_style ?v sig))" for sig
    using set_cursor_style_bounded by (auto simp: signals_inv_def signals_clean_def set_cursor_style_def)
  then show ?thesis unfolding keeps_signals_def record_cursor_style_def signals_primitives by blast
qed

lemma keeps_refl: "pt_signals (fst s') = pt_signals (fst s) \<Longrightarrow> keeps_signals s s'"
  by (simp add: keeps_signals_def)

lemma keeps_trans: "keeps_signals a b \<Longrightarrow> keeps_signals b c \<Longrightarrow> keeps_signals a c"
  by (simp add: keeps_signals_def)

lemma keeps_osc_action:
  assumes "0x07 \<notin> set pl" and "0x1b \<notin> set pl"
  shows "keeps_signals s (osc_action b64 now ps sep pl trm w n s)"
proof -
  have st: "keeps_signals s (osc_status b64 now sep pl trm n s)"
  proof -
    have "\<not> is_passthrough_osc (ascii ''7501'') pl" by (simp add: is_passthrough_osc_def)
    then have "keeps_signals s (record_osc b64 now (ascii ''7501'') pl s)"
      using keeps_record_osc [OF assms] by blast
    then show ?thesis by (simp add: osc_status_def keeps_refl)
  qed
  have pr: "keeps_signals s (osc_prompt now ps pl s)"
    using keeps_statuses [of "drop_transient now" s] remove_where_inv
    by (simp add: osc_prompt_def drop_transient_def keeps_refl)
  have rec: "keeps_signals s (record_osc b64 now ps pl (osc_prompt now ps pl s))" if "take 1 pl \<noteq> ascii ''?''"
    using that keeps_record_osc [OF assms, of ps "osc_prompt now ps pl s" b64 now] keeps_trans [OF pr] by blast
  have out: "keeps_signals s (add_signal_bytes k (emit bs s'))" if "keeps_signals s s'" for k bs s'
    using that by (simp add: keeps_signals_def)
  have probe: "keeps_signals s (osc_probe ps (osc_prompt now ps pl s))"
    using pr by (simp add: keeps_signals_def)
  show ?thesis
    unfolding osc_action_def Let_def using st pr rec out probe by simp
qed

lemma keeps_csi_action:
  assumes "list_all param_byte ps"
  shows "keeps_signals s (csi_action ps im f w s)"
proof (cases "classify_csi ps im f")
  case Emit
  show ?thesis
  proof (cases "f = chr CHR ''q'' \<and> im = ascii '' ''")
    case True
    then have "keeps_signals s (record_cursor_style ps s)" using keeps_cursor_style [OF assms] Emit by simp
    with True Emit show ?thesis by (simp add: csi_action_def keeps_signals_def)
  next
    case False
    with Emit show ?thesis by (auto simp: csi_action_def intro: keeps_refl)
  qed
qed (simp_all add: csi_action_def keeps_refl)

lemma keeps_csi: "csi rest s = (c, s') \<Longrightarrow> keeps_signals s s'"
proof -
  assume csi: "csi rest s = (c, s')"
  have "list_all param_byte (takeWhile param_byte xs)" for xs
    by (auto simp: list_all_iff dest: set_takeWhileD)
  with csi show ?thesis
    unfolding csi_def Let_def
    by (auto intro: keeps_refl keeps_csi_action split: list.splits if_splits)
qed

lemma osc_open: "osc b64 now i e rest s = (None, s') \<Longrightarrow> s' = s"
  by (auto simp: osc_def Let_def split: if_splits osc_end.splits)

lemma keeps_osc: "osc b64 now i e rest s = (c, s') \<Longrightarrow> keeps_signals s s'"
proof (cases c)
  case None
  then show "osc b64 now i e rest s = (c, s') \<Longrightarrow> keeps_signals s s'"
    by (auto dest: osc_open intro: keeps_refl)
next
  case (Some n)
  assume "osc b64 now i e rest s = (c, s')"
  with Some have "osc b64 now i e rest s = (Some n, s')" by simp
  then show "keeps_signals s s'"
    by (cases rule: osc_cases) (simp_all add: keeps_refl keeps_osc_action)
qed

lemma keeps_escape: "escape b64 now rest s = (c, s') \<Longrightarrow> keeps_signals s s'"
proof -
  assume esc: "escape b64 now rest s = (c, s')"
  have "keeps_signals s (emit bs (update_signals (on_statuses (clear now)) s))" for bs
    using keeps_statuses [of "clear now" s] remove_where_inv
    by (simp add: clear_def keeps_signals_def)
  with esc show ?thesis
    unfolding escape_def
    by (auto intro: keeps_csi keeps_osc keeps_refl split: list.splits if_splits)
qed

lemma keeps_sequence: "sequence b64 now rest s = (c, s') \<Longrightarrow> keeps_signals s s'"
  unfolding sequence_def bare_csi_def Let_def
  by (auto intro: keeps_escape keeps_osc keeps_refl split: if_splits)

lemma scan_tokens_signals: "keeps_signals s (snd (scan_tokens b64 bare now data s))"
  by (rule scan_tokens_invariant [where R = keeps_signals])
    (auto intro: keeps_trans keeps_refl keeps_sequence)

lemma pty_scan_signals:
  assumes "signals_inv (pt_signals sc)"
  shows "signals_inv (pt_signals (fst (pty_scan b64 bare now sc data)))"
proof -
  let ?r = "scan_tokens b64 bare now (pt_pending sc @ data) (sc\<lparr>pt_pending := []\<rparr>, no_out)"
  have "signals_inv (pt_signals (fst (snd ?r)))"
    using scan_tokens_signals [of "(sc\<lparr>pt_pending := []\<rparr>, no_out)" b64 bare now "pt_pending sc @ data"] assms
    by (simp add: keeps_signals_def)
  then show ?thesis
    by (cases ?r) (simp add: pty_scan_def scan_slice_def hold_or_flush_def)
qed

lemma new_signals: "signals_inv (pt_signals PtyScanner_new)"
  by (simp add: PtyScanner_new_def no_signals_def signals_inv_def signals_bounded_def signals_clean_def
      payload_bounded_def statuses_inv_def)

lemma scan_chunks_signals:
  "signals_inv (pt_signals sc) \<Longrightarrow> signals_inv (pt_signals (fst (scan_chunks b64 bare now sc cs)))"
proof (induction cs arbitrary: sc)
  case (Cons c cs)
  obtain sc1 o1 where one: "pty_scan b64 bare now sc c = (sc1, o1)" by (rule prod.exhaust)
  with pty_scan_signals [OF Cons.prems, of b64 bare now c] Cons.IH [of sc1] show ?case
    by (simp add: shift_def)
qed simp

section \<open>Replaying the signals\<close>

lemma ascii_digits [simp]:
  "ascii ''0'' = [48]" "ascii ''1'' = [49]" "ascii ''2'' = [50]" "ascii ''9'' = [57]"
  by (simp_all add: ascii_def)

lemma osc_terminator_plain:
  "0x07 \<notin> set p \<Longrightarrow> 0x1b \<notin> set p \<Longrightarrow> osc_terminator e (p @ 0x07 # r) = OscEnd p 1"
  by (induction p) auto

text \<open>The scanner passes a replayed title or progress command through and retains it.\<close>

definition replay_osc :: "base64 \<Rightarrow> nat \<Rightarrow> bytes \<Rightarrow> bytes \<Rightarrow> scan_io \<Rightarrow> scan_io" where
  "replay_osc b64 now ps p s =
     add_signal_bytes (length (push_osc ps p)) (emit (push_osc ps p) (record_osc b64 now ps p s))"

lemma escape_push_osc:
  assumes "is_ascii_digit d" and "plain_payload p" and "take 1 p \<noteq> ascii ''?''"
    and "is_passthrough_osc [d] p"
  shows "escape b64 now (push_osc [d] p @ rest) s
     = (Some (length (push_osc [d] p)), replay_osc b64 now [d] p s)"
proof -
  have in_set: "push_osc [d] p @ rest = 0x1b # 0x5d # d # 0x3b # p @ 0x07 # rest"
    by (simp add: push_osc_def)
  have sep: "\<not> is_ascii_digit 0x3b" by (simp add: is_ascii_digit_def)
  have esc: "escape b64 now (push_osc [d] p @ rest) s = osc b64 now 2 True (push_osc [d] p @ rest) s"
    unfolding in_set escape_def by simp
  have ps: "[d] \<noteq> ascii ''7501''" "[d] \<noteq> ascii ''10''" "[d] \<noteq> ascii ''11''" "[d] \<noteq> ascii ''133''"
    by (simp_all add: ascii_def)
  have trm: "osc_terminator True (p @ 0x07 # rest) = OscEnd p 1"
    using assms(2) by (intro osc_terminator_plain) (simp_all add: plain_payload_def)
  have dig: "takeWhile is_ascii_digit (d # 0x3b # p @ 0x07 # rest) = [d]"
    "dropWhile is_ascii_digit (d # 0x3b # p @ 0x07 # rest) = 0x3b # p @ 0x07 # rest"
    using assms(1) sep by simp_all
  have d2: "drop 2 (0x1b # 0x5d # d # 0x3b # p @ 0x07 # rest) = d # 0x3b # p @ 0x07 # rest" by simp
  have act: "osc_action b64 now [d] True p trm' w n s
      = add_signal_bytes (2 + length w) (emit ([0x1b, 0x5d] @ w) (record_osc b64 now [d] p s))" for trm' w n
    using ps assms(3,4) by (simp add: osc_action_def osc_prompt_def)
  show ?thesis
    unfolding esc unfolding in_set osc_def Let_def d2 dig
    by (simp add: trm act replay_osc_def push_osc_def)
qed

lemma scan_tokens_push_osc:
  assumes "is_ascii_digit d" and "plain_payload p" and "take 1 p \<noteq> ascii ''?''"
    and "is_passthrough_osc [d] p"
  shows "scan_tokens b64 False now (push_osc [d] p @ rest) s
     = scan_tokens b64 False now rest (replay_osc b64 now [d] p s)"
proof -
  obtain r where r: "push_osc [d] p @ rest = 0x1b # r" by (simp add: push_osc_def)
  note escape_push_osc [OF assms, of b64 now rest s]
  from scan_tokens_escape [OF this [unfolded r]] have
    "scan_tokens b64 False now (push_osc [d] p @ rest) s
       = scan_tokens b64 False now (drop (length (push_osc [d] p)) (push_osc [d] p @ rest)) (replay_osc b64 now [d] p s)"
    unfolding r .
  then show ?thesis by simp
qed

lemma scan_tokens_cursor:
  assumes "cursor_ok c"
  shows "scan_tokens b64 False now ([0x1b, 0x5b] @ c @ [0x20, 0x71]) s
     = ([], emit ([0x1b, 0x5b] @ c @ [0x20, 0x71]) (update_signals (set_cursor_style (Some c)) s))"
proof -
  let ?w = "0x1b # 0x5b # c @ [0x20, 0x71]"
  have c: "list_all param_byte c" "classify_csi c (ascii '' '') (chr CHR ''q'') = Emit" "c \<noteq> []" "c \<noteq> ascii ''0''"
    using assms by (simp_all add: cursor_ok_def)
  have np: "\<not> param_byte 0x20" "intermediate_byte 0x20" "\<not> intermediate_byte 0x71"
    by (simp_all add: param_byte_def intermediate_byte_def)
  have params: "takeWhile param_byte (c @ [0x20, 0x71]) = c" "dropWhile param_byte (c @ [0x20, 0x71]) = [0x20, 0x71]"
    using c(1) np(1) by (auto simp: list_all_iff)
  have sp: "ascii '' '' = [0x20]" and q: "chr CHR ''q'' = 0x71" by (simp_all add: ascii_def)
  have "csi ?w s = (Some (length ?w), emit ?w (update_signals (set_cursor_style (Some c)) s))"
    unfolding csi_def Let_def
    using c(2,3,4) by (simp add: params np csi_action_def record_cursor_style_def sp q)
  then have "escape b64 now ?w s = (Some (length ?w), emit ?w (update_signals (set_cursor_style (Some c)) s))"
    by (simp add: escape_def)
  from scan_tokens_escape [OF this] show ?thesis
    by (simp add: scan_tokens_end)
qed

lemma scan_tokens_Nil [simp]: "scan_tokens b64 bare now [] s = ([], s)"
  by (simp add: scan_tokens_end)

text \<open>Retaining a replayed signal in a scanner without signals sets exactly that slot.\<close>

definition replay_titles :: "base64 \<Rightarrow> nat \<Rightarrow> TerminalSignals \<Rightarrow> scan_io \<Rightarrow> scan_io" where
  "replay_titles b64 now sig s =
     (case (ts_icon_title sig, ts_window_title sig) of
        (Some icon, Some window) \<Rightarrow>
          if icon = window then replay_osc b64 now [48] icon s
          else replay_osc b64 now [50] window (replay_osc b64 now [49] icon s)
      | (Some icon, None) \<Rightarrow> replay_osc b64 now [49] icon s
      | (None, Some window) \<Rightarrow> replay_osc b64 now [50] window s
      | (None, None) \<Rightarrow> s)"

definition replay_progress :: "base64 \<Rightarrow> nat \<Rightarrow> TerminalSignals \<Rightarrow> scan_io \<Rightarrow> scan_io" where
  "replay_progress b64 now sig s =
     (case ts_progress sig of Some p \<Rightarrow> replay_osc b64 now [57] p s | None \<Rightarrow> s)"

definition replay_cursor :: "TerminalSignals \<Rightarrow> scan_io \<Rightarrow> scan_io" where
  "replay_cursor sig s =
     (case ts_cursor_style sig of
        Some c \<Rightarrow> emit ([0x1b, 0x5b] @ c @ [0x20, 0x71]) (update_signals (set_cursor_style (Some c)) s)
      | None \<Rightarrow> s)"

lemma title_payload: "title_ok p \<Longrightarrow> plain_payload p \<and> take 1 p \<noteq> ascii ''?''"
  by (simp add: title_ok_def)

lemma scan_tokens_title:
  assumes "title_ok p" and "d \<in> {48, 49, 50}"
  shows "scan_tokens b64 False now (push_osc [d] p @ rest) s
     = scan_tokens b64 False now rest (replay_osc b64 now [d] p s)"
  using assms by (intro scan_tokens_push_osc) (auto simp: title_ok_def is_passthrough_osc_def is_ascii_digit_def)

lemma scan_tokens_titles:
  assumes "signals_clean sig"
  shows "scan_tokens b64 False now (restore_titles sig @ rest) s
     = scan_tokens b64 False now rest (replay_titles b64 now sig s)"
  using assms
  by (auto simp: restore_titles_def replay_titles_def signals_clean_def scan_tokens_title append_assoc
      split: option.splits)

lemma progress_payload: "progress_ok p \<Longrightarrow> take 1 p \<noteq> ascii ''?''"
  by (cases p) (auto simp: progress_ok_def starts_with_def ascii_def)

lemma scan_tokens_restore:
  assumes "signals_clean sig"
  shows "scan_tokens b64 False now (restore_bytes sig) s
     = ([], replay_cursor sig (replay_progress b64 now sig (replay_titles b64 now sig s)))"
proof -
  have prog: "scan_tokens b64 False now
        ((case ts_progress sig of Some p \<Rightarrow> push_osc (ascii ''9'') p | None \<Rightarrow> []) @ rest) s
      = scan_tokens b64 False now rest (replay_progress b64 now sig s)" for rest s
  proof (cases "ts_progress sig")
    case (Some p)
    then have "progress_ok p" using assms by (simp add: signals_clean_def)
    with progress_payload [OF this] Some show ?thesis
      using scan_tokens_push_osc [of 57 p b64 now rest s]
      by (simp add: progress_ok_def is_passthrough_osc_def is_ascii_digit_def replay_progress_def)
  qed (simp add: replay_progress_def)
  have cur: "scan_tokens b64 False now
        (case ts_cursor_style sig of Some c \<Rightarrow> [0x1b, 0x5b] @ c @ [0x20, 0x71] | None \<Rightarrow> []) s
      = ([], replay_cursor sig s)" for s
  proof (cases "ts_cursor_style sig")
    case (Some c)
    then have "cursor_ok c" using assms by (simp add: signals_clean_def)
    from scan_tokens_cursor [OF this, of b64 now s] Some show ?thesis by (simp add: replay_cursor_def)
  qed (simp add: replay_cursor_def)
  show ?thesis
    unfolding restore_bytes_def by (simp only: scan_tokens_titles [OF assms] prog cur)
qed

lemma replay_osc_filtered [simp]:
  "out_filtered (snd (replay_osc b64 now ps p s)) = out_filtered (snd s) @ push_osc ps p"
  "out_queries (snd (replay_osc b64 now ps p s)) = out_queries (snd s)"
  "out_responses (snd (replay_osc b64 now ps p s)) = out_responses (snd s)"
  "pt_pending (fst (replay_osc b64 now ps p s)) = pt_pending (fst s)"
  "pt_signals (fst (replay_osc b64 now ps p s)) = snd (signals_record_osc b64 now ps p (pt_signals (fst s)))"
  by (simp_all add: replay_osc_def record_osc_def)
    (simp_all add: add_signal_bytes_def emit_def update_signals_def split: prod.splits)

lemma record_title_signals:
  assumes "plain_payload p"
  shows "snd (signals_record_osc b64 now [48] p sig) = sig\<lparr>ts_icon_title := Some p, ts_window_title := Some p\<rparr>"
    "snd (signals_record_osc b64 now [49] p sig) = sig\<lparr>ts_icon_title := Some p\<rparr>"
    "snd (signals_record_osc b64 now [50] p sig) = sig\<lparr>ts_window_title := Some p\<rparr>"
proof -
  have ne: "[48] \<noteq> ascii ''7501''" "[49] \<noteq> ascii ''7501''" "[50] \<noteq> ascii ''7501''"
    by (simp_all add: ascii_def)
  show "snd (signals_record_osc b64 now [48] p sig) = sig\<lparr>ts_icon_title := Some p, ts_window_title := Some p\<rparr>"
    "snd (signals_record_osc b64 now [49] p sig) = sig\<lparr>ts_icon_title := Some p\<rparr>"
    "snd (signals_record_osc b64 now [50] p sig) = sig\<lparr>ts_window_title := Some p\<rparr>"
    using assms ne
    by (cases sig; simp add: signals_record_osc_def slot_defs Let_def plain_payload_def)+
qed

lemma record_progress_signals:
  assumes "progress_ok p"
  shows "snd (signals_record_osc b64 now [57] p sig) = sig\<lparr>ts_progress := Some p\<rparr>"
proof -
  have ne: "[57] \<noteq> ascii ''7501''" "[57] \<noteq> ascii ''10''" "[57] \<noteq> ascii ''11''" by (simp_all add: ascii_def)
  show ?thesis
    using assms ne
    by (cases sig) (simp add: signals_record_osc_def set_progress_def replace_slot_def progress_ok_def
        plain_payload_def)
qed

lemma replay_signals:
  assumes "signals_clean sig"
    and "s' = replay_cursor sig (replay_progress b64 now sig (replay_titles b64 now sig (PtyScanner_new, no_out)))"
  shows "ts_icon_title (pt_signals (fst s')) = ts_icon_title sig
     \<and> ts_window_title (pt_signals (fst s')) = ts_window_title sig
     \<and> ts_progress (pt_signals (fst s')) = ts_progress sig
     \<and> ts_cursor_style (pt_signals (fst s')) = ts_cursor_style sig"
proof -
  let ?st = "replay_titles b64 now sig (PtyScanner_new, no_out)"
  let ?sp = "replay_progress b64 now sig ?st"
  have t: "pt_signals (fst ?st) = no_signals\<lparr>ts_icon_title := ts_icon_title sig, ts_window_title := ts_window_title sig\<rparr>"
    using assms(1)
    by (auto simp: replay_titles_def signals_clean_def record_title_signals PtyScanner_new_def
        no_signals_def title_ok_def split: option.splits)
  have "pt_signals (fst ?sp) = (pt_signals (fst ?st))\<lparr>ts_progress := ts_progress sig\<rparr>"
    using assms(1) t
    by (auto simp: replay_progress_def signals_clean_def record_progress_signals no_signals_def
        split: option.splits)
  then have "pt_signals (fst s') = (pt_signals (fst ?st))\<lparr>ts_progress := ts_progress sig, ts_cursor_style := ts_cursor_style sig\<rparr>"
    unfolding assms(2) using t
    by (auto simp: replay_cursor_def set_cursor_style_def no_signals_def split: option.splits)
  then show ?thesis by (simp add: t)
qed

lemma replay_output:
  assumes "s' = replay_cursor sig (replay_progress b64 now sig (replay_titles b64 now sig (PtyScanner_new, no_out)))"
  shows "out_filtered (snd s') = restore_bytes sig \<and> out_queries (snd s') = [] \<and> out_responses (snd s') = []
     \<and> pt_pending (fst s') = []"
proof -
  have q: "out_queries (snd (emit bs s)) = out_queries (snd s)" "out_responses (snd (emit bs s)) = out_responses (snd s)"
    "out_queries (snd (update_signals f s)) = out_queries (snd s)"
    "out_responses (snd (update_signals f s)) = out_responses (snd s)" for bs f s
    by (simp_all add: emit_def update_signals_def split: prod.splits)
  show ?thesis
    unfolding assms replay_cursor_def replay_progress_def replay_titles_def restore_bytes_def restore_titles_def
    by (simp add: q no_out_def PtyScanner_new_def split: option.splits)
qed

section \<open>Extraction on the client\<close>

text \<open>What a Windows client picks out of the filtered stream next to each repaint.\<close>

lemma drop_rest_shorter: "dropWhile p data \<noteq> [] \<Longrightarrow> 0 < n \<Longrightarrow> length (drop n (dropWhile p data)) < length data"
  using length_dropWhile_le [of p data] by (cases "dropWhile p data") auto

function extract_passthrough_osc_sequences :: "bytes \<Rightarrow> bytes" where
  "extract_passthrough_osc_sequences data =
     (let r = dropWhile (\<lambda>b. b \<noteq> 0x1b) data;
          ps = takeWhile is_ascii_digit (drop 2 r);
          r1 = dropWhile is_ascii_digit (drop 2 r)
      in if r = [] then []
         else if take 1 (drop 1 r) \<noteq> [0x5d] \<or> ps = [] \<or> take 1 r1 \<noteq> [0x3b]
         then extract_passthrough_osc_sequences (drop 1 r)
         else case osc_terminator True (drop 1 r1) of
                OscEnd payload t \<Rightarrow>
                  let n = 2 + length ps + 1 + length payload + t
                  in (if is_passthrough_osc ps payload then take n r else [])
                     @ extract_passthrough_osc_sequences (drop n r)
              | _ \<Rightarrow> extract_passthrough_osc_sequences (drop 1 r))"
  by pat_completeness auto
termination
proof (relation "measure length", goal_cases)
  case 1
  then show ?case by simp
next
  case (2 data r ps r1)
  then show ?case
    using drop_rest_shorter [of "\<lambda>b. b \<noteq> 0x1b" data] by (simp del: length_drop dropWhile_eq_Nil_conv)
next
  case (3 data r ps r1)
  then show ?case
    using drop_rest_shorter [of "\<lambda>b. b \<noteq> 0x1b" data] by (simp del: length_drop dropWhile_eq_Nil_conv)
next
  case (4 data r ps r1)
  then show ?case
    using drop_rest_shorter [of "\<lambda>b. b \<noteq> 0x1b" data] by (simp del: length_drop dropWhile_eq_Nil_conv)
next
  case (5 data r ps r1 payload t n)
  then show ?case
    using drop_rest_shorter [of "\<lambda>b. b \<noteq> 0x1b" data] by (simp del: length_drop dropWhile_eq_Nil_conv)
qed

declare extract_passthrough_osc_sequences.simps [simp del]

text \<open>\<open>found\<close> is the result so far.\<close>

function last_cursor_style_loop :: "bytes option \<Rightarrow> bytes \<Rightarrow> bytes option" where
  "last_cursor_style_loop found data =
     (let r = dropWhile (\<lambda>b. b \<noteq> 0x1b) data;
          params = takeWhile is_ascii_digit (drop 2 r);
          r1 = dropWhile is_ascii_digit (drop 2 r)
      in if r = [] then found
         else if take 1 (drop 1 r) \<noteq> [0x5b] then last_cursor_style_loop found (drop 1 r)
         else if take 2 r1 = [0x20, 0x71]
         then last_cursor_style_loop (Some params) (drop (2 + length params + 2) r)
         else last_cursor_style_loop found (drop 2 r))"
  by pat_completeness auto
termination
proof (relation "measure (\<lambda>(found, data). length data)", goal_cases)
  case 1
  then show ?case by simp
next
  case (2 found data r params r1)
  then show ?case
    using drop_rest_shorter [of "\<lambda>b. b \<noteq> 0x1b" data] by (simp del: length_drop dropWhile_eq_Nil_conv)
next
  case (3 found data r params r1)
  then show ?case
    using drop_rest_shorter [of "\<lambda>b. b \<noteq> 0x1b" data] by (simp del: length_drop dropWhile_eq_Nil_conv)
next
  case (4 found data r params r1)
  then show ?case
    using drop_rest_shorter [of "\<lambda>b. b \<noteq> 0x1b" data] by (simp del: length_drop dropWhile_eq_Nil_conv)
qed

declare last_cursor_style_loop.simps [simp del]

definition last_cursor_style_params :: "bytes \<Rightarrow> bytes option" where
  "last_cursor_style_params data = last_cursor_style_loop None data"

lemma extract_Nil [simp]: "extract_passthrough_osc_sequences [] = []"
  by (simp add: extract_passthrough_osc_sequences.simps)

lemma extract_push_osc:
  assumes "is_ascii_digit d" and "plain_payload p" and "is_passthrough_osc [d] p"
  shows "extract_passthrough_osc_sequences (push_osc [d] p @ rest)
     = push_osc [d] p @ extract_passthrough_osc_sequences rest"
proof -
  have in_set: "push_osc [d] p @ rest = 0x1b # 0x5d # d # 0x3b # p @ 0x07 # rest"
    by (simp add: push_osc_def)
  have sep: "\<not> is_ascii_digit 0x3b" by (simp add: is_ascii_digit_def)
  have trm: "osc_terminator True (p @ 0x07 # rest) = OscEnd p 1"
    using assms(2) by (intro osc_terminator_plain) (simp_all add: plain_payload_def)
  have dig: "takeWhile is_ascii_digit (d # 0x3b # p @ 0x07 # rest) = [d]"
    "dropWhile is_ascii_digit (d # 0x3b # p @ 0x07 # rest) = 0x3b # p @ 0x07 # rest"
    using assms(1) sep by simp_all
  have d2: "dropWhile (\<lambda>b. b \<noteq> 0x1b) (0x1b # 0x5d # d # 0x3b # p @ 0x07 # rest) = 0x1b # 0x5d # d # 0x3b # p @ 0x07 # rest"
    "drop 2 (0x1b # 0x5d # d # 0x3b # p @ 0x07 # rest) = d # 0x3b # p @ 0x07 # rest" by simp_all
  have five: "5 + length p = Suc (Suc (Suc (Suc (Suc (length p)))))" by simp
  show ?thesis
    unfolding in_set
    by (subst extract_passthrough_osc_sequences.simps)
      (unfold Let_def d2 dig, simp add: trm assms(3) push_osc_def five)
qed

lemma extract_cursor:
  assumes "list_all param_byte c"
  shows "extract_passthrough_osc_sequences ([0x1b, 0x5b] @ c @ [0x20, 0x71]) = []"
proof -
  have "dropWhile (\<lambda>b. b \<noteq> 0x1b) (0x5b # c @ [0x20, 0x71]) = []"
    using assms by (auto simp: dropWhile_eq_Nil_conv list_all_iff param_byte_def)
  then have "extract_passthrough_osc_sequences (0x5b # c @ [0x20, 0x71]) = []"
    by (subst extract_passthrough_osc_sequences.simps) (simp only: Let_def if_True refl)
  then show ?thesis
    by (subst extract_passthrough_osc_sequences.simps) simp
qed

lemma extract_title:
  "title_ok p \<Longrightarrow> d \<in> {48, 49, 50} \<Longrightarrow> extract_passthrough_osc_sequences (push_osc [d] p @ rest)
     = push_osc [d] p @ extract_passthrough_osc_sequences rest"
  by (rule extract_push_osc) (auto simp: title_ok_def is_passthrough_osc_def is_ascii_digit_def)

lemma extract_restore:
  assumes "signals_clean sig"
  shows "extract_passthrough_osc_sequences (restore_bytes sig)
     = restore_titles sig @ (case ts_progress sig of Some p \<Rightarrow> push_osc (ascii ''9'') p | None \<Rightarrow> [])"
proof -
  have titles: "extract_passthrough_osc_sequences (restore_titles sig @ rest)
      = restore_titles sig @ extract_passthrough_osc_sequences rest" for rest
    using assms by (auto simp: restore_titles_def signals_clean_def extract_title split: option.splits)
  have prog: "extract_passthrough_osc_sequences
        ((case ts_progress sig of Some p \<Rightarrow> push_osc (ascii ''9'') p | None \<Rightarrow> []) @ rest)
      = (case ts_progress sig of Some p \<Rightarrow> push_osc (ascii ''9'') p | None \<Rightarrow> [])
        @ extract_passthrough_osc_sequences rest" for rest
    using assms extract_push_osc [of 57]
    by (auto simp: signals_clean_def progress_ok_def is_passthrough_osc_def is_ascii_digit_def split: option.splits)
  have cur: "extract_passthrough_osc_sequences
      (case ts_cursor_style sig of Some c \<Rightarrow> [0x1b, 0x5b] @ c @ [0x20, 0x71] | None \<Rightarrow> []) = []"
  proof (cases "ts_cursor_style sig")
    case (Some c)
    then have "list_all param_byte c" using assms by (simp add: signals_clean_def cursor_ok_def)
    from extract_cursor [OF this] Some show ?thesis by simp
  qed simp
  show ?thesis unfolding restore_bytes_def by (simp only: titles prog cur append_Nil2)
qed

section \<open>Properties\<close>

text \<open>C38. How the program's output is cut into chunks does not matter on a platform without the
  bare sequence forms (\<open>BARE_CONPTY_FORMS\<close> is off, so not on Windows): as long as no chunk ends in a sequence candidate that has outgrown the limit,
  scanning chunk by chunk leaves the scanner in the same state, and produces in sum the same
  filtered stream, queries, responses and signal bytes, as one scan of the whole.\<close>

theorem chunk_boundaries_do_not_matter:
  assumes "no_stall b64 now sc (c # cs)"
  shows "scan_chunks b64 False now sc (c # cs) = pty_scan b64 False now sc (concat (c # cs))"
  using assms by (rule scan_chunks_concat)

text \<open>C39. The scanner holds bounded memory: after any chunk it holds less than 4096 bytes and the
  retained signals stay within their limits. On a platform without the bare sequence forms
  (\<open>BARE_CONPTY_FORMS\<close> is off, so not on Windows, where a bare OSC gets its ESC added) it never
  invents output either: the filtered stream and what is held are together no longer than what came
  in, and the signal bytes are part of the filtered stream.\<close>

theorem scan_stays_bounded:
  assumes "signals_inv (pt_signals sc)" and "pty_scan b64 bare now sc data = (sc', out)"
  shows "length (pt_pending sc') < MAX_PENDING_ESCAPE_BYTES \<and> signals_inv (pt_signals sc')
     \<and> (\<not> bare \<longrightarrow>
          length (out_filtered out) + length (pt_pending sc') \<le> length (pt_pending sc) + length data
          \<and> meaningful_bytes out + out_signal_bytes out = length (out_filtered out))"
proof -
  let ?s0 = "(sc\<lparr>pt_pending := []\<rparr>, no_out)"
  obtain l s1 where tok: "scan_tokens b64 bare now (pt_pending sc @ data) ?s0 = (l, s1)" by (rule prod.exhaust)
  have pend: "pt_pending (fst s1) = []"
    using pending_scan_tokens [of b64 bare now "pt_pending sc @ data" ?s0] tok by simp
  have sc': "hold_or_flush (l, s1) = (sc', out)" using assms(2) tok by (simp add: pty_scan_def scan_slice_def)
  have len: "length (out_filtered (snd s1)) + length l \<le> length (pt_pending sc) + length data"
    "out_signal_bytes (snd s1) \<le> length (out_filtered (snd s1))" if "\<not> bare"
    using scan_tokens_grows tok that by (fastforce simp: grows_def no_out_def)+
  have "signals_inv (pt_signals sc')"
    using pty_scan_signals [OF assms(1), of b64 bare now data] assms(2) by simp
  with sc' len pend show ?thesis
    by (auto simp: hold_or_flush_def emit_def meaningful_bytes_def MAX_PENDING_ESCAPE_BYTES_def split: if_splits)
qed

text \<open>Replaying the retained signals reproduces them: whatever a program has written so far, a
  fresh scanner passes the replay sequences through unchanged, asks and answers nothing, and ends
  idle with the same titles, progress indicator and cursor style.\<close>

theorem restore_reproduces_signals:
  "\<exists>sig sc' out. sig = pt_signals (fst (scan_chunks b64 bare now PtyScanner_new cs))
     \<and> pty_scan b64 False now' PtyScanner_new (restore_bytes sig) = (sc', out)
     \<and> out_filtered out = restore_bytes sig \<and> out_queries out = [] \<and> out_responses out = []
     \<and> is_idle sc'
     \<and> ts_icon_title (pt_signals sc') = ts_icon_title sig \<and> ts_window_title (pt_signals sc') = ts_window_title sig
     \<and> ts_progress (pt_signals sc') = ts_progress sig \<and> ts_cursor_style (pt_signals sc') = ts_cursor_style sig"
proof -
  let ?sig = "pt_signals (fst (scan_chunks b64 bare now PtyScanner_new cs))"
  let ?s' = "replay_cursor ?sig (replay_progress b64 now' ?sig (replay_titles b64 now' ?sig (PtyScanner_new, no_out)))"
  have clean: "signals_clean ?sig"
    using scan_chunks_signals [OF new_signals] by (simp add: signals_inv_def)
  have "pt_pending PtyScanner_new = []" "PtyScanner_new\<lparr>pt_pending := []\<rparr> = PtyScanner_new"
    by (simp_all add: PtyScanner_new_def)
  then have "pty_scan b64 False now' PtyScanner_new (restore_bytes ?sig) = hold_or_flush ([], ?s')"
    by (simp only: pty_scan_def scan_slice_def append_Nil scan_tokens_restore [OF clean])
  then have "pty_scan b64 False now' PtyScanner_new (restore_bytes ?sig) = (fst ?s', snd ?s')"
    using replay_output [OF refl, of ?sig b64 now'] by (simp add: hold_or_flush_def MAX_PENDING_ESCAPE_BYTES_def)
  with replay_output [OF refl, of ?sig b64 now'] replay_signals [OF clean refl, of b64 now'] show ?thesis
    unfolding is_idle_def by blast
qed

text \<open>A client that extracts the passthrough commands from the replayed signals gets exactly the
  titles and the progress indicator.\<close>

theorem client_extracts_replayed_signals:
  "\<exists>sig. sig = pt_signals (fst (scan_chunks b64 bare now PtyScanner_new cs))
     \<and> extract_passthrough_osc_sequences (restore_bytes sig)
       = restore_titles sig @ (case ts_progress sig of Some p \<Rightarrow> push_osc (ascii ''9'') p | None \<Rightarrow> [])"
  using scan_chunks_signals [OF new_signals, of b64 bare now cs] extract_restore
  by (auto simp: signals_inv_def)

text \<open>The filter is not idempotent: a stripped string sequence inside an unfinished control
  sequence lets the two halves join, so the filtered stream can hold a complete cursor-position
  probe that was neither answered nor stripped, and that a second scan would answer.\<close>

theorem filter_can_assemble_probe:
  "\<exists>data filtered. filtered = out_filtered (snd (pty_scan no_base64 False 0 PtyScanner_new data))
     \<and> out_queries (snd (pty_scan no_base64 False 0 PtyScanner_new data)) = []
     \<and> out_queries (snd (pty_scan no_base64 False 0 PtyScanner_new filtered)) = [CursorPositionReport]"
proof -
  let ?data = "[0x1b, 0x5b, 0x36, 0x1b, 0x5f, 0x07, 0x6e]"
  have res: "out_filtered (snd (pty_scan no_base64 False 0 PtyScanner_new ?data)) = [0x1b, 0x5b, 0x36, 0x6e]"
    "out_queries (snd (pty_scan no_base64 False 0 PtyScanner_new ?data)) = []"
    "out_queries (snd (pty_scan no_base64 False 0 PtyScanner_new [0x1b, 0x5b, 0x36, 0x6e])) = [CursorPositionReport]"
    by code_simp+
  show ?thesis
    by (intro exI [of _ ?data] exI [of _ "[0x1b, 0x5b, 0x36, 0x6e]"] conjI res(2,3) res(1) [symmetric])
qed

subsection \<open>Concrete instances\<close>

theorem chunk_boundaries_do_not_matter_witness:
  "scan_chunks no_base64 False 0 PtyScanner_new [[0x41, 0x1b], [0x5b, 0x36], [0x6e, 0x42]]
     = pty_scan no_base64 False 0 PtyScanner_new [0x41, 0x1b, 0x5b, 0x36, 0x6e, 0x42]"
proof -
  have "no_stall no_base64 0 PtyScanner_new [[0x41, 0x1b], [0x5b, 0x36], [0x6e, 0x42]]"
    by code_simp
  from chunk_boundaries_do_not_matter [OF this] show ?thesis by simp
qed

theorem scan_stays_bounded_witness:
  "length (pt_pending (fst (pty_scan no_base64 False 0 PtyScanner_new [0x41, 0x1b]))) < MAX_PENDING_ESCAPE_BYTES"
  using scan_stays_bounded [OF new_signals prod.collapse [symmetric], of no_base64 False 0 "[0x41, 0x1b]"] by blast

end
