(* ===== verification/Session_Replay.thy ===== *)
theory Session_Replay
  imports Journal_Retention Pty_Scanner
begin

text \<open>
  Journal-served reads (\<open>src/session/replay.rs\<close>): the filtered display stream that clients attach
  to, derived from the raw output records of the journal through the same scanner, from the start
  of the latest incarnation or from a checkpoint anchor.

  The loops pull batches until one is empty, so they carry \<open>fuel\<close> for the number of batches and
  return \<open>None\<close> when it runs out; the theorems give an amount that is enough. \<open>b64\<close>, \<open>bare\<close> and
  \<open>now\<close> are the parameters of the scanner.
\<close>

section \<open>Opening a replay\<close>

definition REPLAY_BATCH_BYTES :: nat where
  "REPLAY_BATCH_BYTES = 8 * 1024 * 1024"

definition MAX_RESIZE_EVENTS_SCAN_BYTES :: nat where
  "MAX_RESIZE_EVENTS_SCAN_BYTES = 64 * 1024 * 1024"

record LogResize =
  lr_offset :: nat
  lr_rows :: nat
  lr_cols :: nat

definition replay_start :: "disk \<Rightarrow> nat \<Rightarrow> nat \<Rightarrow> CheckpointAnchor option" where
  "replay_start d incarnation target_offset =
     find (\<lambda>anchor. 0 < ca_filtered_offset anchor \<and> ca_filtered_offset anchor \<le> target_offset)
       (rev (case checkpoint_anchors d incarnation of Inr anchors \<Rightarrow> anchors | Inl _ \<Rightarrow> []))"

definition replay_stream :: "disk \<Rightarrow> nat \<Rightarrow> nat \<Rightarrow> (SegmentStream \<times> nat) result" where
  "replay_stream d incarnation target_offset =
     (case replay_start d incarnation target_offset of
        Some anchor \<Rightarrow>
          bind_result (SegmentStream_open_at d incarnation anchor) (\<lambda>s. Inr (s, ca_filtered_offset anchor))
      | None \<Rightarrow> bind_result (SegmentStream_open d incarnation) (\<lambda>s. Inr (s, 0)))"

text \<open>A missing journal directory is an empty one in the model.\<close>

definition latest_incarnation :: "disk \<Rightarrow> nat option result" where
  "latest_incarnation d = Inr (last_option (list_incarnations d))"

definition replay_anchors :: "disk \<Rightarrow> CheckpointAnchor list result" where
  "replay_anchors d =
     bind_result (latest_incarnation d) (\<lambda>latest.
     case latest of
       None \<Rightarrow> Inr []
     | Some incarnation \<Rightarrow>
         bind_result (checkpoint_anchors d incarnation) (\<lambda>anchors.
         Inr (sort_key ca_filtered_offset (filter (\<lambda>a. 0 < ca_filtered_offset a) anchors))))"

section \<open>The derivation loops\<close>

definition u64_saturating_add :: "nat \<Rightarrow> nat \<Rightarrow> nat" where
  "u64_saturating_add a b = min (a + b) u64_max"

text \<open>Pull batches until one is empty or \<open>stop\<close> holds, and fold the records.\<close>

fun replay_loop ::
  "nat \<Rightarrow> 'h hasher \<Rightarrow> disk \<Rightarrow> ('a \<Rightarrow> Record \<Rightarrow> 'a) \<Rightarrow> ('a \<Rightarrow> bool) \<Rightarrow> SegmentStream \<Rightarrow> 'a \<Rightarrow> 'a result option" where
  "replay_loop 0 H d step stop s a = None"
| "replay_loop (Suc fuel) H d step stop s a =
     (case next_batch H d REPLAY_BATCH_BYTES s of
        (Inl err, s') \<Rightarrow> Some (Inl err)
      | (Inr records, s') \<Rightarrow>
          if records = [] then Some (Inr a)
          else let a' = foldl step a records
               in if stop a' then Some (Inr a') else replay_loop fuel H d step stop s' a')"

record derivation =
  dv_scanner :: PtyScanner
  dv_pos :: nat
  dv_collected :: bytes
  dv_resizes :: "LogResize list"

definition derivation_start :: "nat \<Rightarrow> derivation" where
  "derivation_start filtered_pos =
     \<lparr>dv_scanner = PtyScanner_new, dv_pos = filtered_pos, dv_collected = [], dv_resizes = []\<rparr>"

text \<open>Scan an output record: the new position, the filtered batch.\<close>

definition derive_scan :: "base64 \<Rightarrow> bool \<Rightarrow> nat \<Rightarrow> derivation \<Rightarrow> bytes \<Rightarrow> derivation \<times> bytes" where
  "derive_scan b64 bare now v payload =
     (case pty_scan b64 bare now (dv_scanner v) payload of (sc, out) \<Rightarrow>
        (v\<lparr>dv_scanner := sc, dv_pos := u64_saturating_add (dv_pos v) (length (out_filtered out))\<rparr>,
         out_filtered out))"

definition derive_output :: "base64 \<Rightarrow> bool \<Rightarrow> nat \<Rightarrow> nat \<Rightarrow> derivation \<Rightarrow> Record \<Rightarrow> derivation" where
  "derive_output b64 bare now from_offset v r =
     (if rec_kind r = Output then
        case derive_scan b64 bare now v (rec_payload r) of (v', batch) \<Rightarrow>
          if from_offset < dv_pos v'
          then v'\<lparr>dv_collected := dv_collected v @ drop (min (from_offset - dv_pos v) (length batch)) batch\<rparr>
          else v'
      else v)"

definition derive_resize :: "derivation \<Rightarrow> Record \<Rightarrow> derivation" where
  "derive_resize v r =
     (if rec_kind r = Resize then
        case decode_resize_payload (rec_payload r) of
          Some (rows, cols) \<Rightarrow>
            v\<lparr>dv_resizes := dv_resizes v @ [\<lparr>lr_offset = dv_pos v, lr_rows = rows, lr_cols = cols\<rparr>]\<rparr>
        | None \<Rightarrow> v
      else v)"

definition derive_both :: "base64 \<Rightarrow> bool \<Rightarrow> nat \<Rightarrow> nat \<Rightarrow> derivation \<Rightarrow> Record \<Rightarrow> derivation" where
  "derive_both b64 bare now from_offset v r = derive_resize (derive_output b64 bare now from_offset v r) r"

definition derive_position :: "base64 \<Rightarrow> bool \<Rightarrow> nat \<Rightarrow> derivation \<Rightarrow> Record \<Rightarrow> derivation" where
  "derive_position b64 bare now v r =
     derive_resize (if rec_kind r = Output then fst (derive_scan b64 bare now v (rec_payload r)) else v) r"

definition derive_window :: "base64 \<Rightarrow> bool \<Rightarrow> nat \<Rightarrow> nat \<Rightarrow> nat \<Rightarrow> derivation \<Rightarrow> Record \<Rightarrow> derivation" where
  "derive_window b64 bare now from_offset max_bytes v r =
     (if rec_kind r = Output then
        case derive_scan b64 bare now v (rec_payload r) of (v', batch) \<Rightarrow>
          if from_offset < dv_pos v' \<and> length (dv_collected v) < max_bytes
          then let skip = min (from_offset - dv_pos v) (length batch);
                   n = min (length batch - skip) (max_bytes - length (dv_collected v))
               in v'\<lparr>dv_collected := dv_collected v @ take n (drop skip batch)\<rparr>
          else v'
      else v)"

text \<open>Run a loop from a resolved stream and position.\<close>

definition run_replay ::
  "nat \<Rightarrow> 'h hasher \<Rightarrow> disk \<Rightarrow> (derivation \<Rightarrow> Record \<Rightarrow> derivation) \<Rightarrow> (derivation \<Rightarrow> bool)
     \<Rightarrow> (SegmentStream \<times> nat) result \<Rightarrow> derivation result option" where
  "run_replay fuel H d step stop opened =
     (case opened of
        Inl err \<Rightarrow> Some (Inl err)
      | Inr (s, pos) \<Rightarrow> replay_loop fuel H d step stop s (derivation_start pos))"

definition filtered_stream_from ::
  "nat \<Rightarrow> 'h hasher \<Rightarrow> base64 \<Rightarrow> bool \<Rightarrow> nat \<Rightarrow> disk \<Rightarrow> nat \<Rightarrow> (bytes \<times> nat) result option" where
  "filtered_stream_from fuel H b64 bare now d from_offset =
     (case last_option (list_incarnations d) of
        None \<Rightarrow> Some (Inr ([], 0))
      | Some incarnation \<Rightarrow>
          map_option (\<lambda>r. bind_result r (\<lambda>v. Inr (dv_collected v, dv_pos v)))
            (run_replay fuel H d (derive_output b64 bare now from_offset) (\<lambda>v. False)
               (replay_stream d incarnation from_offset)))"

definition derive_stream_and_resizes ::
  "nat \<Rightarrow> 'h hasher \<Rightarrow> base64 \<Rightarrow> bool \<Rightarrow> nat \<Rightarrow> disk \<Rightarrow> SegmentStream \<Rightarrow> nat \<Rightarrow> nat
     \<Rightarrow> (bytes \<times> nat \<times> LogResize list) result option" where
  "derive_stream_and_resizes fuel H b64 bare now d s filtered_pos from_offset =
     map_option (\<lambda>r. bind_result r (\<lambda>v. Inr (dv_collected v, dv_pos v, dv_resizes v)))
       (replay_loop fuel H d (derive_both b64 bare now from_offset) (\<lambda>v. False) s
          (derivation_start filtered_pos))"

definition filtered_stream_and_resizes_from ::
  "nat \<Rightarrow> 'h hasher \<Rightarrow> base64 \<Rightarrow> bool \<Rightarrow> nat \<Rightarrow> disk \<Rightarrow> nat \<Rightarrow> (bytes \<times> nat \<times> LogResize list) result option" where
  "filtered_stream_and_resizes_from fuel H b64 bare now d from_offset =
     (case last_option (list_incarnations d) of
        None \<Rightarrow> Some (Inr ([], 0, []))
      | Some incarnation \<Rightarrow>
          (case replay_stream d incarnation from_offset of
             Inl err \<Rightarrow> Some (Inl err)
           | Inr (s, pos) \<Rightarrow> derive_stream_and_resizes fuel H b64 bare now d s pos from_offset))"

definition filtered_stream_and_resizes_from_anchor ::
  "nat \<Rightarrow> 'h hasher \<Rightarrow> base64 \<Rightarrow> bool \<Rightarrow> nat \<Rightarrow> disk \<Rightarrow> nat \<Rightarrow> CheckpointAnchor option
     \<Rightarrow> (bytes \<times> nat \<times> LogResize list \<times> nat) result option" where
  "filtered_stream_and_resizes_from_anchor fuel H b64 bare now d from_offset0 anchor0 =
     (case last_option (list_incarnations d) of
        None \<Rightarrow> Some (Inr ([], 0, [], 0))
      | Some incarnation \<Rightarrow>
          let fits = (\<lambda>a. jc_incarnation (ca_cursor a) = incarnation);
              stale_anchor = (case anchor0 of Some a \<Rightarrow> \<not> fits a | None \<Rightarrow> False);
              from_offset = (if stale_anchor then 0 else from_offset0)
          in case (case filter_option fits anchor0 of
                     Some a \<Rightarrow>
                       bind_result (SegmentStream_open_at d incarnation a) (\<lambda>s. Inr (s, ca_filtered_offset a))
                   | None \<Rightarrow> bind_result (SegmentStream_open d incarnation) (\<lambda>s. Inr (s, 0))) of
               Inl err \<Rightarrow> Some (Inl err)
             | Inr (s, pos) \<Rightarrow>
                 map_option (\<lambda>r. bind_result r (\<lambda>(bs, end_pos, resizes).
                     Inr (bs, end_pos, resizes, max from_offset pos)))
                   (derive_stream_and_resizes fuel H b64 bare now d s pos from_offset))"

definition resize_events_from ::
  "nat \<Rightarrow> 'h hasher \<Rightarrow> base64 \<Rightarrow> bool \<Rightarrow> nat \<Rightarrow> disk \<Rightarrow> nat \<Rightarrow> LogResize list result option" where
  "resize_events_from fuel H b64 bare now d from_offset =
     (case last_option (list_incarnations d) of
        None \<Rightarrow> Some (Inr [])
      | Some incarnation \<Rightarrow>
          map_option (\<lambda>r. bind_result r (\<lambda>v. Inr (dv_resizes v)))
            (run_replay fuel H d (derive_position b64 bare now)
               (\<lambda>v. u64_add from_offset MAX_RESIZE_EVENTS_SCAN_BYTES < dv_pos v)
               (replay_stream d incarnation from_offset)))"

definition resize_events ::
  "nat \<Rightarrow> 'h hasher \<Rightarrow> base64 \<Rightarrow> bool \<Rightarrow> nat \<Rightarrow> disk \<Rightarrow> LogResize list result option" where
  "resize_events fuel H b64 bare now d = resize_events_from fuel H b64 bare now d 0"

definition filtered_stream_window ::
  "nat \<Rightarrow> 'h hasher \<Rightarrow> base64 \<Rightarrow> bool \<Rightarrow> nat \<Rightarrow> disk \<Rightarrow> nat \<Rightarrow> nat \<Rightarrow> bytes result option" where
  "filtered_stream_window fuel H b64 bare now d from_offset max_bytes =
     (case last_option (list_incarnations d) of
        None \<Rightarrow> Some (Inr [])
      | Some incarnation \<Rightarrow>
          map_option (\<lambda>r. bind_result r (\<lambda>v. Inr (dv_collected v)))
            (run_replay fuel H d (derive_window b64 bare now from_offset max_bytes)
               (\<lambda>v. max_bytes \<le> length (dv_collected v))
               (replay_stream d incarnation from_offset)))"

definition filtered_stream_len ::
  "nat \<Rightarrow> 'h hasher \<Rightarrow> base64 \<Rightarrow> bool \<Rightarrow> nat \<Rightarrow> disk \<Rightarrow> nat result option" where
  "filtered_stream_len fuel H b64 bare now d =
     map_option (\<lambda>r. bind_result r (\<lambda>(bs, end_pos). Inr end_pos))
       (filtered_stream_from fuel H b64 bare now d u64_max)"

section \<open>The lazy reader\<close>

record ReplayReader =
  rp_stream :: "SegmentStream option"
  rp_scanner :: PtyScanner
  rp_pending :: bytes
  rp_done :: bool

definition ReplayReader_new :: "disk \<Rightarrow> ReplayReader result" where
  "ReplayReader_new d =
     bind_result (latest_incarnation d) (\<lambda>latest.
     bind_result (case latest of
                    Some incarnation \<Rightarrow> bind_result (SegmentStream_open d incarnation) (\<lambda>s. Inr (Some s))
                  | None \<Rightarrow> Inr None) (\<lambda>stream.
     Inr \<lparr>rp_stream = stream, rp_scanner = PtyScanner_new, rp_pending = [], rp_done = False\<rparr>))"

definition reader_scan :: "base64 \<Rightarrow> bool \<Rightarrow> nat \<Rightarrow> ReplayReader \<Rightarrow> Record \<Rightarrow> ReplayReader" where
  "reader_scan b64 bare now rd r =
     (if rec_kind r = Output then
        case pty_scan b64 bare now (rp_scanner rd) (rec_payload r) of (sc, out) \<Rightarrow>
          rd\<lparr>rp_scanner := sc, rp_pending := rp_pending rd @ out_filtered out\<rparr>
      else rd)"

definition reader_fill ::
  "'h hasher \<Rightarrow> base64 \<Rightarrow> bool \<Rightarrow> nat \<Rightarrow> disk \<Rightarrow> ReplayReader \<Rightarrow> unit result \<times> ReplayReader" where
  "reader_fill H b64 bare now d rd =
     (if rp_done rd \<or> rp_pending rd \<noteq> [] then (Inr (), rd)
      else case rp_stream rd of
        None \<Rightarrow> (Inr (), rd\<lparr>rp_done := True\<rparr>)
      | Some stream \<Rightarrow>
          (case next_batch H d REPLAY_BATCH_BYTES stream of
             (Inl err, s') \<Rightarrow> (Inl err, rd\<lparr>rp_stream := Some s'\<rparr>)
           | (Inr records, s') \<Rightarrow>
               if records = [] then (Inr (), rd\<lparr>rp_stream := Some s', rp_done := True\<rparr>)
               else (Inr (), foldl (reader_scan b64 bare now) (rd\<lparr>rp_stream := Some s'\<rparr>) records)))"

text \<open>\<open>read\<close> into a buffer of \<open>n\<close> bytes: the bytes copied.\<close>

definition reader_read ::
  "'h hasher \<Rightarrow> base64 \<Rightarrow> bool \<Rightarrow> nat \<Rightarrow> disk \<Rightarrow> nat \<Rightarrow> ReplayReader \<Rightarrow> bytes result \<times> ReplayReader" where
  "reader_read H b64 bare now d n rd =
     (case (if rp_pending rd = [] then reader_fill H b64 bare now d rd else (Inr (), rd)) of
        (Inl err, rd') \<Rightarrow> (Inl err, rd')
      | (Inr _, rd') \<Rightarrow> (Inr (take n (rp_pending rd')), rd'\<lparr>rp_pending := drop n (rp_pending rd')\<rparr>))"

section \<open>The filtered stream depends on nothing but the bytes\<close>

text \<open>Two scanners agree on the display when they hold the same bytes and have emitted the same.\<close>

definition same_display :: "scan_io \<Rightarrow> scan_io \<Rightarrow> bool" where
  "same_display s t \<longleftrightarrow> pt_pending (fst s) = pt_pending (fst t) \<and> out_filtered (snd s) = out_filtered (snd t)"

lemma same_display_emit [simp]: "same_display s t \<Longrightarrow> same_display (emit bs s) (emit bs t)"
  by (simp add: same_display_def)

lemma filtered_csi_action:
  "out_filtered (snd (csi_action ps im f w s))
     = out_filtered (snd s) @ (if classify_csi ps im f = Emit then w else [])"
  by (cases "classify_csi ps im f") (simp_all add: csi_action_def)

lemma filtered_osc_action:
  "out_filtered (snd (osc_action b64 now ps sep pl trm w n s)) = out_filtered (snd s) @
     (if ps \<noteq> ascii ''7501'' \<and> take 1 pl \<noteq> ascii ''?'' \<and> ps \<noteq> ascii ''10'' \<and> ps \<noteq> ascii ''11''
         \<and> sep \<and> is_passthrough_osc ps pl then [0x1b, 0x5d] @ w else [])"
  by (simp add: osc_action_def Let_def)

lemma same_display_csi:
  assumes "same_display s t"
  shows "fst (csi rest s) = fst (csi rest t) \<and> same_display (snd (csi rest s)) (snd (csi rest t))"
  using assms unfolding csi_def Let_def
  by (simp add: same_display_def filtered_csi_action split: list.splits del: dropWhile_eq_Nil_conv)

lemma same_display_osc:
  assumes "same_display s t"
  shows "fst (osc b64 now i e rest s) = fst (osc b64' now' i e rest t)
     \<and> same_display (snd (osc b64 now i e rest s)) (snd (osc b64' now' i e rest t))"
  using assms unfolding osc_def Let_def
  by (simp add: same_display_def filtered_osc_action split: osc_end.splits del: dropWhile_eq_Nil_conv)

lemma same_display_bare_csi:
  assumes "same_display s t"
  shows "fst (bare_csi rest s) = fst (bare_csi rest t) \<and> same_display (snd (bare_csi rest s)) (snd (bare_csi rest t))"
  using assms unfolding bare_csi_def Let_def by simp

lemma same_display_escape:
  assumes "same_display s t"
  shows "fst (escape b64 now rest s) = fst (escape b64' now' rest t)
     \<and> same_display (snd (escape b64 now rest s)) (snd (escape b64' now' rest t))"
proof -
  have "same_display (emit bs (update_signals f s)) (emit bs (update_signals g t))" for bs f g
    using assms by (simp add: same_display_def)
  then show ?thesis
    using assms same_display_csi [OF assms] same_display_osc [OF assms] unfolding escape_def
    by (simp split: list.splits)
qed

lemma same_display_sequence:
  assumes "same_display s t"
  shows "fst (sequence b64 now rest s) = fst (sequence b64' now' rest t)
     \<and> same_display (snd (sequence b64 now rest s)) (snd (sequence b64' now' rest t))"
  using same_display_escape [OF assms] same_display_osc [OF assms] same_display_bare_csi [OF assms]
  unfolding sequence_def by (simp split: prod.splits) (metis fst_conv snd_conv)

lemma same_display_scan_tokens:
  "same_display s t \<Longrightarrow> fst (scan_tokens b64 bare now data s) = fst (scan_tokens b64' bare now' data t)
     \<and> same_display (snd (scan_tokens b64 bare now data s)) (snd (scan_tokens b64' bare now' data t))"
proof (induction data s arbitrary: t rule: scan_tokens_induct [of bare b64 now])
  case (step data s)
  let ?rest = "from_intro bare data" let ?run = "plain_run bare data"
  note sq = same_display_sequence [OF same_display_emit [OF step.prems, of ?run], of b64 now ?rest b64' now']
  show ?case
  proof (cases rule: scan_tokens_cases [of bare data b64 now s])
    case stop
    then show ?thesis using step.prems by (simp add: scan_tokens_end)
  next
    case (held s')
    then obtain t' where "sequence b64' now' ?rest (emit ?run t) = (None, t')" "same_display s' t'"
      using sq by (metis fst_conv snd_conv surj_pair)
    with held show ?thesis by (simp add: scan_tokens_open)
  next
    case (go n s')
    then obtain t' where t': "sequence b64' now' ?rest (emit ?run t) = (Some n, t')" "same_display s' t'"
      using sq by (metis fst_conv snd_conv surj_pair)
    from step.IH [OF go(1,2) t'(2)] go(3) scan_tokens_next [OF go(1) t'(1)] show ?thesis by simp
  qed
qed

lemma same_display_hold:
  "fst r = fst r' \<and> same_display (snd r) (snd r') \<Longrightarrow> same_display (hold_or_flush r) (hold_or_flush r')"
  by (cases r; cases r') (simp add: hold_or_flush_def same_display_def)

text \<open>The reference: what one chunk adds to the display, given the bytes held before it.\<close>

definition filter_chunk :: "bool \<Rightarrow> bytes \<Rightarrow> bytes \<Rightarrow> bytes \<times> bytes" where
  "filter_chunk bare p data =
     (case pty_scan no_base64 bare 0 (PtyScanner_new\<lparr>pt_pending := p\<rparr>) data of (sc, out) \<Rightarrow>
        (pt_pending sc, out_filtered out))"

lemma pty_scan_display:
  assumes "pty_scan b64 bare now sc data = (sc', out)"
  shows "filter_chunk bare (pt_pending sc) data = (pt_pending sc', out_filtered out)"
proof -
  let ?s = "(sc\<lparr>pt_pending := []\<rparr>, no_out)"
  let ?t = "((PtyScanner_new\<lparr>pt_pending := pt_pending sc\<rparr>)\<lparr>pt_pending := []\<rparr>, no_out)"
  have "same_display ?s ?t" by (simp add: same_display_def)
  from same_display_scan_tokens [OF this, of b64 bare now "pt_pending sc @ data" no_base64 0]
  have "same_display (pty_scan b64 bare now sc data)
      (pty_scan no_base64 bare 0 (PtyScanner_new\<lparr>pt_pending := pt_pending sc\<rparr>) data)"
    unfolding pty_scan_def scan_slice_def by (simp add: same_display_hold)
  with assms show ?thesis by (simp add: filter_chunk_def same_display_def split: prod.splits)
qed

text \<open>The display of a run of records, from the bytes held before it: what is held after it, and
  what it adds.\<close>

fun display :: "bool \<Rightarrow> bytes \<Rightarrow> Record list \<Rightarrow> bytes \<times> bytes" where
  "display bare p [] = (p, [])"
| "display bare p (r # rs) =
     (if rec_kind r = Output then
        case filter_chunk bare p (rec_payload r) of (p', f) \<Rightarrow>
          case display bare p' rs of (p'', f') \<Rightarrow> (p'', f @ f')
      else display bare p rs)"

abbreviation display_stream :: "bool \<Rightarrow> Record list \<Rightarrow> bytes" where
  "display_stream bare rs \<equiv> snd (display bare [] rs)"

lemma display_append:
  "display bare p (a @ b) =
     (fst (display bare (fst (display bare p a)) b),
      snd (display bare p a) @ snd (display bare (fst (display bare p a)) b))"
  by (induction a arbitrary: p) (simp_all split: prod.splits)

lemma display_Cons_length: "length (snd (display bare p [r])) \<le> length (snd (display bare p (r # rs)))"
  using display_append [of bare p "[r]" rs] by (simp del: display.simps)

text \<open>The resizes among the records, with the length of the display before each.\<close>

fun resizes :: "bool \<Rightarrow> bytes \<Rightarrow> nat \<Rightarrow> Record list \<Rightarrow> LogResize list" where
  "resizes bare p pos [] = []"
| "resizes bare p pos (r # rs) =
     (if rec_kind r = Output then
        case filter_chunk bare p (rec_payload r) of (p', f) \<Rightarrow> resizes bare p' (pos + length f) rs
      else (case decode_resize_payload (rec_payload r) of
              Some (rows, cols) \<Rightarrow>
                if rec_kind r = Resize then [\<lparr>lr_offset = pos, lr_rows = rows, lr_cols = cols\<rparr>] else []
            | None \<Rightarrow> []) @ resizes bare p pos rs)"

lemma resizes_append:
  "resizes bare p pos (a @ b) =
     resizes bare p pos a
     @ resizes bare (fst (display bare p a)) (pos + length (snd (display bare p a))) b"
  by (induction a arbitrary: p pos) (simp_all add: add.assoc split: prod.splits option.splits)

lemma resizes_offsets: "x \<in> set (resizes bare p pos rs) \<Longrightarrow>
    pos \<le> lr_offset x \<and> lr_offset x \<le> pos + length (snd (display bare p rs))"
  by (induction rs arbitrary: p pos) (fastforce split: prod.splits option.splits if_splits)+

text \<open>Checkpoints as the session writes them: one that carries an offset was written while the
  scanner held nothing, and the offset is the length of the display before it.\<close>

fun honest_checkpoints :: "bool \<Rightarrow> bytes \<Rightarrow> nat \<Rightarrow> Record list \<Rightarrow> bool" where
  "honest_checkpoints bare p pos [] \<longleftrightarrow> True"
| "honest_checkpoints bare p pos (r # rs) \<longleftrightarrow>
     (if rec_kind r = Output then
        case filter_chunk bare p (rec_payload r) of (p', f) \<Rightarrow> honest_checkpoints bare p' (pos + length f) rs
      else (if anchors_record r \<and> ca_filtered_offset (anchor_of 0 0 0 r) \<noteq> 0
            then p = [] \<and> ca_filtered_offset (anchor_of 0 0 0 r) = pos else True)
           \<and> honest_checkpoints bare p pos rs)"

lemma anchor_not_output: "anchors_record r \<Longrightarrow> rec_kind r \<noteq> Output"
  by (simp add: anchors_record_def)

lemma honest_append:
  "honest_checkpoints bare p pos (a @ b) \<longleftrightarrow> honest_checkpoints bare p pos a
     \<and> honest_checkpoints bare (fst (display bare p a)) (pos + length (snd (display bare p a))) b"
  by (induction a arbitrary: p pos) (auto simp: add.assoc split: prod.splits)

lemma honest_anchor:
  assumes "honest_checkpoints bare [] 0 (pre @ r # post)" and "anchors_record r"
    and "ca_filtered_offset (anchor_of 0 0 0 r) \<noteq> 0"
  shows "fst (display bare [] pre) = [] \<and> ca_filtered_offset (anchor_of 0 0 0 r) = length (display_stream bare pre)"
  using assms anchor_not_output [OF assms(2)] by (simp add: honest_append)

section \<open>What the loops compute\<close>

lemma find_SomeD: "find P xs = Some x \<Longrightarrow> x \<in> set xs \<and> P x"
  by (induction xs) (auto split: if_splits)

context crc_hasher
begin

lemma replay_loop_at:
  assumes "stored H d i rss junk"
  shows "stream_at i rss s rem \<Longrightarrow> length rem < fuel \<Longrightarrow>
    \<exists>pre post. rem = pre @ post \<and> replay_loop fuel H d step stop s a = Some (Inr (foldl step a pre))
      \<and> (post = [] \<or> stop (foldl step a pre))"
proof (induction fuel arbitrary: s rem a)
  case 0
  then show ?case by simp
next
  case (Suc fuel)
  from next_batch_at [OF assms Suc.prems(1), of REPLAY_BATCH_BYTES] obtain batch rem' s' where
    nb: "next_batch H d REPLAY_BATCH_BYTES s = (Inr batch, s')" "rem = batch @ rem'" "stream_at i rss s' rem'"
    "batch = [] \<longrightarrow> rem = []" by blast
  show ?case
  proof (cases "batch = []")
    case True
    with nb have "rem = [] @ []" "replay_loop (Suc fuel) H d step stop s a = Some (Inr (foldl step a []))"
      by simp_all
    then show ?thesis by blast
  next
    case False
    then have "length rem' < fuel" using nb(2) Suc.prems(2) by (cases batch) simp_all
    from Suc.IH [OF nb(3) this, of "foldl step a batch"] obtain pre post where
      more: "rem' = pre @ post"
      "replay_loop fuel H d step stop s' (foldl step a batch) = Some (Inr (foldl step (foldl step a batch) pre))"
      "post = [] \<or> stop (foldl step (foldl step a batch) pre)" by blast
    show ?thesis
    proof (cases "stop (foldl step a batch)")
      case True
      with False nb(1,2) show ?thesis by (intro exI [of _ batch] exI [of _ rem']) (simp add: Let_def)
    next
      case go: False
      with False nb(1,2) more show ?thesis
        by (intro exI [of _ "batch @ pre"] exI [of _ post]) (simp add: Let_def)
    qed
  qed
qed

text \<open>Opening at the newest anchor that is not past the target: the records that remain, the bytes
  of the display before them, and that the scanner held nothing there.\<close>

lemma open_at_honest:
  assumes "stored H d i rss junk" and "honest_checkpoints bare [] 0 (concat rss)"
    and "checkpoint_anchors d i = Inr anchors" and "x \<in> set anchors" and "0 < ca_filtered_offset x"
  shows "\<exists>s a b. SegmentStream_open_at d i x = Inr s \<and> concat rss = a @ b \<and> stream_at i rss s b
     \<and> fst (display bare [] a) = [] \<and> ca_filtered_offset x = length (display_stream bare a)
     \<and> jc_incarnation (ca_cursor x) = i"
proof -
  from assms(3,4) anchors_stored [OF assms(1)] obtain k a r b where
    k: "k < length rss" "rss ! k = a @ r # b" "anchors_record r"
    "x = anchor_of i (Suc k) (frames_len (a @ [r])) r"
    by (auto simp: anchors_of_mem)
  let ?pre = "concat (take k rss) @ a" let ?post = "b @ concat (drop (Suc k) rss)"
  have split: "concat rss = (?pre @ [r]) @ ?post" using concat_at [OF k(1)] k(2) by simp
  have "record_run 1 (concat rss)" using assms(1) by (simp add: stored_def)
  then have "rec_seq r = length (concat (take k rss) @ (a @ [r]))"
    unfolding split by (simp add: record_run_append)
  with stream_open_at_anchor [OF assms(1) k(1), of "a @ [r]" b x] k(2,4) obtain s where
    s: "SegmentStream_open_at d i x = Inr s" "stream_at i rss s ?post" by (auto simp: anchor_of_def)
  have off: "ca_filtered_offset x = ca_filtered_offset (anchor_of 0 0 0 r)" by (simp add: k(4) anchor_of_def)
  have "honest_checkpoints bare [] 0 ((?pre @ [r]) @ ?post)" using assms(2) split by simp
  then have "fst (display bare [] ?pre) = [] \<and> ca_filtered_offset x = length (display_stream bare ?pre)"
    using honest_anchor [of bare ?pre r ?post] k(3) assms(5) off by simp
  moreover have "display bare [] (?pre @ [r]) = display bare [] ?pre"
    using anchor_not_output [OF k(3)] by (simp add: display_append)
  moreover have "jc_incarnation (ca_cursor x) = i" by (simp add: k(4) anchor_of_def)
  ultimately show ?thesis
    using s split by (intro exI [of _ s] exI [of _ "?pre @ [r]"] exI [of _ ?post]) simp
qed

lemma replay_stream_at:
  assumes "stored H d i rss junk" and "honest_checkpoints bare [] 0 (concat rss)"
  shows "\<exists>s a b. replay_stream d i target = Inr (s, length (display_stream bare a))
     \<and> concat rss = a @ b \<and> stream_at i rss s b \<and> fst (display bare [] a) = []
     \<and> length (display_stream bare a) \<le> target"
proof (cases "replay_start d i target")
  case None
  from stream_open_at_start [OF assms(1)] obtain s where
    "SegmentStream_open d i = Inr s" "stream_at i rss s (concat rss)" by blast
  with None show ?thesis
    by (intro exI [of _ s] exI [of _ "[]"] exI [of _ "concat rss"]) (simp add: replay_stream_def)
next
  case (Some x)
  from anchors_stored [OF assms(1)] obtain anchors where as: "checkpoint_anchors d i = Inr anchors" by blast
  with Some have "find (\<lambda>a. 0 < ca_filtered_offset a \<and> ca_filtered_offset a \<le> target) (rev anchors) = Some x"
    by (simp add: replay_start_def)
  from find_SomeD [OF this] have x: "x \<in> set anchors" "0 < ca_filtered_offset x" "ca_filtered_offset x \<le> target"
    by simp_all
  from open_at_honest [OF assms as x(1,2)] obtain s a b where
    "SegmentStream_open_at d i x = Inr s" "concat rss = a @ b" "stream_at i rss s b"
    "fst (display bare [] a) = []" "ca_filtered_offset x = length (display_stream bare a)" by blast
  with Some x(3) show ?thesis
    by (intro exI [of _ s] exI [of _ a] exI [of _ b]) (simp add: replay_stream_def)
qed

end

text \<open>One output record, and then a run of records, in each of the loops.\<close>

lemma derive_scan_spec:
  assumes "filter_chunk bare (pt_pending (dv_scanner v)) payload = (p, f)"
    and "dv_pos v + length f \<le> u64_max"
  shows "\<exists>sc. derive_scan b64 bare now v payload = (v\<lparr>dv_scanner := sc, dv_pos := dv_pos v + length f\<rparr>, f)
     \<and> pt_pending sc = p"
proof -
  obtain sc out where one: "pty_scan b64 bare now (dv_scanner v) payload = (sc, out)" by (rule prod.exhaust)
  from pty_scan_display [OF one] assms(1) have "p = pt_pending sc" "f = out_filtered out" by simp_all
  with one assms(2) show ?thesis
    by (intro exI [of _ sc]) (simp add: derive_scan_def u64_saturating_add_def)
qed

text \<open>\<open>derived bare v rs v'\<close>: after the records, the scanner holds and the position counts what the
  display of the records says.\<close>

definition derived :: "bool \<Rightarrow> derivation \<Rightarrow> Record list \<Rightarrow> derivation \<Rightarrow> bool" where
  "derived bare v rs v' \<longleftrightarrow>
     pt_pending (dv_scanner v') = fst (display bare (pt_pending (dv_scanner v)) rs)
     \<and> dv_pos v' = dv_pos v + length (snd (display bare (pt_pending (dv_scanner v)) rs))"

abbreviation added :: "bool \<Rightarrow> derivation \<Rightarrow> Record list \<Rightarrow> bytes" where
  "added bare v rs \<equiv> snd (display bare (pt_pending (dv_scanner v)) rs)"

abbreviation resizes_from :: "bool \<Rightarrow> derivation \<Rightarrow> Record list \<Rightarrow> LogResize list" where
  "resizes_from bare v rs \<equiv> resizes bare (pt_pending (dv_scanner v)) (dv_pos v) rs"

lemma derived_Cons:
  "derived bare v [r] v1 \<Longrightarrow> derived bare v1 rs v' \<Longrightarrow> derived bare v (r # rs) v'"
  using display_append [of bare _ "[r]" rs] by (simp add: derived_def)

lemma added_Cons: "derived bare v [r] v1 \<Longrightarrow> added bare v (r # rs) = added bare v [r] @ added bare v1 rs"
  using display_append [of bare _ "[r]" rs] by (simp add: derived_def)

lemma resizes_from_Cons:
  "derived bare v [r] v1 \<Longrightarrow> resizes_from bare v (r # rs) = resizes_from bare v [r] @ resizes_from bare v1 rs"
  using resizes_append [of bare _ _ "[r]" rs] by (simp add: derived_def)

text \<open>A step that tracks the display over one record tracks it over a run.\<close>

lemma foldl_derived:
  assumes one: "\<And>v r. dv_pos v + length (added bare v [r]) \<le> u64_max \<Longrightarrow> derived bare v [r] (step v r)"
    and base: "\<And>v. R v [] v"
    and "\<And>v r rs v'. derived bare v [r] (step v r) \<Longrightarrow> dv_pos v + length (added bare v [r]) \<le> u64_max
       \<Longrightarrow> R (step v r) rs v' \<Longrightarrow> R v (r # rs) v'"
    and "dv_pos v + length (added bare v rs) \<le> u64_max"
  shows "derived bare v rs (foldl step v rs) \<and> R v rs (foldl step v rs)"
  using assms(4)
proof (induction rs arbitrary: v)
  case Nil
  then show ?case by (simp add: derived_def base)
next
  case (Cons r rs)
  have fits: "dv_pos v + length (added bare v [r]) \<le> u64_max"
    using Cons.prems display_Cons_length [of bare "pt_pending (dv_scanner v)" r rs] by linarith
  note st = one [OF fits]
  have "dv_pos (step v r) + length (added bare (step v r) rs) \<le> u64_max"
    using Cons.prems added_Cons [OF st, of rs] st by (simp add: derived_def)
  from Cons.IH [OF this] derived_Cons [OF st] assms(3) [OF st fits] show ?case by simp
qed

lemma derive_scan_derived:
  assumes "rec_kind r = Output" and "dv_pos v + length (added bare v [r]) \<le> u64_max"
    and "derive_scan b64 bare now v (rec_payload r) = (v', batch)"
  shows "derived bare v [r] v' \<and> batch = added bare v [r] \<and> dv_collected v' = dv_collected v
     \<and> dv_resizes v' = dv_resizes v \<and> dv_pos v' = dv_pos v + length batch"
proof -
  obtain p f where c: "filter_chunk bare (pt_pending (dv_scanner v)) (rec_payload r) = (p, f)" by (rule prod.exhaust)
  then have disp: "display bare (pt_pending (dv_scanner v)) [r] = (p, f)" using assms(1) by simp
  then have "dv_pos v + length f \<le> u64_max" using assms(2) by simp
  from derive_scan_spec [OF c this, of b64 now] assms(3) disp show ?thesis by (auto simp: derived_def)
qed

lemma derived_other: "rec_kind r \<noteq> Output \<Longrightarrow> derived bare v [r] v \<and> added bare v [r] = []"
  by (simp add: derived_def)

lemma derive_output_one:
  assumes "dv_pos v + length (added bare v [r]) \<le> u64_max"
  shows "derived bare v [r] (derive_output b64 bare now off v r)
     \<and> dv_collected (derive_output b64 bare now off v r) = dv_collected v @ drop (off - dv_pos v) (added bare v [r])
     \<and> dv_resizes (derive_output b64 bare now off v r) = dv_resizes v"
proof (cases "rec_kind r = Output")
  case True
  obtain v' batch where one: "derive_scan b64 bare now v (rec_payload r) = (v', batch)" by (rule prod.exhaust)
  have "drop (min k (length batch)) batch = drop k batch" for k by (cases "k \<le> length batch") auto
  with derive_scan_derived [OF True assms one] one True show ?thesis
    by (auto simp: derive_output_def derived_def)
next
  case False
  then show ?thesis using derived_other [OF False] by (simp add: derive_output_def)
qed

lemma derive_resize_one:
  "derived bare v [r] v' \<Longrightarrow> dv_resizes v' = dv_resizes v \<Longrightarrow>
     derived bare v [r] (derive_resize v' r)
     \<and> dv_collected (derive_resize v' r) = dv_collected v'
     \<and> dv_resizes (derive_resize v' r) = dv_resizes v @ resizes_from bare v [r]"
  by (auto simp: derive_resize_def derived_def split: option.splits prod.splits)

lemma derive_both_one:
  assumes "dv_pos v + length (added bare v [r]) \<le> u64_max"
  shows "derived bare v [r] (derive_both b64 bare now off v r)
     \<and> dv_collected (derive_both b64 bare now off v r) = dv_collected v @ drop (off - dv_pos v) (added bare v [r])
     \<and> dv_resizes (derive_both b64 bare now off v r) = dv_resizes v @ resizes_from bare v [r]"
  using derive_output_one [OF assms, of b64 now off] derive_resize_one [of bare v r "derive_output b64 bare now off v r"]
  by (simp add: derive_both_def)

lemma derive_position_one:
  assumes "dv_pos v + length (added bare v [r]) \<le> u64_max"
  shows "derived bare v [r] (derive_position b64 bare now v r)
     \<and> dv_resizes (derive_position b64 bare now v r) = dv_resizes v @ resizes_from bare v [r]"
proof -
  let ?v = "if rec_kind r = Output then fst (derive_scan b64 bare now v (rec_payload r)) else v"
  have "derived bare v [r] ?v \<and> dv_resizes ?v = dv_resizes v"
    using derive_scan_derived [OF _ assms, of b64 now] derived_other [of r bare v]
    by (cases "rec_kind r = Output"; cases "derive_scan b64 bare now v (rec_payload r)") (simp_all del: display.simps)
  with derive_resize_one [of bare v r ?v] show ?thesis by (simp add: derive_position_def)
qed

lemma derive_window_one:
  assumes "dv_pos v + length (added bare v [r]) \<le> u64_max"
  shows "derived bare v [r] (derive_window b64 bare now off m v r)
     \<and> dv_collected (derive_window b64 bare now off m v r)
         = dv_collected v @ take (m - length (dv_collected v)) (drop (off - dv_pos v) (added bare v [r]))"
proof (cases "rec_kind r = Output")
  case True
  obtain v' batch where one: "derive_scan b64 bare now v (rec_payload r) = (v', batch)" by (rule prod.exhaust)
  have "take (min (length batch - min k (length batch)) n) (drop (min k (length batch)) batch)
      = take n (drop k batch)" for k n
    by (cases "k \<le> length batch") (auto simp: min_def)
  with derive_scan_derived [OF True assms one] one True show ?thesis
    by (auto simp: derive_window_def derived_def Let_def)
next
  case False
  then show ?thesis using derived_other [OF False] by (simp add: derive_window_def)
qed

lemma derive_output_run:
  assumes "dv_pos v + length (added bare v rs) \<le> u64_max"
  shows "derived bare v rs (foldl (derive_output b64 bare now off) v rs)
     \<and> dv_collected (foldl (derive_output b64 bare now off) v rs)
         = dv_collected v @ drop (off - dv_pos v) (added bare v rs)"
proof (rule foldl_derived [where R = "\<lambda>v rs v'. dv_collected v' = dv_collected v @ drop (off - dv_pos v) (added bare v rs)", OF _ _ _ assms])
  fix v r rs v'
  assume st: "derived bare v [r] (derive_output b64 bare now off v r)"
    and fits: "dv_pos v + length (added bare v [r]) \<le> u64_max"
    and R: "dv_collected v' = dv_collected (derive_output b64 bare now off v r)
      @ drop (off - dv_pos (derive_output b64 bare now off v r)) (added bare (derive_output b64 bare now off v r) rs)"
  show "dv_collected v' = dv_collected v @ drop (off - dv_pos v) (added bare v (r # rs))"
    unfolding added_Cons [OF st, of rs] R using derive_output_one [OF fits, of b64 now off] st
    by (simp add: derived_def)
qed (simp_all add: derive_output_one)

lemma derive_both_run:
  assumes "dv_pos v + length (added bare v rs) \<le> u64_max"
  shows "derived bare v rs (foldl (derive_both b64 bare now off) v rs)
     \<and> dv_collected (foldl (derive_both b64 bare now off) v rs)
         = dv_collected v @ drop (off - dv_pos v) (added bare v rs)
     \<and> dv_resizes (foldl (derive_both b64 bare now off) v rs) = dv_resizes v @ resizes_from bare v rs"
proof (rule foldl_derived [where R = "\<lambda>v rs v'. dv_collected v' = dv_collected v @ drop (off - dv_pos v) (added bare v rs)
    \<and> dv_resizes v' = dv_resizes v @ resizes_from bare v rs", OF _ _ _ assms])
  fix v r rs v'
  assume st: "derived bare v [r] (derive_both b64 bare now off v r)"
    and fits: "dv_pos v + length (added bare v [r]) \<le> u64_max"
    and R: "dv_collected v' = dv_collected (derive_both b64 bare now off v r)
      @ drop (off - dv_pos (derive_both b64 bare now off v r)) (added bare (derive_both b64 bare now off v r) rs)
      \<and> dv_resizes v' = dv_resizes (derive_both b64 bare now off v r) @ resizes_from bare (derive_both b64 bare now off v r) rs"
  show "dv_collected v' = dv_collected v @ drop (off - dv_pos v) (added bare v (r # rs))
      \<and> dv_resizes v' = dv_resizes v @ resizes_from bare v (r # rs)"
    unfolding added_Cons [OF st, of rs] resizes_from_Cons [OF st, of rs] using R derive_both_one [OF fits, of b64 now off] st
    by (simp add: derived_def)
qed (simp_all add: derive_both_one)

lemma derive_position_run:
  assumes "dv_pos v + length (added bare v rs) \<le> u64_max"
  shows "derived bare v rs (foldl (derive_position b64 bare now) v rs)
     \<and> dv_resizes (foldl (derive_position b64 bare now) v rs) = dv_resizes v @ resizes_from bare v rs"
proof (rule foldl_derived [where R = "\<lambda>v rs v'. dv_resizes v' = dv_resizes v @ resizes_from bare v rs", OF _ _ _ assms])
  fix v r rs v'
  assume st: "derived bare v [r] (derive_position b64 bare now v r)"
    and fits: "dv_pos v + length (added bare v [r]) \<le> u64_max"
    and R: "dv_resizes v' = dv_resizes (derive_position b64 bare now v r)
      @ resizes_from bare (derive_position b64 bare now v r) rs"
  show "dv_resizes v' = dv_resizes v @ resizes_from bare v (r # rs)"
    unfolding resizes_from_Cons [OF st, of rs] using R derive_position_one [OF fits, of b64 now] by simp
qed (simp_all add: derive_position_one)

lemma derive_window_run:
  assumes "dv_pos v + length (added bare v rs) \<le> u64_max"
  shows "derived bare v rs (foldl (derive_window b64 bare now off m) v rs)
     \<and> dv_collected (foldl (derive_window b64 bare now off m) v rs)
         = dv_collected v @ take (m - length (dv_collected v)) (drop (off - dv_pos v) (added bare v rs))"
proof (rule foldl_derived [where R = "\<lambda>v rs v'. dv_collected v'
    = dv_collected v @ take (m - length (dv_collected v)) (drop (off - dv_pos v) (added bare v rs))", OF _ _ _ assms])
  fix v r rs v'
  let ?v = "derive_window b64 bare now off m v r"
  assume st: "derived bare v [r] ?v"
    and fits: "dv_pos v + length (added bare v [r]) \<le> u64_max"
    and R: "dv_collected v' = dv_collected ?v
      @ take (m - length (dv_collected ?v)) (drop (off - dv_pos ?v) (added bare ?v rs))"
  show "dv_collected v' = dv_collected v @ take (m - length (dv_collected v)) (drop (off - dv_pos v) (added bare v (r # rs)))"
    unfolding added_Cons [OF st, of rs] R using derive_window_one [OF fits, of b64 now off m] st
    by (auto simp: derived_def min_def)
qed (simp_all add: derive_window_one)

section \<open>Replay is exact\<close>

text \<open>The session's latest incarnation is \<open>i\<close>, its parts hold the records \<open>concat rss\<close>, possibly
  followed by a torn record, its checkpoints are honest, and the display fits 64 bits.\<close>

definition replayable :: "'h hasher \<Rightarrow> bool \<Rightarrow> disk \<Rightarrow> nat \<Rightarrow> Record list list \<Rightarrow> bytes \<Rightarrow> bool" where
  "replayable H bare d i rss junk \<longleftrightarrow> stored H d i rss junk \<and> last_option (list_incarnations d) = Some i
     \<and> honest_checkpoints bare [] 0 (concat rss) \<and> length (display_stream bare (concat rss)) \<le> u64_max"

text \<open>Where a derivation starts: after \<open>a\<close>, before \<open>b\<close>, with nothing held.\<close>

definition starts_at :: "bool \<Rightarrow> Record list list \<Rightarrow> nat \<Rightarrow> Record list \<Rightarrow> Record list \<Rightarrow> bool" where
  "starts_at bare rss pos a b \<longleftrightarrow> concat rss = a @ b \<and> fst (display bare [] a) = []
     \<and> pos = length (display_stream bare a)"

lemma starts_at_added:
  assumes "starts_at bare rss pos a b" and "b = c @ d"
  shows "display_stream bare (concat rss) = display_stream bare a @ added bare (derivation_start pos) c
      @ snd (display bare (fst (display bare [] c)) d)"
    and "resizes bare [] 0 (concat rss) = resizes bare [] 0 a @ resizes_from bare (derivation_start pos) c
      @ resizes bare (fst (display bare [] c)) (pos + length (snd (display bare [] c))) d"
    and "length (display_stream bare (concat rss)) \<le> u64_max \<Longrightarrow>
      dv_pos (derivation_start pos) + length (added bare (derivation_start pos) c) \<le> u64_max"
  using assms
  by (simp_all add: starts_at_def display_append resizes_append derivation_start_def PtyScanner_new_def)

lemma starts_at_whole:
  assumes "starts_at bare rss pos a b"
  shows "display_stream bare (concat rss) = display_stream bare a @ added bare (derivation_start pos) b"
    and "resizes bare [] 0 (concat rss) = resizes bare [] 0 a @ resizes_from bare (derivation_start pos) b"
  using starts_at_added [OF assms, of b "[]"] by simp_all

context crc_hasher
begin

lemma replay_opens:
  assumes "replayable H bare d i rss junk"
  shows "\<exists>s pos a b. replay_stream d i target = Inr (s, pos) \<and> starts_at bare rss pos a b
     \<and> stream_at i rss s b \<and> pos \<le> target"
  using replay_stream_at [of d i rss junk bare target] assms by (auto simp: replayable_def starts_at_def)

lemma replay_runs:
  assumes "replayable H bare d i rss junk" and "starts_at bare rss pos a b" and "stream_at i rss s b"
    and "length (concat rss) < fuel"
  shows "\<exists>pre post. b = pre @ post
     \<and> replay_loop fuel H d step stop s (derivation_start pos) = Some (Inr (foldl step (derivation_start pos) pre))
     \<and> (post = [] \<or> stop (foldl step (derivation_start pos) pre))
     \<and> dv_pos (derivation_start pos) + length (added bare (derivation_start pos) pre) \<le> u64_max"
proof -
  have st: "stored H d i rss junk" and fits: "length (display_stream bare (concat rss)) \<le> u64_max"
    using assms(1) by (simp_all add: replayable_def)
  have "length b < fuel" using assms(2,4) by (simp add: starts_at_def)
  from replay_loop_at [OF st assms(3) this, of step stop "derivation_start pos"]
  obtain pre post where "b = pre @ post"
    "replay_loop fuel H d step stop s (derivation_start pos) = Some (Inr (foldl step (derivation_start pos) pre))"
    "post = [] \<or> stop (foldl step (derivation_start pos) pre)" by blast
  with starts_at_added(3) [OF assms(2) this(1) fits] show ?thesis by blast
qed

lemma derive_stream_at:
  assumes "replayable H bare d i rss junk" and "starts_at bare rss pos a b" and "stream_at i rss s b"
    and "length (concat rss) < fuel"
  shows "derive_stream_and_resizes fuel H b64 bare now d s pos off
     = Some (Inr (drop (max off pos) (display_stream bare (concat rss)), length (display_stream bare (concat rss)),
         drop (length (resizes bare [] 0 a)) (resizes bare [] 0 (concat rss))))"
proof -
  from replay_runs [OF assms, of "derive_both b64 bare now off" "\<lambda>v. False"]
  have run: "replay_loop fuel H d (derive_both b64 bare now off) (\<lambda>v. False) s (derivation_start pos)
      = Some (Inr (foldl (derive_both b64 bare now off) (derivation_start pos) b))"
    and fits: "dv_pos (derivation_start pos) + length (added bare (derivation_start pos) b) \<le> u64_max" by auto
  have "drop (max off pos) (display_stream bare (concat rss)) = drop (off - pos) (added bare (derivation_start pos) b)"
    using assms(2) unfolding starts_at_whole(1) [OF assms(2)] by (auto simp: starts_at_def max_def)
  moreover have "length (display_stream bare (concat rss)) = pos + length (added bare (derivation_start pos) b)"
    using assms(2) unfolding starts_at_whole(1) [OF assms(2)] by (simp add: starts_at_def)
  ultimately show ?thesis
    using derive_both_run [OF fits, of b64 now off] starts_at_whole(2) [OF assms(2)] run
    by (simp add: derive_stream_and_resizes_def derived_def) (simp add: derivation_start_def)
qed

end

lemma replay_from_offset:
  assumes "crc_hasher H" and "replayable H bare d i rss junk" and "length (concat rss) < fuel"
  shows "filtered_stream_from fuel H b64 bare now d from_offset =
     Some (Inr (drop from_offset (display_stream bare (concat rss)), length (display_stream bare (concat rss))))"
proof -
  from crc_hasher.replay_opens [OF assms(1,2), of from_offset] obtain s pos a b where
    st: "replay_stream d i from_offset = Inr (s, pos)" "starts_at bare rss pos a b" "stream_at i rss s b"
    "pos \<le> from_offset" by blast
  let ?v = "derivation_start pos"
  from crc_hasher.replay_runs [OF assms(1,2) st(2,3) assms(3), of "derive_output b64 bare now from_offset" "\<lambda>v. False"]
  have run: "replay_loop fuel H d (derive_output b64 bare now from_offset) (\<lambda>v. False) s ?v
      = Some (Inr (foldl (derive_output b64 bare now from_offset) ?v b))"
    and fits: "dv_pos ?v + length (added bare ?v b) \<le> u64_max" by auto
  have "dv_pos ?v = pos" "dv_collected ?v = []" "last_option (list_incarnations d) = Some i"
    using assms(2) by (simp_all add: derivation_start_def replayable_def)
  with run st derive_output_run [OF fits, of b64 now from_offset] starts_at_whole(1) [OF st(2)] show ?thesis
    by (simp add: filtered_stream_from_def run_replay_def derived_def starts_at_def)
qed

text \<open>C23. Replay from any offset is exact. Whatever checkpoint it starts from, the bytes returned are
  those of the display stream of the latest incarnation from that offset on, and the end offset is
  the length of the whole stream; the display is the scan of all output records in order, and
  neither the clock nor the retained signals matter.\<close>

theorem filtered_stream_from_exact:
  assumes "crc_hasher H" and "replayable H bare d i rss junk" and "length (concat rss) < fuel"
  shows "filtered_stream_from fuel H b64 bare now d from_offset =
     Some (Inr (drop from_offset (display_stream bare (concat rss)), length (display_stream bare (concat rss))))"
  by (rule replay_from_offset [OF assms])

text \<open>A bounded read returns the first \<open>max_bytes\<close> bytes of the display from its offset on, all
  of them when there are fewer, although it stops reading as soon as it has enough.\<close>

theorem filtered_stream_window_exact:
  assumes "crc_hasher H" and "replayable H bare d i rss junk" and "length (concat rss) < fuel"
  shows "filtered_stream_window fuel H b64 bare now d from_offset max_bytes =
     Some (Inr (take max_bytes (drop from_offset (display_stream bare (concat rss)))))"
proof -
  from crc_hasher.replay_opens [OF assms(1,2), of from_offset] obtain s pos a b where
    st: "replay_stream d i from_offset = Inr (s, pos)" "starts_at bare rss pos a b" "stream_at i rss s b"
    "pos \<le> from_offset" by blast
  let ?v = "derivation_start pos" let ?f = "derive_window b64 bare now from_offset max_bytes"
  from crc_hasher.replay_runs [OF assms(1,2) st(2,3) assms(3), of ?f "\<lambda>v. max_bytes \<le> length (dv_collected v)"]
  obtain pre post where
    run: "b = pre @ post"
      "replay_loop fuel H d ?f (\<lambda>v. max_bytes \<le> length (dv_collected v)) s ?v = Some (Inr (foldl ?f ?v pre))"
      "post = [] \<or> max_bytes \<le> length (dv_collected (foldl ?f ?v pre))"
      "dv_pos ?v + length (added bare ?v pre) \<le> u64_max" by blast
  have v: "dv_pos ?v = pos" "dv_collected ?v = []" "last_option (list_incarnations d) = Some i"
    using assms(2) by (simp_all add: derivation_start_def replayable_def)
  have coll: "dv_collected (foldl ?f ?v pre) = take max_bytes (drop (from_offset - pos) (added bare ?v pre))"
    using derive_window_run [OF run(4), of b64 now from_offset max_bytes] v by simp
  have pos: "pos = length (display_stream bare a)" using st(2) by (simp add: starts_at_def)
  have "take max_bytes (drop from_offset (display_stream bare (concat rss))) = dv_collected (foldl ?f ?v pre)"
    unfolding starts_at_added(1) [OF st(2) run(1)] coll using run(3) st(4) coll
    by (auto simp: pos)
  with run(2) st(1) v(3) show ?thesis by (simp add: filtered_stream_window_def run_replay_def)
qed

text \<open>Replay from a checkpoint anchor found earlier: while the anchor belongs to the latest
  incarnation, the bytes returned are the display from the reported start offset on, which is the
  requested offset or the anchor's, whichever is later; the resizes are the last ones of the whole
  history with the same offsets as in a full replay, and only resizes up to the anchor's offset
  are left out. An anchor of another incarnation is ignored and everything is replayed.\<close>

theorem replay_from_anchor_exact:
  assumes "crc_hasher H" and "replayable H bare d i rss junk" and "length (concat rss) < fuel"
    and "replay_anchors d = Inr anchors" and "x \<in> set anchors" and "jc_incarnation (ca_cursor y) \<noteq> i"
  shows "(\<exists>n. filtered_stream_and_resizes_from_anchor fuel H b64 bare now d off (Some x) =
       Some (Inr (drop (max off (ca_filtered_offset x)) (display_stream bare (concat rss)),
         length (display_stream bare (concat rss)), drop n (resizes bare [] 0 (concat rss)),
         max off (ca_filtered_offset x)))
       \<and> (\<forall>z \<in> set (take n (resizes bare [] 0 (concat rss))). lr_offset z \<le> ca_filtered_offset x))
     \<and> filtered_stream_and_resizes_from_anchor fuel H b64 bare now d off (Some y) =
       Some (Inr (display_stream bare (concat rss), length (display_stream bare (concat rss)),
         resizes bare [] 0 (concat rss), 0))"
proof -
  have inc: "last_option (list_incarnations d) = Some i" and st: "stored H d i rss junk"
    and honest: "honest_checkpoints bare [] 0 (concat rss)"
    using assms(2) by (simp_all add: replayable_def)
  obtain all where all: "checkpoint_anchors d i = Inr all"
    using crc_hasher.anchors_stored [OF assms(1) st] by blast
  then have x: "x \<in> set all" "0 < ca_filtered_offset x"
    using assms(4,5) inc by (auto simp: replay_anchors_def latest_incarnation_def)
  from crc_hasher.open_at_honest [OF assms(1) st honest all x] obtain s a b where
    s: "SegmentStream_open_at d i x = Inr s" "stream_at i rss s b" "jc_incarnation (ca_cursor x) = i"
    and at: "starts_at bare rss (ca_filtered_offset x) a b" by (auto simp: starts_at_def)
  let ?n = "length (resizes bare [] 0 a)"
  have "take ?n (resizes bare [] 0 (concat rss)) = resizes bare [] 0 a"
    using starts_at_whole(2) [OF at] by simp
  then have "\<forall>z \<in> set (take ?n (resizes bare [] 0 (concat rss))). lr_offset z \<le> ca_filtered_offset x"
    using resizes_offsets [of _ bare "[]" 0 a] at by (auto simp: starts_at_def)
  moreover have "filtered_stream_and_resizes_from_anchor fuel H b64 bare now d off (Some x) =
       Some (Inr (drop (max off (ca_filtered_offset x)) (display_stream bare (concat rss)),
         length (display_stream bare (concat rss)), drop ?n (resizes bare [] 0 (concat rss)),
         max off (ca_filtered_offset x)))"
    using s(1,3) inc crc_hasher.derive_stream_at [OF assms(1,2) at s(2) assms(3)]
    by (simp add: filtered_stream_and_resizes_from_anchor_def filter_option_def)
  moreover obtain s0 where s0: "SegmentStream_open d i = Inr s0" "stream_at i rss s0 (concat rss)"
    using stream_open_at_start [OF st] by blast
  moreover have "starts_at bare rss 0 [] (concat rss)" by (simp add: starts_at_def)
  ultimately show ?thesis
    using inc assms(6) crc_hasher.derive_stream_at [OF assms(1,2) _ s0(2) assms(3), of 0 "[]" b64 now 0]
    by (auto simp: filtered_stream_and_resizes_from_anchor_def filter_option_def)
qed

text \<open>The bounded resize history is a contiguous piece of the whole history, with absolute
  offsets: only resizes at or before the requested offset are missing before it, and only resizes
  more than 64 MiB of display past it after it.\<close>

theorem resize_events_from_window:
  assumes "crc_hasher H" and "replayable H bare d i rss junk" and "length (concat rss) < fuel"
    and "from_offset + MAX_RESIZE_EVENTS_SCAN_BYTES \<le> u64_max"
  shows "\<exists>before events after. resize_events_from fuel H b64 bare now d from_offset = Some (Inr events)
     \<and> resizes bare [] 0 (concat rss) = before @ events @ after
     \<and> list_all (\<lambda>x. lr_offset x \<le> from_offset) before
     \<and> list_all (\<lambda>x. from_offset + MAX_RESIZE_EVENTS_SCAN_BYTES < lr_offset x) after"
proof -
  from crc_hasher.replay_opens [OF assms(1,2), of from_offset] obtain s pos a b where
    st: "replay_stream d i from_offset = Inr (s, pos)" "starts_at bare rss pos a b" "stream_at i rss s b"
    "pos \<le> from_offset" by blast
  let ?v = "derivation_start pos" let ?f = "derive_position b64 bare now"
  let ?stop = "\<lambda>v. u64_add from_offset MAX_RESIZE_EVENTS_SCAN_BYTES < dv_pos v"
  from crc_hasher.replay_runs [OF assms(1,2) st(2,3) assms(3), of ?f ?stop] obtain pre post where
    run: "b = pre @ post" "replay_loop fuel H d ?f ?stop s ?v = Some (Inr (foldl ?f ?v pre))"
      "post = [] \<or> ?stop (foldl ?f ?v pre)" "dv_pos ?v + length (added bare ?v pre) \<le> u64_max" by blast
  have v: "dv_pos ?v = pos" "dv_resizes ?v = []" "pt_pending (dv_scanner ?v) = []"
    and inc: "last_option (list_incarnations d) = Some i"
    using assms(2) by (simp_all add: derivation_start_def PtyScanner_new_def replayable_def)
  let ?after = "resizes bare (fst (display bare [] pre)) (pos + length (snd (display bare [] pre))) post"
  have "lr_offset x \<le> from_offset" if "x \<in> set (resizes bare [] 0 a)" for x
    using resizes_offsets [OF that] st(2,4) by (simp add: starts_at_def)
  then have before: "list_all (\<lambda>x. lr_offset x \<le> from_offset) (resizes bare [] 0 a)" by (simp add: list_all_iff)
  have "u64_add from_offset MAX_RESIZE_EVENTS_SCAN_BYTES = from_offset + MAX_RESIZE_EVENTS_SCAN_BYTES"
    using assms(4) by (simp add: u64_add_def u64_max_def)
  then have "from_offset + MAX_RESIZE_EVENTS_SCAN_BYTES < lr_offset x" if "x \<in> set ?after" for x
    using resizes_offsets [OF that] that run(3) derive_position_run [OF run(4), of b64 now] v
    by (auto simp: derived_def)
  then have after: "list_all (\<lambda>x. from_offset + MAX_RESIZE_EVENTS_SCAN_BYTES < lr_offset x) ?after"
    by (simp add: list_all_iff)
  have "resize_events_from fuel H b64 bare now d from_offset = Some (Inr (resizes_from bare ?v pre))"
    using derive_position_run [OF run(4), of b64 now] run(2) st(1) inc v(2)
    by (simp add: resize_events_from_def run_replay_def)
  with before after starts_at_added(2) [OF st(2) run(1)] show ?thesis by blast
qed

section \<open>The lazy reader can end early\<close>

context crc_hasher
begin

lemma batch_within_part:
  assumes st: "stored H d i rss junk" and pos: "stream_pos i rss s k a b" and "b \<noteq> []"
  shows "\<exists>j s'. next_batch H d m s = (Inr (take j b), s') \<and> 0 < j"
proof -
  note p = pos [unfolded stream_pos_def]
  obtain content where rd: "fs_read d (segment_path i (Suc k)) = Inr content"
    using st p by (auto simp: stored_def)
  let ?r = "batch_scan H m s content"
  have nb: "next_batch H d m s = (Inr (so_records (sr_outcome ?r)), batch_advance ?r s)"
    if "so_stop (sr_outcome ?r) = CleanEof \<or> so_stop (sr_outcome ?r) = PartialTail"
      "so_records (sr_outcome ?r) \<noteq> []"
    using p rd that by (subst next_batch.simps) (auto simp: Let_def)
  from st pos rd show ?thesis
  proof (cases rule: batch_scan_pos [where m = m])
    case (cut j)
    with nb assms(3) show ?thesis by (intro exI [of _ j] exI [of _ "batch_advance ?r s"]) auto
  next
    case (whole trunc reason)
    with nb assms(3) show ?thesis
      by (intro exI [of _ "length b"] exI [of _ "batch_advance ?r s"]) auto
  qed
qed

end

lemma reader_scan_run:
  "rp_pending (foldl (reader_scan b64 bare now) rd rs)
     = rp_pending rd @ snd (display bare (pt_pending (rp_scanner rd)) rs)"
proof (induction rs arbitrary: rd)
  case (Cons r rs)
  obtain sc out where one: "pty_scan b64 bare now (rp_scanner rd) (rec_payload r) = (sc, out)" by (rule prod.exhaust)
  from pty_scan_display [OF one] one Cons.IH show ?case
    by (simp add: reader_scan_def split: prod.splits)
qed simp

text \<open>C24. A read of zero bytes from the lazy reader does not mean the end of the stream: when the
  records of the first part add nothing to the display, the first read returns no bytes whatever
  the later parts hold.\<close>

theorem reader_reports_early_end:
  assumes "crc_hasher H" and "replayable H bare d i (p1 # rest) junk" and "p1 \<noteq> []"
    and "display_stream bare p1 = []"
  shows "\<exists>rd rd'. ReplayReader_new d = Inr rd \<and> reader_read H b64 bare now d n rd = (Inr [], rd') \<and> \<not> rp_done rd'"
proof -
  have inc: "last_option (list_incarnations d) = Some i" and st: "stored H d i (p1 # rest) junk"
    using assms(2) by (simp_all add: replayable_def)
  from st have parts: "incarnation_parts d i = Inr (map (\<lambda>k. (Suc k, segment_path i (Suc k))) [0..<length (p1 # rest)])"
    by (simp add: stored_def)
  let ?s = "\<lparr>ss_parts = map (\<lambda>k. (Suc k, segment_path i (Suc k))) [0..<length (p1 # rest)],
    ss_part_index = 0, ss_byte_offset = 0, ss_next_seq = 1, ss_done = False\<rparr>"
  let ?rd = "\<lparr>rp_stream = Some ?s, rp_scanner = PtyScanner_new, rp_pending = [], rp_done = False\<rparr>"
  have "stream_pos i (p1 # rest) ?s 0 [] p1" by (simp add: stream_pos_def)
  from crc_hasher.batch_within_part [OF assms(1) st this assms(3)] obtain j s' where
    nb: "next_batch H d REPLAY_BATCH_BYTES ?s = (Inr (take j p1), s')" "0 < j" by blast
  have "display_stream bare (take j p1) = []"
    using display_append [of bare "[]" "take j p1" "drop j p1"] assms(4) by simp
  then have "rp_pending (foldl (reader_scan b64 bare now) (?rd\<lparr>rp_stream := Some s'\<rparr>) (take j p1)) = []"
    by (simp add: reader_scan_run PtyScanner_new_def)
  moreover have "rp_done (foldl (reader_scan b64 bare now) rd rs) = rp_done rd" for rd rs
    by (induction rs arbitrary: rd) (simp_all add: reader_scan_def split: prod.splits)
  ultimately have "\<exists>rd'. reader_read H b64 bare now d n ?rd = (Inr [], rd') \<and> \<not> rp_done rd'"
    using nb assms(3) by (simp add: reader_read_def reader_fill_def)
  moreover have "ReplayReader_new d = Inr ?rd"
    using inc parts by (simp add: ReplayReader_new_def latest_incarnation_def SegmentStream_open_def)
  ultimately show ?thesis by blast
qed

subsection \<open>Concrete instances\<close>

definition replay_record :: "RecordKind \<Rightarrow> nat \<Rightarrow> bytes \<Rightarrow> Record" where
  "replay_record kind s payload =
     \<lparr>rec_kind = kind, rec_seq = s, rec_elapsed_ms = 0, rec_payload = payload\<rparr>"

definition replay_checkpoint :: bytes where
  "replay_checkpoint = encode_checkpoint
     \<lparr>cp_rows = 24, cp_cols = 80, cp_cursor = (0, 3), cp_alt_screen = False, cp_app_cursor_keys = False,
      cp_bracketed_paste = False, cp_filtered_offset = 3, cp_program = []\<rparr>"

text \<open>Two parts: a resize, then output, a checkpoint behind it, and more output.\<close>

definition replay_parts :: "Record list list" where
  "replay_parts =
     [[replay_record Resize 1 (encode_resize_payload 24 80)],
      [replay_record Output 2 [97, 98, 99], replay_record CheckpointRef 3 replay_checkpoint,
       replay_record Output 4 [100, 101]]]"

definition replay_disk :: disk where
  "replay_disk =
     \<lparr>jd_files = [(segment_path 4 1, \<lparr>jf_bytes = encode_records table_hasher (replay_parts ! 0), jf_synced = 0\<rparr>),
                  (segment_path 4 2, \<lparr>jf_bytes = encode_records table_hasher (replay_parts ! 1), jf_synced = 0\<rparr>)],
      jd_manifest = [], jd_faults = []\<rparr>"

lemma replay_chunks:
  "filter_chunk False [] [97, 98, 99] = ([], [97, 98, 99])" "filter_chunk False [] [100, 101] = ([], [100, 101])"
  by code_simp+

lemma replay_anchor_record:
  "anchors_record (replay_record CheckpointRef 3 replay_checkpoint)"
  "ca_filtered_offset (anchor_of j p e (replay_record CheckpointRef 3 replay_checkpoint)) = 3"
  by (simp_all add: anchors_record_def anchor_of_def replay_record_def) code_simp+

lemma replay_lengths: "length replay_checkpoint = 27" "length (encode_resize_payload 24 80) = 4"
  by (simp_all add: replay_checkpoint_def encode_checkpoint_def encode_resize_payload_def CHECKPOINT_MAGIC_def
      ascii_def)

lemma replay_disk_stored: "stored table_hasher replay_disk 4 replay_parts []"
proof -
  have "list_segments replay_disk = [(4, 1), (4, 2)]"
    by (simp add: list_segments_def replay_disk_def List.map_filter_simps parse_segment_path)
  then have "incarnation_parts replay_disk 4 = Inr [(1, segment_path 4 1), (2, segment_path 4 2)]"
    by (simp add: incarnation_parts_def)
  moreover have "fs_read replay_disk (segment_path 4 (Suc 0)) = Inr (encode_records table_hasher (replay_parts ! 0))"
    "fs_read replay_disk (segment_path 4 2) = Inr (encode_records table_hasher (replay_parts ! 1))"
    by (simp_all add: fs_read_def replay_disk_def)
  moreover have "record_run 1 (concat replay_parts)"
    by (simp add: replay_parts_def record_ok_def replay_record_def MAX_PAYLOAD_LEN_def replay_lengths)
  moreover have "length replay_parts = 2" "Suc (length (concat replay_parts)) < 2 ^ 64"
    by (simp_all add: replay_parts_def)
  ultimately show ?thesis
    by (simp add: stored_def torn_tail_def upt_rec numeral_2_eq_2 less_Suc_eq)
qed

lemma replay_disk_incarnation: "last_option (list_incarnations replay_disk) = Some 4"
  by (simp add: list_incarnations_def list_segments_def replay_disk_def List.map_filter_simps
      parse_segment_path last_option_def)

lemma replay_disk_display:
  "display False [] (concat replay_parts) = ([], [97, 98, 99, 100, 101])"
  "honest_checkpoints False [] 0 (concat replay_parts)"
  "display False [] (hd replay_parts) = ([], [])"
  "resizes False [] 0 (concat replay_parts) = [\<lparr>lr_offset = 0, lr_rows = 24, lr_cols = 80\<rparr>]"
proof -
  have kinds: "rec_kind (replay_record k s b) = k" "rec_payload (replay_record k s b) = b" for k s b
    by (simp_all add: replay_record_def)
  have "decode_resize_payload (encode_resize_payload 24 80) = Some (24, 80)" by code_simp
  moreover have "\<not> anchors_record (replay_record Resize s b)" for s b by (simp add: anchors_record_def kinds)
  ultimately show "display False [] (concat replay_parts) = ([], [97, 98, 99, 100, 101])"
    "honest_checkpoints False [] 0 (concat replay_parts)"
    "display False [] (hd replay_parts) = ([], [])"
    "resizes False [] 0 (concat replay_parts) = [\<lparr>lr_offset = 0, lr_rows = 24, lr_cols = 80\<rparr>]"
    by (simp_all add: replay_parts_def kinds replay_chunks replay_anchor_record split: option.splits)
qed

lemma replay_disk_replayable: "replayable table_hasher False replay_disk 4 replay_parts []"
  by (simp add: replayable_def replay_disk_stored replay_disk_incarnation replay_disk_display u64_max_def)

lemma replay_parts_length: "length (concat replay_parts) < 5"
  by (simp add: replay_parts_def)

theorem filtered_stream_from_exact_witness:
  "filtered_stream_from 5 table_hasher no_base64 False 0 replay_disk 4 = Some (Inr ([101], 5))"
  using filtered_stream_from_exact [OF table_crc.crc_hasher_axioms replay_disk_replayable replay_parts_length,
      of no_base64 0 4]
  by (simp add: replay_disk_display)

theorem filtered_stream_window_exact_witness:
  "filtered_stream_window 5 table_hasher no_base64 False 0 replay_disk 1 3 = Some (Inr [98, 99, 100])"
  using filtered_stream_window_exact [OF table_crc.crc_hasher_axioms replay_disk_replayable replay_parts_length,
      of no_base64 0 1 3]
  by (simp add: replay_disk_display)

theorem resize_events_from_window_witness:
  "\<exists>before events after. resize_events_from 5 table_hasher no_base64 False 0 replay_disk 1 = Some (Inr events)
     \<and> [\<lparr>lr_offset = 0, lr_rows = 24, lr_cols = 80\<rparr>] = before @ events @ after
     \<and> list_all (\<lambda>x. lr_offset x \<le> 1) before
     \<and> list_all (\<lambda>x. 1 + MAX_RESIZE_EVENTS_SCAN_BYTES < lr_offset x) after"
proof -
  have "1 + MAX_RESIZE_EVENTS_SCAN_BYTES \<le> u64_max" by (simp add: MAX_RESIZE_EVENTS_SCAN_BYTES_def u64_max_def)
  from resize_events_from_window [OF table_crc.crc_hasher_axioms replay_disk_replayable replay_parts_length this,
      of no_base64 0]
  show ?thesis by (simp add: replay_disk_display)
qed

definition replay_anchor :: CheckpointAnchor where
  "replay_anchor = anchor_of 4 2 (frames_len (take 2 (replay_parts ! 1))) (replay_record CheckpointRef 3 replay_checkpoint)"

lemma replay_disk_anchors: "replay_anchors replay_disk = Inr [replay_anchor]"
proof -
  have plain: "\<not> anchors_record (replay_record Resize s b)" "\<not> anchors_record (replay_record Output s b)" for s b
    by (simp_all add: anchors_record_def replay_record_def)
  have "[0..<length replay_parts] = [0, 1]" by (simp add: replay_parts_def upt_rec)
  with table_crc.anchors_stored [OF replay_disk_stored] have "checkpoint_anchors replay_disk 4 = Inr [replay_anchor]"
    by (simp add: replay_parts_def plain replay_anchor_record replay_anchor_def frames_len_def Let_def
        numeral_2_eq_2 add_ac)
  moreover have "ca_filtered_offset replay_anchor = 3" by (simp add: replay_anchor_def replay_anchor_record)
  ultimately show ?thesis
    by (simp add: replay_anchors_def latest_incarnation_def replay_disk_incarnation)
qed

theorem replay_from_anchor_exact_witness:
  "\<exists>n. filtered_stream_and_resizes_from_anchor 5 table_hasher no_base64 False 0 replay_disk 1 (Some replay_anchor)
     = Some (Inr ([100, 101], 5, drop n [\<lparr>lr_offset = 0, lr_rows = 24, lr_cols = 80\<rparr>], 3))"
proof -
  let ?y = "replay_anchor\<lparr>ca_cursor := \<lparr>jc_incarnation = 3, jc_seq = 1\<rparr>\<rparr>"
  have "replay_anchor \<in> set [replay_anchor]" "jc_incarnation (ca_cursor ?y) \<noteq> 4"
    "ca_filtered_offset replay_anchor = 3"
    by (simp_all add: replay_anchor_def replay_anchor_record)
  with replay_from_anchor_exact [OF table_crc.crc_hasher_axioms replay_disk_replayable replay_parts_length
      replay_disk_anchors this(1,2), of no_base64 0 1]
  show ?thesis by (auto simp: replay_disk_display)
qed

theorem reader_reports_early_end_witness:
  "\<exists>rd rd'. ReplayReader_new replay_disk = Inr rd
     \<and> reader_read table_hasher no_base64 False 0 replay_disk 10 rd = (Inr [], rd') \<and> \<not> rp_done rd'"
proof -
  have parts: "replay_parts = hd replay_parts # tl replay_parts" "hd replay_parts \<noteq> []"
    by (simp_all add: replay_parts_def)
  from reader_reports_early_end [OF table_crc.crc_hasher_axioms
      replay_disk_replayable [unfolded arg_cong [OF parts(1), of "\<lambda>x. replayable table_hasher False replay_disk 4 x []"]]
      parts(2)] replay_disk_display(3)
  show ?thesis by simp
qed

end
