(* ===== verification/Session_Registry.thy ===== *)
theory Session_Registry
  imports Text_Bytes "HOL-Library.AList"
begin

text \<open>
  Attachments of a session (\<open>src/session/registry.rs\<close>) and the resize subscription with self-echo
  suppression (\<open>src/session/resize.rs\<close>). The hash map from ids to attachments is an association list
  with distinct keys; \<open>connected_at\<close> is a clock reading, an argument of \<open>register\<close>. The cell that
  an attachment shares with its output pump is the number it holds.
\<close>

section \<open>Roles\<close>

datatype AttachKind = Cli | Web

datatype AttachRole = Observer | Controller

text \<open>\<open>dbg\<close> renders a string as \<open>{:?}\<close> does.\<close>

definition AttachRole_parse :: "(bytes \<Rightarrow> bytes) \<Rightarrow> bytes option \<Rightarrow> bytes + AttachRole" where
  "AttachRole_parse dbg role =
     (case role of
        None \<Rightarrow> Inr Controller
      | Some r \<Rightarrow>
          if r = ascii ''controller'' \<or> r = ascii ''control'' then Inr Controller
          else if r = ascii ''observe'' \<or> r = ascii ''observer'' then Inr Observer
          else Inl (ascii ''invalid attach mode '' @ dbg r @ ascii '': expected observe|controller''))"

fun AttachRole_as_str :: "AttachRole \<Rightarrow> bytes" where
  "AttachRole_as_str Observer = ascii ''observer''"
| "AttachRole_as_str Controller = ascii ''controller''"

section \<open>The registry\<close>

record Attachment =
  at_id :: nat
  at_kind :: AttachKind
  at_role :: AttachRole
  at_connected_at :: nat
  at_viewport :: "(nat \<times> nat) option"
  at_applied_cursor :: nat

record AttachmentRegistry =
  rg_next_id :: nat
  rg_attachments :: "(nat \<times> Attachment) list"

definition AttachmentRegistry_default :: AttachmentRegistry where
  "AttachmentRegistry_default = \<lparr>rg_next_id = 0, rg_attachments = []\<rparr>"

definition register ::
  "nat \<Rightarrow> AttachKind \<Rightarrow> AttachRole \<Rightarrow> (nat \<times> nat) option \<Rightarrow> AttachmentRegistry
     \<Rightarrow> (nat \<times> AttachRole) \<times> AttachmentRegistry" where
  "register now kind role viewport g =
     (let i = u64_add (rg_next_id g) 1;
          a = \<lparr>at_id = i, at_kind = kind, at_role = role, at_connected_at = now, at_viewport = viewport,
               at_applied_cursor = 0\<rparr>
      in ((i, role), g\<lparr>rg_next_id := i, rg_attachments := AList.update i a (rg_attachments g)\<rparr>))"

definition unregister :: "nat \<Rightarrow> AttachmentRegistry \<Rightarrow> Attachment option \<times> AttachmentRegistry" where
  "unregister i g =
     (map_of (rg_attachments g) i, g\<lparr>rg_attachments := AList.delete i (rg_attachments g)\<rparr>)"

definition can_control :: "AttachmentRegistry \<Rightarrow> nat \<Rightarrow> bool" where
  "can_control g i = (case map_of (rg_attachments g) i of Some a \<Rightarrow> at_role a = Controller | None \<Rightarrow> False)"

definition contains :: "AttachmentRegistry \<Rightarrow> nat \<Rightarrow> bool" where
  "contains g i \<longleftrightarrow> map_of (rg_attachments g) i \<noteq> None"

text \<open>\<open>get_mut(&id)\<close> and an update of what it returns.\<close>

definition modify_attachment :: "nat \<Rightarrow> (Attachment \<Rightarrow> Attachment) \<Rightarrow> AttachmentRegistry \<Rightarrow> AttachmentRegistry" where
  "modify_attachment i f g =
     (case map_of (rg_attachments g) i of
        Some a \<Rightarrow> g\<lparr>rg_attachments := AList.update i (f a) (rg_attachments g)\<rparr>
      | None \<Rightarrow> g)"

definition report_applied :: "nat \<Rightarrow> nat \<Rightarrow> AttachmentRegistry \<Rightarrow> AttachmentRegistry" where
  "report_applied i cursor =
     modify_attachment i (\<lambda>a. a\<lparr>at_applied_cursor := max (at_applied_cursor a) cursor\<rparr>)"

definition credit_cell :: "AttachmentRegistry \<Rightarrow> nat \<Rightarrow> nat option" where
  "credit_cell g i = map_option at_applied_cursor (map_of (rg_attachments g) i)"

definition set_viewport :: "nat \<Rightarrow> nat \<Rightarrow> nat \<Rightarrow> AttachmentRegistry \<Rightarrow> AttachmentRegistry" where
  "set_viewport i rows cols = modify_attachment i (\<lambda>a. a\<lparr>at_viewport := Some (rows, cols)\<rparr>)"

definition registry_len :: "AttachmentRegistry \<Rightarrow> nat" where
  "registry_len g = length (rg_attachments g)"

definition registry_is_empty :: "AttachmentRegistry \<Rightarrow> bool" where
  "registry_is_empty g \<longleftrightarrow> rg_attachments g = []"

section \<open>Fencing\<close>

text \<open>Ids are handed out once: every id in the registry is at most the counter, and belongs to the
  attachment stored under it.\<close>

definition registry_inv :: "AttachmentRegistry \<Rightarrow> bool" where
  "registry_inv g \<longleftrightarrow> distinct (map fst (rg_attachments g))
     \<and> list_all (\<lambda>(i, a). at_id a = i \<and> 0 < i \<and> i \<le> rg_next_id g) (rg_attachments g)"

datatype registry_op =
  Register nat AttachKind AttachRole "(nat \<times> nat) option"
  | Unregister nat
  | ReportApplied nat nat
  | SetViewport nat nat nat

fun registry_apply :: "registry_op \<Rightarrow> AttachmentRegistry \<Rightarrow> AttachmentRegistry" where
  "registry_apply (Register now kind role viewport) g = snd (register now kind role viewport g)"
| "registry_apply (Unregister i) g = snd (unregister i g)"
| "registry_apply (ReportApplied i cursor) g = report_applied i cursor g"
| "registry_apply (SetViewport i rows cols) g = set_viewport i rows cols g"

lemma update_elem: "x \<in> set (AList.update k v xs) \<Longrightarrow> x = (k, v) \<or> x \<in> set xs"
  by (induction xs) (auto split: if_splits)

lemma inv_update:
  assumes "registry_inv g" and "at_id a = i" and "0 < i" and "i \<le> n" and "rg_next_id g \<le> n"
  shows "registry_inv (g\<lparr>rg_next_id := n, rg_attachments := AList.update i a (rg_attachments g)\<rparr>)"
  using assms by (fastforce simp: registry_inv_def list_all_iff distinct_update dest!: update_elem)

lemma inv_modify:
  assumes "registry_inv g" and "\<And>a. at_id (f a) = at_id a"
  shows "registry_inv (modify_attachment i f g)"
proof (cases "map_of (rg_attachments g) i")
  case None
  with assms show ?thesis by (simp add: modify_attachment_def)
next
  case (Some a)
  then have a: "(i, a) \<in> set (rg_attachments g)" by (rule map_of_SomeD)
  with assms(1) have "at_id a = i" "0 < i" "i \<le> rg_next_id g"
    by (auto simp: registry_inv_def list_all_iff)
  with inv_update [OF assms(1), of "f a" i "rg_next_id g"] assms(2) Some show ?thesis
    by (simp add: modify_attachment_def)
qed

lemma registry_inv_apply:
  assumes "registry_inv g" and "Suc (rg_next_id g) < 2 ^ 64"
  shows "registry_inv (registry_apply op g) \<and> rg_next_id g \<le> rg_next_id (registry_apply op g)
     \<and> rg_next_id (registry_apply op g) \<le> Suc (rg_next_id g)"
proof (cases op)
  case (Register now kind role viewport)
  have "u64_add (rg_next_id g) 1 = Suc (rg_next_id g)" using assms(2) by (simp add: u64_add_def)
  with Register inv_update [OF assms(1)] show ?thesis by (simp add: register_def Let_def)
next
  case (Unregister i)
  with assms(1) show ?thesis
    by (auto simp: unregister_def registry_inv_def list_all_iff AList.delete_eq distinct_map_filter)
next
  case (ReportApplied i cursor)
  then show ?thesis using inv_modify [OF assms(1)] by (simp add: report_applied_def modify_attachment_def split: option.splits)
next
  case (SetViewport i rows cols)
  then show ?thesis using inv_modify [OF assms(1)] by (simp add: set_viewport_def modify_attachment_def split: option.splits)
qed

text \<open>What an operation keeps of an id that was handed out before it.\<close>

definition keeps_attachment :: "nat \<Rightarrow> AttachmentRegistry \<Rightarrow> AttachmentRegistry \<Rightarrow> bool" where
  "keeps_attachment i g g' \<longleftrightarrow>
     (case (map_of (rg_attachments g) i, map_of (rg_attachments g') i) of
        (Some a, Some b) \<Rightarrow> at_role b = at_role a \<and> at_kind b = at_kind a
                            \<and> at_applied_cursor a \<le> at_applied_cursor b
      | (None, Some b) \<Rightarrow> False
      | _ \<Rightarrow> True)"

lemma keeps_attachment_refl [simp]: "keeps_attachment i g g"
  by (simp add: keeps_attachment_def split: option.splits)

lemma keeps_attachment_trans:
  "keeps_attachment i g g1 \<Longrightarrow> keeps_attachment i g1 g2 \<Longrightarrow> keeps_attachment i g g2"
  by (auto simp: keeps_attachment_def split: option.splits)

lemma registry_apply_keeps:
  assumes "Suc (rg_next_id g) < 2 ^ 64" and "i \<le> rg_next_id g"
  shows "keeps_attachment i g (registry_apply op g)"
proof (cases op)
  case (Register now kind role viewport)
  have "u64_add (rg_next_id g) 1 \<noteq> i" using assms by (simp add: u64_add_def)
  with Register show ?thesis
    by (auto simp: register_def Let_def keeps_attachment_def update_conv' split: option.splits)
next
  case (Unregister j)
  then show ?thesis by (auto simp: unregister_def keeps_attachment_def delete_conv' split: option.splits)
next
  case (ReportApplied j cursor)
  then show ?thesis
    by (auto simp: report_applied_def modify_attachment_def keeps_attachment_def update_conv' split: option.splits)
next
  case (SetViewport j rows cols)
  then show ?thesis
    by (auto simp: set_viewport_def modify_attachment_def keeps_attachment_def update_conv' split: option.splits)
qed

lemma registry_run:
  "registry_inv g \<Longrightarrow> rg_next_id g + length ops < 2 ^ 64 - 1 \<Longrightarrow>
     registry_inv (foldl (\<lambda>g op. registry_apply op g) g ops)
     \<and> (i \<le> rg_next_id g \<longrightarrow> keeps_attachment i g (foldl (\<lambda>g op. registry_apply op g) g ops))"
proof (induction ops arbitrary: g)
  case Nil
  then show ?case by simp
next
  case (Cons op ops)
  then have fits: "Suc (rg_next_id g) < 2 ^ 64" by simp
  note one = registry_inv_apply [OF Cons.prems(1) fits, of op]
  then have "registry_inv (registry_apply op g)" "rg_next_id (registry_apply op g) + length ops < 2 ^ 64 - 1"
    using Cons.prems(2) by auto
  from Cons.IH [OF this] one registry_apply_keeps [OF fits, of i op] show ?case
    by (auto intro: keeps_attachment_trans)
qed

text \<open>C37. Attachment ids fence: over any sequence of registry operations, an id that was handed out
  and is no longer registered never becomes valid again, an attachment keeps the role it was
  registered with, and its credit cursor never moves backwards.\<close>

theorem attachment_ids_fence:
  assumes "registry_inv g" and "rg_next_id g + length ops < 2 ^ 64 - 1" and "i \<le> rg_next_id g"
    and "contains (foldl (\<lambda>g op. registry_apply op g) g ops) i"
  shows "contains g i
     \<and> can_control (foldl (\<lambda>g op. registry_apply op g) g ops) i = can_control g i
     \<and> the (credit_cell g i) \<le> the (credit_cell (foldl (\<lambda>g op. registry_apply op g) g ops) i)"
  using registry_run [OF assms(1,2), of i] assms(3,4)
  by (auto simp: contains_def can_control_def credit_cell_def keeps_attachment_def split: option.splits)

section \<open>Resize subscriptions\<close>

text \<open>What a broadcast receiver yields: a value, a notice that it lagged, or the end.\<close>

datatype resize_event = Resized nat nat | Lagged nat | ChannelClosed

text \<open>\<open>rs_open\<close>: the receiver is still there (\<open>rx.is_some()\<close>).\<close>

record ResizeSubscriber =
  rs_open :: bool
  rs_last_self_resize :: "(nat \<times> nat) option"

definition ResizeSubscriber_new :: "bool \<Rightarrow> ResizeSubscriber" where
  "ResizeSubscriber_new found = \<lparr>rs_open = found, rs_last_self_resize = None\<rparr>"

definition mark_sent :: "nat \<Rightarrow> nat \<Rightarrow> ResizeSubscriber \<Rightarrow> ResizeSubscriber" where
  "mark_sent rows cols rs = rs\<lparr>rs_last_self_resize := Some (rows, cols)\<rparr>"

text \<open>\<open>recv_foreign\<close> over the events still to come: what it returns, the events left, the
  subscriber. \<open>None\<close> when it is still waiting for the next event.\<close>

fun recv_foreign ::
  "resize_event list \<Rightarrow> ResizeSubscriber \<Rightarrow> ((nat \<times> nat) option \<times> resize_event list) option \<times> ResizeSubscriber" where
  "recv_foreign evs rs =
     (if \<not> rs_open rs then (Some (None, evs), rs)
      else case evs of
        [] \<Rightarrow> (None, rs)
      | Resized rows cols # evs' \<Rightarrow>
          if rs_last_self_resize rs = Some (rows, cols)
          then recv_foreign evs' (rs\<lparr>rs_last_self_resize := None\<rparr>)
          else (Some (Some (rows, cols), evs'), rs)
      | Lagged n # evs' \<Rightarrow> recv_foreign evs' rs
      | ChannelClosed # evs' \<Rightarrow> (Some (None, evs'), rs\<lparr>rs_open := False\<rparr>))"

declare recv_foreign.simps [simp del]

text \<open>The resizes among the events.\<close>

fun resized :: "resize_event list \<Rightarrow> (nat \<times> nat) list" where
  "resized [] = []"
| "resized (Resized r c # evs) = (r, c) # resized evs"
| "resized (ChannelClosed # evs) = []"
| "resized (_ # evs) = resized evs"

text \<open>One call skips at most its own last resize, and nothing else.\<close>

lemma recv_foreign_spec:
  assumes "recv_foreign evs rs = (Some (Some geom, evs'), rs')" and "rs_open rs"
  shows "resized evs = geom # resized evs' \<and> rs' = rs
     \<or> (\<exists>own. rs_last_self_resize rs = Some own \<and> resized evs = own # geom # resized evs'
          \<and> rs' = rs\<lparr>rs_last_self_resize := None\<rparr>)"
  using assms
proof (induction evs arbitrary: rs)
  case Nil
  then show ?case by (simp add: recv_foreign.simps [of "[]"])
next
  case (Cons ev evs)
  show ?case
  proof (cases ev)
    case (Resized r c)
    show ?thesis
    proof (cases "rs_last_self_resize rs = Some (r, c)")
      case True
      with Cons.prems Resized have "recv_foreign evs (rs\<lparr>rs_last_self_resize := None\<rparr>) = (Some (Some geom, evs'), rs')"
        by (simp add: recv_foreign.simps [of "_ # _"])
      from Cons.IH [OF this] Cons.prems(2) True Resized show ?thesis by auto
    next
      case False
      with Cons.prems Resized show ?thesis by (simp add: recv_foreign.simps [of "_ # _"])
    qed
  next
    case (Lagged n)
    with Cons.prems have "recv_foreign evs rs = (Some (Some geom, evs'), rs')"
      by (simp add: recv_foreign.simps [of "_ # _"])
    from Cons.IH [OF this Cons.prems(2)] Lagged show ?thesis by simp
  next
    case ChannelClosed
    with Cons.prems show ?thesis by (simp add: recv_foreign.simps [of "_ # _"])
  qed
qed

subsection \<open>Concrete instances\<close>

theorem attachment_ids_fence_witness:
  "contains (snd (register 7 Cli Observer None AttachmentRegistry_default)) 1
     \<and> can_control (foldl (\<lambda>g op. registry_apply op g) (snd (register 7 Cli Observer None AttachmentRegistry_default))
          [ReportApplied 1 9]) 1
       = can_control (snd (register 7 Cli Observer None AttachmentRegistry_default)) 1"
proof -
  let ?g = "snd (register 7 Cli Observer None AttachmentRegistry_default)"
  have g: "?g = \<lparr>rg_next_id = 1, rg_attachments = [(1, \<lparr>at_id = 1, at_kind = Cli, at_role = Observer,
      at_connected_at = 7, at_viewport = None, at_applied_cursor = 0\<rparr>)]\<rparr>"
    by (simp add: register_def AttachmentRegistry_default_def u64_add_def)
  have "registry_inv ?g" "rg_next_id ?g + length [ReportApplied 1 9] < 2 ^ 64 - 1" "1 \<le> rg_next_id ?g"
    "contains (foldl (\<lambda>g op. registry_apply op g) ?g [ReportApplied 1 9]) 1"
    unfolding g by (simp_all add: registry_inv_def report_applied_def modify_attachment_def contains_def)
  from attachment_ids_fence [OF this] show ?thesis by blast
qed

end
