(* ===== verification/Session_Model.thy ===== *)
theory Session_Model
  imports Text_Bytes
begin

text \<open>
  The session's metadata (\<open>src/session/mod.rs\<close>): its status, and how titles and tags given by a
  user are normalised and checked. Strings are valid UTF-8; \<open>str_trim\<close> is \<open>str::trim\<close> and
  \<open>from_utf8_lossy\<close> is \<open>String::from_utf8_lossy\<close>.
\<close>

section \<open>Unicode strings\<close>

text \<open>\<open>char::is_whitespace\<close>: the code points with the property \<open>White_Space\<close>.\<close>

definition is_whitespace :: "bytes \<Rightarrow> bool" where
  "is_whitespace c \<longleftrightarrow>
     (let n = utf8_code c in
      9 \<le> n \<and> n \<le> 13 \<or> n \<in> set [0x20, 0x85, 0xa0, 0x1680, 0x2028, 0x2029, 0x202f, 0x205f, 0x3000]
      \<or> 0x2000 \<le> n \<and> n \<le> 0x200a)"

definition trim_chars :: "bytes list \<Rightarrow> bytes list" where
  "trim_chars cs = rev (dropWhile is_whitespace (rev (dropWhile is_whitespace cs)))"

definition str_trim :: "bytes \<Rightarrow> bytes" where
  "str_trim s = concat (trim_chars (utf8_chars s))"

definition to_ascii_lowercase :: "bytes \<Rightarrow> bytes" where
  "to_ascii_lowercase s = map (\<lambda>b. if is_ascii_uppercase b then b + 32 else b) s"

text \<open>The next character of a byte string that need not be valid: whether it is one, and how many
  bytes it or the invalid sequence takes.\<close>

definition lossy_step :: "byte \<Rightarrow> bytes \<Rightarrow> bool \<times> nat" where
  "lossy_step b bs =
     (let n = unat b;
          c1 = (case bs of c # _ \<Rightarrow> utf8_cont c \<and> (n = 224 \<longrightarrow> 160 \<le> unat c) \<and> (n = 237 \<longrightarrow> unat c \<le> 159)
                                   \<and> (n = 240 \<longrightarrow> 144 \<le> unat c) \<and> (n = 244 \<longrightarrow> unat c \<le> 143)
                | [] \<Rightarrow> False);
          c2 = (case bs of _ # c # _ \<Rightarrow> utf8_cont c | _ \<Rightarrow> False);
          c3 = (case bs of _ # _ # c # _ \<Rightarrow> utf8_cont c | _ \<Rightarrow> False)
      in if n < 128 then (True, 1)
         else if 194 \<le> n \<and> n \<le> 223 then if c1 then (True, 2) else (False, 1)
         else if 224 \<le> n \<and> n \<le> 239 then
           if \<not> c1 then (False, 1) else if \<not> c2 then (False, 2) else (True, 3)
         else if 240 \<le> n \<and> n \<le> 244 then
           if \<not> c1 then (False, 1) else if \<not> c2 then (False, 2) else if \<not> c3 then (False, 3) else (True, 4)
         else (False, 1))"

definition REPLACEMENT_CHARACTER :: bytes where
  "REPLACEMENT_CHARACTER = [0xef, 0xbf, 0xbd]"

lemma lossy_step_pos: "0 < snd (lossy_step b bs)"
  by (simp add: lossy_step_def Let_def)

function lossy_chars :: "bytes \<Rightarrow> bytes list" where
  "lossy_chars [] = []"
| "lossy_chars (b # bs) =
     (case lossy_step b bs of (ok, n) \<Rightarrow>
        (if ok then take n (b # bs) else REPLACEMENT_CHARACTER) # lossy_chars (drop n (b # bs)))"
  by pat_completeness auto
termination
proof (relation "measure length", goal_cases)
  case (2 b bs ok n)
  then have "0 < n" using lossy_step_pos [of b bs] by (metis snd_conv)
  then show ?case by simp
qed simp

definition from_utf8_lossy :: "bytes \<Rightarrow> bytes" where
  "from_utf8_lossy bs = concat (lossy_chars bs)"

section \<open>Status and metadata\<close>

datatype SessionStatus = StCreated | StRunning | StStopping | StStopped | StKilled | StFailed

fun SessionStatus_as_str :: "SessionStatus \<Rightarrow> bytes" where
  "SessionStatus_as_str StCreated = ascii ''created''"
| "SessionStatus_as_str StRunning = ascii ''running''"
| "SessionStatus_as_str StStopping = ascii ''stopping''"
| "SessionStatus_as_str StStopped = ascii ''stopped''"
| "SessionStatus_as_str StKilled = ascii ''killed''"
| "SessionStatus_as_str StFailed = ascii ''failed''"

datatype SessionError =
    Evicted | NotRunning | Busy | InvalidInput bytes | Persistence bytes
  | StaleCursor "nat option" "nat option" | ViewOnly | StaleAttachment | InternalError bytes

definition MAX_SESSION_TITLE_LEN :: nat where
  "MAX_SESSION_TITLE_LEN = 256"

definition normalize_session_title :: "bytes option \<Rightarrow> bytes option" where
  "normalize_session_title title =
     (case title of
        None \<Rightarrow> None
      | Some v \<Rightarrow> let trimmed = str_trim v in if trimmed = [] then None else Some trimmed)"

text \<open>The loop: the keys seen so far and the tags kept.\<close>

definition tag_step :: "bytes set \<times> bytes list \<Rightarrow> bytes \<Rightarrow> bytes set \<times> bytes list" where
  "tag_step st tag =
     (case st of (seen, normalized) \<Rightarrow>
        let trimmed = str_trim tag; key = to_ascii_lowercase trimmed in
        if trimmed = [] then st
        else if key \<in> seen then st
        else (insert key seen, normalized @ [trimmed]))"

definition normalize_session_tags :: "bytes list \<Rightarrow> bytes list" where
  "normalize_session_tags tags = snd (foldl tag_step ({}, []) tags)"

datatype title_error = TitleTooLong

definition validate_normalized_session_title :: "bytes option \<Rightarrow> title_error + bytes option" where
  "validate_normalized_session_title title =
     (case title of
        Some t \<Rightarrow> if MAX_SESSION_TITLE_LEN < length (utf8_chars t) then Inl TitleTooLong else Inr title
      | None \<Rightarrow> Inr title)"

definition validate_session_metadata ::
  "bytes option \<Rightarrow> bytes list \<Rightarrow> title_error + (bytes option \<times> bytes list)" where
  "validate_session_metadata title tags =
     (case validate_normalized_session_title (normalize_session_title title) of
        Inl err \<Rightarrow> Inl err
      | Inr t \<Rightarrow> Inr (t, normalize_session_tags tags))"

definition validate_session_metadata_update ::
  "bytes option \<Rightarrow> bytes list option \<Rightarrow> title_error + (bytes option \<times> bytes list option)" where
  "validate_session_metadata_update title tags =
     (case validate_normalized_session_title (normalize_session_title title) of
        Inl err \<Rightarrow> Inl err
      | Inr t \<Rightarrow> Inr (t, map_option normalize_session_tags tags))"

section \<open>Normal forms\<close>

lemma trim_chars_subset: "set (trim_chars cs) \<subseteq> set cs"
  unfolding trim_chars_def by (metis set_dropWhileD set_rev subsetI)

lemma trim_chars_idem [simp]: "trim_chars (trim_chars cs) = trim_chars cs"
proof -
  let ?d = "dropWhile is_whitespace cs"
  let ?e = "rev (dropWhile is_whitespace (rev ?d))"
  have "dropWhile is_whitespace ?e = ?e"
  proof (cases ?e)
    case Nil
    show ?thesis unfolding Nil by simp
  next
    case (Cons c r)
    then have "?d = c # r @ rev (takeWhile is_whitespace (rev ?d))"
      by (metis append_Cons rev_append rev_rev_ident takeWhile_dropWhile_id)
    then have "\<not> is_whitespace c" by (metis dropWhile_eq_Cons_conv)
    with Cons show ?thesis by simp
  qed
  then show ?thesis by (simp add: trim_chars_def dropWhile_idem)
qed

lemma str_trim_chars:
  assumes "utf8_valid s"
  shows "utf8_chars (str_trim s) = trim_chars (utf8_chars s)" and "utf8_valid (str_trim s)"
proof -
  have ok: "\<forall>c \<in> set (trim_chars (utf8_chars s)). char_ok c \<and> utf8_valid c"
    using utf8_chars_ok [OF assms] trim_chars_subset by blast
  then show "utf8_chars (str_trim s) = trim_chars (utf8_chars s)"
    unfolding str_trim_def by (simp add: utf8_chars_concat)
  from ok show "utf8_valid (str_trim s)" unfolding str_trim_def by (simp add: utf8_valid_concat)
qed

lemma str_trim_idem: "utf8_valid s \<Longrightarrow> str_trim (str_trim s) = str_trim s"
  using str_trim_chars(1) [of s] by (simp add: str_trim_def [of "str_trim s"]) (simp add: str_trim_def)

text \<open>A tag list in normal form: trimmed, without empty tags, no two equal up to ASCII case.\<close>

definition tags_normal :: "bytes list \<Rightarrow> bool" where
  "tags_normal ts \<longleftrightarrow> (\<forall>t \<in> set ts. t \<noteq> [] \<and> str_trim t = t) \<and> distinct (map to_ascii_lowercase ts)"

lemma tag_steps:
  assumes "\<forall>t \<in> set tags. utf8_valid t" and "seen = to_ascii_lowercase ` set ts" and "tags_normal ts"
  shows "\<exists>new. foldl tag_step (seen, ts) tags = (to_ascii_lowercase ` set (ts @ new), ts @ new)
     \<and> tags_normal (ts @ new)"
  using assms
proof (induction tags arbitrary: seen ts)
  case Nil
  then show ?case by (intro exI [of _ "[]"]) simp
next
  case (Cons t tags)
  let ?t = "str_trim t"
  show ?case
  proof (cases "?t = [] \<or> to_ascii_lowercase ?t \<in> seen")
    case True
    then have "foldl tag_step (seen, ts) (t # tags) = foldl tag_step (seen, ts) tags"
      by (auto simp: tag_step_def Let_def)
    with Cons show ?thesis by simp
  next
    case False
    have "tags_normal (ts @ [?t])"
      using Cons.prems False str_trim_idem [of t] by (auto simp: tags_normal_def)
    moreover have "foldl tag_step (seen, ts) (t # tags)
        = foldl tag_step (to_ascii_lowercase ` set (ts @ [?t]), ts @ [?t]) tags"
      using False Cons.prems(2) by (simp add: tag_step_def Let_def)
    ultimately show ?thesis
      using Cons.IH [of _ "ts @ [?t]", OF _ refl] Cons.prems(1) by fastforce
  qed
qed

lemma tag_steps_normal:
  "tags_normal (ts @ tags) \<Longrightarrow>
     foldl tag_step (to_ascii_lowercase ` set ts, ts) tags = (to_ascii_lowercase ` set (ts @ tags), ts @ tags)"
proof (induction tags arbitrary: ts)
  case (Cons t tags)
  then have "t \<noteq> []" "str_trim t = t" "to_ascii_lowercase t \<notin> to_ascii_lowercase ` set ts"
    by (auto simp: tags_normal_def)
  with Cons.IH [of "ts @ [t]"] Cons.prems show ?case by (simp add: tag_step_def)
qed simp

lemma normalize_tags_normal: "\<forall>t \<in> set tags. utf8_valid t \<Longrightarrow> tags_normal (normalize_session_tags tags)"
  using tag_steps [of tags "{}" "[]"] by (auto simp: normalize_session_tags_def tags_normal_def)

lemma normalize_tags_fix: "tags_normal tags \<Longrightarrow> normalize_session_tags tags = tags"
  using tag_steps_normal [of "[]" tags] by (simp add: normalize_session_tags_def)

text \<open>Validated metadata is in normal form, and validating it again changes nothing: a title is
  trimmed, not empty and at most 256 characters; tags are trimmed, not empty and pairwise
  different up to ASCII case.\<close>

theorem validated_metadata_is_normal:
  assumes "list_all utf8_valid tags" and "pred_option utf8_valid title"
    and "validate_session_metadata title tags = Inr (t, ts)"
  shows "validate_session_metadata t ts = Inr (t, ts) \<and> tags_normal ts
     \<and> (\<forall>x. t = Some x \<longrightarrow> x \<noteq> [] \<and> str_trim x = x \<and> length (utf8_chars x) \<le> MAX_SESSION_TITLE_LEN)"
proof -
  from assms(3) have t: "t = normalize_session_title title" "ts = normalize_session_tags tags"
    and short: "\<And>x. t = Some x \<Longrightarrow> length (utf8_chars x) \<le> MAX_SESSION_TITLE_LEN"
    by (auto simp: validate_session_metadata_def validate_normalized_session_title_def
        split: sum.splits option.splits if_splits)
  have tags: "tags_normal ts" using normalize_tags_normal [of tags] assms(1) t(2) by (simp add: list_all_iff)
  have title: "x \<noteq> [] \<and> str_trim x = x" if "t = Some x" for x
    using that assms(2) str_trim_idem unfolding t(1)
    by (auto simp: normalize_session_title_def Let_def split: option.splits if_splits)
  have "normalize_session_title t = t"
    using title by (auto simp: normalize_session_title_def Let_def split: option.splits)
  with short have "validate_session_metadata t ts = Inr (t, ts)"
    by (auto simp: validate_session_metadata_def validate_normalized_session_title_def normalize_tags_fix [OF tags]
        not_less split: option.splits)
  with tags title short show ?thesis by blast
qed

theorem validated_metadata_is_normal_witness:
  "validate_session_metadata (Some [97]) [[98]] = Inr (Some [97], [[98]])"
proof -
  have v: "validate_session_metadata (Some [32, 97]) [[98], [32, 66], []] = Inr (Some [97], [[98]])"
    by (simp add: validate_session_metadata_def validate_normalized_session_title_def normalize_session_title_def
        normalize_session_tags_def tag_step_def str_trim_def trim_chars_def is_whitespace_def utf8_code_def
        utf8_len_def to_ascii_lowercase_def is_ascii_uppercase_def MAX_SESSION_TITLE_LEN_def Let_def)
  have "list_all utf8_valid [[98], [32, 66], []]" "pred_option utf8_valid (Some [32, 97])" by simp_all
  from validated_metadata_is_normal [OF this v] show ?thesis by blast
qed

end
