(* ===== verification/Journal_Appender.thy ===== *)
theory Journal_Appender
  imports Journal_Manifest Journal_Sequencer
begin

text \<open>
  The journal appender thread (\<open>RollingSegmentWriter\<close> and \<open>appender_loop\<close> of
  \<open>src/session/journal/appender.rs\<close>): the only owner of the active segment part. It appends
  records in sequence order, rolls over to a new part when the active one is full, seals the
  finished part into the manifest, syncs in groups and acknowledges progress.
\<close>

section \<open>Rolling segment writer\<close>

record 'h RollingSegmentWriter =
  rw_incarnation :: nat
  rw_part :: nat
  rw_writer :: SegmentWriter
  rw_part_bytes :: nat
  rw_max_part_bytes :: nat
  rw_first_seq :: "nat option"
  rw_last_seq :: nat
  rw_crc :: 'h

definition RollingSegmentWriter_new ::
  "'h hasher \<Rightarrow> nat \<Rightarrow> SegmentWriter \<Rightarrow> nat \<Rightarrow> 'h RollingSegmentWriter" where
  "RollingSegmentWriter_new H incarnation writer max_part_bytes =
     \<lparr>rw_incarnation = incarnation, rw_part = 1, rw_writer = writer, rw_part_bytes = 0,
      rw_max_part_bytes = max_part_bytes, rw_first_seq = None, rw_last_seq = 0,
      rw_crc = Crc32_new H\<rparr>"

text \<open>
  When a step fails the appender is dead and never uses the writer again, so the model returns
  no writer with an error.
\<close>

definition seal_part :: "'h hasher \<Rightarrow> 'h RollingSegmentWriter \<Rightarrow> 'h RollingSegmentWriter io" where
  "seal_part H w =
     (case rw_first_seq w of
        None \<Rightarrow> io_return w
      | Some first_seq \<Rightarrow>
          let entry = \<lparr>me_incarnation = rw_incarnation w, me_part = rw_part w,
                       me_first_seq = first_seq, me_last_seq = rw_last_seq w,
                       me_bytes = rw_part_bytes w, me_crc32 = Crc32_finish H (rw_crc w)\<rparr>
          in io_bind (SegmentWriter_sync (rw_writer w)) (\<lambda>_.
             io_bind (SegmentManifestEntry_append_to entry) (\<lambda>_.
             io_bind sync_dir (\<lambda>_.
             io_return (w\<lparr>rw_first_seq := None, rw_crc := Crc32_new H\<rparr>)))))"

definition roll_over :: "'h hasher \<Rightarrow> 'h RollingSegmentWriter \<Rightarrow> 'h RollingSegmentWriter io" where
  "roll_over H w =
     io_bind (seal_part H w) (\<lambda>w1.
     io_bind (SegmentWriter_create (segment_path (rw_incarnation w1) (rw_part w1 + 1))) (\<lambda>sw.
     io_bind sync_dir (\<lambda>_.
     io_return (w1\<lparr>rw_part := rw_part w1 + 1, rw_writer := sw, rw_part_bytes := 0\<rparr>))))"

text \<open>The bookkeeping of a record whose bytes were written.\<close>

definition note_appended ::
  "'h hasher \<Rightarrow> 'h RollingSegmentWriter \<Rightarrow> nat \<Rightarrow> bytes \<Rightarrow> bytes \<Rightarrow> SegmentWriter
     \<Rightarrow> 'h RollingSegmentWriter" where
  "note_appended H w seq header payload sw =
     w\<lparr>rw_writer := sw,
       rw_crc := Crc32_update H (Crc32_update H (rw_crc w) header) payload,
       rw_first_seq := (if rw_first_seq w = None then Some seq else rw_first_seq w),
       rw_last_seq := seq,
       rw_part_bytes := rw_part_bytes w + (HEADER_LEN + length payload)\<rparr>"

definition rolling_append ::
  "'h hasher \<Rightarrow> 'h RollingSegmentWriter \<Rightarrow> RecordKind \<Rightarrow> nat \<Rightarrow> nat \<Rightarrow> bytes
     \<Rightarrow> 'h RollingSegmentWriter io" where
  "rolling_append H w kind seq elapsed_ms payload =
     (let record_bytes = HEADER_LEN + length payload in
      io_bind (if 0 < rw_part_bytes w \<and> rw_max_part_bytes w < rw_part_bytes w + record_bytes
               then roll_over H w else io_return w) (\<lambda>w1.
      let header = encode_record_header H kind seq elapsed_ms payload
      in io_bind (write_encoded (rw_writer w1) header payload) (\<lambda>sw.
         io_return (note_appended H w1 seq header payload sw))))"

section \<open>The appender loop\<close>

text \<open>Why the appender died; the code keeps the text of the message.\<close>

datatype dead_reason =
    AppendFailed io_error
  | SyncFailed io_error
  | SealFailed io_error
  | ContiguityViolation nat nat

datatype JournalAck = Journaled nat | Durable nat | AckFailed dead_reason

datatype AppenderMsg = MsgRecord OrderedEvent | MsgSync

text \<open>
  What one iteration of the loop receives: a message at a time of the clock, a timeout of the
  sync deadline, or the end of the channel.
\<close>

datatype loop_input = Received AppenderMsg nat | Timeout | Disconnected

record 'h appender =
  ap_writer :: "'h RollingSegmentWriter"
  ap_expected_seq :: nat
  ap_last_written :: nat
  ap_last_durable :: nat
  ap_dead :: "dead_reason option"
  ap_sync_deadline :: "nat option"
  ap_acks :: "JournalAck list"

definition appender_init :: "'h RollingSegmentWriter \<Rightarrow> 'h appender" where
  "appender_init w =
     \<lparr>ap_writer = w, ap_expected_seq = 1, ap_last_written = 0, ap_last_durable = 0,
      ap_dead = None, ap_sync_deadline = None, ap_acks = []\<rparr>"

definition send_ack :: "JournalAck \<Rightarrow> 'h appender \<Rightarrow> 'h appender" where
  "send_ack k a = a\<lparr>ap_acks := ap_acks a @ [k]\<rparr>"

definition fail :: "dead_reason \<Rightarrow> 'h appender \<Rightarrow> 'h appender" where
  "fail reason a = send_ack (AckFailed reason) (a\<lparr>ap_dead := Some reason\<rparr>)"

definition do_sync :: "'h appender \<Rightarrow> disk \<Rightarrow> 'h appender \<times> disk" where
  "do_sync a d =
     (case SegmentWriter_sync (rw_writer (ap_writer a)) d of
        (Inr _, d') \<Rightarrow>
          (send_ack (Durable (ap_last_written a))
             (a\<lparr>ap_last_durable := ap_last_written a, ap_sync_deadline := None\<rparr>), d')
      | (Inl err, d') \<Rightarrow> (fail (SyncFailed err) a, d'))"

definition appender_dirty :: "'h appender \<Rightarrow> bool" where
  "appender_dirty a \<longleftrightarrow> ap_dead a = None \<and> ap_last_durable a < ap_last_written a"

definition append_event ::
  "'h hasher \<Rightarrow> nat \<Rightarrow> OrderedEvent \<Rightarrow> nat \<Rightarrow> 'h appender \<Rightarrow> disk \<Rightarrow> 'h appender \<times> disk" where
  "append_event H sync_interval event now a d =
     (case ap_dead a of
        Some reason \<Rightarrow> (send_ack (AckFailed reason) a, d)
      | None \<Rightarrow>
          if ev_seq event \<noteq> ap_expected_seq a
          then (fail (ContiguityViolation (ap_expected_seq a) (ev_seq event)) a, d)
          else
            (case rolling_append H (ap_writer a) (ev_kind event) (ev_seq event)
                    (ev_elapsed_ms event) (ev_payload event) d of
               (Inr w, d') \<Rightarrow>
                 (send_ack (Journaled (ev_seq event))
                    (a\<lparr>ap_writer := w,
                       ap_sync_deadline := (if ap_last_written a \<le> ap_last_durable a
                                            then Some (now + sync_interval)
                                            else ap_sync_deadline a),
                       ap_last_written := ev_seq event,
                       ap_expected_seq := ap_expected_seq a + 1\<rparr>), d')
             | (Inl err, d') \<Rightarrow> (fail (AppendFailed err) a, d')))"

text \<open>One iteration that does not leave the loop.\<close>

fun appender_step ::
  "'h hasher \<Rightarrow> nat \<Rightarrow> loop_input \<Rightarrow> 'h appender \<Rightarrow> disk \<Rightarrow> 'h appender \<times> disk" where
  "appender_step H sync_interval (Received (MsgRecord event) now) a d =
     append_event H sync_interval event now a d"
| "appender_step H sync_interval (Received MsgSync now) a d =
     (case ap_dead a of
        Some reason \<Rightarrow> (send_ack (AckFailed reason) a, d)
      | None \<Rightarrow> do_sync a d)"
| "appender_step H sync_interval Timeout a d = (if appender_dirty a then do_sync a d else (a, d))"
| "appender_step H sync_interval Disconnected a d = (a, d)"

text \<open>The final barrier after the loop: sync what is unsynced, then seal the tail part.\<close>

definition appender_finish :: "'h hasher \<Rightarrow> 'h appender \<Rightarrow> disk \<Rightarrow> 'h appender \<times> disk" where
  "appender_finish H a d =
     (let (a1, d1) = (if appender_dirty a then do_sync a d else (a, d))
      in if ap_dead a1 \<noteq> None then (a1, d1)
         else case seal_part H (ap_writer a1) d1 of
                (Inr w, d2) \<Rightarrow> (a1\<lparr>ap_writer := w\<rparr>, d2)
              | (Inl err, d2) \<Rightarrow> (fail (SealFailed err) a1, d2))"

text \<open>\<open>Disconnected\<close> leaves the loop; a list of inputs without it is a run still going on.\<close>

fun appender_loop ::
  "'h hasher \<Rightarrow> nat \<Rightarrow> loop_input list \<Rightarrow> 'h appender \<Rightarrow> disk \<Rightarrow> 'h appender \<times> disk" where
  "appender_loop H sync_interval [] a d = (a, d)"
| "appender_loop H sync_interval (Disconnected # inputs) a d = appender_finish H a d"
| "appender_loop H sync_interval (i # inputs) a d =
     (case appender_step H sync_interval i a d of
        (a', d') \<Rightarrow> appender_loop H sync_interval inputs a' d')"

end
