(* ===== verification/Journal_Queue.thy ===== *)
theory Journal_Queue
  imports Journal_Appender
begin

text \<open>
  The bounded queue between the session and its appender thread (\<open>JournalAppender\<close>,
  \<open>QueueSpace\<close> and the receiving end of \<open>appender_loop\<close> in
  \<open>src/session/journal/appender.rs\<close>). The queue is bounded twice: by a number of messages,
  for which a producer waits, and by a number of payload bytes, which is a hard limit.
\<close>

section \<open>The queue\<close>

datatype JournalSubmitError =
    QueueFull | QueueBudgetExhausted | AppenderDead | InvalidEvent string | PersistenceDegraded

definition DEFAULT_QUEUE_CAPACITY :: nat where
  "DEFAULT_QUEUE_CAPACITY = 256"

definition DEFAULT_QUEUE_BUDGET_BYTES :: nat where
  "DEFAULT_QUEUE_BUDGET_BYTES = 32 * 1024 * 1024"

text \<open>Milliseconds.\<close>

definition DEFAULT_QUEUE_STALL_TIMEOUT :: nat where
  "DEFAULT_QUEUE_STALL_TIMEOUT = 2000"

text \<open>
  \<open>q_msgs\<close> are the messages in the channel, oldest first; \<open>q_taken\<close> is the message the
  appender has received but whose bytes it has not yet subtracted from \<open>q_bytes\<close>;
  \<open>q_alive\<close> says that the receiving end exists.
\<close>

record JournalAppender =
  q_msgs :: "AppenderMsg list"
  q_taken :: "AppenderMsg option"
  q_bytes :: nat
  q_capacity :: nat
  q_budget :: nat
  q_stall_timeout :: nat
  q_alive :: bool

definition JournalAppender_new :: JournalAppender where
  "JournalAppender_new =
     \<lparr>q_msgs = [], q_taken = None, q_bytes = 0, q_capacity = DEFAULT_QUEUE_CAPACITY,
      q_budget = DEFAULT_QUEUE_BUDGET_BYTES, q_stall_timeout = DEFAULT_QUEUE_STALL_TIMEOUT,
      q_alive = True\<rparr>"

fun msg_bytes :: "AppenderMsg \<Rightarrow> nat" where
  "msg_bytes (MsgRecord e) = length (ev_payload e)"
| "msg_bytes MsgSync = 0"

section \<open>The producer\<close>

datatype send_result = Sent | Full | SendDisconnected

text \<open>\<open>SyncSender::try_send\<close> of the standard library's bounded channel.\<close>

definition try_send :: "AppenderMsg \<Rightarrow> JournalAppender \<Rightarrow> send_result \<times> JournalAppender" where
  "try_send msg q =
     (if \<not> q_alive q then (SendDisconnected, q)
      else if q_capacity q \<le> length (q_msgs q) then (Full, q)
      else (Sent, q\<lparr>q_msgs := q_msgs q @ [msg]\<rparr>))"

text \<open>Reserve the bytes of an event, or refuse it: the first lines of \<open>try_submit\<close>.\<close>

definition submit_reserve :: "nat \<Rightarrow> JournalAppender \<Rightarrow> (JournalSubmitError + unit) \<times> JournalAppender" where
  "submit_reserve len q =
     (if q_budget q < q_bytes q + len then (Inl QueueBudgetExhausted, q)
      else (Inr (), q\<lparr>q_bytes := q_bytes q + len\<rparr>))"

definition submit_cancel :: "nat \<Rightarrow> JournalAppender \<Rightarrow> JournalAppender" where
  "submit_cancel len q = q\<lparr>q_bytes := q_bytes q - len\<rparr>"

text \<open>What the appender thread does to the queue while the producer runs.\<close>

datatype consumer_event = Take | Settle | Die

definition queue_take :: "JournalAppender \<Rightarrow> JournalAppender" where
  "queue_take q =
     (case (q_alive q, q_taken q, q_msgs q) of
        (True, None, m # ms) \<Rightarrow> q\<lparr>q_msgs := ms, q_taken := Some m\<rparr>
      | _ \<Rightarrow> q)"

definition queue_settle :: "JournalAppender \<Rightarrow> JournalAppender" where
  "queue_settle q =
     (case q_taken q of
        Some m \<Rightarrow> q\<lparr>q_taken := None, q_bytes := q_bytes q - msg_bytes m\<rparr>
      | None \<Rightarrow> q)"

fun consume :: "JournalAppender \<Rightarrow> consumer_event \<Rightarrow> JournalAppender" where
  "consume q Take = queue_take q"
| "consume q Settle = queue_settle q"
| "consume q Die = q\<lparr>q_alive := False\<rparr>"

text \<open>
  The slow path of \<open>try_submit\<close>. Each turn that finds the queue full reads the clock and waits:
  \<open>turns\<close> lists, per turn, the time since the wait began and what the appender thread did
  before the next attempt. Every reading of the clock ends a turn, so a list that runs out is
  a producer that is still waiting.
\<close>

datatype submit_outcome = Accepted | Rejected JournalSubmitError | Waiting

fun submit_wait ::
  "OrderedEvent \<Rightarrow> (nat \<times> consumer_event list) list \<Rightarrow> JournalAppender \<Rightarrow> submit_outcome \<times> JournalAppender"
where
  "submit_wait event turns q =
     (case try_send (MsgRecord event) q of
        (Sent, q') \<Rightarrow> (Accepted, q')
      | (SendDisconnected, q') \<Rightarrow>
          (Rejected AppenderDead, submit_cancel (length (ev_payload event)) q')
      | (Full, q') \<Rightarrow>
          (case turns of
             [] \<Rightarrow> (Waiting, q')
           | (elapsed, evs) # turns' \<Rightarrow>
               if q_stall_timeout q' \<le> elapsed
               then (Rejected QueueFull, submit_cancel (length (ev_payload event)) q')
               else submit_wait event turns' (foldl consume q' evs)))"

declare submit_wait.simps [simp del]

text \<open>\<open>between\<close> is what the appender does between the fast path and taking the lock.\<close>

definition try_submit ::
  "OrderedEvent \<Rightarrow> consumer_event list \<Rightarrow> (nat \<times> consumer_event list) list \<Rightarrow> JournalAppender
     \<Rightarrow> submit_outcome \<times> JournalAppender" where
  "try_submit event between turns q =
     (let len = length (ev_payload event)
      in case submit_reserve len q of
           (Inl err, q1) \<Rightarrow> (Rejected err, q1)
         | (Inr _, q1) \<Rightarrow>
             (case try_send (MsgRecord event) q1 of
                (Sent, q2) \<Rightarrow> (Accepted, q2)
              | (SendDisconnected, q2) \<Rightarrow> (Rejected AppenderDead, submit_cancel len q2)
              | (Full, q2) \<Rightarrow> submit_wait event turns (foldl consume q2 between)))"

definition request_sync :: "JournalAppender \<Rightarrow> JournalAppender" where
  "request_sync q = snd (try_send MsgSync q)"

section \<open>Invariant\<close>

text \<open>
  \<open>p\<close> is what the one producer (it holds the session's lock) has reserved and not yet
  enqueued. The counter is exact: what is queued, what is being settled, and \<open>p\<close>.
\<close>

definition msgs_bytes :: "AppenderMsg list \<Rightarrow> nat" where
  "msgs_bytes ms = sum_list (map msg_bytes ms)"

definition taken_bytes :: "AppenderMsg option \<Rightarrow> nat" where
  "taken_bytes t = (case t of Some m \<Rightarrow> msg_bytes m | None \<Rightarrow> 0)"

definition queue_inv :: "nat \<Rightarrow> JournalAppender \<Rightarrow> bool" where
  "queue_inv p q \<longleftrightarrow>
     q_bytes q = msgs_bytes (q_msgs q) + taken_bytes (q_taken q) + p
     \<and> q_bytes q \<le> q_budget q \<and> length (q_msgs q) \<le> q_capacity q"

lemma msgs_bytes_simps [simp]:
  "msgs_bytes [] = 0"
  "msgs_bytes (m # ms) = msg_bytes m + msgs_bytes ms"
  "msgs_bytes (ms @ ms') = msgs_bytes ms + msgs_bytes ms'"
  by (simp_all add: msgs_bytes_def)

lemma taken_bytes_simps [simp]: "taken_bytes None = 0" "taken_bytes (Some m) = msg_bytes m"
  by (simp_all add: taken_bytes_def)

lemma queue_inv_new: "queue_inv 0 JournalAppender_new"
  by (simp add: queue_inv_def JournalAppender_new_def)

lemma consume_inv: "queue_inv p q \<Longrightarrow> queue_inv p (consume q ev)"
  by (cases ev)
    (auto simp: queue_inv_def queue_take_def queue_settle_def split: option.splits list.splits
      bool.splits)

lemma consume_all_inv: "queue_inv p q \<Longrightarrow> queue_inv p (foldl consume q evs)"
  by (induction evs arbitrary: q) (simp_all add: consume_inv)

lemma consume_params [simp]:
  "q_budget (consume q ev) = q_budget q" "q_capacity (consume q ev) = q_capacity q"
  "q_stall_timeout (consume q ev) = q_stall_timeout q"
  by (cases ev; auto simp: queue_take_def queue_settle_def split: option.splits list.splits
      bool.splits)+

lemma consume_all_params [simp]:
  "q_budget (foldl consume q evs) = q_budget q"
  "q_capacity (foldl consume q evs) = q_capacity q"
  "q_stall_timeout (foldl consume q evs) = q_stall_timeout q"
  by (induction evs arbitrary: q) simp_all

lemma reserve_inv:
  "queue_inv 0 q \<Longrightarrow> submit_reserve len q = (Inr u, q') \<Longrightarrow>
     queue_inv len q' \<and> len \<le> q_budget q \<and> q_budget q' = q_budget q"
  by (auto simp: submit_reserve_def queue_inv_def split: if_splits)

lemma cancel_inv: "queue_inv p q \<Longrightarrow> queue_inv 0 (submit_cancel p q)"
  by (simp add: queue_inv_def submit_cancel_def)

lemma cancel_params [simp]: "q_budget (submit_cancel p q) = q_budget q"
  by (simp add: submit_cancel_def)

lemma enqueue_inv:
  "queue_inv (length (ev_payload e)) q \<Longrightarrow> \<not> q_capacity q \<le> length (q_msgs q) \<Longrightarrow>
     queue_inv 0 (q\<lparr>q_msgs := q_msgs q @ [MsgRecord e]\<rparr>)"
  by (simp add: queue_inv_def)

text \<open>The two shapes of the wait, by whether another turn was observed.\<close>

lemma submit_wait_Nil:
  "submit_wait event [] q =
     (if \<not> q_alive q then (Rejected AppenderDead, submit_cancel (length (ev_payload event)) q)
      else if q_capacity q \<le> length (q_msgs q) then (Waiting, q)
      else (Accepted, q\<lparr>q_msgs := q_msgs q @ [MsgRecord event]\<rparr>))"
  by (subst submit_wait.simps) (simp add: try_send_def)

lemma submit_wait_Cons:
  "submit_wait event ((elapsed, evs) # turns) q =
     (if \<not> q_alive q then (Rejected AppenderDead, submit_cancel (length (ev_payload event)) q)
      else if q_capacity q \<le> length (q_msgs q) then
        if q_stall_timeout q \<le> elapsed
        then (Rejected QueueFull, submit_cancel (length (ev_payload event)) q)
        else submit_wait event turns (foldl consume q evs)
      else (Accepted, q\<lparr>q_msgs := q_msgs q @ [MsgRecord event]\<rparr>))"
  by (subst submit_wait.simps) (simp add: try_send_def)

definition pending_after :: "submit_outcome \<Rightarrow> OrderedEvent \<Rightarrow> nat" where
  "pending_after out event = (if out = Waiting then length (ev_payload event) else 0)"

lemma submit_wait_inv:
  assumes "queue_inv (length (ev_payload event)) q" and "submit_wait event turns q = (out, q')"
  shows "queue_inv (pending_after out event) q' \<and> q_budget q' = q_budget q"
  using assms
proof (induction turns arbitrary: q)
  case Nil
  then show ?case
    using cancel_inv [OF Nil(1)]
    by (auto simp: submit_wait_Nil pending_after_def enqueue_inv split: if_splits)
next
  case (Cons t turns)
  obtain elapsed evs where t: "t = (elapsed, evs)" by (cases t)
  have IH: "queue_inv (pending_after out event) q' \<and> q_budget q' = q_budget q"
    if "submit_wait event turns (foldl consume q evs) = (out, q')"
    using Cons.IH [OF consume_all_inv [OF Cons.prems(1)] that] by simp
  show ?case
    using Cons.prems(2) cancel_inv [OF Cons.prems(1)] enqueue_inv [OF Cons.prems(1)] IH
    unfolding t submit_wait_Cons by (auto simp: pending_after_def split: if_splits)
qed

lemma try_submit_inv:
  assumes "queue_inv 0 q" and "try_submit event between turns q = (out, q')"
  shows "queue_inv (pending_after out event) q' \<and> q_budget q' = q_budget q
         \<and> (out = Accepted \<or> out = Waiting \<longrightarrow> length (ev_payload event) \<le> q_budget q)"
proof (cases "q_budget q < q_bytes q + length (ev_payload event)")
  case True
  then show ?thesis
    using assms by (auto simp: try_submit_def submit_reserve_def pending_after_def Let_def)
next
  case False
  let ?q1 = "q\<lparr>q_bytes := q_bytes q + length (ev_payload event)\<rparr>"
  have inv: "queue_inv (length (ev_payload event)) ?q1"
    using assms(1) False by (simp add: queue_inv_def)
  have wait: "queue_inv (pending_after out event) q' \<and> q_budget q' = q_budget q"
    if "submit_wait event turns (foldl consume ?q1 between) = (out, q')"
    using submit_wait_inv [OF consume_all_inv [OF inv] that] by simp
  have len: "length (ev_payload event) \<le> q_budget q" using False by simp
  show ?thesis
    using assms(2) False len wait cancel_inv [OF inv] enqueue_inv [OF inv]
    by (auto simp: try_submit_def submit_reserve_def Let_def try_send_def pending_after_def
        split: if_splits)
qed

text \<open>A producer whose clock reaches the stall deadline is answered.\<close>

lemma submit_wait_returns:
  assumes "\<exists>t \<in> set turns. q_stall_timeout q \<le> fst t"
  shows "fst (submit_wait event turns q) \<noteq> Waiting"
  using assms
proof (induction turns arbitrary: q)
  case Nil
  then show ?case by simp
next
  case (Cons t turns)
  obtain elapsed evs where t: "t = (elapsed, evs)" by (cases t)
  have "fst (submit_wait event turns (foldl consume q evs)) \<noteq> Waiting"
    if "\<not> q_stall_timeout q \<le> elapsed"
    using Cons.prems that t by (intro Cons.IH) auto
  then show ?case unfolding t by (simp add: submit_wait_Cons)
qed

lemma try_submit_returns:
  assumes "\<exists>t \<in> set turns. q_stall_timeout q \<le> fst t"
  shows "fst (try_submit event between turns q) \<noteq> Waiting"
proof -
  let ?q1 = "q\<lparr>q_bytes := q_bytes q + length (ev_payload event)\<rparr>"
  have "fst (submit_wait event turns (foldl consume ?q1 between)) \<noteq> Waiting"
    using assms by (intro submit_wait_returns) simp
  then show ?thesis
    by (auto simp: try_submit_def submit_reserve_def try_send_def Let_def)
qed

lemma submit_wait_errors:
  "submit_wait event turns q = (Rejected err, q') \<Longrightarrow> err = AppenderDead \<or> err = QueueFull"
proof (induction turns arbitrary: q)
  case Nil
  then show ?case by (auto simp: submit_wait_Nil split: if_splits)
next
  case (Cons t turns)
  then show ?case by (cases t) (auto simp: submit_wait_Cons split: if_splits)
qed

lemma try_submit_errors:
  "try_submit event between turns q = (Rejected err, q') \<Longrightarrow>
     err = AppenderDead \<or> err = QueueFull \<or> err = QueueBudgetExhausted"
  by (auto simp: try_submit_def Let_def submit_reserve_def try_send_def split: if_splits
      dest: submit_wait_errors)

section \<open>The byte bound\<close>

text \<open>C17. The journal queue is a hard memory bound: whatever the producer submits and however
  the appender's dequeues interleave with a wait for room, the queued bytes are counted exactly
  and stay within the byte budget, a refused event leaves no bytes reserved, an accepted event
  is within the budget, and a wait ends once the clock passes the stall deadline.\<close>

theorem try_submit_bounded:
  assumes "queue_inv 0 q" and "try_submit event between turns q = (out, q')"
    and "\<exists>t \<in> set turns. q_stall_timeout q \<le> fst t"
  shows "out \<noteq> Waiting \<and> queue_inv 0 q'
     \<and> msgs_bytes (q_msgs q') + taken_bytes (q_taken q') = q_bytes q'
     \<and> q_bytes q' \<le> q_budget q
     \<and> (out = Accepted \<longrightarrow> length (ev_payload event) \<le> q_budget q)"
proof -
  have "out \<noteq> Waiting" using try_submit_returns [OF assms(3)] assms(2) by (metis fst_conv)
  then show ?thesis
    using try_submit_inv [OF assms(1,2)] by (auto simp: pending_after_def queue_inv_def)
qed

theorem try_submit_bounded_witness:
  "queue_inv 0 (snd (try_submit
     \<lparr>ev_cursor = \<lparr>jc_incarnation = 1, jc_seq = 1\<rparr>, ev_elapsed_ms = 0, ev_kind = Output,
      ev_payload = [1, 2, 3]\<rparr> [Settle] [(10, [Take]), (2000, [])]
     (JournalAppender_new\<lparr>q_capacity := 1, q_msgs := [MsgSync]\<rparr>)))"
proof -
  let ?q = "JournalAppender_new\<lparr>q_capacity := 1, q_msgs := [MsgSync]\<rparr>"
  have "queue_inv 0 ?q" by (simp add: queue_inv_def JournalAppender_new_def)
  moreover have "\<exists>t \<in> set [(10, [Take]), (2000, [])]. q_stall_timeout ?q \<le> fst t"
    by (simp add: JournalAppender_new_def DEFAULT_QUEUE_STALL_TIMEOUT_def)
  ultimately show ?thesis
    using try_submit_bounded [OF _ prod.collapse [symmetric]] by blast
qed

end
