(* ===== verification/Journal_Shadow.thy ===== *)
theory Journal_Shadow
  imports Journal_Queue Journal_Checkpoint
begin

text \<open>
  The session's handle on its journal (\<open>ShadowJournal\<close> of
  \<open>src/session/journal/shadow.rs\<close>): the sequencing core, the queue to the appender thread and
  the channel of acknowledgements that comes back. Recording an event publishes it in the core
  and submits it; a failure of either end degrades the core for good.
\<close>

section \<open>Messages\<close>

text \<open>\<open>Display\<close> of \<open>JournalSubmitError\<close>.\<close>

fun submit_error_text :: "JournalSubmitError \<Rightarrow> string" where
  "submit_error_text QueueFull = ''journal queue is full''"
| "submit_error_text QueueBudgetExhausted = ''journal queue byte budget exhausted''"
| "submit_error_text AppenderDead = ''journal appender is dead''"
| "submit_error_text PersistenceDegraded = ''journal persistence is degraded''"
| "submit_error_text (InvalidEvent reason) = ''invalid journal event: '' @ reason"

text \<open>The reasons \<open>appender_loop\<close> reports; \<open>io_text\<close> renders an I/O error.\<close>

fun dead_text :: "(io_error \<Rightarrow> string) \<Rightarrow> dead_reason \<Rightarrow> string" where
  "dead_text io_text (AppendFailed err) = ''journal append failed: '' @ io_text err"
| "dead_text io_text (SyncFailed err) = ''journal sync failed: '' @ io_text err"
| "dead_text io_text (SealFailed err) = ''journal seal failed: '' @ io_text err"
| "dead_text io_text (ContiguityViolation expected got) =
     ''journal contiguity violation: expected seq '' @ show_dec expected @ '', got '' @ show_dec got"

section \<open>Operations\<close>

record ShadowJournal =
  sj_core :: SequencerCore
  sj_appender :: JournalAppender
  sj_acks :: "JournalAck list"

definition ShadowJournal_new :: "nat \<Rightarrow> ShadowJournal" where
  "ShadowJournal_new incarnation =
     \<lparr>sj_core = SequencerCore_new incarnation, sj_appender = JournalAppender_new, sj_acks = []\<rparr>"

fun apply_ack :: "(io_error \<Rightarrow> string) \<Rightarrow> SequencerCore \<Rightarrow> JournalAck \<Rightarrow> SequencerCore" where
  "apply_ack io_text c (Journaled seq) = note_journaled c seq"
| "apply_ack io_text c (Durable seq) = note_durable c seq"
| "apply_ack io_text c (AckFailed reason) = degrade c (dead_text io_text reason)"

definition poll_acks :: "(io_error \<Rightarrow> string) \<Rightarrow> ShadowJournal \<Rightarrow> ShadowJournal" where
  "poll_acks io_text j =
     j\<lparr>sj_core := foldl (apply_ack io_text) (sj_core j) (sj_acks j), sj_acks := []\<rparr>"

text \<open>
  \<open>record\<close>: \<open>elapsed_ms\<close> is the clock's reading in \<open>publish\<close>, \<open>between\<close> and \<open>turns\<close> are what
  happens during a wait for room, and the result is \<open>None\<close> while such a wait goes on.
\<close>

definition shadow_record ::
  "(io_error \<Rightarrow> string) \<Rightarrow> nat \<Rightarrow> consumer_event list \<Rightarrow> (nat \<times> consumer_event list) list
     \<Rightarrow> RecordKind \<Rightarrow> bytes \<Rightarrow> ShadowJournal
     \<Rightarrow> (JournalSubmitError + JournalCursor) option \<times> ShadowJournal" where
  "shadow_record io_text elapsed_ms between turns kind payload j =
     (let j1 = poll_acks io_text j in
      if is_degraded (sj_core j1) then (Some (Inl PersistenceDegraded), j1)
      else
        let (event, core) = publish (sj_core j1) elapsed_ms kind payload;
            (out, q) = try_submit event between turns (sj_appender j1);
            j2 = j1\<lparr>sj_core := core, sj_appender := q\<rparr>
        in case out of
             Accepted \<Rightarrow> (Some (Inr (ev_cursor event)), j2)
           | Rejected err \<Rightarrow>
               (Some (Inl err), j2\<lparr>sj_core := degrade core (submit_error_text err)\<rparr>)
           | Waiting \<Rightarrow> (None, j2))"

definition record_output where
  "record_output io_text elapsed_ms between turns payload j =
     shadow_record io_text elapsed_ms between turns Output payload j"

definition record_resize where
  "record_resize io_text elapsed_ms between turns rows cols j =
     shadow_record io_text elapsed_ms between turns Resize (encode_resize_payload rows cols) j"

definition record_checkpoint where
  "record_checkpoint io_text elapsed_ms between turns checkpoint j =
     shadow_record io_text elapsed_ms between turns CheckpointRef (encode_checkpoint checkpoint) j"

text \<open>\<open>dbg\<close> renders a string as \<open>{:?}\<close> does; 61 is \<open>'='\<close> and 10 a line feed.\<close>

definition record_policy where
  "record_policy dbg io_text elapsed_ms between turns key value j =
     (if key = [] \<or> (61 :: byte) \<in> set key \<or> 10 \<in> set key \<or> 10 \<in> set value
      then (Some (Inl (InvalidEvent (''invalid policy key/value: '' @ dbg key))), j)
      else shadow_record io_text elapsed_ms between turns Policy (policy_payload key value) j)"

definition record_lifecycle where
  "record_lifecycle io_text elapsed_ms between turns code exit_code detail j =
     shadow_record io_text elapsed_ms between turns Lifecycle
       (encode_lifecycle_payload code exit_code detail) j"

section \<open>What recording promises\<close>

lemma apply_ack_inv: "core_inv c \<Longrightarrow> core_inv (apply_ack io_text c k)"
  by (cases k) (simp_all add: note_journaled_inv note_durable_inv degrade_inv)

lemma apply_acks_inv: "core_inv c \<Longrightarrow> core_inv (foldl (apply_ack io_text) c ks)"
  by (induction ks arbitrary: c) (simp_all add: apply_ack_inv)

lemma apply_ack_next [simp]: "next_seq (apply_ack io_text c k) = next_seq c"
  by (cases k) (simp_all add: note_journaled_def note_durable_def degrade_def)

lemma apply_acks_next [simp]: "next_seq (foldl (apply_ack io_text) c ks) = next_seq c"
  by (induction ks arbitrary: c) simp_all

lemma apply_ack_incarnation [simp]:
  "core_incarnation (apply_ack io_text c k) = core_incarnation c"
  by (cases k) (simp_all add: note_journaled_def note_durable_def degrade_def)

lemma apply_acks_incarnation [simp]:
  "core_incarnation (foldl (apply_ack io_text) c ks) = core_incarnation c"
  by (induction ks arbitrary: c) simp_all

lemma apply_ack_degraded: "is_degraded c \<Longrightarrow> is_degraded (apply_ack io_text c k)"
  by (cases k) (simp_all add: note_journaled_def note_durable_def degrade_def is_degraded_def)

lemma apply_acks_degraded: "is_degraded c \<Longrightarrow> is_degraded (foldl (apply_ack io_text) c ks)"
  by (induction ks arbitrary: c) (simp_all add: apply_ack_degraded)

lemma degrade_cache [simp]: "cache (degrade c r) = cache c"
  by (simp add: degrade_def)

lemma degrade_degraded [simp]: "is_degraded (degrade c r)"
  by (simp add: degrade_def is_degraded_def)

text \<open>A degraded journal refuses at once; nothing is cached or queued.\<close>

lemma record_when_degraded:
  "is_degraded (sj_core j) \<Longrightarrow>
     shadow_record io_text el between turns kind payload j
       = (Some (Inl PersistenceDegraded), poll_acks io_text j)"
  by (simp add: shadow_record_def poll_acks_def Let_def apply_acks_degraded)

definition shadow_inv :: "ShadowJournal \<Rightarrow> bool" where
  "shadow_inv j \<longleftrightarrow> core_inv (sj_core j) \<and> queue_inv 0 (sj_appender j)"

lemma publish_next: "publish c el k p = (e, c') \<Longrightarrow> ev_seq e = next_seq c"
  by (auto simp: publish_def Let_def)

text \<open>Recording an event, on every branch: a journal that has degraded (before the call or
  by an acknowledgement drained in it) answers \<open>PersistenceDegraded\<close> and touches neither cache
  nor queue; otherwise the event gets the next sequence, and either it is queued and its cursor
  is returned, or it is refused and the core is degraded, so that no later event can be recorded
  behind the gap. The core's and the queue's invariants are kept on every branch.\<close>

theorem shadow_record_spec:
  assumes "shadow_inv j"
    and "\<exists>t \<in> set turns. q_stall_timeout (sj_appender j) \<le> fst t"
    and "shadow_record io_text el between turns kind payload j = (res, j')"
  shows "shadow_inv j' \<and>
    (case res of
       Some (Inr cursor) \<Rightarrow>
         \<not> is_degraded (sj_core (poll_acks io_text j))
         \<and> cursor = \<lparr>jc_incarnation = core_incarnation (sj_core j), jc_seq = next_seq (sj_core j)\<rparr>
         \<and> next_seq (sj_core j') = Suc (next_seq (sj_core j))
         \<and> length payload \<le> q_budget (sj_appender j)
     | Some (Inl PersistenceDegraded) \<Rightarrow>
         is_degraded (sj_core (poll_acks io_text j)) \<and> j' = poll_acks io_text j
     | Some (Inl err) \<Rightarrow> is_degraded (sj_core j') \<and> cache (sj_core j') \<noteq> []
     | None \<Rightarrow> False)"
proof -
  let ?j1 = "poll_acks io_text j"
  have inv1: "core_inv (sj_core ?j1)" and q1: "sj_appender ?j1 = sj_appender j"
    and nx: "next_seq (sj_core ?j1) = next_seq (sj_core j)"
    and ci: "core_incarnation (sj_core ?j1) = core_incarnation (sj_core j)"
    and qi: "queue_inv 0 (sj_appender j)"
    using assms(1) by (simp_all add: poll_acks_def shadow_inv_def apply_acks_inv)
  show ?thesis
  proof (cases "is_degraded (sj_core ?j1)")
    case True
    with assms(3) inv1 qi q1 show ?thesis
      by (auto simp: shadow_record_def Let_def shadow_inv_def)
  next
    case False
    obtain event core where pub: "publish (sj_core ?j1) el kind payload = (event, core)" by fastforce
    obtain out q where sub: "try_submit event between turns (sj_appender j) = (out, q)" by fastforce
    note pc = publish_cache [OF inv1 pub] and pi = publish_inv [OF inv1 pub]
    have cur: "ev_cursor event = \<lparr>jc_incarnation = core_incarnation (sj_core j),
        jc_seq = next_seq (sj_core j)\<rparr>"
      using pc nx ci by (cases "ev_cursor event") simp
    have out: "out \<noteq> Waiting"
      using try_submit_returns [OF assms(2), of event between] sub by simp
    have budget: "out = Accepted \<longrightarrow> length payload \<le> q_budget (sj_appender j)"
      and qinv: "queue_inv 0 q"
      using try_submit_inv [OF qi sub] out pc by (auto simp: pending_after_def)
    have ne: "err \<noteq> PersistenceDegraded" if "out = Rejected err" for err
      using sub that try_submit_errors by fastforce
    have ne': "cache core \<noteq> []" and nc: "next_seq core = Suc (next_seq (sj_core j))"
      using pc nx by simp_all
    have step: "shadow_record io_text el between turns kind payload j =
        (case out of
           Accepted \<Rightarrow> (Some (Inr (ev_cursor event)), ?j1\<lparr>sj_core := core, sj_appender := q\<rparr>)
         | Rejected err \<Rightarrow> (Some (Inl err), ?j1\<lparr>sj_core := degrade core (submit_error_text err),
                                             sj_appender := q\<rparr>)
         | Waiting \<Rightarrow> (None, ?j1\<lparr>sj_core := core, sj_appender := q\<rparr>))"
      using False pub sub q1 by (simp add: shadow_record_def Let_def split: submit_outcome.splits)
    show ?thesis
    proof (cases out)
      case Accepted
      with step assms(3) False budget qinv pi nc cur show ?thesis by (auto simp: shadow_inv_def)
    next
      case (Rejected err)
      with step assms(3) qinv pi ne' ne [OF Rejected] show ?thesis
        by (cases err) (auto simp: shadow_inv_def degrade_inv)
    next
      case Waiting
      with out show ?thesis by simp
    qed
  qed
qed

theorem shadow_record_spec_witness:
  "\<not> is_degraded (sj_core (poll_acks (\<lambda>_. []) (ShadowJournal_new 4)))
   \<and> next_seq (sj_core (snd (shadow_record (\<lambda>_. []) 3 [] [(2000, [])] Output [7] (ShadowJournal_new 4)))) = 2"
proof -
  let ?j = "ShadowJournal_new 4"
  let ?r = "shadow_record (\<lambda>_. []) 3 [] [(2000, [])] Output [7] ?j"
  have inv: "shadow_inv ?j"
    by (simp add: shadow_inv_def ShadowJournal_new_def SequencerCore_new_def core_inv_new queue_inv_new)
  have turns: "\<exists>t \<in> set [(2000, [])]. q_stall_timeout (sj_appender ?j) \<le> fst t"
    by (simp add: ShadowJournal_new_def JournalAppender_new_def DEFAULT_QUEUE_STALL_TIMEOUT_def)
  have res: "fst ?r = Some (Inr \<lparr>jc_incarnation = 4, jc_seq = 1\<rparr>)"
    by (simp add: shadow_record_def poll_acks_def ShadowJournal_new_def SequencerCore_new_def
        SequencerCore_with_budget_def is_degraded_def publish_def Let_def try_submit_def
        submit_reserve_def try_send_def JournalAppender_new_def DEFAULT_QUEUE_BUDGET_BYTES_def
        DEFAULT_QUEUE_CAPACITY_def DEFAULT_CACHE_BUDGET_BYTES_def)
  have n1: "next_seq (sj_core ?j) = 1"
    by (simp add: ShadowJournal_new_def SequencerCore_new_def SequencerCore_with_budget_def)
  have "?r = (Some (Inr \<lparr>jc_incarnation = 4, jc_seq = 1\<rparr>), snd ?r)"
    using res by (metis prod.collapse)
  from shadow_record_spec [OF inv turns this] show ?thesis by (simp add: n1)
qed

end
