(* ===== verification/Session_Runtime.thy ===== *)
theory Session_Runtime
  imports Session_Replay Session_Registry Session_Model Journal_Shadow
begin

text \<open>
  The live session (\<open>SessionRuntime\<close> and the reader thread of \<open>src/session/runtime.rs\<close>): what one
  chunk of program output does to the scanner, the journal, the terminal engine and the counters,
  how the session ends, and how its facts reach the journal.

  Clock readings are arguments (\<open>now\<close>). The terminal engine is a wrapper around an external
  emulator: the record \<open>engine_ops\<close> holds the operations the runtime calls, and the model passes it
  as \<open>E\<close>. The journal is reached through \<open>journal_ops\<close>, passed as \<open>J\<close>; the locale below states
  what the runtime relies on, and it is interpreted with the shadow journal. The operating system
  answers through arguments: whether a resize succeeded, what waiting for the child returned.
  Retention runs on a thread of its own and is modelled apart; logging is left out.
\<close>

section \<open>Terminal modes\<close>

record ModeSnapshot =
  md_app_cursor_keys :: bool
  md_bracketed_paste_mode :: bool
  md_mouse_report :: bool
  md_sgr_mouse :: bool
  md_focus_events :: bool

text \<open>\<open>SharedModes\<close> is an atomic byte; the masks are \<open>1 << 0\<close> to \<open>1 << 4\<close>.\<close>

definition SharedModes_load :: "byte \<Rightarrow> ModeSnapshot" where
  "SharedModes_load bits =
     \<lparr>md_app_cursor_keys = bits AND 1 \<noteq> 0, md_bracketed_paste_mode = bits AND 2 \<noteq> 0,
      md_mouse_report = bits AND 4 \<noteq> 0, md_sgr_mouse = bits AND 8 \<noteq> 0,
      md_focus_events = bits AND 16 \<noteq> 0\<rparr>"

definition SharedModes_store :: "ModeSnapshot \<Rightarrow> byte" where
  "SharedModes_store m =
     (if md_app_cursor_keys m then 1 else 0) OR (if md_bracketed_paste_mode m then 2 else 0)
     OR (if md_mouse_report m then 4 else 0) OR (if md_sgr_mouse m then 8 else 0)
     OR (if md_focus_events m then 16 else 0)"

lemma SharedModes_load_store [simp]: "SharedModes_load (SharedModes_store m) = m"
  by (cases m; cases "md_app_cursor_keys m"; cases "md_bracketed_paste_mode m"; cases "md_mouse_report m";
      cases "md_sgr_mouse m"; cases "md_focus_events m")
    (simp_all add: SharedModes_load_def SharedModes_store_def)

section \<open>What the runtime calls\<close>

record EngineModes =
  em_alt_screen :: bool
  em_app_cursor_keys :: bool
  em_bracketed_paste :: bool
  em_mouse_report :: bool
  em_sgr_mouse :: bool
  em_focus_events :: bool

text \<open>\<open>en_feed\<close> is \<open>feed\<close> followed by \<open>drain_events\<close>, of which the responses matter here.\<close>

record 'e engine_ops =
  en_feed :: "bytes \<Rightarrow> 'e \<Rightarrow> bytes list \<times> 'e"
  en_modes :: "'e \<Rightarrow> EngineModes"
  en_size :: "'e \<Rightarrow> nat \<times> nat"
  en_cursor_position :: "'e \<Rightarrow> nat \<times> nat"
  en_resize :: "nat \<Rightarrow> nat \<Rightarrow> 'e \<Rightarrow> 'e"
  en_styled_history_rows :: "nat \<Rightarrow> 'e \<Rightarrow> bytes list"
  en_snapshot_stream :: "'e \<Rightarrow> bytes"

record 'j journal_ops =
  jo_record :: "RecordKind \<Rightarrow> bytes \<Rightarrow> 'j \<Rightarrow> (JournalSubmitError + JournalCursor) \<times> 'j"
  jo_poll_acks :: "'j \<Rightarrow> 'j"
  jo_request_sync :: "'j \<Rightarrow> 'j"
  jo_is_degraded :: "'j \<Rightarrow> bool"
  jo_is_fully_durable :: "'j \<Rightarrow> bool"
  jo_incarnation :: "'j \<Rightarrow> nat"

section \<open>State\<close>

text \<open>The runtime without the paths and the Windows teardown counter.\<close>

record SessionMeta =
  sm_id :: bytes
  sm_title :: "bytes option"
  sm_tags :: "bytes list"
  sm_command :: bytes
  sm_args :: "bytes list"
  sm_cwd :: "bytes option"
  sm_created_at :: nat
  sm_started_at :: "nat option"
  sm_ended_at :: "nat option"
  sm_resume_command :: "bytes option"
  sm_status :: SessionStatus
  sm_pid :: "nat option"
  sm_exit_code :: "int option"
  sm_notifications_enabled :: bool
  sm_foreground_color :: "bytes option"
  sm_background_color :: "bytes option"

text \<open>The writer channel's sender, what it holds for the writer thread, the master handle, and how often
  the child was told to die.\<close>

record PtyHandle =
  ph_writer_open :: bool
  ph_queue :: "bytes list"
  ph_master :: bool
  ph_kills :: nat

record ('e, 'j) SessionRuntime =
  rt_meta :: SessionMeta
  rt_resize_tx :: "(nat \<times> nat) list"
  rt_pty :: PtyHandle
  rt_pty_size :: "(nat \<times> nat) option"
  rt_resize_history :: "LogResize list"
  rt_completed_at :: "nat option"
  rt_persisted :: bool
  rt_requested_final_status :: "SessionStatus option"
  rt_filtered_total_bytes :: nat
  rt_last_total_bytes :: nat
  rt_spawned_at :: nat
  rt_last_output_epoch :: "nat option"
  rt_last_input_at :: "nat option"
  rt_last_attach_activity_at :: "nat option"
  rt_attachments :: AttachmentRegistry
  rt_last_notified_at :: "nat option"
  rt_notified_output_epoch :: "nat option"
  rt_engine :: 'e
  rt_screen_scrollback_rows :: nat
  rt_terminal_signals :: TerminalSignals
  rt_title_user_set :: bool
  rt_shared_modes :: byte
  rt_output_closed :: bool
  rt_resume_scanned :: bool
  rt_pending_journal_completion :: "(LifecycleCode \<times> int option \<times> bytes) option"
  rt_last_journal_checkpoint_at :: nat
  rt_journaled_modes :: "ModeSnapshot option"
  rt_notifications_enabled :: bool
  rt_journal :: "'j option"
  rt_journal_failed :: bool

definition JOURNAL_CHECKPOINT_INTERVAL_BYTES :: nat where
  "JOURNAL_CHECKPOINT_INTERVAL_BYTES = 32 * 1024 * 1024"

section \<open>Journalling\<close>

text \<open>\<open>journal_event\<close> with the record call as a function on the journal.\<close>

definition journal_event ::
  "'j journal_ops \<Rightarrow> ('j \<Rightarrow> (JournalSubmitError + JournalCursor) \<times> 'j)
     \<Rightarrow> ('e, 'j) SessionRuntime \<Rightarrow> ('e, 'j) SessionRuntime" where
  "journal_event J call rt =
     (case rt_journal rt of
        None \<Rightarrow> rt
      | Some j \<Rightarrow>
          (case call j of (result, j') \<Rightarrow>
             rt\<lparr>rt_journal := Some j',
                rt_journal_failed := rt_journal_failed rt
                  \<or> (\<exists>err. result = Inl err) \<and> \<not> jo_is_degraded J j\<rparr>))"

lemma journal_event_code [code]:
  "journal_event J call rt =
     (case rt_journal rt of
        None \<Rightarrow> rt
      | Some j \<Rightarrow>
          (case call j of (result, j') \<Rightarrow>
             rt\<lparr>rt_journal := Some j',
                rt_journal_failed := rt_journal_failed rt
                  \<or> (case result of Inl err \<Rightarrow> True | Inr c \<Rightarrow> False) \<and> \<not> jo_is_degraded J j\<rparr>))"
  by (auto simp: journal_event_def split: option.splits prod.splits sum.splits)

definition journal_output where
  "journal_output J payload = journal_event J (jo_record J Output payload)"

text \<open>The message of an invalid event goes to the log only; the key is left out of it here.\<close>

definition journal_policy where
  "journal_policy J key value =
     journal_event J (\<lambda>j.
       if key = [] \<or> (61 :: byte) \<in> set key \<or> 10 \<in> set key \<or> 10 \<in> set value
       then (Inl (InvalidEvent ''invalid policy key/value''), j)
       else jo_record J Policy (policy_payload key value) j)"

definition journal_resize where
  "journal_resize J rows cols = journal_event J (jo_record J Resize (encode_resize_payload rows cols))"

definition journal_lifecycle where
  "journal_lifecycle J code exit_code detail =
     journal_event J (jo_record J Lifecycle (encode_lifecycle_payload code exit_code detail))"

definition bit_text :: "bool \<Rightarrow> bytes" where
  "bit_text b = ascii (if b then ''1'' else ''0'')"

definition modes_text :: "ModeSnapshot \<Rightarrow> bytes" where
  "modes_text m =
     ascii ''app_cursor_keys='' @ bit_text (md_app_cursor_keys m)
     @ ascii '',bracketed_paste='' @ bit_text (md_bracketed_paste_mode m)
     @ ascii '',mouse_report='' @ bit_text (md_mouse_report m)
     @ ascii '',sgr_mouse='' @ bit_text (md_sgr_mouse m)
     @ ascii '',focus_events='' @ bit_text (md_focus_events m)"

definition journal_modes_if_changed ::
  "'j journal_ops \<Rightarrow> ('e, 'j) SessionRuntime \<Rightarrow> ('e, 'j) SessionRuntime" where
  "journal_modes_if_changed J rt =
     (let current = SharedModes_load (rt_shared_modes rt) in
      if rt_journaled_modes rt = Some current then rt
      else (journal_policy J (ascii ''modes'') (modes_text current) rt)\<lparr>rt_journaled_modes := Some current\<rparr>)"

text \<open>The restore program of a checkpoint, and the checkpoint.\<close>

definition checkpoint_program :: "'e engine_ops \<Rightarrow> nat \<Rightarrow> 'e \<Rightarrow> bytes" where
  "checkpoint_program E scrollback e =
     concat (map (\<lambda>row. row @ [13, 10]) (en_styled_history_rows E scrollback e)) @ en_snapshot_stream E e"

definition runtime_checkpoint :: "'e engine_ops \<Rightarrow> bool \<Rightarrow> ('e, 'j) SessionRuntime \<Rightarrow> Checkpoint" where
  "runtime_checkpoint E anchored rt =
     (let modes = en_modes E (rt_engine rt) in
      \<lparr>cp_rows = fst (en_size E (rt_engine rt)), cp_cols = snd (en_size E (rt_engine rt)),
       cp_cursor = en_cursor_position E (rt_engine rt), cp_alt_screen = em_alt_screen modes,
       cp_app_cursor_keys = em_app_cursor_keys modes, cp_bracketed_paste = em_bracketed_paste modes,
       cp_filtered_offset = (if anchored then rt_filtered_total_bytes rt else 0),
       cp_program = checkpoint_program E (rt_screen_scrollback_rows rt) (rt_engine rt)\<rparr>)"

definition journal_checkpoint ::
  "'e engine_ops \<Rightarrow> 'j journal_ops \<Rightarrow> bool \<Rightarrow> ('e, 'j) SessionRuntime \<Rightarrow> ('e, 'j) SessionRuntime" where
  "journal_checkpoint E J anchored rt =
     (if rt_journal rt = None then rt
      else (journal_event J (jo_record J CheckpointRef (encode_checkpoint (runtime_checkpoint E anchored rt))) rt)
             \<lparr>rt_last_journal_checkpoint_at := rt_filtered_total_bytes rt\<rparr>)"

definition journal_checkpoint_if_due ::
  "'e engine_ops \<Rightarrow> 'j journal_ops \<Rightarrow> bool \<Rightarrow> ('e, 'j) SessionRuntime \<Rightarrow> ('e, 'j) SessionRuntime" where
  "journal_checkpoint_if_due E J scanner_idle rt =
     (if JOURNAL_CHECKPOINT_INTERVAL_BYTES \<le> rt_filtered_total_bytes rt - rt_last_journal_checkpoint_at rt
      then journal_checkpoint E J scanner_idle rt else rt)"

section \<open>Output\<close>

definition mode_snapshot :: "'e engine_ops \<Rightarrow> ('e, 'j) SessionRuntime \<Rightarrow> ModeSnapshot" where
  "mode_snapshot E rt =
     (let modes = en_modes E (rt_engine rt) in
      \<lparr>md_app_cursor_keys = em_app_cursor_keys modes, md_bracketed_paste_mode = em_bracketed_paste modes,
       md_mouse_report = em_mouse_report modes, md_sgr_mouse = em_sgr_mouse modes,
       md_focus_events = em_focus_events modes\<rparr>)"

definition feed_engine ::
  "'e engine_ops \<Rightarrow> bytes \<Rightarrow> ('e, 'j) SessionRuntime \<Rightarrow> bytes list \<times> ('e, 'j) SessionRuntime" where
  "feed_engine E raw rt =
     (case en_feed E raw (rt_engine rt) of (responses, e') \<Rightarrow>
        let rt' = rt\<lparr>rt_engine := e'\<rparr>
        in (responses, rt'\<lparr>rt_shared_modes := SharedModes_store (mode_snapshot E rt')\<rparr>))"

definition push_output :: "nat \<Rightarrow> bytes \<Rightarrow> nat \<Rightarrow> ('e, 'j) SessionRuntime \<Rightarrow> ('e, 'j) SessionRuntime" where
  "push_output now filtered_data meaningful_len rt =
     (if filtered_data = [] then rt
      else
        let rt1 = rt\<lparr>rt_filtered_total_bytes :=
                       u64_saturating_add (rt_filtered_total_bytes rt) (length filtered_data)\<rparr>
        in if 0 < meaningful_len
           then rt1\<lparr>rt_last_total_bytes := u64_saturating_add (rt_last_total_bytes rt) meaningful_len,
                    rt_last_output_epoch := Some now\<rparr>
           else rt1)"

text \<open>Titles and colours the program sets.\<close>

definition apply_terminal_title :: "bytes \<Rightarrow> ('e, 'j) SessionRuntime \<Rightarrow> bool \<times> ('e, 'j) SessionRuntime" where
  "apply_terminal_title payload rt =
     (if rt_title_user_set rt then (False, rt)
      else
        let trimmed = trim_chars (lossy_chars payload);
            title = concat (take MAX_SESSION_TITLE_LEN trimmed)
        in if trimmed = [] then (False, rt)
           else if sm_title (rt_meta rt) = Some title then (False, rt)
           else (True, rt\<lparr>rt_meta := (rt_meta rt)\<lparr>sm_title := Some title\<rparr>\<rparr>))"

definition apply_terminal_colors ::
  "TerminalSignals \<Rightarrow> ('e, 'j) SessionRuntime \<Rightarrow> bool \<times> ('e, 'j) SessionRuntime" where
  "apply_terminal_colors signals rt =
     (let foreground = map_option from_utf8_lossy (ts_foreground signals);
          background = map_option from_utf8_lossy (ts_background signals);
          m = rt_meta rt
      in (sm_foreground_color m \<noteq> foreground \<or> sm_background_color m \<noteq> background,
          rt\<lparr>rt_meta := m\<lparr>sm_foreground_color := foreground, sm_background_color := background\<rparr>\<rparr>))"

definition publish_terminal_signals ::
  "TerminalSignals \<Rightarrow> ('e, 'j) SessionRuntime \<Rightarrow> bool \<times> ('e, 'j) SessionRuntime" where
  "publish_terminal_signals signals rt =
     (let (title_adopted, rt1) = (case signals_title signals of
                                    Some title \<Rightarrow> apply_terminal_title title rt | None \<Rightarrow> (False, rt));
          (colors_changed, rt2) = apply_terminal_colors signals rt1;
          old = ts_program_statuses (rt_terminal_signals rt2);
          status_changed = (old \<noteq> ts_program_statuses signals);
          rt3 = (if current old \<noteq> current (ts_program_statuses signals)
                 then rt2\<lparr>rt_notified_output_epoch := None\<rparr> else rt2)
      in (title_adopted \<or> colors_changed \<or> status_changed, rt3\<lparr>rt_terminal_signals := signals\<rparr>))"

definition attach_snapshot_bytes :: "'e engine_ops \<Rightarrow> ('e, 'j) SessionRuntime \<Rightarrow> bytes" where
  "attach_snapshot_bytes E rt =
     (if em_alt_screen (en_modes E (rt_engine rt)) then [0x1b] @ ascii ''[?1049h'' else [])
     @ en_snapshot_stream E (rt_engine rt) @ restore_bytes (rt_terminal_signals rt)"

section \<open>The end of a session\<close>

definition is_completed :: "('e, 'j) SessionRuntime \<Rightarrow> bool" where
  "is_completed rt \<longleftrightarrow> sm_status (rt_meta rt) \<in> {StStopped, StKilled, StFailed}"

definition show_i32 :: "int \<Rightarrow> bytes" where
  "show_i32 n = ascii (if n < 0 then CHR ''-'' # show_dec (nat (- n)) else show_dec (nat n))"

definition journal_terminal_end ::
  "'j journal_ops \<Rightarrow> LifecycleCode \<Rightarrow> int option \<Rightarrow> bytes \<Rightarrow> ('e, 'j) SessionRuntime \<Rightarrow> ('e, 'j) SessionRuntime" where
  "journal_terminal_end J code exit_code detail rt =
     (let rt1 = journal_lifecycle J code exit_code detail rt
      in rt1\<lparr>rt_journal := map_option (jo_request_sync J) (rt_journal rt1)\<rparr>)"

definition queue_journal_completion ::
  "'j journal_ops \<Rightarrow> LifecycleCode \<Rightarrow> int option \<Rightarrow> bytes \<Rightarrow> ('e, 'j) SessionRuntime \<Rightarrow> ('e, 'j) SessionRuntime" where
  "queue_journal_completion J code exit_code detail rt =
     (if rt_output_closed rt then journal_terminal_end J code exit_code detail rt
      else rt\<lparr>rt_pending_journal_completion := Some (code, exit_code, detail)\<rparr>)"

text \<open>\<open>teardown_pty\<close> on a platform other than Windows.\<close>

definition teardown_pty :: "('e, 'j) SessionRuntime \<Rightarrow> ('e, 'j) SessionRuntime" where
  "teardown_pty rt = rt\<lparr>rt_pty := (rt_pty rt)\<lparr>ph_writer_open := False, ph_master := False\<rparr>\<rparr>"

definition completion_detail :: "SessionStatus \<Rightarrow> int option \<Rightarrow> bytes" where
  "completion_detail status exit_code =
     (case status of
        StStopped \<Rightarrow> ascii ''session stopped exit_code='' @ show_i32 (case exit_code of Some c \<Rightarrow> c | None \<Rightarrow> 0)
      | StKilled \<Rightarrow> ascii ''session killed exit_code='' @ show_i32 (case exit_code of Some c \<Rightarrow> c | None \<Rightarrow> -1)
      | StFailed \<Rightarrow> ascii ''session failed exit_code='' @ show_i32 (case exit_code of Some c \<Rightarrow> c | None \<Rightarrow> -1)
      | other \<Rightarrow> ascii ''session ended status='' @ SessionStatus_as_str other)"

definition completion_code :: "SessionStatus \<Rightarrow> LifecycleCode option" where
  "completion_code status =
     (case status of StStopped \<Rightarrow> Some Stopped | StKilled \<Rightarrow> Some Killed | StFailed \<Rightarrow> Some Failed | _ \<Rightarrow> None)"

definition mark_completed ::
  "'j journal_ops \<Rightarrow> nat \<Rightarrow> SessionStatus \<Rightarrow> int option \<Rightarrow> ('e, 'j) SessionRuntime \<Rightarrow> ('e, 'j) SessionRuntime" where
  "mark_completed J now status exit_code rt =
     (let m = rt_meta rt;
          newly_ended = (sm_ended_at m = None);
          m1 = m\<lparr>sm_ended_at := (if newly_ended then Some now else sm_ended_at m), sm_status := status,
                 sm_exit_code := (case exit_code of Some c \<Rightarrow> Some c | None \<Rightarrow> sm_exit_code m)\<rparr>;
          rt1 = rt\<lparr>rt_meta := m1, rt_requested_final_status := None,
                   rt_completed_at := (if rt_completed_at rt = None then Some now else rt_completed_at rt)\<rparr>;
          rt2 = teardown_pty rt1
      in if newly_ended then
           (case completion_code status of
              Some code \<Rightarrow>
                queue_journal_completion J code exit_code (completion_detail status (sm_exit_code m1)) rt2
            | None \<Rightarrow> rt2)
         else rt2)"

datatype wait_result = Exited int | StillRunning | WaitFailed

definition refresh_status ::
  "'j journal_ops \<Rightarrow> nat \<Rightarrow> wait_result \<Rightarrow> ('e, 'j) SessionRuntime \<Rightarrow> bool \<times> ('e, 'j) SessionRuntime" where
  "refresh_status J now wait rt0 =
     (let rt = rt0\<lparr>rt_journal := map_option (jo_poll_acks J) (rt_journal rt0)\<rparr> in
      if is_completed rt then
        (True, rt\<lparr>rt_completed_at := (if rt_completed_at rt = None then Some now else rt_completed_at rt)\<rparr>)
      else case wait of
        Exited code \<Rightarrow>
          let status = (case rt_requested_final_status rt of
                          Some st \<Rightarrow> st | None \<Rightarrow> if code = 0 then StStopped else StFailed)
          in (True, mark_completed J now status (Some code) rt)
      | StillRunning \<Rightarrow>
          (False, if sm_status (rt_meta rt) = StStopping then rt
                  else rt\<lparr>rt_meta := (rt_meta rt)\<lparr>sm_status := StRunning\<rparr>\<rparr>)
      | WaitFailed \<Rightarrow> (True, mark_completed J now StFailed None rt))"

definition close_output_stream_at_boundary ::
  "'e engine_ops \<Rightarrow> 'j journal_ops \<Rightarrow> nat \<Rightarrow> bytes \<Rightarrow> bool \<Rightarrow> ('e, 'j) SessionRuntime \<Rightarrow> ('e, 'j) SessionRuntime" where
  "close_output_stream_at_boundary E J now detail scanner_idle rt =
     (if rt_output_closed rt then rt
      else
        let sig = rt_terminal_signals rt;
            rt1 = rt\<lparr>rt_output_closed := True,
                     rt_terminal_signals :=
                       sig\<lparr>ts_program_statuses := snd (drop_transient now (ts_program_statuses sig))\<rparr>\<rparr>;
            rt2 = journal_lifecycle J OutputClosed None detail rt1;
            rt3 = journal_checkpoint E J scanner_idle rt2
        in case rt_pending_journal_completion rt3 of
             Some (code, exit_code, completion) \<Rightarrow>
               journal_terminal_end J code exit_code completion (rt3\<lparr>rt_pending_journal_completion := None\<rparr>)
           | None \<Rightarrow> rt3)"

section \<open>Geometry and attachments\<close>

text \<open>\<open>os_ok\<close> is what the operating system's resize answers.\<close>

definition resize_pty ::
  "'e engine_ops \<Rightarrow> 'j journal_ops \<Rightarrow> bool \<Rightarrow> nat \<Rightarrow> nat \<Rightarrow> ('e, 'j) SessionRuntime
     \<Rightarrow> bool \<times> ('e, 'j) SessionRuntime" where
  "resize_pty E J os_ok rows cols rt =
     (if rows = 0 \<or> cols = 0 then (False, rt)
      else if rt_pty_size rt = Some (rows, cols) then (True, rt)
      else if \<not> (ph_master (rt_pty rt) \<and> os_ok) then (False, rt)
      else
        let rt1 = rt\<lparr>rt_pty_size := Some (rows, cols), rt_engine := en_resize E rows cols (rt_engine rt),
                     rt_resize_history := rt_resize_history rt
                       @ [\<lparr>lr_offset = rt_filtered_total_bytes rt, lr_rows = rows, lr_cols = cols\<rparr>]\<rparr>;
            rt2 = journal_resize J rows cols rt1
        in (True, rt2\<lparr>rt_resize_tx := rt_resize_tx rt2 @ [(rows, cols)]\<rparr>))"

definition register_attachment ::
  "'e engine_ops \<Rightarrow> 'j journal_ops \<Rightarrow> nat \<Rightarrow> bool \<Rightarrow> AttachKind \<Rightarrow> AttachRole \<Rightarrow> (nat \<times> nat) option
     \<Rightarrow> ('e, 'j) SessionRuntime \<Rightarrow> (nat \<times> AttachRole \<times> bool) \<times> ('e, 'j) SessionRuntime" where
  "register_attachment E J now os_ok kind role viewport rt =
     (case register now kind role viewport (rt_attachments rt) of ((i, granted), g) \<Rightarrow>
        let rt1 = rt\<lparr>rt_last_attach_activity_at := Some now, rt_attachments := g\<rparr>
        in case viewport of
             Some (rows, cols) \<Rightarrow>
               if granted = Controller \<and> 0 < rows \<and> 0 < cols
               then (case resize_pty E J os_ok rows cols rt1 of (applied, rt2) \<Rightarrow> ((i, granted, applied), rt2))
               else ((i, granted, False), rt1)
           | None \<Rightarrow> ((i, granted, False), rt1))"

definition mark_attach_activity :: "nat \<Rightarrow> ('e, 'j) SessionRuntime \<Rightarrow> ('e, 'j) SessionRuntime" where
  "mark_attach_activity now rt = rt\<lparr>rt_last_attach_activity_at := Some now\<rparr>"

definition unregister_attachment :: "nat \<Rightarrow> ('e, 'j) SessionRuntime \<Rightarrow> ('e, 'j) SessionRuntime" where
  "unregister_attachment i rt = rt\<lparr>rt_attachments := snd (unregister i (rt_attachments rt))\<rparr>"

definition set_notifications_enabled :: "bool \<Rightarrow> ('e, 'j) SessionRuntime \<Rightarrow> ('e, 'j) SessionRuntime" where
  "set_notifications_enabled enabled rt =
     (if rt_notifications_enabled rt = enabled then rt
      else rt\<lparr>rt_notifications_enabled := enabled,
              rt_meta := (rt_meta rt)\<lparr>sm_notifications_enabled := enabled\<rparr>\<rparr>)"

section \<open>Attention\<close>

definition effective_output_epoch :: "('e, 'j) SessionRuntime \<Rightarrow> nat" where
  "effective_output_epoch rt =
     (let sts = ts_program_statuses (rt_terminal_signals rt);
          or_spawned = (\<lambda>t. case t of Some x \<Rightarrow> x | None \<Rightarrow> rt_spawned_at rt)
      in if current sts \<noteq> None then or_spawned (sts_changed_at sts) else or_spawned (rt_last_output_epoch rt))"

definition user_activity_epoch :: "('e, 'j) SessionRuntime \<Rightarrow> nat option" where
  "user_activity_epoch rt =
     (case (rt_last_input_at rt, rt_last_attach_activity_at rt) of
        (Some i, Some a) \<Rightarrow> Some (max i a)
      | (Some i, None) \<Rightarrow> Some i
      | (None, a) \<Rightarrow> a)"

definition input_needed :: "('e, 'j) SessionRuntime \<Rightarrow> bool" where
  "input_needed rt =
     (if sm_status (rt_meta rt) \<noteq> StRunning then False
      else case current (ts_program_statuses (rt_terminal_signals rt)) of
        Some r \<Rightarrow> st_state r \<in> {Idle, Done, Blocked, ErrorState}
      | None \<Rightarrow> rt_notified_output_epoch rt = Some (effective_output_epoch rt))"

section \<open>The reader thread\<close>

record SequencedChunk =
  sq_offset :: nat
  sq_bytes :: bytes

datatype reader_phase = Reading | Closing bytes | ReaderStopped

text \<open>The session: the runtime behind its lock, the reader thread's scanner and place in its loop,
  what it has broadcast, and the replies it has queued for the program.\<close>

record ('e, 'j) session =
  se_runtime :: "('e, 'j) SessionRuntime"
  se_scanner :: PtyScanner
  se_reader :: reader_phase
  se_broadcast :: "SequencedChunk list"
  se_replies :: "bytes list"

text \<open>The section under the write lock for one chunk: the engine's responses, the offset of the
  chunk, whether the journal has failed, and the runtime.\<close>

definition reader_locked ::
  "'e engine_ops \<Rightarrow> 'j journal_ops \<Rightarrow> nat \<Rightarrow> bytes \<Rightarrow> ScanOut \<Rightarrow> TerminalSignals option \<Rightarrow> bool
     \<Rightarrow> ('e, 'j) SessionRuntime \<Rightarrow> (bytes list \<times> nat \<times> bool) \<times> ('e, 'j) SessionRuntime" where
  "reader_locked E J now data out changed_signals idle rt =
     (let rt1 = journal_output J data rt;
          (responses, rt2) = feed_engine E data rt1;
          rt3 = (case changed_signals of Some sig \<Rightarrow> snd (publish_terminal_signals sig rt2) | None \<Rightarrow> rt2);
          rt4 = push_output now (out_filtered out) (meaningful_bytes out) rt3;
          chunk_offset = rt_filtered_total_bytes rt4 - length (out_filtered out);
          rt5 = journal_modes_if_changed J rt4;
          rt6 = journal_checkpoint_if_due E J idle rt5
      in ((responses, chunk_offset, rt_journal_failed rt6),
          if rt_journal_failed rt6
          then rt6\<lparr>rt_requested_final_status := Some StFailed,
                   rt_pty := (rt_pty rt6)\<lparr>ph_kills := Suc (ph_kills (rt_pty rt6))\<rparr>\<rparr>
          else rt6))"

text \<open>One read of \<open>data\<close>. Replies the program's closed input no longer takes are dropped by the
  writer; the model lists them all.\<close>

definition reader_chunk ::
  "base64 \<Rightarrow> bool \<Rightarrow> 'e engine_ops \<Rightarrow> 'j journal_ops \<Rightarrow> nat \<Rightarrow> bytes \<Rightarrow> ('e, 'j) session \<Rightarrow> ('e, 'j) session" where
  "reader_chunk b64 bare E J now data s =
     (let (sc1, out) = pty_scan b64 bare now (se_scanner s) data;
          (changed, sc) = take_changed_signals sc1;
          ((responses, offset, failed), rt) = reader_locked E J now data out changed (is_idle sc) (se_runtime s);
          s1 = s\<lparr>se_runtime := rt, se_scanner := sc\<rparr>
      in if failed then s1\<lparr>se_reader := Closing (ascii ''journal failed; stopping session (ADR-0006)'')\<rparr>
         else s1\<lparr>se_broadcast := se_broadcast s @ (if out_filtered out = [] then []
                                     else [\<lparr>sq_offset = offset, sq_bytes = out_filtered out\<rparr>]),
                 se_replies := se_replies s @ out_responses out @ responses\<rparr>)"

definition reader_close ::
  "'e engine_ops \<Rightarrow> 'j journal_ops \<Rightarrow> nat \<Rightarrow> ('e, 'j) session \<Rightarrow> ('e, 'j) session" where
  "reader_close E J now s =
     (case se_reader s of
        Closing detail \<Rightarrow>
          s\<lparr>se_runtime := close_output_stream_at_boundary E J now detail (is_idle (se_scanner s)) (se_runtime s),
            se_reader := ReaderStopped\<rparr>
      | _ \<Rightarrow> s)"

text \<open>The runtime as \<open>spawn_session\<close> leaves it: the journal holds the first geometry and the start.\<close>

definition spawn_journal :: "'j journal_ops \<Rightarrow> nat \<Rightarrow> nat \<Rightarrow> bytes \<Rightarrow> 'j \<Rightarrow> 'j" where
  "spawn_journal J rows cols pid_text j =
     snd (jo_record J Lifecycle
            (encode_lifecycle_payload Started None (ascii ''session started pid='' @ pid_text))
            (snd (jo_record J Resize (encode_resize_payload rows cols) j)))"

definition runtime_new ::
  "'j journal_ops \<Rightarrow> SessionMeta \<Rightarrow> nat \<Rightarrow> nat \<Rightarrow> nat \<Rightarrow> nat \<Rightarrow> bool \<Rightarrow> 'e \<Rightarrow> bytes \<Rightarrow> 'j \<Rightarrow> ('e, 'j) SessionRuntime" where
  "runtime_new J meta now rows cols scrollback notifications engine pid_text j =
     \<lparr>rt_meta = meta\<lparr>sm_notifications_enabled := notifications\<rparr>, rt_resize_tx = [],
      rt_pty = \<lparr>ph_writer_open = True, ph_queue = [], ph_master = True, ph_kills = 0\<rparr>,
      rt_pty_size = Some (rows, cols),
      rt_resize_history = [\<lparr>lr_offset = 0, lr_rows = rows, lr_cols = cols\<rparr>],
      rt_completed_at = None, rt_persisted = False, rt_requested_final_status = None, rt_filtered_total_bytes = 0,
      rt_last_total_bytes = 0, rt_spawned_at = now, rt_last_output_epoch = None, rt_last_input_at = None,
      rt_last_attach_activity_at = None, rt_attachments = AttachmentRegistry_default,
      rt_last_notified_at = None, rt_notified_output_epoch = None, rt_engine = engine, rt_screen_scrollback_rows = scrollback,
      rt_terminal_signals = no_signals, rt_title_user_set = (sm_title meta \<noteq> None), rt_shared_modes = 0,
      rt_output_closed = False, rt_resume_scanned = False, rt_pending_journal_completion = None, rt_last_journal_checkpoint_at = 0,
      rt_journaled_modes = None, rt_notifications_enabled = notifications,
      rt_journal = Some (spawn_journal J rows cols pid_text j), rt_journal_failed = False\<rparr>"

definition session_new :: "('e, 'j) SessionRuntime \<Rightarrow> ('e, 'j) session" where
  "session_new rt =
     \<lparr>se_runtime = rt, se_scanner = PtyScanner_new, se_reader = Reading, se_broadcast = [], se_replies = []\<rparr>"

section \<open>Interleavings\<close>

text \<open>What the reader thread and the threads that hold the runtime's lock can do, in any order.\<close>

abbreviation on_runtime ::
  "(('e, 'j) SessionRuntime \<Rightarrow> ('e, 'j) SessionRuntime) \<Rightarrow> ('e, 'j) session \<Rightarrow> ('e, 'j) session" where
  "on_runtime f s \<equiv> s\<lparr>se_runtime := f (se_runtime s)\<rparr>"

text \<open>What a run leaves behind: the journal, the geometry and the end; and the stream's length. Whatever else
  the session store keeps in a runtime (input, statuses, marks of notifications, credits, metadata) it
  may change at any time.\<close>

definition facts_view where
  "facts_view rt = (rt_journal rt, rt_journal_failed rt, rt_resize_history rt, rt_output_closed rt,
     rt_pending_journal_completion rt, sm_ended_at (rt_meta rt))"

inductive session_step ::
  "base64 \<Rightarrow> bool \<Rightarrow> 'e engine_ops \<Rightarrow> 'j journal_ops \<Rightarrow> ('e, 'j) session \<Rightarrow> ('e, 'j) session \<Rightarrow> bool"
  for b64 bare E J where
  chunk: "se_reader s = Reading \<Longrightarrow> data \<noteq> [] \<Longrightarrow>
     session_step b64 bare E J s (reader_chunk b64 bare E J now data s)"
| eof: "se_reader s = Reading \<Longrightarrow>
     session_step b64 bare E J s (s\<lparr>se_reader := Closing (ascii ''pty output closed (eof)'')\<rparr>)"
| read_error: "se_reader s = Reading \<Longrightarrow>
     session_step b64 bare E J s (s\<lparr>se_reader := Closing (ascii ''pty read error: '' @ err)\<rparr>)"
| close: "session_step b64 bare E J s (reader_close E J now s)"
| resize: "rows < 2 ^ 16 \<Longrightarrow> cols < 2 ^ 16 \<Longrightarrow>
     session_step b64 bare E J s (on_runtime (\<lambda>rt. snd (resize_pty E J os_ok rows cols rt)) s)"
| attach: "pred_option (\<lambda>(rows, cols). rows < 2 ^ 16 \<and> cols < 2 ^ 16) viewport \<Longrightarrow>
     session_step b64 bare E J s
       (on_runtime (\<lambda>rt. snd (register_attachment E J now os_ok kind role viewport rt)) s)"
| detach: "session_step b64 bare E J s (on_runtime (unregister_attachment i) s)"
| activity: "session_step b64 bare E J s (on_runtime (mark_attach_activity now) s)"
| notifications: "session_step b64 bare E J s (on_runtime (set_notifications_enabled enabled) s)"
| refresh: "session_step b64 bare E J s (on_runtime (\<lambda>rt. snd (refresh_status J now wait rt)) s)"
| complete: "session_step b64 bare E J s (on_runtime (mark_completed J now status exit_code) s)"
| poll: "session_step b64 bare E J s
     (on_runtime (\<lambda>rt. rt\<lparr>rt_journal := map_option (jo_poll_acks J) (rt_journal rt)\<rparr>) s)"
| sync: "session_step b64 bare E J s
     (on_runtime (\<lambda>rt. rt\<lparr>rt_journal := map_option (jo_request_sync J) (rt_journal rt)\<rparr>) s)"
| bookkeeping: "facts_view rt' = facts_view (se_runtime s) \<Longrightarrow>
     rt_filtered_total_bytes rt' = rt_filtered_total_bytes (se_runtime s) \<Longrightarrow>
     session_step b64 bare E J s (s\<lparr>se_runtime := rt'\<rparr>)"

inductive session_run ::
  "base64 \<Rightarrow> bool \<Rightarrow> 'e engine_ops \<Rightarrow> 'j journal_ops \<Rightarrow> ('e, 'j) session \<Rightarrow> ('e, 'j) session \<Rightarrow> bool"
  for b64 bare E J s where
  here: "session_run b64 bare E J s s"
| further: "session_run b64 bare E J s t \<Longrightarrow> session_step b64 bare E J t u \<Longrightarrow> session_run b64 bare E J s u"

end
