(* ===== verification/Session_Facts.thy ===== *)
theory Session_Facts
  imports Session_Runtime
begin

text \<open>
  What holds of every run of a session: the interface the runtime needs from its journal, as a
  locale, and inside it the invariants of the interleaved reader thread and runtime operations. The
  journal's records, the display clients see and the broadcast agree, checkpoints are honest, and
  the lifecycle facts are in order. The locale is interpreted with the shadow journal.
\<close>

section \<open>What the runtime relies on\<close>

text \<open>The interface of the session's journal: \<open>jlog\<close> lists the records it has numbered. A record is
  numbered and accepted, or it is refused, before or after it got its number, and then the journal is
  degraded for good.\<close>

locale session_journal =
  fixes J :: "'j journal_ops" and jlog :: "'j \<Rightarrow> Record list"
  assumes record_ok: "jo_record J kind payload j = (Inr c, j') \<Longrightarrow>
      \<not> jo_is_degraded J j \<and> \<not> jo_is_degraded J j'
      \<and> (\<exists>r. jlog j' = jlog j @ [r] \<and> rec_kind r = kind \<and> rec_payload r = payload)"
    and record_err: "jo_record J kind payload j = (Inl err, j') \<Longrightarrow>
      jo_is_degraded J j'
      \<and> (jlog j' = jlog j
         \<or> \<not> jo_is_degraded J j
           \<and> (\<exists>r. jlog j' = jlog j @ [r] \<and> rec_kind r = kind \<and> rec_payload r = payload))"
    and poll_acks: "jlog (jo_poll_acks J j) = jlog j"
      "jo_is_degraded J j \<Longrightarrow> jo_is_degraded J (jo_poll_acks J j)"
    and request_sync: "jlog (jo_request_sync J j) = jlog j"
      "jo_is_degraded J (jo_request_sync J j) = jo_is_degraded J j"

text \<open>The facts of a record that its place in the journal does not determine.\<close>

abbreviation fact_of :: "Record \<Rightarrow> RecordKind \<times> bytes" where
  "fact_of r \<equiv> (rec_kind r, rec_payload r)"

definition fact_record :: "RecordKind \<times> bytes \<Rightarrow> Record" where
  "fact_record f = \<lparr>rec_kind = fst f, rec_seq = 0, rec_elapsed_ms = 0, rec_payload = snd f\<rparr>"

lemma fact_record_simps [simp]:
  "rec_kind (fact_record f) = fst f" "rec_payload (fact_record f) = snd f"
  by (simp_all add: fact_record_def)

lemma display_facts: "display bare p (map fact_record (map fact_of rs)) = display bare p rs"
  by (induction rs arbitrary: p) (simp_all split: prod.splits)

lemma resizes_facts: "resizes bare p pos (map fact_record (map fact_of rs)) = resizes bare p pos rs"
  by (induction rs arbitrary: p pos) (simp_all split: prod.splits option.splits)

lemma honest_facts: "honest_checkpoints bare p pos (map fact_record (map fact_of rs)) = honest_checkpoints bare p pos rs"
  by (induction rs arbitrary: p pos) (simp_all add: anchors_record_def anchor_of_def split: prod.splits)

text \<open>\<open>requested J jlog fs j j'\<close>: between \<open>j\<close> and \<open>j'\<close> the facts \<open>fs\<close> were offered. All of them were
  numbered, or the journal is degraded and only the first of them were.\<close>

definition requested ::
  "'j journal_ops \<Rightarrow> ('j \<Rightarrow> Record list) \<Rightarrow> (RecordKind \<times> bytes) list \<Rightarrow> 'j \<Rightarrow> 'j \<Rightarrow> bool" where
  "requested J jlog fs j j' \<longleftrightarrow>
     (\<exists>rs n. jlog j' = jlog j @ rs \<and> map fact_of rs = take n fs
        \<and> (jo_is_degraded J j \<longrightarrow> rs = [] \<and> jo_is_degraded J j')
        \<and> (\<not> jo_is_degraded J j' \<longrightarrow> map fact_of rs = fs))"

lemma requested_refl [simp]: "requested J jlog [] j j"
  by (simp add: requested_def)

lemma requested_trans:
  assumes "requested J jlog fs j j1" and "requested J jlog gs j1 j2"
  shows "requested J jlog (fs @ gs) j j2"
proof -
  from assms(1) obtain rs n where a: "jlog j1 = jlog j @ rs" "map fact_of rs = take n fs"
    "jo_is_degraded J j \<longrightarrow> rs = [] \<and> jo_is_degraded J j1" "\<not> jo_is_degraded J j1 \<longrightarrow> map fact_of rs = fs"
    unfolding requested_def by blast
  from assms(2) obtain ts m where b: "jlog j2 = jlog j1 @ ts" "map fact_of ts = take m gs"
    "jo_is_degraded J j1 \<longrightarrow> ts = [] \<and> jo_is_degraded J j2" "\<not> jo_is_degraded J j2 \<longrightarrow> map fact_of ts = gs"
    unfolding requested_def by blast
  show ?thesis
  proof (cases "jo_is_degraded J j1")
    case True
    with a b have "jlog j2 = jlog j @ rs" "map fact_of rs = take (min n (length fs)) (fs @ gs)" "jo_is_degraded J j2"
      by (simp_all add: min_def)
    with a(3) show ?thesis unfolding requested_def by blast
  next
    case False
    with a b have "jlog j2 = jlog j @ rs @ ts" "map fact_of (rs @ ts) = take (length fs + m) (fs @ gs)"
      by simp_all
    with a(3,4) b(4) False show ?thesis unfolding requested_def
      by (intro exI [of _ "rs @ ts"] exI [of _ "length fs + m"]) auto
  qed
qed

context session_journal
begin

lemma requested_record:
  assumes "jo_record J kind payload j = (result, j')"
  shows "requested J jlog [(kind, payload)] j j'
     \<and> ((\<exists>err. result = Inl err) \<longleftrightarrow> jo_is_degraded J j')"
proof (cases result)
  case (Inl err)
  with record_err assms have deg: "jo_is_degraded J j'" by blast
  from Inl record_err assms consider "jlog j' = jlog j"
    | r where "\<not> jo_is_degraded J j" "jlog j' = jlog j @ [r]" "fact_of r = (kind, payload)" by blast
  then show ?thesis
  proof cases
    case 1
    with Inl deg show ?thesis
      unfolding requested_def by (intro conjI exI [of _ "[]"] exI [of _ "0 :: nat"]) auto
  next
    case 2
    with Inl deg show ?thesis
      unfolding requested_def by (intro conjI exI [of _ "[r]"] exI [of _ "1 :: nat"]) auto
  qed
next
  case (Inr c)
  with record_ok assms obtain r where "\<not> jo_is_degraded J j" "\<not> jo_is_degraded J j'"
    "jlog j' = jlog j @ [r]" "fact_of r = (kind, payload)" by blast
  with Inr show ?thesis
    unfolding requested_def by (intro conjI exI [of _ "[r]"] exI [of _ "1 :: nat"]) auto
qed

lemma journal_event_record:
  assumes "rt_journal rt = Some j"
  shows "\<exists>j' failed. journal_event J (jo_record J kind payload) rt
       = rt\<lparr>rt_journal := Some j', rt_journal_failed := failed\<rparr>
     \<and> requested J jlog [(kind, payload)] j j'
     \<and> (failed \<longleftrightarrow> rt_journal_failed rt \<or> jo_is_degraded J j' \<and> \<not> jo_is_degraded J j)"
proof -
  obtain result j' where c: "jo_record J kind payload j = (result, j')" by (rule prod.exhaust)
  with requested_record [OF c] assms show ?thesis
    unfolding journal_event_def by (intro exI [of _ j']) simp
qed

end

text \<open>What offering facts does to the log.\<close>

lemma requested_log:
  assumes "requested J jlog fs j j'" and "\<not> jo_is_degraded J j'"
  shows "\<not> jo_is_degraded J j \<and> map fact_of (jlog j') = map fact_of (jlog j) @ fs"
  using assms unfolding requested_def by auto

lemma requested_prefix:
  assumes "requested J jlog fs j j'"
  shows "\<exists>n. map fact_of (jlog j') = map fact_of (jlog j) @ take n fs
     \<and> (jo_is_degraded J j \<longrightarrow> jlog j' = jlog j \<and> jo_is_degraded J j')"
  using assms unfolding requested_def by auto

text \<open>A property of a log that only depends on its facts and that its prefixes inherit.\<close>

lemma requested_keeps:
  assumes "requested J jlog fs j j'"
    and "\<And>a b. map fact_of a = map fact_of b \<Longrightarrow> P a \<Longrightarrow> P b" and "\<And>a b. P (a @ b) \<Longrightarrow> P a"
    and "P (jlog j)" and "\<not> jo_is_degraded J j \<Longrightarrow> P (jlog j @ map fact_record fs)"
  shows "P (jlog j')"
proof (cases "jo_is_degraded J j")
  case True
  with requested_prefix [OF assms(1)] assms(4) show ?thesis by auto
next
  case False
  from requested_prefix [OF assms(1)] obtain n where n: "map fact_of (jlog j') = map fact_of (jlog j) @ take n fs"
    by blast
  have "jlog j @ map fact_record fs = (jlog j @ map fact_record (take n fs)) @ map fact_record (drop n fs)"
    by (simp add: map_append [symmetric] del: map_append)
  with assms(3,5) False have "P (jlog j @ map fact_record (take n fs))" by metis
  moreover have "map fact_of (jlog j @ map fact_record (take n fs)) = map fact_of (jlog j')"
    by (simp add: n o_def)
  ultimately show ?thesis using assms(2) by blast
qed

text \<open>Offering facts from one runtime to the next, with the fail-loud flag.\<close>

definition effect ::
  "'j journal_ops \<Rightarrow> ('j \<Rightarrow> Record list) \<Rightarrow> (RecordKind \<times> bytes) list
     \<Rightarrow> ('e, 'j) SessionRuntime \<Rightarrow> ('e, 'j) SessionRuntime \<Rightarrow> bool" where
  "effect J jlog fs rt rt' \<longleftrightarrow>
     (\<forall>j. rt_journal rt = Some j \<longrightarrow>
        (\<exists>j'. rt_journal rt' = Some j' \<and> requested J jlog fs j j'
           \<and> (rt_journal_failed rt' \<longrightarrow> rt_journal_failed rt \<or> jo_is_degraded J j')
           \<and> (jo_is_degraded J j \<longrightarrow> rt_journal_failed rt' = rt_journal_failed rt)))"

lemma effect_none:
  "rt_journal rt' = rt_journal rt \<Longrightarrow> rt_journal_failed rt' = rt_journal_failed rt \<Longrightarrow> effect J jlog [] rt rt'"
  by (simp add: effect_def)

lemma requested_degraded: "requested J jlog fs j j' \<Longrightarrow> jo_is_degraded J j \<Longrightarrow> jo_is_degraded J j'"
  by (auto simp: requested_def)

lemma effect_trans:
  assumes "effect J jlog fs rt rt1" and "effect J jlog gs rt1 rt2"
  shows "effect J jlog (fs @ gs) rt rt2"
proof -
  have "\<exists>j'. rt_journal rt2 = Some j' \<and> requested J jlog (fs @ gs) j j'
      \<and> (rt_journal_failed rt2 \<longrightarrow> rt_journal_failed rt \<or> jo_is_degraded J j')
      \<and> (jo_is_degraded J j \<longrightarrow> rt_journal_failed rt2 = rt_journal_failed rt)"
    if j: "rt_journal rt = Some j" for j
  proof -
    from assms(1) j obtain j1 where a: "rt_journal rt1 = Some j1" "requested J jlog fs j j1"
      "rt_journal_failed rt1 \<longrightarrow> rt_journal_failed rt \<or> jo_is_degraded J j1"
      "jo_is_degraded J j \<longrightarrow> rt_journal_failed rt1 = rt_journal_failed rt" unfolding effect_def by blast
    from assms(2) a(1) obtain j2 where b: "rt_journal rt2 = Some j2" "requested J jlog gs j1 j2"
      "rt_journal_failed rt2 \<longrightarrow> rt_journal_failed rt1 \<or> jo_is_degraded J j2"
      "jo_is_degraded J j1 \<longrightarrow> rt_journal_failed rt2 = rt_journal_failed rt1" unfolding effect_def by blast
    from requested_trans [OF a(2) b(2)] b(1,3,4) a(3,4) requested_degraded [OF a(2)] requested_degraded [OF b(2)]
    show ?thesis by blast
  qed
  then show ?thesis unfolding effect_def by blast
qed

lemma effect_journal: "effect J jlog fs rt rt' \<Longrightarrow> rt_journal rt \<noteq> None \<Longrightarrow> rt_journal rt' \<noteq> None"
  by (auto simp: effect_def)

lemmas effect_then = effect_trans [of _ _ _ _ _ "[]", simplified]

lemma journal_event_fields [simp]:
  "rt_filtered_total_bytes (journal_event J call rt) = rt_filtered_total_bytes rt"
  "rt_resize_history (journal_event J call rt) = rt_resize_history rt"
  "rt_output_closed (journal_event J call rt) = rt_output_closed rt"
  "rt_pending_journal_completion (journal_event J call rt) = rt_pending_journal_completion rt"
  "rt_meta (journal_event J call rt) = rt_meta rt"
  "rt_journal (journal_event J call rt) = None \<longleftrightarrow> rt_journal rt = None"
  by (simp_all add: journal_event_def split: option.splits prod.splits)

lemma journal_calls_fields [simp]:
  "rt_filtered_total_bytes (journal_modes_if_changed J rt) = rt_filtered_total_bytes rt"
  "rt_resize_history (journal_modes_if_changed J rt) = rt_resize_history rt"
  "rt_output_closed (journal_modes_if_changed J rt) = rt_output_closed rt"
  "rt_pending_journal_completion (journal_modes_if_changed J rt) = rt_pending_journal_completion rt"
  "rt_meta (journal_modes_if_changed J rt) = rt_meta rt"
  "rt_filtered_total_bytes (journal_checkpoint E J b rt) = rt_filtered_total_bytes rt"
  "rt_resize_history (journal_checkpoint E J b rt) = rt_resize_history rt"
  "rt_output_closed (journal_checkpoint E J b rt) = rt_output_closed rt"
  "rt_pending_journal_completion (journal_checkpoint E J b rt) = rt_pending_journal_completion rt"
  "rt_meta (journal_checkpoint E J b rt) = rt_meta rt"
  "rt_filtered_total_bytes (journal_checkpoint_if_due E J b rt) = rt_filtered_total_bytes rt"
  "rt_resize_history (journal_checkpoint_if_due E J b rt) = rt_resize_history rt"
  "rt_output_closed (journal_checkpoint_if_due E J b rt) = rt_output_closed rt"
  "rt_pending_journal_completion (journal_checkpoint_if_due E J b rt) = rt_pending_journal_completion rt"
  "rt_meta (journal_checkpoint_if_due E J b rt) = rt_meta rt"
  by (simp_all add: journal_modes_if_changed_def journal_policy_def journal_checkpoint_def
      journal_checkpoint_if_due_def Let_def)

lemma modes_text_plain: "10 \<notin> set (modes_text m)"
  by (simp add: modes_text_def bit_text_def ascii_def)

lemma modes_key_plain: "ascii ''modes'' \<noteq> []" "61 \<notin> set (ascii ''modes'')" "10 \<notin> set (ascii ''modes'')"
  by (simp_all add: ascii_def)

context session_journal
begin

lemma effect_record: "effect J jlog [(kind, payload)] rt (journal_event J (jo_record J kind payload) rt)"
  using journal_event_record [of rt _ kind payload] unfolding effect_def by fastforce

lemma effect_output: "effect J jlog [(Output, data)] rt (journal_output J data rt)"
  unfolding journal_output_def by (rule effect_record)

lemma effect_lifecycle:
  "effect J jlog [(Lifecycle, encode_lifecycle_payload code exit_code detail)] rt
     (journal_lifecycle J code exit_code detail rt)"
  unfolding journal_lifecycle_def by (rule effect_record)

lemma effect_resize: "effect J jlog [(Resize, encode_resize_payload rows cols)] rt (journal_resize J rows cols rt)"
  unfolding journal_resize_def by (rule effect_record)

lemma effect_update:
  assumes "effect J jlog fs rt rt'" and "rt_journal rt'' = rt_journal rt'" and "rt_journal_failed rt'' = rt_journal_failed rt'"
  shows "effect J jlog fs rt rt''"
  using effect_trans [OF assms(1) effect_none [OF assms(2,3)]] by simp

lemma effect_from:
  assumes "effect J jlog fs rt rt'" and "rt_journal rt = rt_journal rt0" and "rt_journal_failed rt = rt_journal_failed rt0"
  shows "effect J jlog fs rt0 rt'"
  using assms unfolding effect_def by simp

lemma effect_modes: "\<exists>fs. (fs = [] \<or> (\<exists>v. fs = [(Policy, v)])) \<and> effect J jlog fs rt (journal_modes_if_changed J rt)"
proof (cases "rt_journaled_modes rt = Some (SharedModes_load (rt_shared_modes rt))")
  case True
  then show ?thesis by (intro exI [of _ "[]"]) (simp add: journal_modes_if_changed_def effect_none)
next
  case False
  let ?v = "policy_payload (ascii ''modes'') (modes_text (SharedModes_load (rt_shared_modes rt)))"
  have "effect J jlog [(Policy, ?v)] rt (journal_policy J (ascii ''modes'') (modes_text (SharedModes_load (rt_shared_modes rt))) rt)"
    using effect_record [of Policy ?v rt] modes_key_plain modes_text_plain
    by (simp add: journal_policy_def)
  from effect_update [OF this] False show ?thesis
    by (intro exI [of _ "[(Policy, ?v)]"]) (simp add: journal_modes_if_changed_def Let_def)
qed

lemma effect_checkpoint:
  "rt_journal rt \<noteq> None \<Longrightarrow>
     effect J jlog [(CheckpointRef, encode_checkpoint (runtime_checkpoint E anchored rt))] rt
       (journal_checkpoint E J anchored rt)"
  using effect_update [OF effect_record [of CheckpointRef "encode_checkpoint (runtime_checkpoint E anchored rt)" rt]]
  by (auto simp: journal_checkpoint_def)

lemma effect_sync: "effect J jlog [] rt (rt\<lparr>rt_journal := map_option (jo_request_sync J) (rt_journal rt)\<rparr>)"
  using request_sync by (auto simp: effect_def requested_def)

lemma effect_poll: "effect J jlog [] rt (rt\<lparr>rt_journal := map_option (jo_poll_acks J) (rt_journal rt)\<rparr>)"
  using poll_acks by (auto simp: effect_def requested_def)

lemma effect_terminal_end:
  "effect J jlog [(Lifecycle, encode_lifecycle_payload code exit_code detail)] rt
     (journal_terminal_end J code exit_code detail rt)"
  using effect_trans [OF effect_lifecycle effect_sync] by (simp add: journal_terminal_end_def Let_def)

end

section \<open>The journal, the display and the broadcast agree\<close>

fun contiguous :: "nat \<Rightarrow> SequencedChunk list \<Rightarrow> bool" where
  "contiguous n [] \<longleftrightarrow> True"
| "contiguous n (c # cs) \<longleftrightarrow> sq_offset c = n \<and> contiguous (n + length (sq_bytes c)) cs"

lemma contiguous_append:
  "contiguous n (a @ b) \<longleftrightarrow> contiguous n a \<and> contiguous (n + length (concat (map sq_bytes a))) b"
  by (induction a arbitrary: n) (auto simp: add.assoc)

abbreviation broadcast_bytes :: "('e, 'j) session \<Rightarrow> bytes" where
  "broadcast_bytes s \<equiv> concat (map sq_bytes (se_broadcast s))"

text \<open>As long as the display fits 64 bits: checkpoints are honest; and while the journal is healthy,
  the journal's display is what was broadcast, the scanner holds what the journal leaves
  unfinished, the counter counts it, and the resize history is the journal's.\<close>

definition stream_inv :: "bool \<Rightarrow> 'j journal_ops \<Rightarrow> ('j \<Rightarrow> Record list) \<Rightarrow> ('e, 'j) session \<Rightarrow> bool" where
  "stream_inv bare J jlog s \<longleftrightarrow>
     (\<exists>j. rt_journal (se_runtime s) = Some j \<and>
       (rt_filtered_total_bytes (se_runtime s) < u64_max \<longrightarrow>
          honest_checkpoints bare [] 0 (jlog j) \<and>
          (\<not> jo_is_degraded J j \<longrightarrow>
             \<not> rt_journal_failed (se_runtime s)
             \<and> display bare [] (jlog j) = (pt_pending (se_scanner s), broadcast_bytes s)
             \<and> rt_filtered_total_bytes (se_runtime s) = length (broadcast_bytes s)
             \<and> rt_resize_history (se_runtime s) = resizes bare [] 0 (jlog j)
             \<and> contiguous 0 (se_broadcast s))))"

text \<open>Facts that leave the display and the resizes alone; a checkpoint carries the offset \<open>pos\<close> when
  the scanner is idle and none otherwise.\<close>

definition quiet_fact :: "bool \<Rightarrow> nat \<Rightarrow> RecordKind \<times> bytes \<Rightarrow> bool" where
  "quiet_fact idle pos f \<longleftrightarrow>
     (case f of (k, p) \<Rightarrow> k \<noteq> Output \<and> k \<noteq> Resize \<and>
        (k = CheckpointRef \<longrightarrow> (\<exists>c. p = encode_checkpoint c \<and> cp_filtered_offset c = (if idle then pos else 0))))"

lemma anchor_encode:
  assumes "cp_filtered_offset c < 2 ^ 64"
  shows "ca_filtered_offset (anchor_of i p e (fact_record (k, encode_checkpoint c))) = cp_filtered_offset c"
proof -
  have "slice 15 23 (encode_checkpoint c) = le_bytes 8 (cp_filtered_offset c)"
    by (simp add: encode_checkpoint_def CHECKPOINT_MAGIC_def ascii_def slice_def)
  then show ?thesis using assms by (simp add: anchor_of_def from_le_le_bytes)
qed

lemma quiet_log:
  assumes "list_all (quiet_fact idle pos) fs" and "pos < 2 ^ 64" and "idle \<longrightarrow> p = []"
  shows "display bare p (map fact_record fs) = (p, []) \<and> resizes bare p pos (map fact_record fs) = []
     \<and> honest_checkpoints bare p pos (map fact_record fs)"
  using assms(1)
proof (induction fs)
  case (Cons f fs)
  obtain k v where f: "f = (k, v)" by (cases f)
  with Cons have ih: "display bare p (map fact_record fs) = (p, [])" "resizes bare p pos (map fact_record fs) = []"
    "honest_checkpoints bare p pos (map fact_record fs)" and q: "quiet_fact idle pos (k, v)" by simp_all
  from q have k: "k \<noteq> Output" "k \<noteq> Resize" by (simp_all add: quiet_fact_def)
  have "ca_filtered_offset (anchor_of 0 0 0 (fact_record f)) = 0
      \<or> p = [] \<and> ca_filtered_offset (anchor_of 0 0 0 (fact_record f)) = pos" if "anchors_record (fact_record f)"
  proof -
    from that f q obtain c where "v = encode_checkpoint c" "cp_filtered_offset c = (if idle then pos else 0)"
      by (auto simp: anchors_record_def quiet_fact_def)
    with anchor_encode [of c 0 0 0 k] assms(2,3) f show ?thesis by (auto split: if_splits)
  qed
  with ih k f show ?case by (auto split: option.splits)
qed simp

context session_journal
begin

lemma honest_requested:
  assumes "requested J jlog fs j j'" and "honest_checkpoints bare [] 0 (jlog j)"
    and "\<not> jo_is_degraded J j \<Longrightarrow> honest_checkpoints bare [] 0 (jlog j @ map fact_record fs)"
  shows "honest_checkpoints bare [] 0 (jlog j')"
proof (rule requested_keeps [OF assms(1), where P = "honest_checkpoints bare [] 0"])
  fix a b :: "Record list"
  show "map fact_of a = map fact_of b \<Longrightarrow> honest_checkpoints bare [] 0 a \<Longrightarrow> honest_checkpoints bare [] 0 b"
    by (metis honest_facts)
  show "honest_checkpoints bare [] 0 (a @ b) \<Longrightarrow> honest_checkpoints bare [] 0 a" by (simp add: honest_append)
qed (use assms in simp_all)

lemma healthy_requested:
  assumes "requested J jlog fs j j'" and "\<not> jo_is_degraded J j'"
  shows "display bare [] (jlog j') = display bare [] (jlog j @ map fact_record fs)"
    and "resizes bare [] 0 (jlog j') = resizes bare [] 0 (jlog j @ map fact_record fs)"
proof -
  have eq: "map fact_of (jlog j') = map fact_of (jlog j @ map fact_record fs)"
    using requested_log [OF assms] by (simp add: o_def)
  show "display bare [] (jlog j') = display bare [] (jlog j @ map fact_record fs)"
    using arg_cong [OF eq, of "\<lambda>fs. display bare [] (map fact_record fs)"] by (simp only: display_facts)
  show "resizes bare [] 0 (jlog j') = resizes bare [] 0 (jlog j @ map fact_record fs)"
    using arg_cong [OF eq, of "\<lambda>fs. resizes bare [] 0 (map fact_record fs)"] by (simp only: resizes_facts)
qed

text \<open>A step that offers some facts: the general case, and the one of quiet facts.\<close>

lemma stream_step:
  assumes inv: "stream_inv bare J jlog s" and eff: "effect J jlog fs (se_runtime s) (se_runtime s')"
    and mono: "rt_filtered_total_bytes (se_runtime s) \<le> rt_filtered_total_bytes (se_runtime s')"
    and ok: "\<And>L. rt_filtered_total_bytes (se_runtime s') < u64_max \<Longrightarrow>
        display bare [] L = (pt_pending (se_scanner s), broadcast_bytes s) \<Longrightarrow>
        rt_filtered_total_bytes (se_runtime s) = length (broadcast_bytes s) \<Longrightarrow>
        rt_resize_history (se_runtime s) = resizes bare [] 0 L \<Longrightarrow> contiguous 0 (se_broadcast s) \<Longrightarrow>
        (honest_checkpoints bare [] 0 L \<longrightarrow> honest_checkpoints bare [] 0 (L @ map fact_record fs))
        \<and> (\<not> rt_journal_failed (se_runtime s') \<longrightarrow>
             display bare [] (L @ map fact_record fs) = (pt_pending (se_scanner s'), broadcast_bytes s')
             \<and> rt_filtered_total_bytes (se_runtime s') = length (broadcast_bytes s')
             \<and> rt_resize_history (se_runtime s') = resizes bare [] 0 (L @ map fact_record fs)
             \<and> contiguous 0 (se_broadcast s'))"
  shows "stream_inv bare J jlog s'"
proof -
  from inv obtain j where j: "rt_journal (se_runtime s) = Some j"
    and before: "rt_filtered_total_bytes (se_runtime s) < u64_max \<Longrightarrow> honest_checkpoints bare [] 0 (jlog j)"
      "rt_filtered_total_bytes (se_runtime s) < u64_max \<Longrightarrow> \<not> jo_is_degraded J j \<Longrightarrow>
        \<not> rt_journal_failed (se_runtime s)
        \<and> display bare [] (jlog j) = (pt_pending (se_scanner s), broadcast_bytes s)
        \<and> rt_filtered_total_bytes (se_runtime s) = length (broadcast_bytes s)
        \<and> rt_resize_history (se_runtime s) = resizes bare [] 0 (jlog j) \<and> contiguous 0 (se_broadcast s)"
    unfolding stream_inv_def by blast
  from eff j obtain j' where j': "rt_journal (se_runtime s') = Some j'" "requested J jlog fs j j'"
    "rt_journal_failed (se_runtime s') \<longrightarrow> rt_journal_failed (se_runtime s) \<or> jo_is_degraded J j'"
    unfolding effect_def by blast
  have "honest_checkpoints bare [] 0 (jlog j') \<and> (\<not> jo_is_degraded J j' \<longrightarrow>
      \<not> rt_journal_failed (se_runtime s')
      \<and> display bare [] (jlog j') = (pt_pending (se_scanner s'), broadcast_bytes s')
      \<and> rt_filtered_total_bytes (se_runtime s') = length (broadcast_bytes s')
      \<and> rt_resize_history (se_runtime s') = resizes bare [] 0 (jlog j') \<and> contiguous 0 (se_broadcast s'))"
    if small: "rt_filtered_total_bytes (se_runtime s') < u64_max"
  proof -
    have small0: "rt_filtered_total_bytes (se_runtime s) < u64_max" using small mono by linarith
    note b = before(1) [OF small0] before(2) [OF small0]
    have "honest_checkpoints bare [] 0 (jlog j')"
      using honest_requested [OF j'(2) b(1)] ok [OF small, of "jlog j"] b by blast
    moreover have "\<not> rt_journal_failed (se_runtime s')
      \<and> display bare [] (jlog j') = (pt_pending (se_scanner s'), broadcast_bytes s')
      \<and> rt_filtered_total_bytes (se_runtime s') = length (broadcast_bytes s')
      \<and> rt_resize_history (se_runtime s') = resizes bare [] 0 (jlog j') \<and> contiguous 0 (se_broadcast s')"
      if h: "\<not> jo_is_degraded J j'"
    proof -
      have "\<not> jo_is_degraded J j" using requested_log [OF j'(2) h] by blast
      note c = b(2) [OF this]
      with j'(3) h have nf: "\<not> rt_journal_failed (se_runtime s')" by blast
      with ok [OF small, of "jlog j"] c healthy_requested [OF j'(2) h, of bare] show ?thesis by simp
    qed
    ultimately show ?thesis by blast
  qed
  with j'(1) show ?thesis unfolding stream_inv_def by blast
qed

lemma stream_quiet:
  assumes inv: "stream_inv bare J jlog s" and eff: "effect J jlog fs (se_runtime s) (se_runtime s')"
    and same: "rt_filtered_total_bytes (se_runtime s') = rt_filtered_total_bytes (se_runtime s)"
      "rt_resize_history (se_runtime s') = rt_resize_history (se_runtime s)"
      "se_scanner s' = se_scanner s" "se_broadcast s' = se_broadcast s"
    and quiet: "list_all (quiet_fact (is_idle (se_scanner s)) (rt_filtered_total_bytes (se_runtime s))) fs"
  shows "stream_inv bare J jlog s'"
proof (rule stream_step [OF inv eff])
  show "rt_filtered_total_bytes (se_runtime s) \<le> rt_filtered_total_bytes (se_runtime s')" using same by simp
  fix L
  assume a: "rt_filtered_total_bytes (se_runtime s') < u64_max"
    "display bare [] L = (pt_pending (se_scanner s), broadcast_bytes s)"
    "rt_filtered_total_bytes (se_runtime s) = length (broadcast_bytes s)"
    "rt_resize_history (se_runtime s) = resizes bare [] 0 L" "contiguous 0 (se_broadcast s)"
  then have "rt_filtered_total_bytes (se_runtime s) < 2 ^ 64" using same(1) by (simp add: u64_max_def)
  from quiet_log [OF quiet this, of "pt_pending (se_scanner s)" bare] a same
  show "(honest_checkpoints bare [] 0 L \<longrightarrow> honest_checkpoints bare [] 0 (L @ map fact_record fs))
      \<and> (\<not> rt_journal_failed (se_runtime s') \<longrightarrow>
           display bare [] (L @ map fact_record fs) = (pt_pending (se_scanner s'), broadcast_bytes s')
           \<and> rt_filtered_total_bytes (se_runtime s') = length (broadcast_bytes s')
           \<and> rt_resize_history (se_runtime s') = resizes bare [] 0 (L @ map fact_record fs)
           \<and> contiguous 0 (se_broadcast s'))"
    by (simp add: display_append resizes_append honest_append is_idle_def)
qed

end

text \<open>The parts of a chunk that do not touch the journal.\<close>

lemma view_feed_engine: "facts_view (snd (feed_engine E raw rt)) = facts_view rt"
  "rt_filtered_total_bytes (snd (feed_engine E raw rt)) = rt_filtered_total_bytes rt"
  by (simp_all add: facts_view_def feed_engine_def Let_def split: prod.splits)

lemma view_push_output: "facts_view (push_output now bs n rt) = facts_view rt"
  "rt_filtered_total_bytes (push_output now bs n rt)
     = (if bs = [] then rt_filtered_total_bytes rt
        else u64_saturating_add (rt_filtered_total_bytes rt) (length bs))"
  by (simp_all add: facts_view_def push_output_def Let_def)

lemma view_title: "facts_view (snd (apply_terminal_title t rt)) = facts_view rt"
  "rt_filtered_total_bytes (snd (apply_terminal_title t rt)) = rt_filtered_total_bytes rt"
  by (simp_all add: facts_view_def apply_terminal_title_def Let_def)

lemma view_colors: "facts_view (snd (apply_terminal_colors sig rt)) = facts_view rt"
  "rt_filtered_total_bytes (snd (apply_terminal_colors sig rt)) = rt_filtered_total_bytes rt"
  by (simp_all add: facts_view_def apply_terminal_colors_def Let_def)

lemma view_publish: "facts_view (snd (publish_terminal_signals sig rt)) = facts_view rt"
  "rt_filtered_total_bytes (snd (publish_terminal_signals sig rt)) = rt_filtered_total_bytes rt"
proof -
  define r1 where "r1 = (case signals_title sig of Some title \<Rightarrow> apply_terminal_title title rt | None \<Rightarrow> (False, rt))"
  define r2 where "r2 = apply_terminal_colors sig (snd r1)"
  have 1: "facts_view (snd r1) = facts_view rt" "rt_filtered_total_bytes (snd r1) = rt_filtered_total_bytes rt"
    by (simp_all add: r1_def view_title split: option.splits)
  have 2: "facts_view (snd r2) = facts_view rt" "rt_filtered_total_bytes (snd r2) = rt_filtered_total_bytes rt"
    by (simp_all add: r2_def view_colors 1)
  have p: "snd (publish_terminal_signals sig rt)
      = (if current (ts_program_statuses (rt_terminal_signals (snd r2))) \<noteq> current (ts_program_statuses sig)
         then (snd r2)\<lparr>rt_notified_output_epoch := None\<rparr> else snd r2)\<lparr>rt_terminal_signals := sig\<rparr>"
    unfolding publish_terminal_signals_def r1_def [symmetric]
    by (cases r1; cases r2) (simp add: r2_def Let_def)
  show "facts_view (snd (publish_terminal_signals sig rt)) = facts_view rt"
    "rt_filtered_total_bytes (snd (publish_terminal_signals sig rt)) = rt_filtered_total_bytes rt"
    unfolding p using 2 by (simp_all add: facts_view_def)
qed

lemma saturating_grows: "a \<le> u64_max \<Longrightarrow> a \<le> u64_saturating_add a b"
  by (simp add: u64_saturating_add_def)

context session_journal
begin

lemma effect_view:
  "facts_view rt' = facts_view rt \<Longrightarrow> effect J jlog [] rt rt'"
  by (rule effect_none) (simp_all add: facts_view_def)

lemma runtime_checkpoint_quiet:
  "quiet_fact idle (rt_filtered_total_bytes rt) (CheckpointRef, encode_checkpoint (runtime_checkpoint E idle rt))"
proof -
  have "cp_filtered_offset (runtime_checkpoint E idle rt) = (if idle then rt_filtered_total_bytes rt else 0)"
    by (simp add: runtime_checkpoint_def Let_def)
  then show ?thesis unfolding quiet_fact_def by auto
qed

lemma effect_checkpoint_if_due:
  assumes "rt_journal rt \<noteq> None"
  shows "\<exists>fs. list_all (quiet_fact idle (rt_filtered_total_bytes rt)) fs \<and> list_all (\<lambda>f. fst f \<noteq> Lifecycle) fs
     \<and> effect J jlog fs rt (journal_checkpoint_if_due E J idle rt)"
proof (cases "JOURNAL_CHECKPOINT_INTERVAL_BYTES \<le> rt_filtered_total_bytes rt - rt_last_journal_checkpoint_at rt")
  case True
  with effect_checkpoint [OF assms, of E idle] runtime_checkpoint_quiet [of idle rt E] show ?thesis
    by (intro exI [of _ "[(CheckpointRef, encode_checkpoint (runtime_checkpoint E idle rt))]"])
      (simp add: journal_checkpoint_if_due_def)
next
  case False
  then show ?thesis by (intro exI [of _ "[]"]) (simp add: journal_checkpoint_if_due_def effect_none)
qed

lemma reader_locked_effect:
  assumes "reader_locked E J now data out changed idle rt = ((responses, off, failed), rt')"
    and "rt_journal rt \<noteq> None" and "rt_filtered_total_bytes rt \<le> u64_max"
  shows "\<exists>fs. effect J jlog ((Output, data) # fs) rt rt'
     \<and> list_all (quiet_fact idle (rt_filtered_total_bytes rt')) fs \<and> list_all (\<lambda>f. fst f \<noteq> Lifecycle) fs
     \<and> rt_filtered_total_bytes rt' = u64_saturating_add (rt_filtered_total_bytes rt) (length (out_filtered out))
     \<and> off = rt_filtered_total_bytes rt' - length (out_filtered out) \<and> failed = rt_journal_failed rt'
     \<and> rt_resize_history rt' = rt_resize_history rt \<and> rt_output_closed rt' = rt_output_closed rt
     \<and> rt_pending_journal_completion rt' = rt_pending_journal_completion rt
     \<and> sm_ended_at (rt_meta rt') = sm_ended_at (rt_meta rt)"
proof -
  define rt1 where "rt1 = journal_output J data rt"
  define rt2 where "rt2 = snd (feed_engine E data rt1)"
  define rt3 where "rt3 = (case changed of Some sig \<Rightarrow> snd (publish_terminal_signals sig rt2) | None \<Rightarrow> rt2)"
  define rt4 where "rt4 = push_output now (out_filtered out) (meaningful_bytes out) rt3"
  define rt5 where "rt5 = journal_modes_if_changed J rt4"
  define rt6 where "rt6 = journal_checkpoint_if_due E J idle rt5"
  obtain resp where f: "feed_engine E data rt1 = (resp, rt2)" by (metis prod.collapse rt2_def)
  from assms(1) have res: "off = rt_filtered_total_bytes rt4 - length (out_filtered out)" "failed = rt_journal_failed rt6"
    "rt' = (if rt_journal_failed rt6 then rt6\<lparr>rt_requested_final_status := Some StFailed,
       rt_pty := (rt_pty rt6)\<lparr>ph_kills := Suc (ph_kills (rt_pty rt6))\<rparr>\<rparr> else rt6)"
    unfolding reader_locked_def Let_def rt1_def [symmetric] f prod.case
      rt3_def [symmetric] rt4_def [symmetric] rt5_def [symmetric] rt6_def [symmetric] by auto
  have rt': "facts_view rt' = facts_view rt6" "rt_filtered_total_bytes rt' = rt_filtered_total_bytes rt6"
    using res(3) by (simp_all add: facts_view_def)
  have v3: "facts_view rt3 = facts_view rt1" "rt_filtered_total_bytes rt3 = rt_filtered_total_bytes rt1"
    using view_feed_engine [of E data rt1] view_publish [of _ rt2]
    by (simp_all add: rt3_def rt2_def split: option.splits)
  have v4: "facts_view rt4 = facts_view rt1"
    "rt_filtered_total_bytes rt4 = u64_saturating_add (rt_filtered_total_bytes rt) (length (out_filtered out))"
    using assms(3) v3
    by (simp_all add: view_push_output rt4_def rt1_def journal_output_def u64_saturating_add_def)
  have t6: "rt_filtered_total_bytes rt6 = rt_filtered_total_bytes rt4" "rt_filtered_total_bytes rt5 = rt_filtered_total_bytes rt4"
    by (simp_all add: rt6_def rt5_def)
  obtain ms where ms: "ms = [] \<or> (\<exists>v. ms = [(Policy, v)])" "effect J jlog ms rt4 rt5"
    using effect_modes [of rt4] unfolding rt5_def by blast
  have "effect J jlog [(Output, data)] rt rt1" unfolding rt1_def by (rule effect_output)
  note to5 = effect_trans [OF effect_trans [OF this effect_view [OF v4(1)]] ms(2)]
  have j5: "rt_journal rt5 \<noteq> None" by (rule effect_journal [OF to5 assms(2)])
  obtain cs where cs: "list_all (quiet_fact idle (rt_filtered_total_bytes rt5)) cs" "effect J jlog cs rt5 rt6"
    "list_all (\<lambda>f. fst f \<noteq> Lifecycle) cs"
    using effect_checkpoint_if_due [OF j5, of idle E] unfolding rt6_def by blast
  from effect_trans [OF to5 cs(2)] have "effect J jlog ((Output, data) # ms @ cs) rt rt6" by simp
  then have eff: "effect J jlog ((Output, data) # ms @ cs) rt rt'"
    by (rule effect_update) (use rt'(1) in \<open>simp_all add: facts_view_def\<close>)
  have quiet: "list_all (quiet_fact idle (rt_filtered_total_bytes rt')) (ms @ cs)"
    using ms(1) cs(1) t6 rt'(2) by (auto simp: quiet_fact_def)
  have same: "rt_resize_history rt6 = rt_resize_history rt" "rt_output_closed rt6 = rt_output_closed rt"
    "rt_pending_journal_completion rt6 = rt_pending_journal_completion rt" "sm_ended_at (rt_meta rt6) = sm_ended_at (rt_meta rt)"
    using v4(1) by (simp_all add: rt6_def rt5_def facts_view_def rt1_def journal_output_def)
  have "list_all (\<lambda>f. fst f \<noteq> Lifecycle) (ms @ cs)" using ms(1) cs(3) by auto
  then show ?thesis
    using eff quiet same rt' res(1,2) t6 v4(2)
    by (intro exI [of _ "ms @ cs"]) (simp add: facts_view_def)
qed

lemma stream_chunk:
  assumes inv: "stream_inv bare J jlog s" and tot: "rt_filtered_total_bytes (se_runtime s) \<le> u64_max"
  shows "stream_inv bare J jlog (reader_chunk b64 bare E J now data s)
     \<and> rt_filtered_total_bytes (se_runtime (reader_chunk b64 bare E J now data s)) \<le> u64_max"
proof -
  obtain sc1 out where scan: "pty_scan b64 bare now (se_scanner s) data = (sc1, out)" by (rule prod.exhaust)
  obtain changed sc where sig: "take_changed_signals sc1 = (changed, sc)" by (rule prod.exhaust)
  then have pend: "pt_pending sc = pt_pending sc1" by (auto simp: take_changed_signals_def split: if_splits)
  obtain responses off failed rt' where
    lock: "reader_locked E J now data out changed (is_idle sc) (se_runtime s) = ((responses, off, failed), rt')"
    by (metis prod.collapse)
  have "rt_journal (se_runtime s) \<noteq> None" using inv by (auto simp: stream_inv_def)
  from reader_locked_effect [OF lock this tot] obtain fs where
    eff: "effect J jlog ((Output, data) # fs) (se_runtime s) rt'"
    and quiet: "list_all (quiet_fact (is_idle sc) (rt_filtered_total_bytes rt')) fs"
    and total: "rt_filtered_total_bytes rt' = u64_saturating_add (rt_filtered_total_bytes (se_runtime s)) (length (out_filtered out))"
    and rest: "off = rt_filtered_total_bytes rt' - length (out_filtered out)" "failed = rt_journal_failed rt'"
      "rt_resize_history rt' = rt_resize_history (se_runtime s)" by blast
  let ?s' = "reader_chunk b64 bare E J now data s"
  have s': "se_runtime ?s' = rt'" "se_scanner ?s' = sc"
    "\<not> rt_journal_failed rt' \<Longrightarrow> se_broadcast ?s' = se_broadcast s
       @ (if out_filtered out = [] then [] else [\<lparr>sq_offset = off, sq_bytes = out_filtered out\<rparr>])"
    by (simp_all add: reader_chunk_def scan sig lock Let_def rest(2))
  have "stream_inv bare J jlog ?s'"
  proof (rule stream_step [OF inv, where s' = ?s'])
    show "effect J jlog ((Output, data) # fs) (se_runtime s) (se_runtime ?s')" using eff s'(1) by simp
    show "rt_filtered_total_bytes (se_runtime s) \<le> rt_filtered_total_bytes (se_runtime ?s')"
      using s'(1) total saturating_grows [OF tot] by simp
    fix L
    assume small: "rt_filtered_total_bytes (se_runtime ?s') < u64_max"
      and disp: "display bare [] L = (pt_pending (se_scanner s), broadcast_bytes s)"
      and len: "rt_filtered_total_bytes (se_runtime s) = length (broadcast_bytes s)"
      and hist: "rt_resize_history (se_runtime s) = resizes bare [] 0 L" and cont: "contiguous 0 (se_broadcast s)"
    have pos: "rt_filtered_total_bytes rt' = length (broadcast_bytes s @ out_filtered out)"
      using small total s'(1) len by (simp add: u64_saturating_add_def min_def split: if_splits)
    have "rt_filtered_total_bytes rt' < 2 ^ 64" using small s'(1) by (simp add: u64_max_def)
    from quiet_log [OF quiet this, of "pt_pending sc" bare]
    have q: "display bare (pt_pending sc) (map fact_record fs) = (pt_pending sc, [])"
      "resizes bare (pt_pending sc) (rt_filtered_total_bytes rt') (map fact_record fs) = []"
      "honest_checkpoints bare (pt_pending sc) (rt_filtered_total_bytes rt') (map fact_record fs)"
      by (simp_all add: is_idle_def)
    have chunk: "filter_chunk bare (pt_pending (se_scanner s)) data = (pt_pending sc, out_filtered out)"
      using pty_scan_display [OF scan] pend by simp
    have off: "off = length (broadcast_bytes s)" using rest(1) pos by simp
    show "(honest_checkpoints bare [] 0 L \<longrightarrow> honest_checkpoints bare [] 0 (L @ map fact_record ((Output, data) # fs)))
        \<and> (\<not> rt_journal_failed (se_runtime ?s') \<longrightarrow>
             display bare [] (L @ map fact_record ((Output, data) # fs)) = (pt_pending (se_scanner ?s'), broadcast_bytes ?s')
             \<and> rt_filtered_total_bytes (se_runtime ?s') = length (broadcast_bytes ?s')
             \<and> rt_resize_history (se_runtime ?s') = resizes bare [] 0 (L @ map fact_record ((Output, data) # fs))
             \<and> contiguous 0 (se_broadcast ?s'))"
      using q chunk disp hist cont pos off s' rest(3)
      by (auto simp: honest_append display_append resizes_append contiguous_append)
  qed
  moreover have "rt_filtered_total_bytes rt' \<le> u64_max" by (simp add: total u64_saturating_add_def)
  ultimately show ?thesis using s'(1) by simp
qed

text \<open>Closing the stream: the facts it offers.\<close>

lemma close_effect:
  assumes "rt_journal rt \<noteq> None" and "\<not> rt_output_closed rt"
  shows "\<exists>cp. effect J jlog ([(Lifecycle, encode_lifecycle_payload OutputClosed None detail), (CheckpointRef, cp)]
       @ (case rt_pending_journal_completion rt of
            Some (code, exit_code, d) \<Rightarrow> [(Lifecycle, encode_lifecycle_payload code exit_code d)] | None \<Rightarrow> []))
       rt (close_output_stream_at_boundary E J now detail idle rt)
     \<and> quiet_fact idle (rt_filtered_total_bytes rt) (CheckpointRef, cp)
     \<and> (case close_output_stream_at_boundary E J now detail idle rt of rt' \<Rightarrow>
          rt_filtered_total_bytes rt' = rt_filtered_total_bytes rt \<and> rt_resize_history rt' = rt_resize_history rt
          \<and> rt_output_closed rt' \<and> rt_pending_journal_completion rt' = None \<and> rt_meta rt' = rt_meta rt)"
proof -
  define rt1 where "rt1 = rt\<lparr>rt_output_closed := True, rt_terminal_signals := (rt_terminal_signals rt)
      \<lparr>ts_program_statuses := snd (drop_transient now (ts_program_statuses (rt_terminal_signals rt)))\<rparr>\<rparr>"
  define rt2 where "rt2 = journal_lifecycle J OutputClosed None detail rt1"
  define rt3 where "rt3 = journal_checkpoint E J idle rt2"
  let ?cp = "encode_checkpoint (runtime_checkpoint E idle rt2)"
  have fields: "rt_filtered_total_bytes rt3 = rt_filtered_total_bytes rt" "rt_resize_history rt3 = rt_resize_history rt"
    "rt_output_closed rt3" "rt_pending_journal_completion rt3 = rt_pending_journal_completion rt" "rt_meta rt3 = rt_meta rt"
    "rt_filtered_total_bytes rt2 = rt_filtered_total_bytes rt"
    by (simp_all add: rt3_def rt2_def rt1_def journal_lifecycle_def)
  have c: "close_output_stream_at_boundary E J now detail idle rt =
      (case rt_pending_journal_completion rt3 of
         Some (code, exit_code, completion) \<Rightarrow>
           journal_terminal_end J code exit_code completion (rt3\<lparr>rt_pending_journal_completion := None\<rparr>)
       | None \<Rightarrow> rt3)"
    using assms(2) unfolding close_output_stream_at_boundary_def Let_def rt1_def [symmetric] rt2_def [symmetric] rt3_def [symmetric]
    by simp
  have 1: "effect J jlog [(Lifecycle, encode_lifecycle_payload OutputClosed None detail)] rt rt2"
    using effect_from [OF effect_lifecycle [of OutputClosed None detail rt1], of rt] by (simp add: rt2_def rt1_def)
  have "rt_journal rt2 \<noteq> None" using assms(1) by (simp add: rt2_def rt1_def journal_lifecycle_def)
  from effect_checkpoint [OF this, of E idle] have 2: "effect J jlog [(CheckpointRef, ?cp)] rt2 rt3" unfolding rt3_def .
  have 3: "effect J jlog (case rt_pending_journal_completion rt of
        Some (code, exit_code, d) \<Rightarrow> [(Lifecycle, encode_lifecycle_payload code exit_code d)] | None \<Rightarrow> [])
      rt3 (close_output_stream_at_boundary E J now detail idle rt)"
    unfolding c fields(4)
    using effect_from [OF effect_terminal_end [of _ _ _ "rt3\<lparr>rt_pending_journal_completion := None\<rparr>"], of rt3]
    by (auto simp: effect_none split: option.splits prod.splits)
  have q: "quiet_fact idle (rt_filtered_total_bytes rt) (CheckpointRef, ?cp)"
    using runtime_checkpoint_quiet [of idle rt2 E] fields(6) by simp
  from effect_trans [OF effect_trans [OF 1 2] 3] q fields show ?thesis
    unfolding c by (intro exI [of _ ?cp])
      (simp add: journal_terminal_end_def journal_lifecycle_def Let_def split: option.splits prod.splits)
qed

text \<open>Ending: the completion is offered at once, parked, or was there before.\<close>

lemma completed_effect:
  assumes rt'_def: "rt' = mark_completed J now status exit_code rt"
  shows "rt_filtered_total_bytes rt' = rt_filtered_total_bytes rt \<and> rt_resize_history rt' = rt_resize_history rt
     \<and> rt_output_closed rt' = rt_output_closed rt \<and> sm_ended_at (rt_meta rt') \<noteq> None
     \<and> (effect J jlog [] rt rt' \<and> rt_pending_journal_completion rt' = rt_pending_journal_completion rt
        \<or> (\<exists>code d. completion_code status = Some code \<and> sm_ended_at (rt_meta rt) = None
             \<and> (if rt_output_closed rt
                then effect J jlog [(Lifecycle, encode_lifecycle_payload code exit_code d)] rt rt'
                     \<and> rt_pending_journal_completion rt' = rt_pending_journal_completion rt
                else effect J jlog [] rt rt' \<and> rt_pending_journal_completion rt' = Some (code, exit_code, d))))"
proof -
  define m1 where "m1 = (rt_meta rt)\<lparr>sm_ended_at := (if sm_ended_at (rt_meta rt) = None then Some now
      else sm_ended_at (rt_meta rt)), sm_status := status,
      sm_exit_code := (case exit_code of Some c \<Rightarrow> Some c | None \<Rightarrow> sm_exit_code (rt_meta rt))\<rparr>"
  define rt2 where "rt2 = teardown_pty (rt\<lparr>rt_meta := m1, rt_requested_final_status := None,
      rt_completed_at := (if rt_completed_at rt = None then Some now else rt_completed_at rt)\<rparr>)"
  have same: "rt_filtered_total_bytes rt2 = rt_filtered_total_bytes rt" "rt_resize_history rt2 = rt_resize_history rt"
    "rt_output_closed rt2 = rt_output_closed rt" "rt_pending_journal_completion rt2 = rt_pending_journal_completion rt"
    "rt_journal rt2 = rt_journal rt" "rt_journal_failed rt2 = rt_journal_failed rt" "sm_ended_at (rt_meta rt2) \<noteq> None"
    by (simp_all add: rt2_def teardown_pty_def m1_def)
  have e2: "effect J jlog [] rt rt2" using same by (simp add: effect_none)
  have rt': "rt' = (if sm_ended_at (rt_meta rt) = None then
      (case completion_code status of
         Some code \<Rightarrow> queue_journal_completion J code exit_code (completion_detail status (sm_exit_code m1)) rt2
       | None \<Rightarrow> rt2) else rt2)"
    unfolding rt'_def mark_completed_def Let_def m1_def [symmetric] rt2_def [symmetric] by simp
  show ?thesis
  proof (cases "sm_ended_at (rt_meta rt) = None \<and> completion_code status \<noteq> None")
    case False
    then have "rt' = rt2" unfolding rt' by auto
    with same e2 show ?thesis by simp
  next
    case True
    then obtain code where code: "completion_code status = Some code" by blast
    let ?d = "completion_detail status (sm_exit_code m1)"
    have q: "rt' = queue_journal_completion J code exit_code ?d rt2" using True code unfolding rt' by simp
    show ?thesis
    proof (cases "rt_output_closed rt")
      case closed: True
      then have "rt' = journal_terminal_end J code exit_code ?d rt2"
        using q same(3) by (simp add: queue_journal_completion_def)
      moreover from effect_trans [OF e2 effect_terminal_end [of code exit_code ?d rt2]]
      have "effect J jlog [(Lifecycle, encode_lifecycle_payload code exit_code ?d)] rt
        (journal_terminal_end J code exit_code ?d rt2)" by simp
      ultimately show ?thesis
        using same True code closed by (auto simp: journal_terminal_end_def journal_lifecycle_def Let_def)
    next
      case False
      then have "rt' = rt2\<lparr>rt_pending_journal_completion := Some (code, exit_code, ?d)\<rparr>"
        using q same(3) by (simp add: queue_journal_completion_def)
      with same True code False show ?thesis by (auto simp: effect_none)
    qed
  qed
qed

lemma resize_effect:
  assumes rt'_def: "rt' = snd (resize_pty E J os_ok rows cols rt)"
  shows "rt_filtered_total_bytes rt' = rt_filtered_total_bytes rt \<and> rt_output_closed rt' = rt_output_closed rt
     \<and> rt_pending_journal_completion rt' = rt_pending_journal_completion rt \<and> rt_meta rt' = rt_meta rt
     \<and> (effect J jlog [] rt rt' \<and> rt_resize_history rt' = rt_resize_history rt
        \<or> rows \<noteq> 0 \<and> cols \<noteq> 0 \<and> effect J jlog [(Resize, encode_resize_payload rows cols)] rt rt'
          \<and> rt_resize_history rt' = rt_resize_history rt
              @ [\<lparr>lr_offset = rt_filtered_total_bytes rt, lr_rows = rows, lr_cols = cols\<rparr>])"
proof (cases "rows = 0 \<or> cols = 0 \<or> rt_pty_size rt = Some (rows, cols) \<or> \<not> (ph_master (rt_pty rt) \<and> os_ok)")
  case True
  then have "rt' = rt" by (auto simp: rt'_def resize_pty_def)
  then show ?thesis by (simp add: effect_none)
next
  case False
  define rt1 where "rt1 = rt\<lparr>rt_pty_size := Some (rows, cols), rt_engine := en_resize E rows cols (rt_engine rt),
      rt_resize_history := rt_resize_history rt
        @ [\<lparr>lr_offset = rt_filtered_total_bytes rt, lr_rows = rows, lr_cols = cols\<rparr>]\<rparr>"
  have rt': "rt' = (journal_resize J rows cols rt1)\<lparr>rt_resize_tx := rt_resize_tx (journal_resize J rows cols rt1) @ [(rows, cols)]\<rparr>"
    using False by (simp add: rt'_def resize_pty_def Let_def rt1_def)
  have "effect J jlog [(Resize, encode_resize_payload rows cols)] rt (journal_resize J rows cols rt1)"
    using effect_from [OF effect_resize [of rows cols rt1], of rt] by (simp add: rt1_def)
  from effect_update [OF this, of rt'] have "effect J jlog [(Resize, encode_resize_payload rows cols)] rt rt'"
    by (simp add: rt')
  with False show ?thesis by (simp add: rt' journal_resize_def rt1_def)
qed

end

section \<open>The order of the facts\<close>

definition lifecycle_of :: "Record \<Rightarrow> LifecycleCode option" where
  "lifecycle_of r =
     (case rec_payload r of b # _ \<Rightarrow> if rec_kind r = Lifecycle then LifecycleCode_from_u8 b else None | [] \<Rightarrow> None)"

abbreviation closes :: "Record \<Rightarrow> bool" where
  "closes r \<equiv> lifecycle_of r = Some OutputClosed"

abbreviation terminal_code :: "LifecycleCode \<Rightarrow> bool" where
  "terminal_code c \<equiv> c = Stopped \<or> c = Killed \<or> c = Failed"

definition completes :: "Record \<Rightarrow> bool" where
  "completes r \<longleftrightarrow> (case lifecycle_of r of Some c \<Rightarrow> terminal_code c | None \<Rightarrow> False)"

text \<open>Output comes before the end of the output, which is recorded at most once; the completion
  comes after it, at most once.\<close>

fun ordered :: "bool \<Rightarrow> bool \<Rightarrow> Record list \<Rightarrow> bool" where
  "ordered c e [] \<longleftrightarrow> True"
| "ordered c e (r # rs) \<longleftrightarrow>
     (if rec_kind r = Output then \<not> c \<and> ordered c e rs
      else if closes r then \<not> c \<and> ordered True e rs
      else if completes r then c \<and> \<not> e \<and> ordered c True rs
      else ordered c e rs)"

lemma output_no_fact: "rec_kind r = Output \<Longrightarrow> \<not> closes r \<and> \<not> completes r"
  by (simp add: lifecycle_of_def completes_def split: list.splits)

lemma closes_not_completes: "closes r \<Longrightarrow> \<not> completes r"
  by (simp add: completes_def)

lemma ordered_append:
  "ordered c e (a @ b) \<longleftrightarrow> ordered c e a \<and> ordered (c \<or> list_ex closes a) (e \<or> list_ex completes a) b"
  by (induction a arbitrary: c e) (auto dest: output_no_fact closes_not_completes)

lemma fact_record_of [simp]: "lifecycle_of (fact_record (fact_of r)) = lifecycle_of r"
  by (simp add: lifecycle_of_def split: list.splits)

lemma ordered_facts: "ordered c e (map fact_record (map fact_of rs)) = ordered c e rs"
  by (induction rs arbitrary: c e) (auto simp: completes_def)

lemma ex_facts: "list_ex P rs = list_ex P ss"
  if "map fact_of rs = map fact_of ss" and "\<And>r. P (fact_record (fact_of r)) = P r"
proof -
  have "list_ex P (map fact_record (map fact_of rs)) = list_ex P rs" for rs
    by (induction rs) (simp_all add: that(2))
  with that(1) show ?thesis by metis
qed

lemma lifecycle_encode [simp]:
  "lifecycle_of (fact_record (Lifecycle, encode_lifecycle_payload code exit_code d)) = Some code"
  by (simp add: lifecycle_of_def encode_lifecycle_payload_def)

lemma lifecycle_other: "k \<noteq> Lifecycle \<Longrightarrow> lifecycle_of (fact_record (k, p)) = None"
  by (simp add: lifecycle_of_def split: list.splits)

definition order_inv :: "'j journal_ops \<Rightarrow> ('j \<Rightarrow> Record list) \<Rightarrow> ('e, 'j) session \<Rightarrow> bool" where
  "order_inv J jlog s \<longleftrightarrow>
     (\<exists>j. rt_journal (se_runtime s) = Some j \<and> ordered False False (jlog j)
        \<and> (\<not> jo_is_degraded J j \<longrightarrow>
             list_ex closes (jlog j) = rt_output_closed (se_runtime s)
             \<and> (list_ex completes (jlog j) \<longrightarrow> rt_output_closed (se_runtime s)
                  \<and> sm_ended_at (rt_meta (se_runtime s)) \<noteq> None)))
     \<and> (rt_output_closed (se_runtime s) \<longrightarrow> se_reader s = ReaderStopped)
     \<and> (\<forall>code x d. rt_pending_journal_completion (se_runtime s) = Some (code, x, d) \<longrightarrow>
          terminal_code code \<and> \<not> rt_output_closed (se_runtime s)
          \<and> sm_ended_at (rt_meta (se_runtime s)) \<noteq> None)"

context session_journal
begin

lemma order_step:
  assumes inv: "order_inv J jlog s" and eff: "effect J jlog fs (se_runtime s) (se_runtime s')"
    and ok: "\<And>e. e \<longrightarrow> rt_output_closed (se_runtime s) \<and> sm_ended_at (rt_meta (se_runtime s)) \<noteq> None \<Longrightarrow>
        ordered (rt_output_closed (se_runtime s)) e (map fact_record fs)
        \<and> rt_output_closed (se_runtime s') = (rt_output_closed (se_runtime s) \<or> list_ex closes (map fact_record fs))
        \<and> (e \<or> list_ex completes (map fact_record fs) \<longrightarrow>
             rt_output_closed (se_runtime s') \<and> sm_ended_at (rt_meta (se_runtime s')) \<noteq> None)"
    and closed: "rt_output_closed (se_runtime s') \<longrightarrow> se_reader s' = ReaderStopped"
    and pend: "\<And>code x d. rt_pending_journal_completion (se_runtime s') = Some (code, x, d) \<Longrightarrow>
        terminal_code code \<and> \<not> rt_output_closed (se_runtime s') \<and> sm_ended_at (rt_meta (se_runtime s')) \<noteq> None"
  shows "order_inv J jlog s'"
proof -
  from inv obtain j where j: "rt_journal (se_runtime s) = Some j" "ordered False False (jlog j)"
    and healthy: "\<not> jo_is_degraded J j \<Longrightarrow> list_ex closes (jlog j) = rt_output_closed (se_runtime s)
      \<and> (list_ex completes (jlog j) \<longrightarrow> rt_output_closed (se_runtime s) \<and> sm_ended_at (rt_meta (se_runtime s)) \<noteq> None)"
    unfolding order_inv_def by blast
  from eff j(1) obtain j' where j': "rt_journal (se_runtime s') = Some j'" "requested J jlog fs j j'"
    unfolding effect_def by blast
  have step: "ordered False False (jlog j @ map fact_record fs)" if "\<not> jo_is_degraded J j"
    using healthy [OF that] ok [of "list_ex completes (jlog j)"] j(2) by (simp add: ordered_append)
  have "ordered False False (jlog j')"
  proof (rule requested_keeps [OF j'(2), where P = "ordered False False"])
    fix a b :: "Record list"
    show "map fact_of a = map fact_of b \<Longrightarrow> ordered False False a \<Longrightarrow> ordered False False b"
      using ordered_facts [of False False a] ordered_facts [of False False b] by simp
    show "ordered False False (a @ b) \<Longrightarrow> ordered False False a" by (simp add: ordered_append)
  qed (use j(2) step in simp_all)
  moreover have "list_ex closes (jlog j') = rt_output_closed (se_runtime s')
      \<and> (list_ex completes (jlog j') \<longrightarrow> rt_output_closed (se_runtime s') \<and> sm_ended_at (rt_meta (se_runtime s')) \<noteq> None)"
    if h: "\<not> jo_is_degraded J j'"
  proof -
    from requested_log [OF j'(2) h] have h0: "\<not> jo_is_degraded J j"
      and eq: "map fact_of (jlog j') = map fact_of (jlog j @ map fact_record fs)" by (simp_all add: o_def)
    have "list_ex closes (jlog j') = list_ex closes (jlog j @ map fact_record fs)"
      "list_ex completes (jlog j') = list_ex completes (jlog j @ map fact_record fs)"
      using ex_facts [OF eq, of closes] ex_facts [OF eq, of completes] by (simp_all add: completes_def)
    with healthy [OF h0] ok [of "list_ex completes (jlog j)"] show ?thesis by auto
  qed
  ultimately show ?thesis using j'(1) closed pend unfolding order_inv_def by blast
qed

text \<open>A step that offers no lifecycle fact and no output after the end.\<close>

lemma order_plain:
  assumes inv: "order_inv J jlog s" and eff: "effect J jlog fs (se_runtime s) (se_runtime s')"
    and same: "rt_output_closed (se_runtime s') = rt_output_closed (se_runtime s)"
      "rt_pending_journal_completion (se_runtime s') = rt_pending_journal_completion (se_runtime s)"
      "sm_ended_at (rt_meta (se_runtime s')) = sm_ended_at (rt_meta (se_runtime s))"
    and reader: "se_reader s' = se_reader s \<or> se_reader s = Reading"
    and facts: "list_all (\<lambda>f. fst f \<noteq> Lifecycle \<and> (fst f = Output \<longrightarrow> se_reader s = Reading)) fs"
  shows "order_inv J jlog s'"
proof (rule order_step [OF inv eff])
  have stopped: "rt_output_closed (se_runtime s) \<longrightarrow> se_reader s = ReaderStopped"
    using inv by (simp add: order_inv_def)
  have none: "list_ex closes (map fact_record fs) = False \<and> list_ex completes (map fact_record fs) = False
      \<and> ordered c e (map fact_record fs)" if "c \<longrightarrow> se_reader s \<noteq> Reading" for c e
    using facts that
  proof (induction fs)
    case (Cons f fs)
    then have "lifecycle_of (fact_record f) = None" using lifecycle_other [of "fst f" "snd f"] by simp
    with Cons show ?case by (auto simp: completes_def)
  qed simp
  fix e
  assume "e \<longrightarrow> rt_output_closed (se_runtime s) \<and> sm_ended_at (rt_meta (se_runtime s)) \<noteq> None"
  with none [of "rt_output_closed (se_runtime s)" e] same stopped
  show "ordered (rt_output_closed (se_runtime s)) e (map fact_record fs)
      \<and> rt_output_closed (se_runtime s') = (rt_output_closed (se_runtime s) \<or> list_ex closes (map fact_record fs))
      \<and> (e \<or> list_ex completes (map fact_record fs) \<longrightarrow>
           rt_output_closed (se_runtime s') \<and> sm_ended_at (rt_meta (se_runtime s')) \<noteq> None)" by auto
next
  show "rt_output_closed (se_runtime s') \<longrightarrow> se_reader s' = ReaderStopped"
    using inv same(1) reader by (auto simp: order_inv_def)
  fix code x d
  assume "rt_pending_journal_completion (se_runtime s') = Some (code, x, d)"
  then have "rt_pending_journal_completion (se_runtime s) = Some (code, x, d)" using same(2) by simp
  with inv have "terminal_code code \<and> \<not> rt_output_closed (se_runtime s) \<and> sm_ended_at (rt_meta (se_runtime s)) \<noteq> None"
    unfolding order_inv_def by blast
  with same show "terminal_code code \<and> \<not> rt_output_closed (se_runtime s') \<and> sm_ended_at (rt_meta (se_runtime s')) \<noteq> None"
    by simp
qed

end

section \<open>Every step keeps the invariants\<close>

definition session_inv :: "bool \<Rightarrow> 'j journal_ops \<Rightarrow> ('j \<Rightarrow> Record list) \<Rightarrow> ('e, 'j) session \<Rightarrow> bool" where
  "session_inv bare J jlog s \<longleftrightarrow> stream_inv bare J jlog s \<and> order_inv J jlog s
     \<and> rt_filtered_total_bytes (se_runtime s) \<le> u64_max"

context session_journal
begin

text \<open>Steps of the other threads that offer nothing.\<close>

lemma inv_silent:
  assumes "session_inv bare J jlog s" and "effect J jlog [] (se_runtime s) rt'"
    and "rt_filtered_total_bytes rt' = rt_filtered_total_bytes (se_runtime s)"
    and "rt_resize_history rt' = rt_resize_history (se_runtime s)"
    and "rt_output_closed rt' = rt_output_closed (se_runtime s)"
    and "rt_pending_journal_completion rt' = rt_pending_journal_completion (se_runtime s)"
    and "sm_ended_at (rt_meta rt') = sm_ended_at (rt_meta (se_runtime s))"
  shows "session_inv bare J jlog (s\<lparr>se_runtime := rt'\<rparr>)"
  using assms stream_quiet [of bare s "[]" "s\<lparr>se_runtime := rt'\<rparr>"] order_plain [of s "[]" "s\<lparr>se_runtime := rt'\<rparr>"]
  by (simp add: session_inv_def)

lemma inv_view:
  assumes "session_inv bare J jlog s" and "facts_view rt' = facts_view (se_runtime s)"
    and "rt_filtered_total_bytes rt' = rt_filtered_total_bytes (se_runtime s)"
  shows "session_inv bare J jlog (s\<lparr>se_runtime := rt'\<rparr>)"
  using inv_silent [OF assms(1) effect_view [OF assms(2)]] assms(2,3) by (simp add: facts_view_def)

lemma inv_reader:
  assumes "session_inv bare J jlog s" and "se_reader s = Reading"
  shows "session_inv bare J jlog (s\<lparr>se_reader := Closing detail\<rparr>)"
proof -
  let ?s' = "s\<lparr>se_reader := Closing detail\<rparr>"
  have "effect J jlog [] (se_runtime s) (se_runtime ?s')" by (simp add: effect_none)
  then show ?thesis
    using assms stream_quiet [of bare s "[]" ?s'] order_plain [of s "[]" ?s'] by (simp add: session_inv_def)
qed

lemma inv_chunk:
  assumes inv: "session_inv bare J jlog s" and "se_reader s = Reading"
  shows "session_inv bare J jlog (reader_chunk b64 bare E J now data s)"
proof -
  let ?s' = "reader_chunk b64 bare E J now data s"
  obtain sc1 out where scan: "pty_scan b64 bare now (se_scanner s) data = (sc1, out)" by (rule prod.exhaust)
  obtain changed sc where sig: "take_changed_signals sc1 = (changed, sc)" by (rule prod.exhaust)
  obtain responses off failed rt' where
    lock: "reader_locked E J now data out changed (is_idle sc) (se_runtime s) = ((responses, off, failed), rt')"
    by (metis prod.collapse)
  have tot: "rt_filtered_total_bytes (se_runtime s) \<le> u64_max" and "rt_journal (se_runtime s) \<noteq> None"
    using inv by (auto simp: session_inv_def stream_inv_def)
  from reader_locked_effect [OF lock this(2) tot] obtain fs where
    eff: "effect J jlog ((Output, data) # fs) (se_runtime s) rt'"
    and quiet: "list_all (quiet_fact (is_idle sc) (rt_filtered_total_bytes rt')) fs"
    and same: "rt_output_closed rt' = rt_output_closed (se_runtime s)"
      "rt_pending_journal_completion rt' = rt_pending_journal_completion (se_runtime s)"
      "sm_ended_at (rt_meta rt') = sm_ended_at (rt_meta (se_runtime s))"
    and pol: "list_all (\<lambda>f. fst f \<noteq> Lifecycle) fs" by blast
  have rt': "se_runtime ?s' = rt'" by (simp add: reader_chunk_def scan sig lock Let_def)
  have "order_inv J jlog ?s'"
  proof (rule order_plain [of s "(Output, data) # fs"])
    show "list_all (\<lambda>f. fst f \<noteq> Lifecycle \<and> (fst f = Output \<longrightarrow> se_reader s = Reading)) ((Output, data) # fs)"
      using assms(2) pol by (auto simp: list_all_iff)
  qed (use inv eff same rt' assms(2) in \<open>simp_all add: session_inv_def\<close>)
  with stream_chunk [of bare s b64 E now data] inv show ?thesis by (simp add: session_inv_def)
qed

lemma inv_close:
  assumes inv: "session_inv bare J jlog s"
  shows "session_inv bare J jlog (reader_close E J now s)"
proof (cases "se_reader s")
  case (Closing detail)
  let ?idle = "is_idle (se_scanner s)"
  let ?rt' = "close_output_stream_at_boundary E J now detail ?idle (se_runtime s)"
  let ?s' = "s\<lparr>se_runtime := ?rt', se_reader := ReaderStopped\<rparr>"
  have s': "reader_close E J now s = ?s'" by (simp add: reader_close_def Closing)
  have open_stream: "\<not> rt_output_closed (se_runtime s)" and jn: "rt_journal (se_runtime s) \<noteq> None"
    using inv Closing by (auto simp: session_inv_def order_inv_def stream_inv_def)
  let ?done = "case rt_pending_journal_completion (se_runtime s) of
      Some (code, exit_code, d) \<Rightarrow> [(Lifecycle, encode_lifecycle_payload code exit_code d)] | None \<Rightarrow> []"
  from close_effect [OF jn open_stream, of detail E now ?idle] obtain cp where
    eff: "effect J jlog ([(Lifecycle, encode_lifecycle_payload OutputClosed None detail), (CheckpointRef, cp)] @ ?done)
      (se_runtime s) ?rt'" (is "effect J jlog ?fs _ _")
    and q: "quiet_fact ?idle (rt_filtered_total_bytes (se_runtime s)) (CheckpointRef, cp)"
    and same: "rt_filtered_total_bytes ?rt' = rt_filtered_total_bytes (se_runtime s)"
      "rt_resize_history ?rt' = rt_resize_history (se_runtime s)"
      "rt_output_closed ?rt'" "rt_pending_journal_completion ?rt' = None" "rt_meta ?rt' = rt_meta (se_runtime s)" by blast
  have quiet: "list_all (quiet_fact ?idle (rt_filtered_total_bytes (se_runtime s))) ?fs"
    using q by (auto simp: quiet_fact_def split: option.splits)
  have pend: "terminal_code code \<and> sm_ended_at (rt_meta (se_runtime s)) \<noteq> None"
    if "rt_pending_journal_completion (se_runtime s) = Some (code, x, d)" for code x d
    using inv that unfolding session_inv_def order_inv_def by blast
  have "stream_inv bare J jlog ?s'"
    using inv stream_quiet [of bare s ?fs ?s'] eff same quiet by (simp add: session_inv_def)
  moreover have "order_inv J jlog ?s'"
  proof (rule order_step [of s ?fs])
    fix e
    assume e: "e \<longrightarrow> rt_output_closed (se_runtime s) \<and> sm_ended_at (rt_meta (se_runtime s)) \<noteq> None"
    with open_stream have "\<not> e" by simp
    with open_stream same pend
    show "ordered (rt_output_closed (se_runtime s)) e (map fact_record ?fs)
        \<and> rt_output_closed (se_runtime ?s') = (rt_output_closed (se_runtime s) \<or> list_ex closes (map fact_record ?fs))
        \<and> (e \<or> list_ex completes (map fact_record ?fs) \<longrightarrow>
             rt_output_closed (se_runtime ?s') \<and> sm_ended_at (rt_meta (se_runtime ?s')) \<noteq> None)"
      by (cases "rt_pending_journal_completion (se_runtime s)")
        (auto simp: completes_def lifecycle_other split: option.splits)
  qed (use inv eff same in \<open>simp_all add: session_inv_def\<close>)
  ultimately show ?thesis using inv same(1) by (simp add: session_inv_def s')
qed (use inv in \<open>simp_all add: reader_close_def\<close>)

lemma inv_completed:
  assumes inv: "session_inv bare J jlog s"
  shows "session_inv bare J jlog (on_runtime (mark_completed J now status exit_code) s)" (is "session_inv bare J jlog ?s'")
proof -
  let ?rt = "se_runtime s" let ?rt' = "mark_completed J now status exit_code ?rt"
  note c = completed_effect [OF refl, of now status exit_code ?rt]
  have term_code: "completion_code status = Some code \<Longrightarrow> terminal_code code" for code
    by (cases status) (auto simp: completion_code_def)
  have old: "terminal_code code \<and> \<not> rt_output_closed ?rt" if "rt_pending_journal_completion ?rt = Some (code, x, d)" for code x d
    using inv that unfolding session_inv_def order_inv_def by blast
  have stopped: "rt_output_closed ?rt \<longrightarrow> se_reader s = ReaderStopped"
    using inv by (simp add: session_inv_def order_inv_def)
  obtain fs where eff: "effect J jlog fs ?rt ?rt'"
    and fs: "fs = [] \<or> (\<exists>code d. fs = [(Lifecycle, encode_lifecycle_payload code exit_code d)] \<and> terminal_code code
        \<and> rt_output_closed ?rt \<and> sm_ended_at (rt_meta ?rt) = None)"
    and pend: "\<And>code x d. rt_pending_journal_completion ?rt' = Some (code, x, d) \<Longrightarrow>
        terminal_code code \<and> \<not> rt_output_closed ?rt"
  proof -
    from c consider
      (same) "effect J jlog [] ?rt ?rt'" "rt_pending_journal_completion ?rt' = rt_pending_journal_completion ?rt"
    | (recorded) code d where "completion_code status = Some code" "sm_ended_at (rt_meta ?rt) = None" "rt_output_closed ?rt"
        "effect J jlog [(Lifecycle, encode_lifecycle_payload code exit_code d)] ?rt ?rt'"
        "rt_pending_journal_completion ?rt' = rt_pending_journal_completion ?rt"
    | (parked) code d where "completion_code status = Some code" "\<not> rt_output_closed ?rt" "effect J jlog [] ?rt ?rt'"
        "rt_pending_journal_completion ?rt' = Some (code, exit_code, d)"
      by (auto split: if_splits)
    then show ?thesis
    proof cases
      case same
      then show ?thesis using that [of "[]"] old by auto
    next
      case recorded
      then show ?thesis
        using that [OF recorded(4)] term_code [OF recorded(1)] old by (auto simp del: fact_record_simps)
    next
      case parked
      then show ?thesis using that [of "[]"] term_code [OF parked(1)] by auto
    qed
  qed
  have quiet: "list_all (quiet_fact (is_idle (se_scanner s)) (rt_filtered_total_bytes ?rt)) fs"
    using fs by (auto simp: quiet_fact_def)
  have "stream_inv bare J jlog ?s'"
    using inv stream_quiet [of bare s fs ?s'] eff quiet c by (simp add: session_inv_def)
  moreover have "order_inv J jlog ?s'"
  proof (rule order_step [of s fs])
    fix e
    assume e: "e \<longrightarrow> rt_output_closed ?rt \<and> sm_ended_at (rt_meta ?rt) \<noteq> None"
    from fs e c show "ordered (rt_output_closed ?rt) e (map fact_record fs)
        \<and> rt_output_closed (se_runtime ?s') = (rt_output_closed ?rt \<or> list_ex closes (map fact_record fs))
        \<and> (e \<or> list_ex completes (map fact_record fs) \<longrightarrow>
             rt_output_closed (se_runtime ?s') \<and> sm_ended_at (rt_meta (se_runtime ?s')) \<noteq> None)"
      by (auto simp: completes_def)
  qed (use inv eff c stopped pend in \<open>auto simp: session_inv_def\<close>)
  ultimately show ?thesis using inv c by (simp add: session_inv_def)
qed

lemma inv_resize:
  assumes inv: "session_inv bare J jlog s" and "rows < 2 ^ 16" and "cols < 2 ^ 16"
  shows "session_inv bare J jlog (on_runtime (\<lambda>rt. snd (resize_pty E J os_ok rows cols rt)) s)"
    (is "session_inv bare J jlog ?s'")
proof -
  let ?rt = "se_runtime s" let ?rt' = "snd (resize_pty E J os_ok rows cols ?rt)"
  note r = resize_effect [OF refl, of E os_ok rows cols ?rt]
  then consider (none) "effect J jlog [] ?rt ?rt'" "rt_resize_history ?rt' = rt_resize_history ?rt"
    | (new) "rows \<noteq> 0" "cols \<noteq> 0" "effect J jlog [(Resize, encode_resize_payload rows cols)] ?rt ?rt'"
        "rt_resize_history ?rt' = rt_resize_history ?rt
           @ [\<lparr>lr_offset = rt_filtered_total_bytes ?rt, lr_rows = rows, lr_cols = cols\<rparr>]" by blast
  then show ?thesis
  proof cases
    case none
    with inv_silent [OF inv none(1)] r show ?thesis by simp
  next
    case new
    let ?f = "(Resize, encode_resize_payload rows cols)"
    have dec: "decode_resize_payload (encode_resize_payload rows cols) = Some (rows, cols)"
      using resize_payload_round_trip [OF assms(2,3)] new(1,2) by simp
    have "stream_inv bare J jlog ?s'"
    proof (rule stream_step [of bare s "[?f]"])
      fix L
      assume "display bare [] L = (pt_pending (se_scanner s), broadcast_bytes s)"
        "rt_filtered_total_bytes ?rt = length (broadcast_bytes s)" "rt_resize_history ?rt = resizes bare [] 0 L"
        "contiguous 0 (se_broadcast s)"
      then show "(honest_checkpoints bare [] 0 L \<longrightarrow> honest_checkpoints bare [] 0 (L @ map fact_record [?f]))
        \<and> (\<not> rt_journal_failed (se_runtime ?s') \<longrightarrow>
             display bare [] (L @ map fact_record [?f]) = (pt_pending (se_scanner ?s'), broadcast_bytes ?s')
             \<and> rt_filtered_total_bytes (se_runtime ?s') = length (broadcast_bytes ?s')
             \<and> rt_resize_history (se_runtime ?s') = resizes bare [] 0 (L @ map fact_record [?f])
             \<and> contiguous 0 (se_broadcast ?s'))"
        using r new(4) dec by (auto simp: display_append resizes_append honest_append anchors_record_def)
    qed (use inv new(3) r in \<open>simp_all add: session_inv_def\<close>)
    moreover have "order_inv J jlog ?s'"
      using order_plain [of s "[?f]" ?s'] inv new(3) r by (simp add: session_inv_def)
    ultimately show ?thesis using inv r by (simp add: session_inv_def)
  qed
qed

lemma inv_refresh:
  assumes inv: "session_inv bare J jlog s"
  shows "session_inv bare J jlog (on_runtime (\<lambda>rt. snd (refresh_status J now wait rt)) s)"
proof -
  let ?poll = "\<lambda>rt. rt\<lparr>rt_journal := map_option (jo_poll_acks J) (rt_journal rt)\<rparr>"
  have polled: "session_inv bare J jlog (on_runtime ?poll s)"
    by (rule inv_silent [OF inv effect_poll]) simp_all
  let ?rt = "?poll (se_runtime s)"
  have "snd (refresh_status J now wait (se_runtime s)) = mark_completed J now st (Some code) ?rt \<Longrightarrow>
      session_inv bare J jlog (on_runtime (\<lambda>rt. snd (refresh_status J now wait rt)) s)" for st code
    using inv_completed [OF polled, of now st "Some code"] by simp
  moreover have "snd (refresh_status J now wait (se_runtime s)) = mark_completed J now StFailed None ?rt \<Longrightarrow>
      session_inv bare J jlog (on_runtime (\<lambda>rt. snd (refresh_status J now wait rt)) s)"
    using inv_completed [OF polled, of now StFailed None] by simp
  moreover have "facts_view (snd (refresh_status J now wait (se_runtime s))) = facts_view ?rt \<Longrightarrow>
      rt_filtered_total_bytes (snd (refresh_status J now wait (se_runtime s))) = rt_filtered_total_bytes ?rt \<Longrightarrow>
      session_inv bare J jlog (on_runtime (\<lambda>rt. snd (refresh_status J now wait rt)) s)"
    using inv_view [OF polled] by simp
  ultimately show ?thesis
    by (cases wait; cases "is_completed ?rt") (simp_all add: refresh_status_def Let_def facts_view_def)
qed

lemma inv_attach:
  assumes inv: "session_inv bare J jlog s"
    and "pred_option (\<lambda>(rows, cols). rows < 2 ^ 16 \<and> cols < 2 ^ 16) viewport"
  shows "session_inv bare J jlog (on_runtime (\<lambda>rt. snd (register_attachment E J now os_ok kind role viewport rt)) s)"
proof -
  obtain i granted g where reg: "register now kind role viewport (rt_attachments (se_runtime s)) = ((i, granted), g)"
    by (metis prod.collapse)
  let ?rt = "(se_runtime s)\<lparr>rt_last_attach_activity_at := Some now, rt_attachments := g\<rparr>"
  have known: "session_inv bare J jlog (s\<lparr>se_runtime := ?rt\<rparr>)"
    by (rule inv_view [OF inv]) (simp_all add: facts_view_def)
  show ?thesis
  proof (cases viewport)
    case None
    with known reg show ?thesis by (simp add: register_attachment_def Let_def)
  next
    case (Some v)
    obtain rows cols where v: "v = (rows, cols)" by (rule prod.exhaust)
    from inv_resize [OF known, of rows cols E os_ok] assms(2) Some v known reg
    show ?thesis by (auto simp: register_attachment_def Let_def split: prod.splits)
  qed
qed

lemma inv_step:
  assumes "session_step b64 bare E J s s'" and inv: "session_inv bare J jlog s"
  shows "session_inv bare J jlog s'"
  using assms(1)
proof cases
  case (chunk data now)
  then show ?thesis using inv_chunk [OF inv] by simp
next
  case eof
  then show ?thesis using inv_reader [OF inv] by simp
next
  case (read_error err)
  then show ?thesis using inv_reader [OF inv] by simp
next
  case (notifications enabled)
  then show ?thesis
    using inv_view [OF inv, of "set_notifications_enabled enabled (se_runtime s)"]
    by (simp add: set_notifications_enabled_def facts_view_def)
next
  case poll
  then show ?thesis using inv_silent [OF inv effect_poll] by simp
next
  case sync
  then show ?thesis using inv_silent [OF inv effect_sync] by simp
next
  case (bookkeeping rt')
  then show ?thesis using inv_view [OF inv] by simp
qed (use inv in \<open>auto simp: facts_view_def unregister_attachment_def mark_attach_activity_def
      intro: inv_close inv_resize inv_attach inv_refresh inv_completed inv_view\<close>)

lemma inv_run:
  assumes "session_run b64 bare E J s s'" and "session_inv bare J jlog s"
  shows "session_inv bare J jlog s'"
  using assms by (induction rule: session_run.induct) (auto intro: inv_step)

text \<open>A session as it is spawned on a journal without records.\<close>

lemma inv_spawn:
  assumes "jlog j = []" and "sm_ended_at meta = None"
    and "0 < rows" and "rows < 2 ^ 16" and "0 < cols" and "cols < 2 ^ 16"
  shows "session_inv bare J jlog (session_new (runtime_new J meta now rows cols scrollback notif e pid j))"
proof -
  let ?fs = "[(Resize, encode_resize_payload rows cols),
    (Lifecycle, encode_lifecycle_payload Started None (ascii ''session started pid='' @ pid))]"
  let ?j' = "spawn_journal J rows cols pid j"
  let ?s = "session_new (runtime_new J meta now rows cols scrollback notif e pid j)"
  have req: "requested J jlog ?fs j ?j'"
    unfolding spawn_journal_def
    using requested_trans [OF requested_record [OF prod.collapse [symmetric], THEN conjunct1]
        requested_record [OF prod.collapse [symmetric], THEN conjunct1]] by simp
  have dec: "decode_resize_payload (encode_resize_payload rows cols) = Some (rows, cols)"
    using resize_payload_round_trip [OF assms(4,6)] assms(3,5) by simp
  have honest: "honest_checkpoints bare [] 0 (jlog ?j')"
    by (rule honest_requested [OF req]) (simp_all add: assms(1) dec anchors_record_def)
  have ord: "ordered False False (jlog ?j')"
  proof (rule requested_keeps [OF req, where P = "ordered False False"])
    fix a b :: "Record list"
    show "map fact_of a = map fact_of b \<Longrightarrow> ordered False False a \<Longrightarrow> ordered False False b"
      using ordered_facts [of False False a] ordered_facts [of False False b] by simp
    show "ordered False False (a @ b) \<Longrightarrow> ordered False False a" by (simp add: ordered_append)
  qed (simp_all add: assms(1) lifecycle_other completes_def)
  have "list_ex closes (jlog ?j') = False \<and> list_ex completes (jlog ?j') = False" if h: "\<not> jo_is_degraded J ?j'"
  proof -
    have eq: "map fact_of (jlog ?j') = map fact_of (map fact_record ?fs)"
      using requested_log [OF req h] assms(1) by simp
    show ?thesis
      using ex_facts [OF eq, of closes] ex_facts [OF eq, of completes]
      by (simp add: completes_def lifecycle_other)
  qed
  moreover have "display bare [] (jlog ?j') = ([], []) \<and> resizes bare [] 0 (jlog ?j')
      = [\<lparr>lr_offset = 0, lr_rows = rows, lr_cols = cols\<rparr>]" if h: "\<not> jo_is_degraded J ?j'"
    using healthy_requested [OF req h, of bare] assms(1) dec by (simp split: option.splits)
  ultimately show ?thesis
    using honest ord assms(2)
    by (simp add: session_inv_def stream_inv_def order_inv_def session_new_def runtime_new_def PtyScanner_new_def)
qed

end

end
