(* ===== verification/Journal_Durability.thy ===== *)
theory Journal_Durability
  imports Journal_Appender
begin

text \<open>
  What the appender leaves on disk, for every input and every schedule of I/O faults: the
  records it acknowledged are the records recovery reads back, and those it reported durable
  survive a crash that loses unsynced bytes.
\<close>

section \<open>The segment parts of one incarnation\<close>

definition event_record :: "OrderedEvent \<Rightarrow> Record" where
  "event_record e = \<lparr>rec_kind = ev_kind e, rec_seq = ev_seq e,
                     rec_elapsed_ms = ev_elapsed_ms e, rec_payload = ev_payload e\<rparr>"

text \<open>
  \<open>rss\<close> are the finished parts, \<open>cur\<close> the records of the active part, \<open>junk\<close> the bytes a
  failed write left behind them, and \<open>D\<close> the last sequence a sync has covered.
\<close>

definition parts_on_disk ::
  "'h hasher \<Rightarrow> nat \<Rightarrow> Record list list \<Rightarrow> Record list \<Rightarrow> bytes \<Rightarrow> nat \<Rightarrow> disk \<Rightarrow> bool" where
  "parts_on_disk H i rss cur junk D d \<longleftrightarrow>
     (\<forall>k < length rss. rss ! k \<noteq> [] \<and>
        file_at d (segment_path i (Suc k))
          = Some \<lparr>jf_bytes = encode_records H (rss ! k),
                  jf_synced = length (encode_records H (rss ! k))\<rparr>)
     \<and> (\<exists>x. file_at d (segment_path i (Suc (length rss))) = Some x
            \<and> jf_bytes x = encode_records H cur @ junk
            \<and> length (encode_records H (take (D - length (concat rss)) cur)) \<le> jf_synced x
            \<and> jf_synced x \<le> length (encode_records H cur))"

definition part_entry :: "'h hasher \<Rightarrow> nat \<Rightarrow> nat \<Rightarrow> Record list \<Rightarrow> SegmentManifestEntry" where
  "part_entry H i k rs =
     \<lparr>me_incarnation = i, me_part = k, me_first_seq = rec_seq (hd rs),
      me_last_seq = rec_seq (last rs), me_bytes = length (encode_records H rs),
      me_crc32 = Crc32_of H (encode_records H rs)\<rparr>"

definition part_rows :: "'h hasher \<Rightarrow> nat \<Rightarrow> Record list list \<Rightarrow> manifest_row list" where
  "part_rows H i rss =
     map (\<lambda>k. Row (Sealed (part_entry H i (Suc k) (rss ! k)))) [0..<length rss]"

text \<open>The writer's own bookkeeping of the active part.\<close>

definition writer_matches ::
  "'h hasher \<Rightarrow> nat \<Rightarrow> Record list list \<Rightarrow> Record list \<Rightarrow> 'h RollingSegmentWriter \<Rightarrow> bool" where
  "writer_matches H i rss cur w \<longleftrightarrow>
     rw_incarnation w = i \<and> rw_part w = Suc (length rss)
     \<and> sw_file (rw_writer w) = segment_path i (Suc (length rss))
     \<and> rw_part_bytes w = length (encode_records H cur)
     \<and> rw_first_seq w = (if cur = [] then None else Some (rec_seq (hd cur)))
     \<and> (cur \<noteq> [] \<longrightarrow> rw_last_seq w = rec_seq (last cur))
     \<and> (\<exists>bss. rw_crc w = foldl (Crc32_update H) (Crc32_new H) bss
              \<and> concat bss = encode_records H cur)"

text \<open>
  After a failure the records on disk are the same, possibly with one more, empty part and a
  prefix of the record that was being written.
\<close>

definition same_records ::
  "Record list list \<Rightarrow> Record list \<Rightarrow> Record list list \<Rightarrow> Record list \<Rightarrow> bool" where
  "same_records rss cur rss' cur' \<longleftrightarrow> concat rss' @ cur' = concat rss @ cur"

text \<open>The manifest names every finished part, after whatever it held at the start.\<close>

definition manifest_on_disk ::
  "'h hasher \<Rightarrow> nat \<Rightarrow> ManifestLine list \<Rightarrow> Record list list \<Rightarrow> disk \<Rightarrow> bool" where
  "manifest_on_disk H i base rss d \<longleftrightarrow> jd_manifest d = map Row base @ part_rows H i rss"

lemma parts_on_disk_frame:
  assumes "parts_on_disk H i rss cur junk D d" and "jd_files d' = jd_files d"
  shows "parts_on_disk H i rss cur junk D d'"
  using assms by (simp add: parts_on_disk_def)

lemma part_rows_snoc:
  "part_rows H i (rss @ [rs])
     = part_rows H i rss @ [Row (Sealed (part_entry H i (Suc (length rss)) rs))]"
  by (auto simp: part_rows_def nth_append)

text \<open>Syncing the active part covers every record in it.\<close>

lemma parts_on_disk_sync:
  assumes "parts_on_disk H i rss cur [] D d"
    and "\<And>m. file_at d' m = (if m = segment_path i (Suc (length rss))
          then map_option (\<lambda>x. x\<lparr>jf_synced := length (jf_bytes x)\<rparr>) (file_at d m)
          else file_at d m)"
  shows "parts_on_disk H i rss cur [] D' d'"
proof -
  have "length (encode_records H (take n cur)) \<le> length (encode_records H cur)" for n
    by (metis append_take_drop_id encode_records_append length_append le_add1)
  with assms show ?thesis by (auto simp: parts_on_disk_def)
qed

text \<open>A fully synced active part can be closed and an empty next part opened.\<close>

lemma parts_on_disk_roll:
  assumes "parts_on_disk H i rss cur [] D d" and "cur \<noteq> []"
    and "\<exists>x. file_at d (segment_path i (Suc (length rss))) = Some x
             \<and> jf_synced x = length (jf_bytes x)"
    and "\<And>m. file_at d' m = (if m = segment_path i (Suc (Suc (length rss)))
          then Some \<lparr>jf_bytes = [], jf_synced = 0\<rparr> else file_at d m)"
  shows "parts_on_disk H i (rss @ [cur]) [] [] D d'"
proof -
  from assms(1,3) have "file_at d (segment_path i (Suc (length rss)))
      = Some \<lparr>jf_bytes = encode_records H cur, jf_synced = length (encode_records H cur)\<rparr>"
    by (auto simp: parts_on_disk_def)
  then show ?thesis
    using assms(1,2,4) by (auto simp: parts_on_disk_def nth_append less_Suc_eq)
qed

text \<open>Writing bytes behind the active part's records.\<close>

lemma parts_on_disk_write:
  assumes "parts_on_disk H i rss cur junk D d"
    and "\<And>m. file_at d' m = (if m = segment_path i (Suc (length rss))
          then map_option (\<lambda>x. x\<lparr>jf_bytes := jf_bytes x @ bs\<rparr>) (file_at d m) else file_at d m)"
  shows "parts_on_disk H i rss cur (junk @ bs) D d'"
  using assms by (auto simp: parts_on_disk_def)

text \<open>Once the bytes of a whole record are there, the record is part of the run.\<close>

lemma parts_on_disk_complete:
  assumes "parts_on_disk H i rss cur (encode_record H r) D d" and "D \<le> length (concat rss @ cur)"
  shows "parts_on_disk H i rss (cur @ [r]) [] D d"
proof -
  have "D - length (concat rss) \<le> length cur" using assms(2) by simp
  then have "take (D - length (concat rss)) (cur @ [r]) = take (D - length (concat rss)) cur"
    by simp
  moreover obtain x where "file_at d (segment_path i (Suc (length rss))) = Some x"
    "jf_bytes x = encode_records H cur @ encode_record H r"
    "length (encode_records H (take (D - length (concat rss)) cur)) \<le> jf_synced x"
    "jf_synced x \<le> length (encode_records H cur)"
    using assms(1) by (auto simp: parts_on_disk_def)
  ultimately show ?thesis
    using assms(1) by (auto simp: parts_on_disk_def)
qed

section \<open>The writer's operations\<close>

context crc_hasher
begin

lemma writer_entry:
  assumes "writer_matches H i rss cur w" and "cur \<noteq> []"
  shows "\<lparr>me_incarnation = rw_incarnation w, me_part = rw_part w, me_first_seq = rec_seq (hd cur),
          me_last_seq = rw_last_seq w, me_bytes = rw_part_bytes w,
          me_crc32 = Crc32_finish H (rw_crc w)\<rparr> = part_entry H i (Suc (length rss)) cur"
  using assms by (auto simp: writer_matches_def part_entry_def finish_chunks)

lemma seal_part_spec:
  assumes disk: "parts_on_disk H i rss cur [] D d" and w: "writer_matches H i rss cur w"
    and run: "seal_part H w d = (res, d')"
  shows "parts_on_disk H i rss cur [] D d'
     \<and> (\<forall>w'. res = Inr w' \<longrightarrow> cur \<noteq> [] \<longrightarrow>
          w' = w\<lparr>rw_first_seq := None, rw_crc := Crc32_new H\<rparr>
          \<and> jd_manifest d' = append_row (jd_manifest d)
               (Row (Sealed (part_entry H i (Suc (length rss)) cur)))
          \<and> (\<exists>x. file_at d' (segment_path i (Suc (length rss))) = Some x
                 \<and> jf_synced x = length (jf_bytes x)))"
proof (cases "cur = []")
  case True
  with w run disk show ?thesis by (auto simp: seal_part_def writer_matches_def)
next
  case False
  have sf: "sw_file (rw_writer w) = segment_path i (Suc (length rss))"
    and fs: "rw_first_seq w = Some (rec_seq (hd cur))"
    using w False by (auto simp: writer_matches_def)
  obtain q d1 where sy: "fs_sync (segment_path i (Suc (length rss))) d = (q, d1)" by fastforce
  from sy show ?thesis
  proof (cases rule: fs_sync_cases)
    case ok
    have on: "parts_on_disk H i rss cur [] D d1"
      using parts_on_disk_sync [OF disk ok(3)] .
    have synced: "\<exists>x. file_at d1 (segment_path i (Suc (length rss))) = Some x
        \<and> jf_synced x = length (jf_bytes x)"
      using ok(3) disk by (auto simp: parts_on_disk_def)
    obtain q2 d2 where ap: "append_manifest_line
        (Sealed (part_entry H i (Suc (length rss)) cur)) d1 = (q2, d2)" by fastforce
    note ap' = append_manifest_line_cases [OF ap]
    show ?thesis
      using run sy ok(1,2) ap ap' on synced
      unfolding seal_part_def fs option.case writer_entry [OF w False] Let_def
        SegmentWriter_sync_def sf io_bind_eq SegmentManifestEntry_append_to_def
      by (auto dest!: sync_dir_frame intro: parts_on_disk_frame)
  next
    case (err e)
    with run sy disk show ?thesis
      unfolding seal_part_def fs option.case writer_entry [OF w False] Let_def
        SegmentWriter_sync_def sf io_bind_eq
      by (auto intro: parts_on_disk_frame)
  qed
qed

lemma roll_over_spec:
  assumes disk: "parts_on_disk H i rss cur [] D d" and w: "writer_matches H i rss cur w"
    and man: "jd_manifest d = map Row base @ part_rows H i rss" and cur: "cur \<noteq> []"
    and run: "roll_over H w d = (res, d')"
  shows "case res of
       Inr w' \<Rightarrow> parts_on_disk H i (rss @ [cur]) [] [] D d' \<and> writer_matches H i (rss @ [cur]) [] w'
                \<and> jd_manifest d' = map Row base @ part_rows H i (rss @ [cur])
     | Inl e \<Rightarrow> \<exists>rss' cur'. same_records rss cur rss' cur' \<and> parts_on_disk H i rss' cur' [] D d'"
proof -
  obtain q d1 where se: "seal_part H w d = (q, d1)" by fastforce
  note se' = seal_part_spec [OF disk w se]
  show ?thesis
  proof (cases q)
    case (Inl e)
    with run se se' show ?thesis
      by (auto simp: roll_over_def io_bind_eq same_records_def intro!: exI [of _ rss] exI [of _ cur])
  next
    case (Inr w1)
    define name where "name = segment_path i (Suc (Suc (length rss)))"
    have w1: "w1 = w\<lparr>rw_first_seq := None, rw_crc := Crc32_new H\<rparr>"
      and on: "parts_on_disk H i rss cur [] D d1"
      and synced: "\<exists>x. file_at d1 (segment_path i (Suc (length rss))) = Some x
          \<and> jf_synced x = length (jf_bytes x)"
      and row: "jd_manifest d1 = append_row (jd_manifest d)
          (Row (Sealed (part_entry H i (Suc (length rss)) cur)))"
      using se' Inr cur by auto
    have nm: "segment_path (rw_incarnation w1) (rw_part w1 + 1) = name"
      using w w1 by (simp add: writer_matches_def name_def)
    have "map Row base @ part_rows H i rss
        = map Row (base @ map (\<lambda>k. Sealed (part_entry H i (Suc k) (rss ! k))) [0..<length rss])"
      by (simp add: part_rows_def)
    then have "append_row (map Row base @ part_rows H i rss) r
        = (map Row base @ part_rows H i rss) @ [r]" for r by (metis append_row_ended)
    then have man1: "jd_manifest d1 = map Row base @ part_rows H i (rss @ [cur])"
      by (simp add: row man part_rows_snoc)
    obtain q2 d2 where cr: "fs_create_new name d1 = (q2, d2)" by fastforce
    from cr show ?thesis
    proof (cases rule: fs_create_new_cases)
      case ok
      have on2: "parts_on_disk H i (rss @ [cur]) [] [] D d2"
        using parts_on_disk_roll [OF on cur synced ok(4) [unfolded name_def]] .
      obtain q3 d3 where sd: "sync_dir d2 = (q3, d3)" by fastforce
      note sd' = sync_dir_frame [OF sd]
      have wm: "writer_matches H i (rss @ [cur]) []
          (w1\<lparr>rw_part := rw_part w1 + 1, rw_writer := \<lparr>sw_file = name, sw_written = 0\<rparr>,
              rw_part_bytes := 0\<rparr>)"
        using w w1 unfolding writer_matches_def name_def by (auto intro!: exI [of _ "[]"])
      have on3: "parts_on_disk H i (rss @ [cur]) [] [] D d3"
        using parts_on_disk_frame [OF on2] sd' by simp
      then have ex: "\<exists>rss' cur'. same_records rss cur rss' cur' \<and> parts_on_disk H i rss' cur' [] D d3"
        by (intro exI [of _ "rss @ [cur]"] exI [of _ "[]"]) (simp add: same_records_def)
      show ?thesis
        using run se Inr cr ok(1,2) sd sd' on3 wm man1 nm ex
        unfolding roll_over_def io_bind_eq SegmentWriter_create_def
        by (cases res) auto
    next
      case (err e)
      have "\<exists>rss' cur'. same_records rss cur rss' cur' \<and> parts_on_disk H i rss' cur' [] D d2"
        using parts_on_disk_frame [OF on err(3)]
        by (intro exI [of _ rss] exI [of _ cur]) (simp add: same_records_def)
      with run se Inr cr nm err show ?thesis
        unfolding roll_over_def io_bind_eq SegmentWriter_create_def by auto
    qed
  qed
qed

lemma write_encoded_spec:
  assumes disk: "parts_on_disk H i rss cur [] D d"
    and sf: "sw_file sw = segment_path i (Suc (length rss))"
    and run: "write_encoded sw hdr payload d = (res, d')"
  shows "jd_manifest d' = jd_manifest d \<and>
    (case res of
       Inr sw' \<Rightarrow> sw_file sw' = sw_file sw \<and> parts_on_disk H i rss cur (hdr @ payload) D d'
     | Inl e \<Rightarrow> \<exists>n. parts_on_disk H i rss cur (take n (hdr @ payload)) D d')"
proof -
  obtain q d1 where w1: "fs_write_all (segment_path i (Suc (length rss))) hdr d = (q, d1)"
    by fastforce
  from w1 show ?thesis
  proof (cases rule: fs_write_all_cases)
    case ok
    have on1: "parts_on_disk H i rss cur hdr D d1"
      using parts_on_disk_write [OF disk ok(3)] by simp
    obtain q2 d2 where w2: "fs_write_all (segment_path i (Suc (length rss))) payload d1 = (q2, d2)"
      by fastforce
    from w2 show ?thesis
    proof (cases rule: fs_write_all_cases)
      case ok': ok
      have "parts_on_disk H i rss cur (hdr @ payload) D d2"
        using parts_on_disk_write [OF on1 ok'(3)] .
      with run w1 w2 ok(1,2) ok'(1,2) show ?thesis
        unfolding write_encoded_def io_bind_eq sf by (cases res) (auto simp: sf)
    next
      case (err n e)
      have "parts_on_disk H i rss cur (hdr @ take n payload) D d2"
        using parts_on_disk_write [OF on1 err(3)] .
      then have "\<exists>n. parts_on_disk H i rss cur (take n (hdr @ payload)) D d2"
        by (intro exI [of _ "length hdr + n"]) simp
      then show ?thesis
        using run w1 w2 ok(1,2) err(1,2) unfolding write_encoded_def io_bind_eq sf
        by (cases res) (simp_all del: take_append)
    qed
  next
    case (err n e)
    have "parts_on_disk H i rss cur (take n hdr) D d1"
      using parts_on_disk_write [OF disk err(3)] by simp
    then have "\<exists>n. parts_on_disk H i rss cur (take n (hdr @ payload)) D d1"
      by (intro exI [of _ "min n (length hdr)"]) (auto simp: min_def)
    then show ?thesis
      using run w1 err(1,2) unfolding write_encoded_def io_bind_eq sf
      by (cases res) (simp_all del: take_append)
  qed
qed

lemma rolling_write_spec:
  fixes r :: Record
  assumes disk: "parts_on_disk H i rss cur [] D d" and w: "writer_matches H i rss cur w"
    and D: "D \<le> length (concat rss @ cur)"
    and run: "write_encoded (rw_writer w)
        (encode_record_header H (rec_kind r) (rec_seq r) (rec_elapsed_ms r) (rec_payload r))
        (rec_payload r) d = (res, d')"
  shows "jd_manifest d' = jd_manifest d \<and>
    (case res of
       Inr sw \<Rightarrow> parts_on_disk H i rss (cur @ [r]) [] D d'
         \<and> writer_matches H i rss (cur @ [r])
             (note_appended H w (rec_seq r) (encode_record_header H (rec_kind r) (rec_seq r)
                (rec_elapsed_ms r) (rec_payload r)) (rec_payload r) sw)
     | Inl e \<Rightarrow> \<exists>n. parts_on_disk H i rss cur (take n (encode_record H r)) D d')"
proof -
  let ?h = "encode_record_header H (rec_kind r) (rec_seq r) (rec_elapsed_ms r) (rec_payload r)"
  have sf: "sw_file (rw_writer w) = segment_path i (Suc (length rss))"
    using w by (simp add: writer_matches_def)
  note wr = write_encoded_spec [OF disk sf run]
  show ?thesis
  proof (cases res)
    case (Inl e)
    with wr show ?thesis by (simp add: encode_record_def)
  next
    case (Inr sw)
    from w obtain bss where "rw_crc w = foldl (Crc32_update H) (Crc32_new H) bss"
      "concat bss = encode_records H cur" by (auto simp: writer_matches_def)
    then have "\<exists>bss. Crc32_update H (Crc32_update H (rw_crc w) ?h) (rec_payload r)
          = foldl (Crc32_update H) (Crc32_new H) bss
        \<and> concat bss = encode_records H (cur @ [r])"
      by (intro exI [of _ "bss @ [?h, rec_payload r]"]) (simp add: encode_record_def)
    moreover have "parts_on_disk H i rss (cur @ [r]) [] D d'"
      using wr Inr D by (intro parts_on_disk_complete) (simp_all add: encode_record_def)
    ultimately show ?thesis
      using wr Inr w by (auto simp: writer_matches_def note_appended_def)
  qed
qed

lemma rolling_append_spec:
  fixes r :: Record
  assumes disk: "parts_on_disk H i rss cur [] D d" and w: "writer_matches H i rss cur w"
    and man: "manifest_on_disk H i base rss d" and D: "D \<le> length (concat rss @ cur)"
    and run: "rolling_append H w (rec_kind r) (rec_seq r) (rec_elapsed_ms r) (rec_payload r) d
                = (res, d')"
  shows "case res of
       Inr w' \<Rightarrow> \<exists>rss' cur'. same_records rss (cur @ [r]) rss' cur'
                 \<and> parts_on_disk H i rss' cur' [] D d' \<and> writer_matches H i rss' cur' w'
                 \<and> manifest_on_disk H i base rss' d'
     | Inl e \<Rightarrow> \<exists>rss' cur' n. same_records rss cur rss' cur'
                 \<and> parts_on_disk H i rss' cur' (take n (encode_record H r)) D d'"
proof -
  let ?roll = "0 < rw_part_bytes w
    \<and> rw_max_part_bytes w < rw_part_bytes w + (HEADER_LEN + length (rec_payload r))"
  obtain q d1 where first: "(if ?roll then roll_over H w else io_return w) d = (q, d1)"
    by fastforce
  have cur: "?roll \<Longrightarrow> cur \<noteq> []"
    using w by (auto simp: writer_matches_def)
  show ?thesis
  proof (cases q)
    case (Inl e)
    with first have ro: "roll_over H w d = (Inl e, d1)" and roll: "?roll"
      by (auto split: if_splits)
    from roll_over_spec [OF disk w _ cur [OF roll] ro] man
    have "\<exists>rss' cur'. same_records rss cur rss' cur' \<and> parts_on_disk H i rss' cur' [] D d1"
      by (simp add: manifest_on_disk_def)
    then have "\<exists>rss' cur' n. same_records rss cur rss' cur'
        \<and> parts_on_disk H i rss' cur' (take n (encode_record H r)) D d1"
      by (metis take_0)
    with run first Inl show ?thesis
      unfolding rolling_append_def Let_def io_bind_eq by auto
  next
    case (Inr w1)
    obtain rss1 cur1 where same: "same_records rss cur rss1 cur1"
      and disk1: "parts_on_disk H i rss1 cur1 [] D d1" and w1: "writer_matches H i rss1 cur1 w1"
      and man1: "manifest_on_disk H i base rss1 d1"
    proof (cases ?roll)
      case True
      with first Inr have ro: "roll_over H w d = (Inr w1, d1)" by auto
      from roll_over_spec [OF disk w _ cur [OF True] ro] man show ?thesis
        by (intro that [of "rss @ [cur]" "[]"]) (auto simp: manifest_on_disk_def same_records_def)
    next
      case False
      with first Inr disk w man show ?thesis
        by (intro that [of rss cur]) (auto simp: same_records_def)
    qed
    obtain q2 d2 where wr: "write_encoded (rw_writer w1)
        (encode_record_header H (rec_kind r) (rec_seq r) (rec_elapsed_ms r) (rec_payload r))
        (rec_payload r) d1 = (q2, d2)" by fastforce
    have D1: "D \<le> length (concat rss1 @ cur1)" using D same by (simp add: same_records_def)
    note spec = rolling_write_spec [OF disk1 w1 D1 wr]
    have same': "same_records rss (cur @ [r]) rss1 (cur1 @ [r])"
      using same by (metis same_records_def append_assoc)
    show ?thesis
    proof (cases q2)
      case (Inl e)
      with spec same have "\<exists>rss' cur' n. same_records rss cur rss' cur'
          \<and> parts_on_disk H i rss' cur' (take n (encode_record H r)) D d2" by auto
      with run first Inr wr Inl show ?thesis
        unfolding rolling_append_def Let_def io_bind_eq by auto
    next
      case (Inr sw)
      with run first \<open>q = Inr w1\<close> wr spec same' man1 show ?thesis
        unfolding rolling_append_def Let_def io_bind_eq
        by (cases res)
          (auto simp: manifest_on_disk_def intro!: exI [of _ rss1] exI [of _ "cur1 @ [r]"])
    qed
  qed
qed

end

section \<open>The appender's invariant\<close>

fun journaled_of :: "JournalAck \<Rightarrow> nat option" where
  "journaled_of (Journaled s) = Some s"
| "journaled_of _ = None"

definition journaled_seqs :: "JournalAck list \<Rightarrow> nat list" where
  "journaled_seqs acks = List.map_filter journaled_of acks"

lemma journaled_seqs_append [simp]:
  "journaled_seqs (xs @ ys) = journaled_seqs xs @ journaled_seqs ys"
  by (simp add: journaled_seqs_def)

lemma journaled_seqs_simps [simp]:
  "journaled_seqs [] = []"
  "journaled_seqs (Journaled s # xs) = s # journaled_seqs xs"
  "journaled_seqs (Durable s # xs) = journaled_seqs xs"
  "journaled_seqs (AckFailed r # xs) = journaled_seqs xs"
  by (simp_all add: journaled_seqs_def List.map_filter_simps)

text \<open>Bytes a failed write may leave: a proper prefix of the record that comes next.\<close>

definition torn_bytes :: "'h hasher \<Rightarrow> Record list \<Rightarrow> bytes \<Rightarrow> bool" where
  "torn_bytes H recs junk \<longleftrightarrow>
     junk = [] \<or> (\<exists>r n. junk = take n (encode_record H r) \<and> 0 < n
                        \<and> n < length (encode_record H r) \<and> record_run 1 (recs @ [r]))"

text \<open>
  What the acknowledgements say about the disk, alive or dead: sequences are acknowledged in
  order, everything acknowledged is on disk, at most one further record is, and everything
  reported durable is covered by a sync.
\<close>

definition acks_hold ::
  "'h hasher \<Rightarrow> nat \<Rightarrow> OrderedEvent set \<Rightarrow> 'h appender \<Rightarrow> disk
     \<Rightarrow> Record list list \<Rightarrow> Record list \<Rightarrow> bytes \<Rightarrow> bool" where
  "acks_hold H i evs a d rss cur junk \<longleftrightarrow>
     parts_on_disk H i rss cur junk (ap_last_durable a) d
     \<and> record_run 1 (concat rss @ cur)
     \<and> set (concat rss @ cur) \<subseteq> event_record ` evs
     \<and> torn_bytes H (concat rss @ cur) junk
     \<and> journaled_seqs (ap_acks a) = [1..<Suc (ap_last_written a)]
     \<and> ap_last_written a \<le> length (concat rss @ cur)
     \<and> length (concat rss @ cur) \<le> Suc (ap_last_written a)
     \<and> ap_last_durable a \<le> ap_last_written a
     \<and> (\<forall>m. Durable m \<in> set (ap_acks a) \<longrightarrow> m \<le> ap_last_durable a)"

definition writer_holds ::
  "'h hasher \<Rightarrow> nat \<Rightarrow> ManifestLine list \<Rightarrow> 'h appender \<Rightarrow> disk
     \<Rightarrow> Record list list \<Rightarrow> Record list \<Rightarrow> bytes \<Rightarrow> bool" where
  "writer_holds H i base a d rss cur junk \<longleftrightarrow>
     junk = [] \<and> length (concat rss @ cur) = ap_last_written a
     \<and> ap_expected_seq a = Suc (ap_last_written a)
     \<and> writer_matches H i rss cur (ap_writer a) \<and> manifest_on_disk H i base rss d"

definition appender_inv ::
  "'h hasher \<Rightarrow> nat \<Rightarrow> ManifestLine list \<Rightarrow> OrderedEvent set \<Rightarrow> 'h appender \<Rightarrow> disk \<Rightarrow> bool" where
  "appender_inv H i base evs a d \<longleftrightarrow>
     (\<exists>rss cur junk. acks_hold H i evs a d rss cur junk
        \<and> (ap_dead a = None \<longrightarrow> writer_holds H i base a d rss cur junk))"

lemma acks_hold_fail:
  "acks_hold H i evs a d rss cur junk \<Longrightarrow> acks_hold H i evs (fail reason a) d rss cur junk"
  by (simp add: acks_hold_def fail_def send_ack_def)

lemma acks_hold_frame:
  "acks_hold H i evs a d rss cur junk \<Longrightarrow> jd_files d' = jd_files d
     \<Longrightarrow> acks_hold H i evs a d' rss cur junk"
  by (auto simp: acks_hold_def intro: parts_on_disk_frame)

lemma fail_dead [simp]: "ap_dead (fail reason a) = Some reason"
  by (simp add: fail_def send_ack_def)

lemma appender_inv_failed:
  "acks_hold H i evs a d rss cur junk \<Longrightarrow> appender_inv H i base evs (fail reason a) d"
  unfolding appender_inv_def by (auto intro: acks_hold_fail)

lemma appender_inv_ack_failed:
  assumes "appender_inv H i base evs a d" and "ap_dead a = Some r"
  shows "appender_inv H i base evs (send_ack (AckFailed r) a) d"
  using assms by (simp add: appender_inv_def acks_hold_def send_ack_def)

lemma acks_holdD:
  assumes "acks_hold H i evs a d rss cur junk"
  shows "parts_on_disk H i rss cur junk (ap_last_durable a) d"
    and "record_run 1 (concat rss @ cur)"
    and "set (concat rss @ cur) \<subseteq> event_record ` evs"
    and "torn_bytes H (concat rss @ cur) junk"
    and "journaled_seqs (ap_acks a) = [1..<Suc (ap_last_written a)]"
    and "ap_last_written a \<le> length (concat rss @ cur)"
    and "length (concat rss @ cur) \<le> Suc (ap_last_written a)"
    and "ap_last_durable a \<le> ap_last_written a"
    and "\<And>m. Durable m \<in> set (ap_acks a) \<Longrightarrow> m \<le> ap_last_durable a"
  using assms unfolding acks_hold_def by blast+

lemma do_sync_inv:
  assumes inv: "appender_inv H i base evs a d" and alive: "ap_dead a = None"
    and run: "do_sync a d = (a', d')"
  shows "appender_inv H i base evs a' d'"
proof -
  from inv alive obtain rss cur where hold: "acks_hold H i evs a d rss cur []"
    and wr: "writer_holds H i base a d rss cur []"
    by (auto simp: appender_inv_def writer_holds_def)
  from wr have sf: "sw_file (rw_writer (ap_writer a)) = segment_path i (Suc (length rss))"
    by (simp add: writer_holds_def writer_matches_def)
  obtain q d1 where sy: "fs_sync (segment_path i (Suc (length rss))) d = (q, d1)" by fastforce
  from sy show ?thesis
  proof (cases rule: fs_sync_cases)
    case ok
    define a1 where "a1 = send_ack (Durable (ap_last_written a))
        (a\<lparr>ap_last_durable := ap_last_written a, ap_sync_deadline := None\<rparr>)"
    have eqs: "a' = a1" "d' = d1"
      using run sy ok(1) by (simp_all add: do_sync_def SegmentWriter_sync_def sf a1_def)
    have "parts_on_disk H i rss cur [] (ap_last_written a) d1"
      using parts_on_disk_sync [OF acks_holdD(1) [OF hold] ok(3)] .
    with hold have "acks_hold H i evs a1 d1 rss cur []"
      by (fastforce simp: acks_hold_def a1_def send_ack_def)
    moreover have "writer_holds H i base a1 d1 rss cur []"
      using wr ok(2) by (simp add: writer_holds_def a1_def send_ack_def manifest_on_disk_def)
    ultimately show ?thesis unfolding eqs appender_inv_def by blast
  next
    case (err e)
    then have "a' = fail (SyncFailed e) a" "d' = d1"
      using run sy by (simp_all add: do_sync_def SegmentWriter_sync_def sf)
    with hold err show ?thesis
      by (auto intro: appender_inv_failed acks_hold_frame)
  qed
qed

fun input_event :: "loop_input \<Rightarrow> OrderedEvent option" where
  "input_event (Received (MsgRecord e) now) = Some e"
| "input_event _ = None"

definition input_events :: "loop_input list \<Rightarrow> OrderedEvent set" where
  "input_events inputs = set (List.map_filter input_event inputs)"

lemma torn_bytes_take:
  assumes "record_run 1 (recs @ [r])" and "n < length (encode_record H r)"
  shows "torn_bytes H recs (take n (encode_record H r))"
  using assms by (cases "n = 0") (auto simp: torn_bytes_def)

text \<open>A failed append: the record in flight may have reached the disk in part or in full.\<close>

lemma acks_hold_torn:
  assumes hold: "acks_hold H i evs a d0 rss0 cur0 []"
    and all: "length (concat rss0 @ cur0) = ap_last_written a"
    and same: "same_records rss0 cur0 rss cur"
    and parts: "parts_on_disk H i rss cur (take n (encode_record H r)) (ap_last_durable a) d"
    and run: "record_run 1 (concat rss0 @ cur0 @ [r])" and ev: "r \<in> event_record ` evs"
  shows "\<exists>cur' junk. acks_hold H i evs a d rss cur' junk"
proof (cases "n < length (encode_record H r)")
  case True
  have "torn_bytes H (concat rss @ cur) (take n (encode_record H r))"
    using torn_bytes_take [OF _ True] run same by (simp add: same_records_def)
  with acks_holdD [OF hold] same parts have "acks_hold H i evs a d rss cur (take n (encode_record H r))"
    unfolding acks_hold_def same_records_def by auto
  then show ?thesis by blast
next
  case False
  have len: "length (concat rss @ cur) = ap_last_written a"
    using all same by (simp add: same_records_def)
  then have "ap_last_durable a \<le> length (concat rss @ cur)"
    using acks_holdD(8) [OF hold] by simp
  then have parts': "parts_on_disk H i rss (cur @ [r]) [] (ap_last_durable a) d"
    using parts False by (intro parts_on_disk_complete) simp_all
  have eq: "concat rss @ cur @ [r] = concat rss0 @ cur0 @ [r]"
    using same by (metis same_records_def append_assoc)
  have "set (concat rss @ cur @ [r]) \<subseteq> event_record ` evs"
    unfolding eq using acks_holdD(3) [OF hold] ev by auto
  moreover have "record_run 1 (concat rss @ cur @ [r])"
    unfolding eq by (rule run)
  moreover have "length (concat rss @ cur @ [r]) = Suc (ap_last_written a)"
    using len by simp
  ultimately have "acks_hold H i evs a d rss (cur @ [r]) []"
    using acks_holdD(5,8,9) [OF hold] parts' unfolding acks_hold_def torn_bytes_def by auto
  then show ?thesis by blast
qed

context crc_hasher
begin

lemma append_event_inv:
  assumes inv: "appender_inv H i base evs a d" and ev: "e \<in> evs" and ok: "record_ok (event_record e)"
    and run: "append_event H si e now a d = (a', d')"
  shows "appender_inv H i base evs a' d'"
proof (cases "ap_dead a")
  case (Some r)
  with run appender_inv_ack_failed [OF inv Some] show ?thesis
    by (simp add: append_event_def)
next
  case None
  from inv None obtain rss cur where hold: "acks_hold H i evs a d rss cur []"
    and wr: "writer_holds H i base a d rss cur []"
    by (auto simp: appender_inv_def writer_holds_def)
  show ?thesis
  proof (cases "ev_seq e = ap_expected_seq a")
    case False
    with run None hold show ?thesis by (auto simp: append_event_def intro: appender_inv_failed)
  next
    case True
    let ?r = "event_record e"
    have all: "length (concat rss @ cur) = ap_last_written a"
      and nxt: "ap_expected_seq a = Suc (ap_last_written a)"
      and wm: "writer_matches H i rss cur (ap_writer a)" and man: "manifest_on_disk H i base rss d"
      using wr unfolding writer_holds_def by blast+
    have D: "ap_last_durable a \<le> length (concat rss @ cur)"
      using acks_holdD(8) [OF hold] all by simp
    have runs: "record_run 1 (concat rss @ cur @ [?r])"
      using acks_holdD(2) [OF hold] ok all nxt True by (simp add: event_record_def)
    obtain q d1 where ra: "rolling_append H (ap_writer a) (rec_kind ?r) (rec_seq ?r)
        (rec_elapsed_ms ?r) (rec_payload ?r) d = (q, d1)" by fastforce
    note spec = rolling_append_spec [OF acks_holdD(1) [OF hold] wm man D ra]
    show ?thesis
    proof (cases q)
      case (Inl err)
      with run None True ra have eqs: "a' = fail (AppendFailed err) a" "d' = d1"
        by (simp_all add: append_event_def event_record_def)
      from spec Inl obtain rss' cur' n where "same_records rss cur rss' cur'"
        "parts_on_disk H i rss' cur' (take n (encode_record H ?r)) (ap_last_durable a) d1" by auto
      from acks_hold_torn [OF hold all this runs] ev show ?thesis
        unfolding eqs by (auto intro: appender_inv_failed)
    next
      case (Inr w)
      define a1 where "a1 = send_ack (Journaled (ev_seq e))
          (a\<lparr>ap_writer := w,
             ap_sync_deadline := (if ap_last_written a \<le> ap_last_durable a
                                  then Some (now + si) else ap_sync_deadline a),
             ap_last_written := ev_seq e, ap_expected_seq := ap_expected_seq a + 1\<rparr>)"
      from run None True ra Inr have eqs: "a' = a1" "d' = d1"
        by (simp_all add: append_event_def event_record_def a1_def)
      from spec Inr obtain rss' cur' where same: "concat rss' @ cur' = concat rss @ cur @ [?r]"
        and on: "parts_on_disk H i rss' cur' [] (ap_last_durable a) d1"
        and wm': "writer_matches H i rss' cur' w" and man': "manifest_on_disk H i base rss' d1"
        by (auto simp: same_records_def)
      have len: "length (concat rss' @ cur') = Suc (ap_last_written a)"
        unfolding same using all by simp
      have "set (concat rss' @ cur') \<subseteq> event_record ` evs"
        unfolding same using acks_holdD(3) [OF hold] ev by auto
      moreover have "record_run 1 (concat rss' @ cur')" unfolding same by (rule runs)
      ultimately have "acks_hold H i evs a1 d1 rss' cur' []"
        using acks_holdD(5,8,9) [OF hold] on len True nxt
        unfolding acks_hold_def a1_def send_ack_def torn_bytes_def by auto
      moreover have "writer_holds H i base a1 d1 rss' cur' []"
        using wm' man' len True nxt by (simp add: writer_holds_def a1_def send_ack_def)
      ultimately show ?thesis unfolding eqs appender_inv_def by blast
    qed
  qed
qed

lemma appender_step_inv:
  assumes inv: "appender_inv H i base evs a d"
    and ev: "\<And>e. input_event inp = Some e \<Longrightarrow> e \<in> evs \<and> record_ok (event_record e)"
    and run: "appender_step H si inp a d = (a', d')"
  shows "appender_inv H i base evs a' d'"
  using run
proof (cases "(H, si, inp, a, d)" rule: appender_step.cases)
  case (1 H' si' e now a0 d0)
  then show ?thesis using append_event_inv [OF inv] ev run by auto
next
  case (2 H' si' now a0 d0)
  show ?thesis
  proof (cases "ap_dead a")
    case None
    with 2 run do_sync_inv [OF inv None] show ?thesis by simp
  next
    case (Some r)
    with 2 run appender_inv_ack_failed [OF inv Some] show ?thesis by simp
  qed
next
  case (3 H' si' a0 d0)
  with run inv do_sync_inv [OF inv] show ?thesis
    by (cases "appender_dirty a") (auto simp: appender_dirty_def)
next
  case (4 H' si' a0 d0)
  with run inv show ?thesis by simp
qed

text \<open>The barrier after the loop writes no record; it syncs and seals.\<close>

lemma appender_finish_acks:
  assumes inv: "appender_inv H i base evs a d" and run: "appender_finish H a d = (a', d')"
  shows "\<exists>rss cur junk. acks_hold H i evs a' d' rss cur junk"
proof -
  obtain a1 d1 where first: "(if appender_dirty a then do_sync a d else (a, d)) = (a1, d1)"
    by fastforce
  then have inv1: "appender_inv H i base evs a1 d1"
    using inv do_sync_inv [OF inv] by (auto simp: appender_dirty_def split: if_splits)
  then obtain rss cur junk where hold: "acks_hold H i evs a1 d1 rss cur junk"
    and wr: "ap_dead a1 = None \<longrightarrow> writer_holds H i base a1 d1 rss cur junk"
    by (auto simp: appender_inv_def)
  show ?thesis
  proof (cases "ap_dead a1")
    case (Some r)
    with run first hold show ?thesis by (auto simp: appender_finish_def)
  next
    case None
    with wr have junk: "junk = []" and wm: "writer_matches H i rss cur (ap_writer a1)"
      by (simp_all add: writer_holds_def)
    obtain q d2 where se: "seal_part H (ap_writer a1) d1 = (q, d2)" by fastforce
    have "parts_on_disk H i rss cur [] (ap_last_durable a1) d2"
      using seal_part_spec [OF acks_holdD(1) [OF hold, unfolded junk] wm se] by blast
    then have hold2: "acks_hold H i evs a1 d2 rss cur []"
      using hold junk unfolding acks_hold_def by blast
    then have "acks_hold H i evs (a1\<lparr>ap_writer := w\<rparr>) d2 rss cur []" for w
      by (simp add: acks_hold_def)
    then have "\<exists>rss cur junk. acks_hold H i evs (a1\<lparr>ap_writer := w\<rparr>) d2 rss cur junk"
      and "\<exists>rss cur junk. acks_hold H i evs (fail reason a1) d2 rss cur junk" for w reason
      using acks_hold_fail [OF hold2] by blast+
    then show ?thesis
      using run first None se by (cases q) (auto simp: appender_finish_def)
  qed
qed

lemma appender_loop_acks:
  assumes "appender_inv H i base evs a d"
    and "input_events inputs \<subseteq> evs"
    and "\<And>e. e \<in> input_events inputs \<Longrightarrow> record_ok (event_record e)"
    and "appender_loop H si inputs a d = (a', d')"
  shows "\<exists>rss cur junk. acks_hold H i evs a' d' rss cur junk"
  using assms
proof (induction inputs arbitrary: a d)
  case Nil
  then show ?case by (auto simp: appender_inv_def)
next
  case (Cons inp inputs)
  show ?case
  proof (cases "inp = Disconnected")
    case True
    with Cons.prems(1,4) appender_finish_acks show ?thesis by simp
  next
    case False
    obtain a1 d1 where st: "appender_step H si inp a d = (a1, d1)" by fastforce
    have sub: "input_events inputs \<subseteq> input_events (inp # inputs)"
      and here: "\<And>e. input_event inp = Some e \<Longrightarrow> e \<in> input_events (inp # inputs)"
      by (auto simp: input_events_def List.map_filter_simps split: option.splits)
    have "appender_inv H i base evs a1 d1"
      using Cons.prems(2,3) here by (intro appender_step_inv [OF Cons.prems(1) _ st]) blast
    moreover have "appender_loop H si inputs a1 d1 = (a', d')"
      using Cons.prems(4) False st by (cases inp) simp_all
    ultimately show ?thesis
      using Cons.IH Cons.prems(2,3) sub by blast
  qed
qed

end

end
