(* ===== verification/Journal_Recovery.thy ===== *)
theory Journal_Recovery
  imports Journal_Durability
begin

text \<open>
  Reading the journal back: what a scan of the parts of an incarnation yields after an
  arbitrary run of the appender, and after a crash that loses bytes no sync has covered.
\<close>

section \<open>Recovered records\<close>

definition recovered_records :: "'h hasher \<Rightarrow> disk \<Rightarrow> nat \<Rightarrow> nat \<Rightarrow> Record list" where
  "recovered_records H d i n =
     concat (map (\<lambda>k. so_records (scan_segment H (part_bytes d i (Suc k)))) [0..<n])"

text \<open>A crash keeps every file's synced prefix and loses some suffix of the rest.\<close>

definition crashed :: "disk \<Rightarrow> disk \<Rightarrow> bool" where
  "crashed d d' \<longleftrightarrow>
     (\<forall>name x. file_at d name = Some x \<longrightarrow>
        (\<exists>y k. file_at d' name = Some y \<and> jf_synced x \<le> k \<and> jf_bytes y = take k (jf_bytes x)))"

lemma record_run_nth:
  "record_run s (concat rss) \<Longrightarrow> k < length rss \<Longrightarrow> \<exists>s'. record_run s' (rss ! k)"
  by (induction rss arbitrary: s k) (auto simp: nth_Cons split: nat.splits)

lemma concat_map_nth: "concat (map ((!) xss) [0..<length xss]) = concat xss"
  by (simp add: map_nth)

section \<open>A prefix of encoded records\<close>

text \<open>Cutting encoded records anywhere leaves whole records and then part of the next one.\<close>

lemma take_encode_records:
  "\<exists>j junk. j \<le> length rs \<and> take k (encode_records H rs) = encode_records H (take j rs) @ junk
     \<and> (junk = [] \<or> (j < length rs \<and> (\<exists>n. 0 < n \<and> n < length (encode_record H (rs ! j))
                                         \<and> junk = take n (encode_record H (rs ! j)))))
     \<and> (\<forall>m \<le> length rs. length (encode_records H (take m rs)) \<le> k \<longrightarrow> m \<le> j)"
proof (induction rs arbitrary: k)
  case Nil
  then show ?case by auto
next
  case (Cons r rs)
  let ?l = "length (encode_record H r)"
  show ?case
  proof (cases "k < ?l")
    case True
    have "m = 0" if "m \<le> length (r # rs)" "length (encode_records H (take m (r # rs))) \<le> k" for m
      using that True by (cases m) auto
    with True show ?thesis
      by (intro exI [of _ 0] exI [of _ "take k (encode_record H r)"])
        (cases "k = 0", auto simp: encode_records_def)
  next
    case False
    from Cons.IH [of "k - ?l"] obtain j junk where ih: "j \<le> length rs"
      "take (k - ?l) (encode_records H rs) = encode_records H (take j rs) @ junk"
      "junk = [] \<or> (j < length rs \<and> (\<exists>n. 0 < n \<and> n < length (encode_record H (rs ! j))
                                         \<and> junk = take n (encode_record H (rs ! j))))"
      "\<forall>m \<le> length rs. length (encode_records H (take m rs)) \<le> k - ?l \<longrightarrow> m \<le> j"
      by blast
    have "m \<le> Suc j" if "m \<le> length (r # rs)"
      "length (encode_records H (take m (r # rs))) \<le> k" for m
      using that ih(4) by (cases m) auto
    with False ih show ?thesis
      by (intro exI [of _ "Suc j"] exI [of _ junk]) auto
  qed
qed

context crc_hasher
begin

lemma scan_prefix:
  assumes "record_run s rs"
  shows "\<exists>j \<le> length rs. so_records (scan_segment H (take k (encode_records H rs))) = take j rs
     \<and> length (encode_records H (take j rs)) \<le> k
     \<and> (\<forall>m \<le> length rs. length (encode_records H (take m rs)) \<le> k \<longrightarrow> m \<le> j)"
proof -
  from take_encode_records [of rs k H] obtain j junk where j: "j \<le> length rs"
    and eq: "take k (encode_records H rs) = encode_records H (take j rs) @ junk"
    and junk: "junk = [] \<or> (j < length rs \<and> (\<exists>n. 0 < n \<and> n < length (encode_record H (rs ! j))
                                         \<and> junk = take n (encode_record H (rs ! j))))"
    and max: "\<forall>m \<le> length rs. length (encode_records H (take m rs)) \<le> k \<longrightarrow> m \<le> j"
    by blast
  have run: "record_run s (take m rs)" for m
    using assms by (rule record_run_take)
  have "so_records (scan_segment H (take k (encode_records H rs))) = take j rs"
  proof (cases "junk = []")
    case True
    with eq segment_scan_written [OF run] show ?thesis by simp
  next
    case False
    with junk obtain n where n: "j < length rs" "0 < n" "n < length (encode_record H (rs ! j))"
      "junk = take n (encode_record H (rs ! j))" by blast
    have "record_run s (take j rs @ [rs ! j])"
      using run [of "Suc j"] n(1) by (simp add: take_Suc_conv_app_nth)
    from segment_scan_torn [OF this n(2,3)] eq n(4) show ?thesis by simp
  qed
  moreover have "length (encode_records H (take j rs)) \<le> k"
    using arg_cong [OF eq, of length] by simp
  ultimately show ?thesis using j max by blast
qed

lemma scan_active_part:
  assumes "record_run 1 (recs @ cur)" and "torn_bytes H (recs @ cur) junk"
  shows "so_records (scan_segment H (encode_records H cur @ junk)) = cur"
proof (cases "junk = []")
  case True
  with assms(1) segment_scan_written show ?thesis by auto
next
  case False
  with assms(2) obtain r n where "junk = take n (encode_record H r)" "0 < n"
    "n < length (encode_record H r)" "record_run 1 ((recs @ cur) @ [r])"
    by (auto simp: torn_bytes_def)
  with segment_scan_torn [of "1 + length recs" cur r n] show ?thesis by simp
qed

text \<open>The records a scan of all parts yields are the records that were written.\<close>

lemma recovered_on_disk:
  assumes parts: "parts_on_disk H i rss cur junk D d" and run: "record_run 1 (concat rss @ cur)"
    and torn: "torn_bytes H (concat rss @ cur) junk"
  shows "recovered_records H d i (Suc (length rss)) = concat rss @ cur"
proof -
  have "so_records (scan_segment H (part_bytes d i (Suc k))) = rss ! k" if "k < length rss" for k
  proof -
    from run that obtain s where "record_run s (rss ! k)"
      using record_run_nth [of 1 rss k] by auto
    with parts that segment_scan_written show ?thesis
      by (simp add: parts_on_disk_def part_bytes_def)
  qed
  then have "map (\<lambda>k. so_records (scan_segment H (part_bytes d i (Suc k)))) [0..<length rss]
      = map ((!) rss) [0..<length rss]" by simp
  moreover have "part_bytes d i (Suc (length rss)) = encode_records H cur @ junk"
    using parts by (auto simp: parts_on_disk_def part_bytes_def)
  ultimately show ?thesis
    using scan_active_part [OF run torn] by (simp add: recovered_records_def map_nth)
qed

text \<open>After a crash the active part still yields a prefix, at least the synced records.\<close>

lemma scan_crashed_part:
  assumes run: "record_run 1 (recs @ cur)" and torn: "torn_bytes H (recs @ cur) junk"
    and sync: "length (encode_records H (take m cur)) \<le> k" and m: "m \<le> length cur"
  shows "\<exists>j. so_records (scan_segment H (take k (encode_records H cur @ junk))) = take j cur
           \<and> m \<le> j \<and> j \<le> length cur"
proof (cases "junk = []")
  case True
  from run have "record_run (1 + length recs) cur" by simp
  from scan_prefix [OF this, of k] sync m True show ?thesis by auto
next
  case False
  with torn obtain r n where junk: "junk = take n (encode_record H r)"
    "n < length (encode_record H r)" "record_run 1 (recs @ cur @ [r])"
    by (auto simp: torn_bytes_def)
  let ?rs = "cur @ [r]" and ?k = "min k (length (encode_records H cur) + n)"
  have "record_run (1 + length recs) ?rs" using junk(3) by simp
  from scan_prefix [OF this, of ?k] obtain j where j: "j \<le> length ?rs"
    "so_records (scan_segment H (take ?k (encode_records H ?rs))) = take j ?rs"
    "length (encode_records H (take j ?rs)) \<le> ?k"
    "\<forall>m \<le> length ?rs. length (encode_records H (take m ?rs)) \<le> ?k \<longrightarrow> m \<le> j" by blast
  have "encode_records H cur @ junk = take (length (encode_records H cur) + n) (encode_records H ?rs)"
    using junk(1) by simp
  then have "take k (encode_records H cur @ junk) = take ?k (encode_records H ?rs)"
    by (simp only: take_take)
  moreover have "j \<le> length cur"
    using j(1,3) junk(2) by (cases "j = length ?rs") auto
  moreover have "length (encode_records H (take m cur)) \<le> length (encode_records H cur)"
    by (metis append_take_drop_id encode_records_append length_append le_add1)
  then have "m \<le> j" using j(4) sync m by simp
  ultimately show ?thesis using j(2) by (intro exI [of _ j]) simp
qed

lemma recovered_after_crash:
  assumes parts: "parts_on_disk H i rss cur junk D d" and run: "record_run 1 (concat rss @ cur)"
    and torn: "torn_bytes H (concat rss @ cur) junk" and D: "D \<le> length (concat rss @ cur)"
    and crash: "crashed d d'"
  shows "\<exists>j. recovered_records H d' i (Suc (length rss)) = take j (concat rss @ cur) \<and> D \<le> j
           \<and> j \<le> length (concat rss @ cur)"
proof -
  have sealed: "so_records (scan_segment H (part_bytes d' i (Suc k))) = rss ! k"
    if k: "k < length rss" for k
  proof -
    from run k obtain s where "record_run s (rss ! k)"
      using record_run_nth [of 1 rss k] by auto
    moreover have "part_bytes d' i (Suc k) = encode_records H (rss ! k)"
      using parts crash k by (fastforce simp: parts_on_disk_def crashed_def part_bytes_def)
    ultimately show ?thesis using segment_scan_written by simp
  qed
  obtain x where x: "file_at d (segment_path i (Suc (length rss))) = Some x"
    "jf_bytes x = encode_records H cur @ junk"
    "length (encode_records H (take (D - length (concat rss)) cur)) \<le> jf_synced x"
    using parts by (auto simp: parts_on_disk_def)
  then obtain y k where "file_at d' (segment_path i (Suc (length rss))) = Some y"
    "jf_synced x \<le> k" "jf_bytes y = take k (jf_bytes x)"
    using crash unfolding crashed_def by blast
  with x have act: "part_bytes d' i (Suc (length rss)) = take k (encode_records H cur @ junk)"
    and sync: "length (encode_records H (take (D - length (concat rss)) cur)) \<le> k"
    by (auto simp: part_bytes_def)
  have "D - length (concat rss) \<le> length cur" using D by simp
  from scan_crashed_part [OF run torn sync this] obtain j where
    j: "so_records (scan_segment H (take k (encode_records H cur @ junk))) = take j cur"
      "D - length (concat rss) \<le> j" "j \<le> length cur" by blast
  have "map (\<lambda>k. so_records (scan_segment H (part_bytes d' i (Suc k)))) [0..<length rss]
      = map ((!) rss) [0..<length rss]" using sealed by simp
  then have "recovered_records H d' i (Suc (length rss)) = concat rss @ take j cur"
    using j(1) act by (simp add: recovered_records_def map_nth)
  with j(2,3) show ?thesis
    by (intro exI [of _ "length (concat rss) + j"]) simp
qed

end

section \<open>The appender's promises\<close>

text \<open>A freshly opened incarnation: an empty first part and a readable manifest.\<close>

definition fresh_journal :: "nat \<Rightarrow> disk \<Rightarrow> bool" where
  "fresh_journal i d \<longleftrightarrow>
     file_at d (segment_path i 1) = Some \<lparr>jf_bytes = [], jf_synced = 0\<rparr>
     \<and> (\<exists>base. jd_manifest d = map Row base)"

definition start_appender :: "'h hasher \<Rightarrow> nat \<Rightarrow> nat \<Rightarrow> 'h appender" where
  "start_appender H i max_part_bytes =
     appender_init (RollingSegmentWriter_new H i
       \<lparr>sw_file = segment_path i 1, sw_written = 0\<rparr> max_part_bytes)"

lemma start_appender_inv:
  assumes "fresh_journal i d"
  shows "\<exists>base. appender_inv H i base evs (start_appender H i mx) d"
proof -
  from assms obtain base where man: "jd_manifest d = map Row base"
    and f: "file_at d (segment_path i 1) = Some \<lparr>jf_bytes = [], jf_synced = 0\<rparr>"
    by (auto simp: fresh_journal_def)
  let ?a = "start_appender H i mx"
  have "acks_hold H i evs ?a d [] [] []"
    using f by (simp add: acks_hold_def parts_on_disk_def torn_bytes_def start_appender_def
        appender_init_def)
  moreover have "writer_holds H i base ?a d [] [] []"
    using man by (auto simp: writer_holds_def writer_matches_def manifest_on_disk_def part_rows_def
        start_appender_def appender_init_def RollingSegmentWriter_new_def intro!: exI [of _ "[]"])
  ultimately show ?thesis unfolding appender_inv_def by blast
qed

text \<open>For every sequence of messages and every schedule of I/O faults, the sequences the
  appender acknowledged as journaled are, in order, the sequences of the records a scan of the
  incarnation's parts recovers; at most one further record (the one in flight when a write
  failed) is recovered, recovered records are exactly events that were submitted, and they
  form one gapless run from sequence 1.\<close>

theorem acked_records_recovered:
  assumes "crc_hasher H" and "fresh_journal i d0"
    and "\<And>e. e \<in> input_events inputs \<Longrightarrow> record_ok (event_record e)"
    and "appender_loop H si inputs (start_appender H i mx) d0 = (a, d)"
  shows "\<exists>n. let recs = recovered_records H d i n; acked = journaled_seqs (ap_acks a) in
           map rec_seq (take (length acked) recs) = acked
           \<and> length recs \<le> Suc (length acked)
           \<and> set recs \<subseteq> event_record ` input_events inputs
           \<and> record_run 1 recs"
proof -
  obtain base where inv: "appender_inv H i base (input_events inputs) (start_appender H i mx) d0"
    using start_appender_inv [OF assms(2)] by blast
  from crc_hasher.appender_loop_acks [OF assms(1) inv subset_refl assms(3,4)]
  obtain rss cur junk where hold: "acks_hold H i (input_events inputs) a d rss cur junk" by blast
  let ?recs = "concat rss @ cur"
  have rec: "recovered_records H d i (Suc (length rss)) = ?recs"
    using crc_hasher.recovered_on_disk [OF assms(1)] acks_holdD [OF hold] by blast
  have "seq_run 1 (map rec_seq ?recs)"
    using acks_holdD(2) [OF hold] by (simp add: record_run_def)
  then have "map rec_seq ?recs = [1..<1 + length ?recs]"
    unfolding seq_run_upt by simp
  then have "map rec_seq (take (ap_last_written a) ?recs) = [1..<Suc (ap_last_written a)]"
    using acks_holdD(6) [OF hold] by (metis take_map take_upt plus_1_eq_Suc add_le_cancel_left)
  then show ?thesis
    using acks_holdD [OF hold]
    by (intro exI [of _ "Suc (length rss)"]) (simp only: rec Let_def length_upt, simp)
qed

text \<open>Whatever the appender reported durable survives a crash: after any run, any loss of
  bytes that no completed sync covers still leaves a scan that recovers a gapless run of
  submitted records at least up to the highest sequence reported durable.\<close>

theorem durable_records_survive_crash:
  assumes "crc_hasher H" and "fresh_journal i d0"
    and "\<And>e. e \<in> input_events inputs \<Longrightarrow> record_ok (event_record e)"
    and "appender_loop H si inputs (start_appender H i mx) d0 = (a, d)"
    and "Durable s \<in> set (ap_acks a)" and "crashed d d'"
  shows "\<exists>n. s \<le> length (recovered_records H d' i n)
           \<and> record_run 1 (recovered_records H d' i n)
           \<and> set (recovered_records H d' i n) \<subseteq> event_record ` input_events inputs"
proof -
  obtain base where inv: "appender_inv H i base (input_events inputs) (start_appender H i mx) d0"
    using start_appender_inv [OF assms(2)] by blast
  from crc_hasher.appender_loop_acks [OF assms(1) inv subset_refl assms(3,4)]
  obtain rss cur junk where hold: "acks_hold H i (input_events inputs) a d rss cur junk" by blast
  let ?recs = "concat rss @ cur"
  have D: "ap_last_durable a \<le> length ?recs"
    using acks_holdD(6,8) [OF hold] by linarith
  from crc_hasher.recovered_after_crash [OF assms(1) acks_holdD(1,2,4) [OF hold] D assms(6)]
  obtain j where j: "recovered_records H d' i (Suc (length rss)) = take j ?recs"
    "ap_last_durable a \<le> j" "j \<le> length ?recs" by blast
  have "record_run 1 (take j ?recs)"
    using acks_holdD(2) [OF hold] by (rule record_run_take)
  moreover have "set (take j ?recs) \<subseteq> event_record ` input_events inputs"
    using acks_holdD(3) [OF hold] set_take_subset by (rule subset_trans [rotated])
  moreover have "s \<le> length (take j ?recs)"
    using acks_holdD(9) [OF hold assms(5)] j(2,3) by simp
  ultimately show ?thesis using j(1) by (intro exI [of _ "Suc (length rss)"]) simp
qed

subsection \<open>A concrete run\<close>

definition sample_event :: OrderedEvent where
  "sample_event = \<lparr>ev_cursor = \<lparr>jc_incarnation = 1, jc_seq = 1\<rparr>, ev_elapsed_ms = 5,
                   ev_kind = Output, ev_payload = [104, 105]\<rparr>"

definition sample_inputs :: "loop_input list" where
  "sample_inputs = [Received (MsgRecord sample_event) 7, Received MsgSync 8]"

definition sample_disk :: disk where
  "sample_disk = \<lparr>jd_files = [(segment_path 1 1, \<lparr>jf_bytes = [], jf_synced = 0\<rparr>)],
                  jd_manifest = [], jd_faults = []\<rparr>"

definition sample_run :: "u32 appender \<times> disk" where
  "sample_run = appender_loop table_hasher 50 sample_inputs (start_appender table_hasher 1 1000) sample_disk"

lemma sample_loop:
  "appender_loop table_hasher 50 sample_inputs (start_appender table_hasher 1 1000) sample_disk
     = (fst sample_run, snd sample_run)"
  by (simp add: sample_run_def)

lemma sample_fresh: "fresh_journal 1 sample_disk"
  by (simp add: fresh_journal_def sample_disk_def)

lemma sample_events_ok: "e \<in> input_events sample_inputs \<Longrightarrow> record_ok (event_record e)"
  by (auto simp: input_events_def sample_inputs_def List.map_filter_simps sample_event_def
      event_record_def record_ok_def MAX_PAYLOAD_LEN_def)

lemmas appender_eval = start_appender_def appender_init_def RollingSegmentWriter_new_def
  append_event_def rolling_append_def write_encoded_def do_sync_def SegmentWriter_sync_def
  fs_write_all_def fs_sync_def next_fault_def update_file_def io_bind_def io_return_def
  note_appended_def send_ack_def Let_def

lemma sample_acks: "ap_acks (fst sample_run) = [Journaled 1, Durable 1]"
  by (simp add: sample_run_def sample_inputs_def sample_disk_def sample_event_def appender_eval)

theorem acked_records_recovered_witness:
  "\<exists>n. let recs = recovered_records table_hasher (snd sample_run) 1 n;
           acked = journaled_seqs (ap_acks (fst sample_run)) in
         acked = [1] \<and> map rec_seq (take (length acked) recs) = acked
         \<and> length recs \<le> Suc (length acked)
         \<and> set recs \<subseteq> event_record ` input_events sample_inputs \<and> record_run 1 recs"
  using acked_records_recovered
    [OF table_crc.crc_hasher_axioms sample_fresh sample_events_ok sample_loop]
  by (simp add: sample_acks)

theorem durable_records_survive_crash_witness:
  "\<exists>n. 1 \<le> length (recovered_records table_hasher (snd sample_run) 1 n)
       \<and> record_run 1 (recovered_records table_hasher (snd sample_run) 1 n)
       \<and> set (recovered_records table_hasher (snd sample_run) 1 n)
           \<subseteq> event_record ` input_events sample_inputs"
proof (rule durable_records_survive_crash
    [OF table_crc.crc_hasher_axioms sample_fresh sample_events_ok sample_loop])
  show "Durable 1 \<in> set (ap_acks (fst sample_run))" by (simp add: sample_acks)
  have "\<exists>y k. file_at d name = Some y \<and> jf_synced x \<le> k \<and> jf_bytes y = take k (jf_bytes x)"
    if "file_at d name = Some x" for d name x
    using that by (intro exI [of _ x] exI [of _ "max (jf_synced x) (length (jf_bytes x))"]) simp
  then show "crashed (snd sample_run) (snd sample_run)"
    by (simp add: crashed_def)
qed

end
