(* ===== verification/Journal_System.thy ===== *)
theory Journal_System
  imports Journal_Shadow Journal_Recovery
begin

text \<open>
  The journal as it runs: the session's side (sequencing core, queue, acknowledgement channel)
  and the appender thread's side (loop state, disk), interleaved. A submission is split where
  the code lets the other thread run: reserving the bytes, each attempt to enqueue, and giving
  up. The theorems follow every published event from the core to what a scan recovers after a
  crash.
\<close>

section \<open>The two threads\<close>

text \<open>
  \<open>sy_pending\<close> is the event whose submission is in progress (the session's lock allows one);
  \<open>sy_published\<close> lists every event the core has published.
\<close>

record 'h system =
  sy_journal :: ShadowJournal
  sy_pending :: "OrderedEvent option"
  sy_appender :: "'h appender"
  sy_disk :: disk
  sy_published :: "OrderedEvent list"

definition system_start :: "'h hasher \<Rightarrow> nat \<Rightarrow> nat \<Rightarrow> disk \<Rightarrow> 'h system" where
  "system_start H i max_part_bytes d =
     \<lparr>sy_journal = ShadowJournal_new i, sy_pending = None,
      sy_appender = start_appender H i max_part_bytes, sy_disk = d, sy_published = []\<rparr>"

text \<open>\<open>ShadowJournal::record\<close> up to the first attempt to enqueue.\<close>

definition sys_record ::
  "(io_error \<Rightarrow> string) \<Rightarrow> nat \<Rightarrow> RecordKind \<Rightarrow> bytes \<Rightarrow> 'h system \<Rightarrow> 'h system" where
  "sys_record io_text elapsed_ms kind payload s =
     (let j1 = poll_acks io_text (sy_journal s) in
      if is_degraded (sj_core j1) then s\<lparr>sy_journal := j1\<rparr>
      else
        let (event, core) = publish (sj_core j1) elapsed_ms kind payload;
            s1 = s\<lparr>sy_published := sy_published s @ [event]\<rparr>
        in case submit_reserve (length payload) (sj_appender j1) of
             (Inr _, q) \<Rightarrow>
               s1\<lparr>sy_journal := j1\<lparr>sj_core := core, sj_appender := q\<rparr>, sy_pending := Some event\<rparr>
           | (Inl err, q) \<Rightarrow>
               s1\<lparr>sy_journal := j1\<lparr>sj_core := degrade core (submit_error_text err),
                                   sj_appender := q\<rparr>\<rparr>)"

definition sys_refuse :: "JournalSubmitError \<Rightarrow> OrderedEvent \<Rightarrow> 'h system \<Rightarrow> 'h system" where
  "sys_refuse err event s =
     (let j = sy_journal s in
      s\<lparr>sy_journal := j\<lparr>sj_core := degrade (sj_core j) (submit_error_text err),
                        sj_appender := submit_cancel (length (ev_payload event)) (sj_appender j)\<rparr>,
        sy_pending := None\<rparr>)"

text \<open>One \<open>try_send\<close> of the pending event.\<close>

definition sys_attempt :: "'h system \<Rightarrow> 'h system" where
  "sys_attempt s =
     (case sy_pending s of
        None \<Rightarrow> s
      | Some event \<Rightarrow>
          (case try_send (MsgRecord event) (sj_appender (sy_journal s)) of
             (Sent, q) \<Rightarrow>
               s\<lparr>sy_journal := (sy_journal s)\<lparr>sj_appender := q\<rparr>, sy_pending := None\<rparr>
           | (Full, q) \<Rightarrow> s
           | (SendDisconnected, q) \<Rightarrow> sys_refuse AppenderDead event s))"

text \<open>The stall deadline passes.\<close>

definition sys_give_up :: "'h system \<Rightarrow> 'h system" where
  "sys_give_up s =
     (case sy_pending s of None \<Rightarrow> s | Some event \<Rightarrow> sys_refuse QueueFull event s)"

definition sys_queue :: "(JournalAppender \<Rightarrow> JournalAppender) \<Rightarrow> 'h system \<Rightarrow> 'h system" where
  "sys_queue f s =
     s\<lparr>sy_journal := (sy_journal s)\<lparr>sj_appender := f (sj_appender (sy_journal s))\<rparr>\<rparr>"

text \<open>An iteration of the appender: new acknowledgements go to the channel.\<close>

definition sys_deliver :: "'h appender \<times> disk \<Rightarrow> 'h system \<Rightarrow> 'h system" where
  "sys_deliver ad s =
     (case ad of (a', d') \<Rightarrow>
        s\<lparr>sy_appender := a', sy_disk := d',
          sy_journal := (sy_journal s)
            \<lparr>sj_acks := sj_acks (sy_journal s) @ drop (length (ap_acks (sy_appender s))) (ap_acks a')\<rparr>\<rparr>)"

definition sys_process :: "'h hasher \<Rightarrow> nat \<Rightarrow> nat \<Rightarrow> AppenderMsg \<Rightarrow> 'h system \<Rightarrow> 'h system" where
  "sys_process H sync_interval now msg s =
     sys_deliver (appender_step H sync_interval (Received msg now) (sy_appender s) (sy_disk s))
       (sys_queue queue_settle s)"

inductive sys_step :: "'h hasher \<Rightarrow> (io_error \<Rightarrow> string) \<Rightarrow> nat \<Rightarrow> 'h system \<Rightarrow> 'h system \<Rightarrow> bool"
  for H io_text si where
  rec: "sy_pending s = None \<Longrightarrow> el < 2 ^ 64 \<Longrightarrow> next_seq (sj_core (sy_journal s)) < 2 ^ 64
          \<Longrightarrow> sys_step H io_text si s (sys_record io_text el kind payload s)"
| attempt: "sys_step H io_text si s (sys_attempt s)"
| give_up: "sys_step H io_text si s (sys_give_up s)"
| poll: "sys_step H io_text si s (s\<lparr>sy_journal := poll_acks io_text (sy_journal s)\<rparr>)"
| sync: "sys_step H io_text si s (sys_queue request_sync s)"
| receive: "sys_step H io_text si s (sys_queue queue_take s)"
| process: "q_alive (sj_appender (sy_journal s)) \<Longrightarrow> q_taken (sj_appender (sy_journal s)) = Some msg
          \<Longrightarrow> sys_step H io_text si s (sys_process H si now msg s)"
| timeout: "q_alive (sj_appender (sy_journal s)) \<Longrightarrow> q_taken (sj_appender (sy_journal s)) = None
          \<Longrightarrow> sys_step H io_text si s
                (sys_deliver (appender_step H si Timeout (sy_appender s) (sy_disk s)) s)"
| finish: "q_alive (sj_appender (sy_journal s)) \<Longrightarrow> q_taken (sj_appender (sy_journal s)) = None
          \<Longrightarrow> q_msgs (sj_appender (sy_journal s)) = [] \<Longrightarrow> sy_pending s = None
          \<Longrightarrow> sys_step H io_text si s
                (sys_queue (\<lambda>q. q\<lparr>q_alive := False\<rparr>)
                  (sys_deliver (appender_finish H (sy_appender s) (sy_disk s)) s))"

text \<open>States a run from a fresh incarnation can reach.\<close>

inductive reachable ::
  "'h hasher \<Rightarrow> (io_error \<Rightarrow> string) \<Rightarrow> nat \<Rightarrow> nat \<Rightarrow> nat \<Rightarrow> 'h system \<Rightarrow> bool"
  for H io_text si i mx where
  start: "fresh_journal i d \<Longrightarrow> reachable H io_text si i mx (system_start H i mx d)"
| step: "reachable H io_text si i mx s \<Longrightarrow> sys_step H io_text si s s'
          \<Longrightarrow> reachable H io_text si i mx s'"

section \<open>Invariants\<close>

fun msg_event :: "AppenderMsg \<Rightarrow> OrderedEvent option" where
  "msg_event (MsgRecord e) = Some e"
| "msg_event MsgSync = None"

definition option_list :: "'a option \<Rightarrow> 'a list" where
  "option_list x = (case x of Some y \<Rightarrow> [y] | None \<Rightarrow> [])"

lemma option_list_simps [simp]: "option_list None = []" "option_list (Some y) = [y]"
  by (simp_all add: option_list_def)

text \<open>Events on their way, oldest first: received, queued, pending.\<close>

definition in_flight :: "JournalAppender \<Rightarrow> OrderedEvent option \<Rightarrow> OrderedEvent list" where
  "in_flight q p =
     List.map_filter msg_event (option_list (q_taken q) @ q_msgs q) @ option_list p"

definition pending_bytes :: "OrderedEvent option \<Rightarrow> nat" where
  "pending_bytes p = (case p of Some e \<Rightarrow> length (ev_payload e) | None \<Rightarrow> 0)"

text \<open>
  While the appender lives, what is in flight is exactly what follows the last written event
  in the order of publication, up to \<open>m\<close>; and \<open>m\<close> is everything unless the core has degraded.
\<close>

definition lane_ok :: "OrderedEvent list \<Rightarrow> nat \<Rightarrow> OrderedEvent list \<Rightarrow> bool \<Rightarrow> bool" where
  "lane_ok pub written flight deg \<longleftrightarrow>
     (\<exists>m. written \<le> m \<and> m \<le> length pub \<and> flight = drop written (take m pub)
          \<and> (\<not> deg \<longrightarrow> m = length pub))"

definition publish_ok :: "nat \<Rightarrow> SequencerCore \<Rightarrow> OrderedEvent list \<Rightarrow> bool" where
  "publish_ok i c pub \<longleftrightarrow>
     core_inv c \<and> core_incarnation c = i
     \<and> seq_run 1 (map ev_seq pub) \<and> next_seq c = Suc (length pub)"

definition flight_ok ::
  "JournalAppender \<Rightarrow> OrderedEvent option \<Rightarrow> OrderedEvent list \<Rightarrow> bool" where
  "flight_ok q p pub \<longleftrightarrow>
     queue_inv (pending_bytes p) q \<and> q_budget q \<le> MAX_PAYLOAD_LEN
     \<and> set (in_flight q p) \<subseteq> set pub \<and> (\<forall>e \<in> set (in_flight q p). record_ok (event_record e))"

text \<open>The cursors of the core never run ahead of the appender.\<close>

definition cursors_ok :: "SequencerCore \<Rightarrow> JournalAck list \<Rightarrow> 'h appender \<Rightarrow> bool" where
  "cursors_ok c acks a \<longleftrightarrow>
     set acks \<subseteq> set (ap_acks a)
     \<and> journal_seq c \<le> ap_last_written a \<and> durable_seq c \<le> ap_last_durable a"

definition no_violation :: "'h appender \<Rightarrow> bool" where
  "no_violation a \<longleftrightarrow> (\<forall>x y. ap_dead a \<noteq> Some (ContiguityViolation x y))"

definition storage_ok ::
  "'h hasher \<Rightarrow> nat \<Rightarrow> ManifestLine list \<Rightarrow> bool \<Rightarrow> OrderedEvent list \<Rightarrow> 'h appender \<Rightarrow> disk \<Rightarrow> bool"
where
  "storage_ok H i base alive pub a d \<longleftrightarrow>
     (if alive then appender_inv H i base (set pub) a d
      else \<exists>rss cur junk. acks_hold H i (set pub) a d rss cur junk)"

definition sys_inv :: "'h hasher \<Rightarrow> nat \<Rightarrow> ManifestLine list \<Rightarrow> 'h system \<Rightarrow> bool" where
  "sys_inv H i base s \<longleftrightarrow>
     (let j = sy_journal s; c = sj_core j; q = sj_appender j; a = sy_appender s;
          pub = sy_published s in
      publish_ok i c pub \<and> flight_ok q (sy_pending s) pub \<and> cursors_ok c (sj_acks j) a
      \<and> no_violation a \<and> storage_ok H i base (q_alive q) pub a (sy_disk s)
      \<and> (q_alive q \<and> ap_dead a = None \<longrightarrow>
           lane_ok pub (ap_last_written a) (in_flight q (sy_pending s)) (is_degraded c)))"


section \<open>The session's side\<close>

lemma publish_ok_acks: "publish_ok i c pub \<Longrightarrow> publish_ok i (foldl (apply_ack t) c ks) pub"
  by (simp add: publish_ok_def apply_acks_inv)

lemma publish_ok_degrade: "publish_ok i c pub \<Longrightarrow> publish_ok i (degrade c r) pub"
  by (simp add: publish_ok_def degrade_inv) (simp add: degrade_def)

lemma publish_ok_publish:
  assumes "publish_ok i c pub" and "publish c el k p = (e, c')"
  shows "publish_ok i c' (pub @ [e])"
  using assms publish_cache [of c el k p e c'] publish_inv [of c el k p e c']
  by (auto simp: publish_ok_def)

lemma publish_cursors:
  "publish c el k p = (e, c') \<Longrightarrow> core_inv c \<Longrightarrow>
     journal_seq c' = journal_seq c \<and> durable_seq c' = durable_seq c
     \<and> is_degraded c' = is_degraded c \<and> ev_payload e = p \<and> ev_elapsed_ms e = el
     \<and> ev_seq e = next_seq c"
  using publish_cache [of c el k p e c'] by (auto simp: is_degraded_def)

lemma degrade_cursors [simp]:
  "journal_seq (degrade c r) = journal_seq c" "durable_seq (degrade c r) = durable_seq c"
  by (simp_all add: degrade_def)

lemma cursors_ok_degrade [simp]: "cursors_ok (degrade c r) acks a = cursors_ok c acks a"
  by (simp add: cursors_ok_def)

lemma apply_acks_seqs:
  assumes "\<And>s. Journaled s \<in> set acks \<Longrightarrow> s \<le> w" and "\<And>s. Durable s \<in> set acks \<Longrightarrow> s \<le> u"
    and "journal_seq c \<le> w" and "durable_seq c \<le> u"
  shows "journal_seq (foldl (apply_ack t) c acks) \<le> w
         \<and> durable_seq (foldl (apply_ack t) c acks) \<le> u"
  using assms
proof (induction acks arbitrary: c)
  case Nil
  then show ?case by simp
next
  case (Cons k acks)
  have "journal_seq (apply_ack t c k) \<le> w \<and> durable_seq (apply_ack t c k) \<le> u"
    using Cons.prems by (cases k) (auto simp: note_journaled_def note_durable_def)
  with Cons show ?case by simp
qed

lemma journaled_seqs_mem: "Journaled s \<in> set acks \<Longrightarrow> s \<in> set (journaled_seqs acks)"
proof (induction acks)
  case (Cons k acks)
  then show ?case by (cases k) auto
qed simp

lemma cursors_ok_poll:
  assumes "cursors_ok c acks a" and hold: "acks_hold H i evs a d rss cur junk"
  shows "cursors_ok (foldl (apply_ack t) c acks) [] a"
proof -
  have "s \<le> ap_last_written a" if "Journaled s \<in> set acks" for s
  proof -
    have "Journaled s \<in> set (ap_acks a)" using that assms(1) by (auto simp: cursors_ok_def)
    from journaled_seqs_mem [OF this] show ?thesis
      unfolding acks_holdD(5) [OF hold] by auto
  qed
  moreover have "s \<le> ap_last_durable a" if "Durable s \<in> set acks" for s
    using that assms(1) acks_holdD(9) [OF hold] by (auto simp: cursors_ok_def)
  ultimately show ?thesis
    using assms(1) apply_acks_seqs [of acks "ap_last_written a" "ap_last_durable a" c t]
    by (simp add: cursors_ok_def)
qed

lemma storage_ok_acks:
  "storage_ok H i base alive pub a d \<Longrightarrow> \<exists>rss cur junk. acks_hold H i (set pub) a d rss cur junk"
  by (auto simp: storage_ok_def appender_inv_def split: if_splits)

lemma storage_ok_mono:
  assumes "storage_ok H i base alive pub a d"
  shows "storage_ok H i base alive (pub @ [e]) a d"
proof -
  have mono: "acks_hold H i (set (pub @ [e])) a d rss cur junk"
    if "acks_hold H i (set pub) a d rss cur junk" for rss cur junk
    using that unfolding acks_hold_def by auto
  show ?thesis
    using assms mono unfolding storage_ok_def appender_inv_def by (auto split: if_splits) blast+
qed

subsection \<open>What is in flight\<close>

lemma in_flight_cancel [simp]: "in_flight (submit_cancel n q) p = in_flight q p"
  by (simp add: in_flight_def submit_cancel_def)

lemma in_flight_bytes [simp]: "in_flight (q\<lparr>q_bytes := n\<rparr>) p = in_flight q p"
  by (simp add: in_flight_def)

lemma in_flight_alive [simp]: "in_flight (q\<lparr>q_alive := b\<rparr>) p = in_flight q p"
  by (simp add: in_flight_def)

lemma in_flight_pending: "in_flight q (Some e) = in_flight q None @ [e]"
  by (simp add: in_flight_def)

lemma in_flight_sent:
  "in_flight (q\<lparr>q_msgs := q_msgs q @ [MsgRecord e]\<rparr>) None = in_flight q (Some e)"
  by (simp add: in_flight_def List.map_filter_def)

lemma in_flight_sync [simp]: "in_flight (q\<lparr>q_msgs := q_msgs q @ [MsgSync]\<rparr>) p = in_flight q p"
  by (simp add: in_flight_def List.map_filter_def)

lemma in_flight_take [simp]: "in_flight (queue_take q) p = in_flight q p"
  by (auto simp: in_flight_def queue_take_def split: option.splits list.splits bool.splits)

lemma in_flight_settle:
  "q_taken q = Some m \<Longrightarrow> in_flight q p = option_list (msg_event m) @ in_flight (queue_settle q) p"
  by (cases m) (simp_all add: in_flight_def queue_settle_def List.map_filter_simps)

lemma request_sync_cases:
  "request_sync q = q \<or> request_sync q = q\<lparr>q_msgs := q_msgs q @ [MsgSync]\<rparr>
     \<and> length (q_msgs q) < q_capacity q"
  by (auto simp: request_sync_def try_send_def)

lemma flight_ok_sync: "flight_ok q p pub \<Longrightarrow> flight_ok (request_sync q) p pub"
  using request_sync_cases [of q] by (auto simp: flight_ok_def queue_inv_def)

lemma flight_ok_take: "flight_ok q p pub \<Longrightarrow> flight_ok (queue_take q) p pub"
  using consume_inv [of "pending_bytes p" q Take] consume_params(1) [of q Take]
  by (simp add: flight_ok_def)

lemma flight_ok_settle: "flight_ok q p pub \<Longrightarrow> flight_ok (queue_settle q) p pub"
proof (cases "q_taken q")
  case None
  then show "flight_ok q p pub \<Longrightarrow> ?thesis" by (simp add: queue_settle_def)
next
  case (Some m)
  assume "flight_ok q p pub"
  then show ?thesis
    using consume_inv [of "pending_bytes p" q Settle] consume_params(1) [of q Settle]
    unfolding flight_ok_def in_flight_settle [OF Some] by auto
qed

lemma flight_ok_mono: "flight_ok q p pub \<Longrightarrow> flight_ok q p (pub @ [e])"
  by (auto simp: flight_ok_def)

lemma flight_ok_reserve:
  assumes "flight_ok q None pub" and "submit_reserve (length (ev_payload e)) q = (Inr u, q')"
    and "ev_seq e < 2 ^ 64" and "ev_elapsed_ms e < 2 ^ 64"
  shows "flight_ok q' (Some e) (pub @ [e])"
proof -
  have q': "q' = q\<lparr>q_bytes := q_bytes q + length (ev_payload e)\<rparr>"
    and le: "q_bytes q + length (ev_payload e) \<le> q_budget q"
    using assms(2) by (auto simp: submit_reserve_def split: if_splits)
  have "record_ok (event_record e)"
    using assms(1,3,4) le by (simp add: record_ok_def event_record_def flight_ok_def)
  then show ?thesis
    using assms(1) le
    by (auto simp: flight_ok_def q' in_flight_pending queue_inv_def pending_bytes_def)
qed

lemma flight_ok_refuse:
  "flight_ok q (Some e) pub \<Longrightarrow> flight_ok (submit_cancel (length (ev_payload e)) q) None pub"
  by (auto simp: flight_ok_def in_flight_pending pending_bytes_def cancel_inv)

lemma flight_ok_sent:
  assumes "flight_ok q (Some e) pub" and "\<not> q_capacity q \<le> length (q_msgs q)"
  shows "flight_ok (q\<lparr>q_msgs := q_msgs q @ [MsgRecord e]\<rparr>) None pub"
  using assms by (simp add: flight_ok_def in_flight_sent pending_bytes_def enqueue_inv)

lemma lane_ok_refuse: "lane_ok pub w (fl @ [e]) deg \<Longrightarrow> lane_ok pub w fl True"
proof -
  assume "lane_ok pub w (fl @ [e]) deg"
  then obtain m where m: "w \<le> m" "m \<le> length pub" "fl @ [e] = drop w (take m pub)"
    by (auto simp: lane_ok_def)
  from m have "w < m" by (metis drop_take diff_is_0_eq not_less take0 append_is_Nil_conv list.distinct(1))
  have "fl = drop w (take (m - 1) pub)"
    using m \<open>w < m\<close> by (metis butlast_snoc butlast_take butlast_drop length_take min.absorb2
        drop_butlast)
  with m(1,2) \<open>w < m\<close> show ?thesis
    unfolding lane_ok_def by (intro exI [of _ "m - 1"]) auto
qed

lemma lane_ok_degraded: "lane_ok pub w fl deg \<Longrightarrow> lane_ok pub w fl True"
  by (auto simp: lane_ok_def)

lemma lane_ok_publish: "lane_ok pub w fl False \<Longrightarrow> lane_ok (pub @ [e]) w (fl @ [e]) deg"
  unfolding lane_ok_def by (intro exI [of _ "Suc (length pub)"]) auto

lemma lane_ok_unqueued: "lane_ok pub w fl deg \<Longrightarrow> lane_ok (pub @ [e]) w fl True"
  unfolding lane_ok_def by (metis le_add1 le_trans length_append take_append diff_is_0_eq take0 append_Nil2)

section \<open>The appender's side\<close>

text \<open>How an iteration moves the appender: acknowledgements are only added, cursors only grow.\<close>

definition ap_grows :: "'h appender \<Rightarrow> 'h appender \<Rightarrow> bool" where
  "ap_grows a a' \<longleftrightarrow>
     (\<exists>new. ap_acks a' = ap_acks a @ new)
     \<and> ap_last_written a \<le> ap_last_written a' \<and> ap_last_durable a \<le> ap_last_durable a'"

lemma ap_grows_refl [simp]: "ap_grows a a"
  by (simp add: ap_grows_def)

lemma ap_grows_fail [simp]: "ap_grows a (fail r a)"
  by (simp add: ap_grows_def fail_def send_ack_def)

lemma ap_grows_ack [simp]: "ap_grows a (send_ack k a)"
  by (simp add: ap_grows_def send_ack_def)

lemma cursors_ok_grows:
  assumes "cursors_ok c acks a" and "ap_grows a a'"
  shows "cursors_ok c (acks @ drop (length (ap_acks a)) (ap_acks a')) a'"
  using assms by (auto simp: cursors_ok_def ap_grows_def)

lemma do_sync_effect:
  assumes "do_sync a d = (a', d')" and "ap_last_durable a \<le> ap_last_written a"
  shows "ap_grows a a' \<and> ap_last_written a' = ap_last_written a
         \<and> (ap_dead a' = ap_dead a \<or> (\<exists>e. ap_dead a' = Some (SyncFailed e)))"
  using assms by (auto simp: do_sync_def ap_grows_def send_ack_def fail_def
      split: prod.splits sum.splits)

lemma append_event_effect:
  assumes "append_event H si e now a d = (a', d')" and "ap_dead a = None"
    and "ap_expected_seq a = Suc (ap_last_written a)" and "ev_seq e = Suc (ap_last_written a)"
  shows "ap_grows a a' \<and>
         (ap_dead a' = None \<and> ap_last_written a' = Suc (ap_last_written a)
          \<or> (\<exists>err. ap_dead a' = Some (AppendFailed err)))"
  using assms by (auto simp: append_event_def ap_grows_def send_ack_def fail_def
      split: prod.splits sum.splits)

lemma finish_effect:
  assumes "appender_finish H a d = (a', d')" and "ap_last_durable a \<le> ap_last_written a"
    and "no_violation a"
  shows "ap_grows a a' \<and> no_violation a'"
proof -
  obtain a1 d1 where first: "(if appender_dirty a then do_sync a d else (a, d)) = (a1, d1)"
    by fastforce
  then have g1: "ap_grows a a1" and n1: "no_violation a1"
    using do_sync_effect [of a d a1 d1] assms(2,3) by (auto simp: no_violation_def split: if_splits)
  have "a' = a1 \<or> (\<exists>w. a' = a1\<lparr>ap_writer := w\<rparr>) \<or> (\<exists>e. a' = fail (SealFailed e) a1)"
    using assms(1) first
    by (auto simp: appender_finish_def Let_def split: prod.splits sum.splits if_splits)
  then show ?thesis
    using g1 n1 by (auto simp: ap_grows_def no_violation_def fail_def send_ack_def)
qed

text \<open>The oldest event in flight is the one the appender expects.\<close>

lemma lane_ok_head:
  assumes "lane_ok pub w (e # fl) deg" and "seq_run 1 (map ev_seq pub)"
  shows "ev_seq e = Suc w \<and> lane_ok pub (Suc w) fl deg"
proof -
  from assms(1) obtain m where m: "w \<le> m" "m \<le> length pub" "e # fl = drop w (take m pub)"
    "\<not> deg \<longrightarrow> m = length pub"
    by (auto simp: lane_ok_def)
  have lt: "w < m"
    using m by (metis drop_take diff_is_0_eq not_less take0 list.distinct(1))
  then have hd: "drop w (take m pub) = pub ! w # drop (Suc w) (take m pub)"
    using m(2) Cons_nth_drop_Suc [of w "take m pub"] by simp
  have "ev_seq (pub ! w) = Suc w"
    using seq_run_nth [OF assms(2), of w] lt m(2) by simp
  with hd m lt show ?thesis
    unfolding lane_ok_def by (auto intro!: exI [of _ m])
qed

lemma lane_ok_taken:
  assumes "q_taken q = Some m" and "lane_ok pub w (in_flight q p) deg"
  shows "case msg_event m of
           Some e \<Rightarrow> lane_ok pub w (e # in_flight (queue_settle q) p) deg
         | None \<Rightarrow> lane_ok pub w (in_flight (queue_settle q) p) deg"
  using assms(2) unfolding in_flight_settle [OF assms(1)] by (cases "msg_event m") simp_all

lemma settle_alive [simp]: "q_alive (queue_settle q) = q_alive q"
  by (simp add: queue_settle_def split: option.splits)

context crc_hasher
begin

text \<open>One received message, processed.\<close>

lemma process_keeps:
  assumes inv: "appender_inv H i base (set pub) a d" and ap: "no_violation a"
    and lane: "ap_dead a = None \<longrightarrow> lane_ok pub (ap_last_written a) (in_flight q p) deg"
    and fl: "flight_ok q p pub" and run: "seq_run 1 (map ev_seq pub)"
    and tk: "q_taken q = Some m"
    and st: "appender_step H si (Received m now) a d = (a', d')"
  shows "appender_inv H i base (set pub) a' d' \<and> no_violation a' \<and> ap_grows a a'
     \<and> (ap_dead a' = None \<longrightarrow> lane_ok pub (ap_last_written a') (in_flight (queue_settle q) p) deg)"
proof -
  have "input_event (Received m now) = Some e \<Longrightarrow> e \<in> set pub \<and> record_ok (event_record e)" for e
    using fl in_flight_settle [OF tk, of p] by (cases m) (auto simp: flight_ok_def)
  from appender_step_inv [OF inv this st] have inv': "appender_inv H i base (set pub) a' d'" .
  from inv obtain rss cur junk where hold: "acks_hold H i (set pub) a d rss cur junk"
    and wr: "ap_dead a = None \<longrightarrow> writer_holds H i base a d rss cur junk"
    by (auto simp: appender_inv_def)
  show ?thesis
  proof (cases "ap_dead a")
    case (Some r)
    then have "a' = send_ack (AckFailed r) a"
      using st by (cases m) (auto simp: append_event_def)
    with inv' ap Some show ?thesis by (simp add: no_violation_def send_ack_def ap_grows_def)
  next
    case None
    have ex: "ap_expected_seq a = Suc (ap_last_written a)"
      using wr None by (simp add: writer_holds_def)
    note ln = lane_ok_taken [OF tk lane [rule_format, OF None]]
    show ?thesis
    proof (cases m)
      case (MsgRecord e)
      with ln lane_ok_head [OF _ run] have sq: "ev_seq e = Suc (ap_last_written a)"
        and next': "lane_ok pub (Suc (ap_last_written a)) (in_flight (queue_settle q) p) deg"
        by auto
      have "append_event H si e now a d = (a', d')" using st MsgRecord by simp
      from append_event_effect [OF this None ex sq] next' inv' show ?thesis
        by (auto simp: no_violation_def)
    next
      case MsgSync
      then have "do_sync a d = (a', d')" using st None by simp
      from do_sync_effect [OF this acks_holdD(8) [OF hold]] None MsgSync ln inv' show ?thesis
        by (auto simp: no_violation_def)
    qed
  qed
qed

end

section \<open>Preservation\<close>

lemma sys_invI:
  assumes "publish_ok i (sj_core (sy_journal s)) (sy_published s)"
    and "flight_ok (sj_appender (sy_journal s)) (sy_pending s) (sy_published s)"
    and "cursors_ok (sj_core (sy_journal s)) (sj_acks (sy_journal s)) (sy_appender s)"
    and "no_violation (sy_appender s)"
    and "storage_ok H i base (q_alive (sj_appender (sy_journal s))) (sy_published s)
           (sy_appender s) (sy_disk s)"
    and "q_alive (sj_appender (sy_journal s)) \<Longrightarrow> ap_dead (sy_appender s) = None \<Longrightarrow>
           lane_ok (sy_published s) (ap_last_written (sy_appender s))
             (in_flight (sj_appender (sy_journal s)) (sy_pending s))
             (is_degraded (sj_core (sy_journal s)))"
  shows "sys_inv H i base s"
  using assms by (simp add: sys_inv_def Let_def)

lemma sys_invD:
  assumes "sys_inv H i base s"
  shows "publish_ok i (sj_core (sy_journal s)) (sy_published s)"
    and "flight_ok (sj_appender (sy_journal s)) (sy_pending s) (sy_published s)"
    and "cursors_ok (sj_core (sy_journal s)) (sj_acks (sy_journal s)) (sy_appender s)"
    and "no_violation (sy_appender s)"
    and "storage_ok H i base (q_alive (sj_appender (sy_journal s))) (sy_published s)
           (sy_appender s) (sy_disk s)"
    and "q_alive (sj_appender (sy_journal s)) \<Longrightarrow> ap_dead (sy_appender s) = None \<Longrightarrow>
           lane_ok (sy_published s) (ap_last_written (sy_appender s))
             (in_flight (sj_appender (sy_journal s)) (sy_pending s))
             (is_degraded (sj_core (sy_journal s)))"
  using assms by (simp_all add: sys_inv_def Let_def)

lemma poll_keeps:
  assumes "sys_inv H i base s"
  shows "sys_inv H i base (s\<lparr>sy_journal := poll_acks t (sy_journal s)\<rparr>)"
proof -
  note D = sys_invD [OF assms]
  obtain rss cur junk where hold: "acks_hold H i (set (sy_published s)) (sy_appender s) (sy_disk s) rss cur junk"
    using storage_ok_acks [OF D(5)] by blast
  let ?c = "sj_core (sy_journal s)" and ?acks = "sj_acks (sy_journal s)"
  have "lane_ok (sy_published s) (ap_last_written (sy_appender s))
      (in_flight (sj_appender (sy_journal s)) (sy_pending s))
      (is_degraded (foldl (apply_ack t) ?c ?acks))"
    if "q_alive (sj_appender (sy_journal s))" "ap_dead (sy_appender s) = None"
    using D(6) [OF that] apply_acks_degraded [of ?c t ?acks] by (auto simp: lane_ok_def)
  then show ?thesis
    using D publish_ok_acks [OF D(1)] cursors_ok_poll [OF D(3) hold]
    by (intro sys_invI) (simp_all add: poll_acks_def)
qed

lemma record_keeps:
  assumes inv: "sys_inv H i base s" and p: "sy_pending s = None" and el: "el < 2 ^ 64"
    and sq: "next_seq (sj_core (sy_journal s)) < 2 ^ 64"
  shows "sys_inv H i base (sys_record t el k payload s)"
proof -
  let ?j = "poll_acks t (sy_journal s)"
  note inv1 = poll_keeps [OF inv, of t]
  note D = sys_invD [OF inv1, simplified]
  show ?thesis
  proof (cases "is_degraded (sj_core ?j)")
    case True
    with inv1 show ?thesis by (simp add: sys_record_def)
  next
    case False
    obtain e c where pub: "publish (sj_core ?j) el k payload = (e, c)" by fastforce
    have ci: "core_inv (sj_core ?j)" using D(1) by (simp add: publish_ok_def)
    note pc = publish_cursors [OF pub ci]
    have sq': "ev_seq e < 2 ^ 64" using pc sq by (simp add: poll_acks_def)
    note ok = publish_ok_publish [OF D(1) pub] and st = storage_ok_mono [OF D(5), of e]
    have cur: "cursors_ok c (sj_acks ?j) (sy_appender s)"
      using D(3) pc by (simp add: cursors_ok_def)
    obtain r q where res: "submit_reserve (length payload) (sj_appender ?j) = (r, q)" by fastforce
    have al: "q_alive q = q_alive (sj_appender ?j)" and fl: "in_flight q x = in_flight (sj_appender ?j) x" for x
      using res by (auto simp: submit_reserve_def split: if_splits)
    show ?thesis
    proof (cases r)
      case (Inl err)
      then have q: "q = sj_appender ?j" using res by (auto simp: submit_reserve_def split: if_splits)
      have eq: "sys_record t el k payload s = s\<lparr>sy_published := sy_published s @ [e],
          sy_journal := ?j\<lparr>sj_core := degrade c (submit_error_text err), sj_appender := q\<rparr>\<rparr>"
        using False pub res Inl by (simp add: sys_record_def Let_def)
      show ?thesis
        unfolding eq using ok st cur D(4) flight_ok_mono [OF D(2)] lane_ok_unqueued [OF D(6)]
        by (intro sys_invI) (simp_all add: q publish_ok_degrade p)
    next
      case (Inr u)
      have eq: "sys_record t el k payload s = s\<lparr>sy_published := sy_published s @ [e],
          sy_journal := ?j\<lparr>sj_core := c, sj_appender := q\<rparr>, sy_pending := Some e\<rparr>"
        using False pub res Inr by (simp add: sys_record_def Let_def)
      have "flight_ok q (Some e) (sy_published s @ [e])"
        using flight_ok_reserve [OF _ _ sq'] D(2) res Inr pc el p by simp
      then show ?thesis
        unfolding eq using ok st cur D(4) al fl False lane_ok_publish [of "sy_published s"] D(6) p
        by (intro sys_invI) (simp_all add: in_flight_pending pc)
    qed
  qed
qed

lemma refuse_keeps:
  assumes inv: "sys_inv H i base s" and p: "sy_pending s = Some e"
  shows "sys_inv H i base (sys_refuse err e s)"
proof -
  note D = sys_invD [OF inv]
  show ?thesis
    using D p flight_ok_refuse lane_ok_refuse
    by (intro sys_invI)
      (auto simp: sys_refuse_def Let_def publish_ok_degrade in_flight_pending submit_cancel_def)
qed

lemma attempt_keeps:
  assumes inv: "sys_inv H i base s"
  shows "sys_inv H i base (sys_attempt s)"
proof (cases "sy_pending s")
  case None
  with inv show ?thesis by (simp add: sys_attempt_def)
next
  case (Some e)
  note D = sys_invD [OF inv]
  let ?q = "sj_appender (sy_journal s)"
  consider (gone) "\<not> q_alive ?q" | (full) "q_alive ?q" "q_capacity ?q \<le> length (q_msgs ?q)"
    | (room) "q_alive ?q" "\<not> q_capacity ?q \<le> length (q_msgs ?q)" by blast
  then show ?thesis
  proof cases
    case gone
    with refuse_keeps [OF inv Some] Some show ?thesis by (simp add: sys_attempt_def try_send_def)
  next
    case full
    with inv Some show ?thesis by (simp add: sys_attempt_def try_send_def)
  next
    case room
    then have eq: "sys_attempt s = s\<lparr>sy_journal := (sy_journal s)
        \<lparr>sj_appender := ?q\<lparr>q_msgs := q_msgs ?q @ [MsgRecord e]\<rparr>\<rparr>, sy_pending := None\<rparr>"
      using Some by (simp add: sys_attempt_def try_send_def)
    show ?thesis
      unfolding eq using D Some room flight_ok_sent [OF _ room(2)]
      by (intro sys_invI) (simp_all add: in_flight_sent)
  qed
qed

text \<open>Steps that change only the queue.\<close>

lemma queue_keeps:
  assumes inv: "sys_inv H i base s"
    and fl: "\<And>p pub. flight_ok (sj_appender (sy_journal s)) p pub
                \<Longrightarrow> flight_ok (f (sj_appender (sy_journal s))) p pub"
    and same: "\<And>p. in_flight (f (sj_appender (sy_journal s))) p = in_flight (sj_appender (sy_journal s)) p"
    and al: "q_alive (f (sj_appender (sy_journal s))) = q_alive (sj_appender (sy_journal s))"
  shows "sys_inv H i base (sys_queue f s)"
  using sys_invD [OF inv] fl same al by (intro sys_invI) (simp_all add: sys_queue_def)

lemma request_sync_flight [simp]: "in_flight (request_sync q) p = in_flight q p"
  "q_alive (request_sync q) = q_alive q"
  using request_sync_cases [of q] by auto

lemma take_alive [simp]: "q_alive (queue_take q) = q_alive q"
  by (simp add: queue_take_def split: option.splits list.splits bool.splits)

context crc_hasher
begin

lemma processed_keeps:
  assumes inv: "sys_inv H i base s" and al: "q_alive (sj_appender (sy_journal s))"
    and tk: "q_taken (sj_appender (sy_journal s)) = Some m"
  shows "sys_inv H i base (sys_process H si now m s)"
proof -
  note D = sys_invD [OF inv]
  obtain a' d' where st: "appender_step H si (Received m now) (sy_appender s) (sy_disk s) = (a', d')"
    by fastforce
  have ai: "appender_inv H i base (set (sy_published s)) (sy_appender s) (sy_disk s)"
    using D(5) al by (simp add: storage_ok_def)
  have run: "seq_run 1 (map ev_seq (sy_published s))" using D(1) by (simp add: publish_ok_def)
  have lane: "ap_dead (sy_appender s) = None \<longrightarrow> lane_ok (sy_published s)
      (ap_last_written (sy_appender s)) (in_flight (sj_appender (sy_journal s)) (sy_pending s))
      (is_degraded (sj_core (sy_journal s)))" using D(6) al by simp
  note pk = process_keeps [OF ai D(4) lane D(2) run tk st]
  show ?thesis
    using D(1) flight_ok_settle [OF D(2)] pk al cursors_ok_grows [OF D(3)] st
    by (intro sys_invI) (simp_all add: sys_process_def sys_deliver_def sys_queue_def storage_ok_def)
qed

lemma timeout_keeps:
  assumes inv: "sys_inv H i base s" and al: "q_alive (sj_appender (sy_journal s))"
  shows "sys_inv H i base (sys_deliver (appender_step H si Timeout (sy_appender s) (sy_disk s)) s)"
proof -
  note D = sys_invD [OF inv]
  obtain a' d' where st: "appender_step H si Timeout (sy_appender s) (sy_disk s) = (a', d')"
    by fastforce
  have ai: "appender_inv H i base (set (sy_published s)) (sy_appender s) (sy_disk s)"
    using D(5) al by (simp add: storage_ok_def)
  have ai': "appender_inv H i base (set (sy_published s)) a' d'"
    by (rule appender_step_inv [OF ai _ st]) simp
  obtain rss cur junk where hold: "acks_hold H i (set (sy_published s)) (sy_appender s) (sy_disk s) rss cur junk"
    using ai by (auto simp: appender_inv_def)
  have "ap_grows (sy_appender s) a' \<and> ap_last_written a' = ap_last_written (sy_appender s)
      \<and> (ap_dead a' = ap_dead (sy_appender s) \<or> (\<exists>e. ap_dead a' = Some (SyncFailed e)))"
    using st do_sync_effect [OF _ acks_holdD(8) [OF hold]] by (auto split: if_splits)
  then show ?thesis
    using D ai' al st cursors_ok_grows [OF D(3)]
    by (intro sys_invI) (auto simp: sys_deliver_def storage_ok_def no_violation_def)
qed

lemma finish_keeps:
  assumes inv: "sys_inv H i base s" and al: "q_alive (sj_appender (sy_journal s))"
  shows "sys_inv H i base (sys_queue (\<lambda>q. q\<lparr>q_alive := False\<rparr>)
           (sys_deliver (appender_finish H (sy_appender s) (sy_disk s)) s))"
proof -
  note D = sys_invD [OF inv]
  obtain a' d' where st: "appender_finish H (sy_appender s) (sy_disk s) = (a', d')" by fastforce
  have ai: "appender_inv H i base (set (sy_published s)) (sy_appender s) (sy_disk s)"
    using D(5) al by (simp add: storage_ok_def)
  obtain rss cur junk where hold: "acks_hold H i (set (sy_published s)) (sy_appender s) (sy_disk s) rss cur junk"
    using ai by (auto simp: appender_inv_def)
  have "flight_ok (q\<lparr>q_alive := False\<rparr>) p pub" if "flight_ok q p pub" for q p pub
    using that by (simp add: flight_ok_def queue_inv_def)
  then show ?thesis
    using D finish_effect [OF st acks_holdD(8) [OF hold] D(4)] appender_finish_acks [OF ai st]
      cursors_ok_grows [OF D(3)]
    by (intro sys_invI) (simp_all add: sys_queue_def sys_deliver_def storage_ok_def st)
qed

lemma sys_step_inv:
  assumes "sys_step H t si s s'" and "sys_inv H i base s"
  shows "sys_inv H i base s'"
  using assms
proof cases
  case (rec el kind payload)
  then show ?thesis using record_keeps [OF assms(2)] by blast
next
  case give_up
  then show ?thesis
    using assms(2) refuse_keeps [OF assms(2)] by (auto simp: sys_give_up_def split: option.splits)
next
  case timeout
  then show ?thesis using timeout_keeps [OF assms(2)] by blast
qed (use assms(2) in \<open>auto intro: attempt_keeps poll_keeps processed_keeps finish_keeps
      queue_keeps flight_ok_sync flight_ok_take\<close>)

lemma reachable_inv:
  "reachable H t si i mx s \<Longrightarrow> \<exists>base. sys_inv H i base s"
proof (induction rule: reachable.induct)
  case (start d)
  from start_appender_inv [OF start] obtain base where
    base: "appender_inv H i base {} (start_appender H i mx) d" by blast
  have "sys_inv H i base (system_start H i mx d)"
    using base queue_inv_new core_inv_new
    by (intro sys_invI) (auto simp: system_start_def ShadowJournal_new_def SequencerCore_new_def
        publish_ok_def flight_ok_def cursors_ok_def no_violation_def storage_ok_def lane_ok_def
        in_flight_def pending_bytes_def JournalAppender_new_def start_appender_def
        appender_init_def SequencerCore_with_budget_def DEFAULT_QUEUE_BUDGET_BYTES_def
        MAX_PAYLOAD_LEN_def List.map_filter_simps)
  then show ?case by blast
next
  case (step s s')
  then show ?case using sys_step_inv by blast
qed

end

section \<open>From the session to a recovered journal\<close>

text \<open>Records that are numbered like the published events, and come from them, are their prefix.\<close>

lemma records_of_published:
  assumes "record_run 1 recs" and "set recs \<subseteq> event_record ` set pub"
    and "seq_run 1 (map ev_seq pub)"
  shows "recs = map event_record (take (length recs) pub) \<and> length recs \<le> length pub"
proof -
  have same: "k < length pub \<and> recs ! k = event_record (pub ! k)" if k: "k < length recs" for k
  proof -
    from k assms(2) obtain e where e: "e \<in> set pub" "recs ! k = event_record e"
      using nth_mem by blast
    then obtain l where l: "l < length pub" "pub ! l = e" by (auto simp: in_set_conv_nth)
    have "ev_seq e = Suc l" using seq_run_nth [OF assms(3), of l] l by simp
    moreover have "rec_seq (recs ! k) = Suc k"
      using assms(1) seq_run_nth [of 1 "map rec_seq recs" k] k by (simp add: record_run_def)
    ultimately show ?thesis using e l by (simp add: event_record_def)
  qed
  have le: "length recs \<le> length pub"
    using same [of "length recs - 1"] by (cases recs) (auto simp: Suc_le_eq)
  moreover have "recs = map event_record (take (length recs) pub)"
    using same le by (intro nth_equalityI) auto
  ultimately show ?thesis by blast
qed

lemma sys_inv_crash:
  assumes "crc_hasher H" and "sys_inv H i base s" and "crashed (sy_disk s) d'"
  shows "\<exists>n k. recovered_records H d' i n = map event_record (take k (sy_published s))
     \<and> durable_seq (sj_core (sy_journal s)) \<le> k \<and> k \<le> length (sy_published s)"
proof -
  note D = sys_invD [OF assms(2)]
  obtain rss cur junk where
    hold: "acks_hold H i (set (sy_published s)) (sy_appender s) (sy_disk s) rss cur junk"
    using storage_ok_acks [OF D(5)] by blast
  let ?recs = "concat rss @ cur"
  have le: "ap_last_durable (sy_appender s) \<le> length ?recs"
    using acks_holdD(6,8) [OF hold] by linarith
  from crc_hasher.recovered_after_crash [OF assms(1) acks_holdD(1,2,4) [OF hold] le assms(3)]
  obtain k where k: "recovered_records H d' i (Suc (length rss)) = take k ?recs"
    "ap_last_durable (sy_appender s) \<le> k" "k \<le> length ?recs" by blast
  have recs: "?recs = map event_record (take (length ?recs) (sy_published s))"
    and len: "length ?recs \<le> length (sy_published s)"
    using records_of_published [OF acks_holdD(2,3) [OF hold]] D(1)
    by (auto simp: publish_ok_def)
  have "take k ?recs = map event_record (take k (sy_published s))"
    using k(3) by (subst recs) (simp add: take_map min_def)
  moreover have "durable_seq (sj_core (sy_journal s)) \<le> k"
    using D(3) k(2) by (simp add: cursors_ok_def)
  ultimately show ?thesis using k(1,3) len by (metis le_trans)
qed

text \<open>C14. End to end: in every state that the session and the appender thread can reach together,
  under any interleaving, any queue refusals and any I/O faults, a crash that loses every byte no
  completed sync covers still leaves a journal from which a scan recovers exactly a prefix of the
  events the session published, and that prefix reaches at least the sequence the core reports as
  durable; when the core reports that everything is durable, it is all of them.\<close>

theorem published_events_survive_crash:
  assumes "crc_hasher H" and "reachable H io_text si i mx s" and "crashed (sy_disk s) d'"
  shows "\<exists>n k. recovered_records H d' i n = map event_record (take k (sy_published s))
     \<and> durable_seq (sj_core (sy_journal s)) \<le> k
     \<and> (is_fully_durable (sj_core (sy_journal s)) \<longrightarrow> take k (sy_published s) = sy_published s)"
proof -
  from crc_hasher.reachable_inv [OF assms(1,2)] obtain base where inv: "sys_inv H i base s" by blast
  from sys_inv_crash [OF assms(1) inv assms(3)] obtain n k where
    "recovered_records H d' i n = map event_record (take k (sy_published s))"
    "durable_seq (sj_core (sy_journal s)) \<le> k" "k \<le> length (sy_published s)" by blast
  moreover have "next_seq (sj_core (sy_journal s)) = Suc (length (sy_published s))"
    using sys_invD(1) [OF inv] by (simp add: publish_ok_def)
  ultimately show ?thesis by (intro exI [of _ n] exI [of _ k]) (auto simp: is_fully_durable_def)
qed

text \<open>The appender never rejects an event for being out of order: whatever the interleaving,
  whatever submissions were refused, the failure \<open>ContiguityViolation\<close> does not occur, and while
  the appender is healthy the events in flight continue exactly where its writes ended.\<close>

theorem no_contiguity_violation:
  assumes "crc_hasher H" and "reachable H io_text si i mx s"
  shows "(\<forall>x y. ap_dead (sy_appender s) \<noteq> Some (ContiguityViolation x y))
     \<and> (q_alive (sj_appender (sy_journal s)) \<and> ap_dead (sy_appender s) = None \<longrightarrow>
          seq_run (Suc (ap_last_written (sy_appender s)))
            (map ev_seq (in_flight (sj_appender (sy_journal s)) (sy_pending s))))"
proof -
  from crc_hasher.reachable_inv [OF assms] obtain base where inv: "sys_inv H i base s" by blast
  note D = sys_invD [OF inv]
  have run: "seq_run 1 (map ev_seq (sy_published s))" using D(1) by (simp add: publish_ok_def)
  have "seq_run (Suc w) (map ev_seq fl)"
    if lane: "lane_ok (sy_published s) w fl deg" for w fl deg
  proof -
    from lane obtain m where m: "w \<le> m" "m \<le> length (sy_published s)"
      "fl = drop w (take m (sy_published s))" by (auto simp: lane_ok_def)
    have "seq_run 1 (map ev_seq (take m (sy_published s)))"
      using run by (metis append_take_drop_id map_append seq_run_append)
    from seq_run_drop [OF this, of w] m show ?thesis
      by (auto simp: drop_map min_def split: if_splits)
  qed
  with D(4,6) show ?thesis by (auto simp: no_violation_def)
qed

subsection \<open>A concrete run\<close>

text \<open>One record is published, queued, received and written, synced, and its acks are drained.\<close>

definition sample_queued :: "u32 system" where
  "sample_queued = sys_queue queue_take (sys_queue request_sync (sys_attempt
     (sys_record (\<lambda>_. []) 5 Output [104, 105] (system_start table_hasher 1 1000 sample_disk))))"

definition sample_written :: "u32 system" where
  "sample_written =
     sys_queue queue_take (sys_process table_hasher 50 7 (MsgRecord sample_event) sample_queued)"

definition sample_final :: "u32 system" where
  "sample_final =
     (let s = sys_process table_hasher 50 8 MsgSync sample_written
      in s\<lparr>sy_journal := poll_acks (\<lambda>_. []) (sy_journal s)\<rparr>)"

lemmas system_eval = sys_queue_def request_sync_def sys_attempt_def sys_record_def
  system_start_def poll_acks_def ShadowJournal_new_def SequencerCore_new_def
  SequencerCore_with_budget_def is_degraded_def publish_def submit_reserve_def try_send_def
  JournalAppender_new_def DEFAULT_QUEUE_BUDGET_BYTES_def DEFAULT_QUEUE_CAPACITY_def
  DEFAULT_CACHE_BUDGET_BYTES_def queue_take_def queue_settle_def Let_def

lemma sample_queued_state:
  "sj_appender (sy_journal sample_queued)
     = \<lparr>q_msgs = [MsgSync], q_taken = Some (MsgRecord sample_event), q_bytes = 2, q_capacity = 256,
        q_budget = 32 * 1024 * 1024, q_stall_timeout = 2000, q_alive = True\<rparr>"
  by (simp add: sample_queued_def system_eval sample_event_def DEFAULT_QUEUE_STALL_TIMEOUT_def)

lemma sample_written_state:
  "sj_appender (sy_journal sample_written)
     = \<lparr>q_msgs = [], q_taken = Some MsgSync, q_bytes = 0, q_capacity = 256,
        q_budget = 32 * 1024 * 1024, q_stall_timeout = 2000, q_alive = True\<rparr>"
  by (simp add: sample_written_def sys_process_def sys_deliver_def sys_queue_def
      sample_queued_state queue_take_def queue_settle_def sample_event_def split: prod.splits)

lemma sample_reachable: "reachable table_hasher (\<lambda>_. []) 50 1 1000 sample_final"
proof -
  let ?R = "reachable table_hasher (\<lambda>_. []) 50 1 1000"
  let ?s0 = "system_start table_hasher 1 1000 sample_disk"
  have "?R ?s0" by (rule reachable.start [OF sample_fresh])
  then have "?R (sys_record (\<lambda>_. []) 5 Output [104, 105] ?s0)"
    by (rule reachable.step) (rule sys_step.rec; simp add: system_eval)
  then have "?R sample_queued"
    unfolding sample_queued_def
    by (intro reachable.step [OF _ sys_step.receive] reachable.step [OF _ sys_step.sync]
        reachable.step [OF _ sys_step.attempt])
  then have "?R sample_written"
    unfolding sample_written_def
    by (intro reachable.step [OF _ sys_step.receive] reachable.step [OF _ sys_step.process])
      (simp_all add: sample_queued_state)
  then have "?R (sys_process table_hasher 50 8 MsgSync sample_written)"
    by (rule reachable.step) (rule sys_step.process; simp add: sample_written_state)
  then show ?thesis
    unfolding sample_final_def Let_def by (rule reachable.step [OF _ sys_step.poll])
qed

lemma sample_final_state:
  "is_fully_durable (sj_core (sy_journal sample_final))
   \<and> length (sy_published sample_final) = 1"
  by (simp add: sample_final_def sample_written_def sample_queued_def sys_process_def
      sys_deliver_def system_eval appender_eval sample_disk_def sample_event_def
      is_fully_durable_def note_journaled_def note_durable_def)

lemma sample_final_durable: "durable_seq (sj_core (sy_journal sample_final)) = 1"
  by (simp add: sample_final_def sample_written_def sample_queued_def sys_process_def
      sys_deliver_def system_eval appender_eval sample_disk_def sample_event_def
      note_journaled_def note_durable_def)

theorem published_events_survive_crash_witness:
  "\<exists>n. recovered_records table_hasher (sy_disk sample_final) 1 n
         = map event_record (sy_published sample_final)
       \<and> length (sy_published sample_final) = 1"
proof -
  have "crashed d d" for d
    unfolding crashed_def
    by (metis le_cases max.cobounded1 max.cobounded2 take_all)
  from published_events_survive_crash [OF table_crc.crc_hasher_axioms sample_reachable this]
  show ?thesis using sample_final_state by metis
qed

theorem no_contiguity_violation_witness:
  "\<forall>x y. ap_dead (sy_appender sample_final) \<noteq> Some (ContiguityViolation x y)"
  using no_contiguity_violation [OF table_crc.crc_hasher_axioms sample_reachable] by blast

end
