(* ===== verification/Session_Live.thy ===== *)
theory Session_Live
  imports Session_Facts Journal_System
begin

text \<open>
  The session on its real journal: the runtime of \<open>src/session/runtime.rs\<close> over the shadow journal,
  the queue, the appender thread and the disk. The appender thread's moves come from a script, one
  turn per call the session makes, so that a theorem for every script is one for every
  interleaving. The journal interface of the runtime is interpreted here; the properties say that
  what was journalled, what was broadcast and what a replay shows agree, that the facts of the end
  come in order, and what becomes of a journal that fails between two records.
\<close>

section \<open>The appender thread's moves\<close>

datatype appender_move = TakeNext | ProcessTaken nat | IdleTick

fun appender_act ::
  "'h hasher \<Rightarrow> nat \<Rightarrow> appender_move \<Rightarrow> 'h system \<Rightarrow> 'h system" where
  "appender_act H si TakeNext s = sys_queue queue_take s"
| "appender_act H si (ProcessTaken now) s =
     (case q_taken (sj_appender (sy_journal s)) of
        Some msg \<Rightarrow> if q_alive (sj_appender (sy_journal s)) then sys_process H si now msg s else s
      | None \<Rightarrow> s)"
| "appender_act H si IdleTick s =
     (if q_alive (sj_appender (sy_journal s)) \<and> q_taken (sj_appender (sy_journal s)) = None
      then sys_deliver (appender_step H si Timeout (sy_appender s) (sy_disk s)) s else s)"

definition appender_acts :: "'h hasher \<Rightarrow> nat \<Rightarrow> appender_move list \<Rightarrow> 'h system \<Rightarrow> 'h system" where
  "appender_acts H si ms s = fold (appender_act H si) ms s"

text \<open>One turn, for each record and each poll: the clock, the moves before the call, and for a record the
  moves between the attempts to enqueue it; when these run out, the stall deadline has passed.\<close>

record journal_turn =
  tn_elapsed :: nat
  tn_before :: "appender_move list"
  tn_waits :: "appender_move list list"

record 'h live_journal =
  lv_system :: "'h system"
  lv_turns :: "journal_turn list"

fun submit_attempts :: "'h hasher \<Rightarrow> nat \<Rightarrow> appender_move list list \<Rightarrow> 'h system \<Rightarrow> 'h system" where
  "submit_attempts H si [] s = sys_give_up (sys_attempt s)"
| "submit_attempts H si (ms # rest) s =
     (let s' = sys_attempt s
      in if sy_pending s' = None then s' else submit_attempts H si rest (appender_acts H si ms s'))"

definition idle_turn :: journal_turn where
  "idle_turn = \<lparr>tn_elapsed = 0, tn_before = [], tn_waits = []\<rparr>"

definition next_turn :: "journal_turn list \<Rightarrow> journal_turn" where
  "next_turn ts = (case ts of t # _ \<Rightarrow> t | [] \<Rightarrow> idle_turn)"

definition live_system ::
  "'h hasher \<Rightarrow> (io_error \<Rightarrow> string) \<Rightarrow> nat \<Rightarrow> journal_turn \<Rightarrow> RecordKind \<Rightarrow> bytes \<Rightarrow> 'h system \<Rightarrow> 'h system" where
  "live_system H io_text si t kind payload s =
     submit_attempts H si (tn_waits t)
       (sys_record io_text (tn_elapsed t mod 2 ^ 64) kind payload (appender_acts H si (tn_before t) s))"

abbreviation sys_core :: "'h system \<Rightarrow> SequencerCore" where
  "sys_core s \<equiv> sj_core (sy_journal s)"

text \<open>The error only reaches the log; which one it was is read off the state.\<close>

definition live_record ::
  "'h hasher \<Rightarrow> (io_error \<Rightarrow> string) \<Rightarrow> nat \<Rightarrow> RecordKind \<Rightarrow> bytes \<Rightarrow> 'h live_journal
     \<Rightarrow> (JournalSubmitError + JournalCursor) \<times> 'h live_journal" where
  "live_record H io_text si kind payload j =
     (let s = lv_system j; s' = live_system H io_text si (next_turn (lv_turns j)) kind payload s;
          j1 = poll_acks io_text (sy_journal (appender_acts H si (tn_before (next_turn (lv_turns j))) s));
          q = sj_appender j1
      in (if is_degraded (sj_core j1) then Inl PersistenceDegraded
          else if \<not> is_degraded (sys_core s')
          then Inr \<lparr>jc_incarnation = core_incarnation (sj_core j1), jc_seq = next_seq (sj_core j1)\<rparr>
          else if q_budget q < q_bytes q + length payload then Inl QueueBudgetExhausted
          else if q_alive (sj_appender (sy_journal s')) then Inl QueueFull else Inl AppenderDead,
          \<lparr>lv_system = s', lv_turns = tl (lv_turns j)\<rparr>))"

text \<open>The system when the next call of the session finds it.\<close>

definition met :: "'h hasher \<Rightarrow> nat \<Rightarrow> 'h live_journal \<Rightarrow> 'h system" where
  "met H si j = appender_acts H si (tn_before (next_turn (lv_turns j))) (lv_system j)"

definition live_poll :: "'h hasher \<Rightarrow> (io_error \<Rightarrow> string) \<Rightarrow> nat \<Rightarrow> 'h live_journal \<Rightarrow> 'h live_journal" where
  "live_poll H io_text si j =
     (let s = met H si j
      in \<lparr>lv_system = s\<lparr>sy_journal := poll_acks io_text (sy_journal s)\<rparr>, lv_turns = tl (lv_turns j)\<rparr>)"

definition live_sync :: "'h live_journal \<Rightarrow> 'h live_journal" where
  "live_sync j = j\<lparr>lv_system := sys_queue request_sync (lv_system j)\<rparr>"

definition live_ops :: "'h hasher \<Rightarrow> (io_error \<Rightarrow> string) \<Rightarrow> nat \<Rightarrow> 'h live_journal journal_ops" where
  "live_ops H io_text si =
     \<lparr>jo_record = live_record H io_text si, jo_poll_acks = live_poll H io_text si,
      jo_request_sync = live_sync, jo_is_degraded = (\<lambda>j. is_degraded (sys_core (lv_system j))),
      jo_is_fully_durable = (\<lambda>j. is_fully_durable (sys_core (lv_system j))),
      jo_incarnation = (\<lambda>j. core_incarnation (sys_core (lv_system j)))\<rparr>"

lemma live_ops_simps [simp]:
  "jo_record (live_ops H io_text si) = live_record H io_text si"
  "jo_poll_acks (live_ops H io_text si) = live_poll H io_text si"
  "jo_request_sync (live_ops H io_text si) = live_sync"
  "jo_is_degraded (live_ops H io_text si) j = is_degraded (sys_core (lv_system j))"
  by (simp_all add: live_ops_def)

text \<open>The records of everything published.\<close>

definition live_log :: "'h live_journal \<Rightarrow> Record list" where
  "live_log j = map event_record (sy_published (lv_system j))"

definition live_start ::
  "'h hasher \<Rightarrow> nat \<Rightarrow> nat \<Rightarrow> disk \<Rightarrow> journal_turn list \<Rightarrow> 'h live_journal" where
  "live_start H i mx d turns = \<lparr>lv_system = system_start H i mx d, lv_turns = turns\<rparr>"

section \<open>The interface holds\<close>

lemma deliver_view [simp]:
  "sy_published (sys_deliver ad s) = sy_published s" "sys_core (sys_deliver ad s) = sys_core s"
  "sy_pending (sys_deliver ad s) = sy_pending s"
  by (simp_all add: sys_deliver_def split: prod.splits)

lemma queue_view [simp]:
  "sy_published (sys_queue f s) = sy_published s" "sys_core (sys_queue f s) = sys_core s"
  "sy_pending (sys_queue f s) = sy_pending s"
  by (simp_all add: sys_queue_def)

lemma act_view [simp]:
  "sy_published (appender_act H si m s) = sy_published s" "sys_core (appender_act H si m s) = sys_core s"
  "sy_pending (appender_act H si m s) = sy_pending s"
  by (cases m; simp add: sys_process_def split: option.splits)+

lemma acts_view [simp]:
  "sy_published (appender_acts H si ms s) = sy_published s" "sys_core (appender_acts H si ms s) = sys_core s"
  "sy_pending (appender_acts H si ms s) = sy_pending s"
  unfolding appender_acts_def by (induction ms arbitrary: s) simp_all

lemma refuse_view [simp]:
  "sy_published (sys_refuse err e s) = sy_published s" "is_degraded (sys_core (sys_refuse err e s))"
  "sy_pending (sys_refuse err e s) = None"
  by (simp_all add: sys_refuse_def Let_def)

lemma attempt_view:
  "sy_published (sys_attempt s) = sy_published s"
  "is_degraded (sys_core s) \<Longrightarrow> is_degraded (sys_core (sys_attempt s))"
  by (simp_all add: sys_attempt_def split: option.splits prod.splits send_result.splits)

lemma give_up_view:
  "sy_published (sys_give_up s) = sy_published s" "sy_pending (sys_give_up s) = None"
  "is_degraded (sys_core s) \<Longrightarrow> is_degraded (sys_core (sys_give_up s))"
  by (simp_all add: sys_give_up_def split: option.splits)

lemma attempts_view:
  "sy_published (submit_attempts H si waits s) = sy_published s"
  "is_degraded (sys_core s) \<Longrightarrow> is_degraded (sys_core (submit_attempts H si waits s))"
  "sy_pending (submit_attempts H si waits s) = None"
  by (induction waits arbitrary: s) (simp_all add: Let_def attempt_view give_up_view)

abbreviation polled :: "(io_error \<Rightarrow> string) \<Rightarrow> 'h system \<Rightarrow> SequencerCore" where
  "polled io_text s \<equiv> sj_core (poll_acks io_text (sy_journal s))"

lemma record_view:
  "is_degraded (polled io_text s) \<Longrightarrow>
     sy_published (sys_record io_text el kind payload s) = sy_published s
     \<and> is_degraded (sys_core (sys_record io_text el kind payload s))"
  "\<not> is_degraded (polled io_text s) \<Longrightarrow>
     \<exists>e. sy_published (sys_record io_text el kind payload s) = sy_published s @ [e]
       \<and> rec_kind (event_record e) = kind \<and> rec_payload (event_record e) = payload"
  by (auto simp: sys_record_def publish_def event_record_def Let_def split: sum.splits prod.splits)

lemma polled_degraded: "is_degraded (sys_core s) \<Longrightarrow> is_degraded (polled io_text s)"
  by (simp add: poll_acks_def apply_acks_degraded)

lemma live_system_view:
  "is_degraded (polled io_text (appender_acts H si (tn_before t) s)) \<Longrightarrow>
     sy_published (live_system H io_text si t kind payload s) = sy_published s
     \<and> is_degraded (sys_core (live_system H io_text si t kind payload s))"
  "\<not> is_degraded (polled io_text (appender_acts H si (tn_before t) s)) \<Longrightarrow>
     \<not> is_degraded (sys_core s)
     \<and> (\<exists>e. sy_published (live_system H io_text si t kind payload s) = sy_published s @ [e]
          \<and> rec_kind (event_record e) = kind \<and> rec_payload (event_record e) = payload)"
  using record_view [of io_text "appender_acts H si (tn_before t) s" "tn_elapsed t mod 2 ^ 64" kind payload]
    polled_degraded [of "appender_acts H si (tn_before t) s" io_text]
  by (auto simp: live_system_def attempts_view)

lemma live_record_view:
  assumes "live_record H io_text si kind payload j = (res, j')"
  shows "lv_system j' = live_system H io_text si (next_turn (lv_turns j)) kind payload (lv_system j)"
    and "(\<exists>c. res = Inr c) \<longleftrightarrow> \<not> is_degraded (sys_core (lv_system j'))
           \<and> \<not> is_degraded (polled io_text
               (appender_acts H si (tn_before (next_turn (lv_turns j))) (lv_system j)))"
  using assms by (auto simp: live_record_def Let_def split: if_splits)

lemma live_record_laws:
  assumes "live_record H io_text si kind payload j = (res, j')"
  shows "res = Inr c \<Longrightarrow> \<not> is_degraded (sys_core (lv_system j)) \<and> \<not> is_degraded (sys_core (lv_system j'))
      \<and> (\<exists>r. live_log j' = live_log j @ [r] \<and> rec_kind r = kind \<and> rec_payload r = payload)"
    and "res = Inl err \<Longrightarrow> is_degraded (sys_core (lv_system j'))
      \<and> (live_log j' = live_log j
         \<or> \<not> is_degraded (sys_core (lv_system j))
           \<and> (\<exists>r. live_log j' = live_log j @ [r] \<and> rec_kind r = kind \<and> rec_payload r = payload))"
proof -
  let ?t = "next_turn (lv_turns j)"
  note v = live_record_view [OF assms]
  have new: "\<not> is_degraded (sys_core (lv_system j))
      \<and> (\<exists>r. live_log j' = live_log j @ [r] \<and> rec_kind r = kind \<and> rec_payload r = payload)"
    if "\<not> is_degraded (polled io_text (appender_acts H si (tn_before ?t) (lv_system j)))"
    using live_system_view(2) [OF that, of kind payload] by (auto simp: v(1) live_log_def)
  have old: "is_degraded (sys_core (lv_system j')) \<and> live_log j' = live_log j"
    if "is_degraded (polled io_text (appender_acts H si (tn_before ?t) (lv_system j)))"
    using live_system_view(1) [OF that, of kind payload] by (simp add: v(1) live_log_def)
  show "\<not> is_degraded (sys_core (lv_system j)) \<and> \<not> is_degraded (sys_core (lv_system j'))
      \<and> (\<exists>r. live_log j' = live_log j @ [r] \<and> rec_kind r = kind \<and> rec_payload r = payload)" if "res = Inr c"
    using v(2) new that by blast
  show "is_degraded (sys_core (lv_system j'))
      \<and> (live_log j' = live_log j
         \<or> \<not> is_degraded (sys_core (lv_system j))
           \<and> (\<exists>r. live_log j' = live_log j @ [r] \<and> rec_kind r = kind \<and> rec_payload r = payload))" if "res = Inl err"
    using v(2) new old that by blast
qed

interpretation live: session_journal "live_ops H io_text si" live_log
  for H :: "'h hasher" and io_text and si
  by unfold_locales
    (simp_all add: live_record_laws live_log_def live_poll_def met_def live_sync_def polled_degraded Let_def,
      (simp add: live_log_def [symmetric] live_record_laws)+)

section \<open>What the journal keeps, the session keeps\<close>

text \<open>A predicate on the fail-loud flag and the journal that every call the runtime makes keeps.\<close>

definition journal_closed :: "'j journal_ops \<Rightarrow> (bool \<Rightarrow> 'j \<Rightarrow> bool) \<Rightarrow> bool" where
  "journal_closed J P \<longleftrightarrow>
     (\<forall>k p f j. P f j \<longrightarrow> P (f \<or> isl (fst (jo_record J k p j)) \<and> \<not> jo_is_degraded J j) (snd (jo_record J k p j)))
     \<and> (\<forall>f j. P f j \<longrightarrow> P f (jo_poll_acks J j)) \<and> (\<forall>f j. P f j \<longrightarrow> P f (jo_request_sync J j))"

fun present :: "('a \<Rightarrow> bool) \<Rightarrow> 'a option \<Rightarrow> bool" where
  "present P None = False"
| "present P (Some x) = P x"

lemma present_iff: "present P x \<longleftrightarrow> (\<exists>y. x = Some y \<and> P y)"
  by (cases x) simp_all

abbreviation keeps :: "(bool \<Rightarrow> 'j \<Rightarrow> bool) \<Rightarrow> ('e, 'j) SessionRuntime \<Rightarrow> bool" where
  "keeps P rt \<equiv> present (P (rt_journal_failed rt)) (rt_journal rt)"

lemma keeps_event:
  assumes "journal_closed J P" and "keeps P rt"
  shows "keeps P (journal_event J (jo_record J k p) rt)"
proof (cases "rt_journal rt")
  case (Some j)
  obtain res j' where r: "jo_record J k p j = (res, j')" by (rule prod.exhaust)
  from Some assms have "P (rt_journal_failed rt \<or> isl (fst (jo_record J k p j)) \<and> \<not> jo_is_degraded J j)
      (snd (jo_record J k p j))" unfolding journal_closed_def by simp
  with Some r show ?thesis by (simp add: journal_event_def isl_def)
qed (use assms(2) in simp)

lemma closed_record:
  "journal_closed J P \<Longrightarrow> P f j \<Longrightarrow>
     P (f \<or> isl (fst (jo_record J k p j)) \<and> \<not> jo_is_degraded J j) (snd (jo_record J k p j))"
  unfolding journal_closed_def by blast

lemma keeps_output: "journal_closed J P \<Longrightarrow> keeps P rt \<Longrightarrow> keeps P (journal_output J d rt)"
  by (simp add: journal_output_def keeps_event)

lemma keeps_resize: "journal_closed J P \<Longrightarrow> keeps P rt \<Longrightarrow> keeps P (journal_resize J r c rt)"
  by (simp add: journal_resize_def keeps_event)

lemma keeps_lifecycle: "journal_closed J P \<Longrightarrow> keeps P rt \<Longrightarrow> keeps P (journal_lifecycle J c x d rt)"
  by (simp add: journal_lifecycle_def keeps_event)

lemma keeps_modes:
  assumes "journal_closed J P" and "keeps P rt"
  shows "keeps P (journal_modes_if_changed J rt)"
proof -
  have "journal_policy J (ascii ''modes'') (modes_text m) rt
      = journal_event J (jo_record J Policy (policy_payload (ascii ''modes'') (modes_text m))) rt" for m
    by (simp add: journal_policy_def modes_key_plain modes_text_plain)
  with assms show ?thesis by (simp add: journal_modes_if_changed_def Let_def keeps_event)
qed

lemma keeps_checkpoint: "journal_closed J P \<Longrightarrow> keeps P rt \<Longrightarrow> keeps P (journal_checkpoint E J b rt)"
  by (cases "rt_journal rt") (simp_all add: journal_checkpoint_def keeps_event)

lemma keeps_terminal: "journal_closed J P \<Longrightarrow> keeps P rt \<Longrightarrow> keeps P (journal_terminal_end J c x d rt)"
  using keeps_lifecycle [of J P rt c x d]
  by (cases "rt_journal (journal_lifecycle J c x d rt)") (simp_all add: journal_terminal_end_def Let_def journal_closed_def)

lemma keeps_locked:
  assumes "journal_closed J P" and "keeps P rt"
  shows "keeps P (snd (reader_locked E J now data out changed idle rt))"
proof -
  let ?rt1 = "journal_output J data rt"
  obtain resp rt2 where f: "feed_engine E data ?rt1 = (resp, rt2)" by (rule prod.exhaust)
  let ?rt3 = "case changed of Some sig \<Rightarrow> snd (publish_terminal_signals sig rt2) | None \<Rightarrow> rt2"
  let ?rt4 = "push_output now (out_filtered out) (meaningful_bytes out) ?rt3"
  have "facts_view ?rt3 = facts_view ?rt1"
    using view_feed_engine(1) [of E data ?rt1] view_publish(1) [of _ rt2] f by (simp split: option.splits)
  then have "facts_view ?rt4 = facts_view ?rt1" by (simp add: view_push_output)
  with keeps_output [OF assms, of data] have "keeps P ?rt4" by (simp add: facts_view_def)
  note k5 = keeps_modes [OF assms(1) this]
  define rt6 where "rt6 = journal_checkpoint_if_due E J idle (journal_modes_if_changed J ?rt4)"
  from k5 keeps_checkpoint [OF assms(1) k5, of E idle] have "keeps P rt6"
    unfolding rt6_def journal_checkpoint_if_due_def by (simp split: if_split)
  then show ?thesis
    unfolding reader_locked_def Let_def f prod.case rt6_def [symmetric] by (cases "rt_journal_failed rt6") simp_all
qed

lemma keeps_chunk:
  assumes "journal_closed J P" and "keeps P (se_runtime s)"
  shows "keeps P (se_runtime (reader_chunk b64 bare E J now data s))"
proof -
  obtain sc1 out where scan: "pty_scan b64 bare now (se_scanner s) data = (sc1, out)" by (rule prod.exhaust)
  obtain changed sc where sig: "take_changed_signals sc1 = (changed, sc)" by (rule prod.exhaust)
  obtain res rt' where lock: "reader_locked E J now data out changed (is_idle sc) (se_runtime s) = (res, rt')"
    by (rule prod.exhaust)
  show ?thesis
    using keeps_locked [OF assms, of E now data out changed "is_idle sc"] lock
    by (simp add: reader_chunk_def scan sig Let_def split: prod.splits)
qed

lemma keeps_close:
  assumes "journal_closed J P" and "keeps P rt"
  shows "keeps P (close_output_stream_at_boundary E J now detail idle rt)"
proof -
  let ?rt1 = "rt\<lparr>rt_output_closed := True, rt_terminal_signals := (rt_terminal_signals rt)
    \<lparr>ts_program_statuses := snd (drop_transient now (ts_program_statuses (rt_terminal_signals rt)))\<rparr>\<rparr>"
  have "keeps P ?rt1" using assms(2) by simp
  note k = keeps_checkpoint [OF assms(1) keeps_lifecycle [OF assms(1) this]]
  have "keeps P ((journal_checkpoint E J idle (journal_lifecycle J OutputClosed None detail ?rt1))
      \<lparr>rt_pending_journal_completion := None\<rparr>)" using k by simp
  from k keeps_terminal [OF assms(1) this] assms(2)
  show ?thesis by (simp add: close_output_stream_at_boundary_def Let_def split: option.splits)
qed

lemma keeps_completed:
  fixes rt :: "('e, 'j) SessionRuntime"
  assumes "journal_closed J P" and "keeps P rt"
  shows "keeps P (mark_completed J now status x rt)"
proof -
  have queued: "keeps P (queue_journal_completion J c y d rt')" if "keeps P rt'" for c y d and rt' :: "('e, 'j) SessionRuntime"
    using keeps_terminal [OF assms(1) that] that by (simp add: queue_journal_completion_def)
  show ?thesis using assms(2) by (cases x) (simp_all add: mark_completed_def Let_def teardown_pty_def queued split: option.splits)
qed

lemma keeps_resized:
  assumes "journal_closed J P" and "keeps P rt"
  shows "keeps P (snd (resize_pty E J os_ok rows cols rt))"
  using assms(2) by (simp add: resize_pty_def Let_def keeps_resize [OF assms(1)])

lemma keeps_refresh:
  assumes "journal_closed J P" and "keeps P rt"
  shows "keeps P (snd (refresh_status J now wait rt))"
proof -
  have "keeps P (rt\<lparr>rt_journal := map_option (jo_poll_acks J) (rt_journal rt)\<rparr>)"
    using assms by (cases "rt_journal rt") (simp_all add: journal_closed_def)
  with keeps_completed [OF assms(1) this] show ?thesis
    by (cases wait) (simp_all add: refresh_status_def Let_def)
qed

lemma keeps_attach:
  assumes "journal_closed J P" and "keeps P rt"
  shows "keeps P (snd (register_attachment E J now os_ok kind role viewport rt))"
proof -
  obtain i granted g where reg: "register now kind role viewport (rt_attachments rt) = ((i, granted), g)"
    by (metis prod.collapse)
  have "keeps P (rt\<lparr>rt_last_attach_activity_at := Some now, rt_attachments := g\<rparr>)" using assms(2) by simp
  from keeps_resized [OF assms(1) this] this show ?thesis
    by (simp add: register_attachment_def reg Let_def split: option.splits prod.splits) (metis snd_conv)
qed

lemma keeps_step:
  assumes "session_step b64 bare E J s s'" and c: "journal_closed J P" and k: "keeps P (se_runtime s)"
  shows "keeps P (se_runtime s')"
  using assms(1)
proof cases
  case (chunk data now)
  then show ?thesis using keeps_chunk [OF c k] by simp
next
  case (close now)
  then show ?thesis using keeps_close [OF c k] k by (simp add: reader_close_def split: reader_phase.splits)
next
  case poll
  with c k show ?thesis by (cases "rt_journal (se_runtime s)") (simp_all add: journal_closed_def)
next
  case sync
  with c k show ?thesis by (cases "rt_journal (se_runtime s)") (simp_all add: journal_closed_def)
next
  case (bookkeeping rt')
  with k show ?thesis by (simp add: facts_view_def)
qed (use k in \<open>simp_all add: keeps_resized [OF c] keeps_attach [OF c] keeps_refresh [OF c] keeps_completed [OF c]
      unregister_attachment_def mark_attach_activity_def set_notifications_enabled_def\<close>)

lemma keeps_run:
  assumes "session_run b64 bare E J s s'" and "journal_closed J P" and "keeps P (se_runtime s)"
  shows "keeps P (se_runtime s')"
  using assms by (induction rule: session_run.induct) (auto intro: keeps_step)

section \<open>The journal's side of a session\<close>

text \<open>A session over a fresh incarnation \<open>i\<close> with any script, and every state its runs reach.\<close>

definition live_session ::
  "'h hasher \<Rightarrow> (io_error \<Rightarrow> string) \<Rightarrow> nat \<Rightarrow> SessionMeta \<Rightarrow> nat \<Rightarrow> nat \<Rightarrow> nat \<Rightarrow> nat \<Rightarrow> bool \<Rightarrow> 'e
     \<Rightarrow> bytes \<Rightarrow> 'h live_journal \<Rightarrow> ('e, 'h live_journal) session" where
  "live_session H io_text si meta now rows cols scrollback notif engine pid j =
     session_new (runtime_new (live_ops H io_text si) meta now rows cols scrollback notif engine pid j)"

lemma appender_act_reachable:
  "reachable H t si i mx s \<Longrightarrow> reachable H t si i mx (appender_act H si m s)"
  by (cases m) (auto simp del: appender_step.simps
      intro: reachable.step sys_step.receive sys_step.process sys_step.timeout split: option.splits)

lemma appender_acts_reachable:
  "reachable H t si i mx s \<Longrightarrow> reachable H t si i mx (appender_acts H si ms s)"
  unfolding appender_acts_def by (induction ms arbitrary: s) (simp_all add: appender_act_reachable)

lemma attempts_reachable:
  "reachable H t si i mx s \<Longrightarrow> reachable H t si i mx (submit_attempts H si waits s)"
  by (induction waits arbitrary: s)
    (auto simp: Let_def intro: appender_acts_reachable reachable.step [OF _ sys_step.attempt]
      reachable.step [OF _ sys_step.give_up])

lemma live_system_reachable:
  assumes "crc_hasher H" and "reachable H t si i mx s" and "sy_pending s = None"
    and "Suc (length (sy_published s)) < 2 ^ 64"
  shows "reachable H t si i mx (live_system H t si tn kind payload s)"
proof -
  let ?s1 = "appender_acts H si (tn_before tn) s"
  have r1: "reachable H t si i mx ?s1" by (rule appender_acts_reachable [OF assms(2)])
  from crc_hasher.reachable_inv [OF assms(1) r1] obtain base where "sys_inv H i base ?s1" by blast
  then have "next_seq (sys_core ?s1) = Suc (length (sy_published s))"
    using sys_invD(1) by (fastforce simp: publish_ok_def)
  with assms(3,4) have "sys_step H t si ?s1 (sys_record t (tn_elapsed tn mod 2 ^ 64) kind payload ?s1)"
    by (intro sys_step.rec) simp_all
  from reachable.step [OF r1 this] show ?thesis
    unfolding live_system_def by (rule attempts_reachable)
qed

text \<open>As long as fewer than \<open>2 ^ 64 - 1\<close> events have been published, the system behind the session is
  one the interleaved threads can reach.\<close>

definition journal_reached ::
  "'h hasher \<Rightarrow> (io_error \<Rightarrow> string) \<Rightarrow> nat \<Rightarrow> nat \<Rightarrow> nat \<Rightarrow> bool \<Rightarrow> 'h live_journal \<Rightarrow> bool" where
  "journal_reached H t si i mx failed j \<longleftrightarrow>
     sy_pending (lv_system j) = None
     \<and> (Suc (length (sy_published (lv_system j))) < 2 ^ 64 \<longrightarrow> reachable H t si i mx (lv_system j))"

lemma journal_reached_closed:
  assumes "crc_hasher H"
  shows "journal_closed (live_ops H t si) (journal_reached H t si i mx)"
  unfolding journal_closed_def
proof (intro conjI allI impI)
  fix kind payload failed and j :: "'a live_journal"
  assume j: "journal_reached H t si i mx failed j"
  let ?s' = "live_system H t si (next_turn (lv_turns j)) kind payload (lv_system j)"
  have "length (sy_published (lv_system j)) \<le> length (sy_published ?s')"
    using live_system_view [of t H si "next_turn (lv_turns j)" "lv_system j" kind payload] by fastforce
  then have "reachable H t si i mx ?s'" if "Suc (length (sy_published ?s')) < 2 ^ 64"
    using that j live_system_reachable [OF assms] by (simp add: journal_reached_def)
  then have "journal_reached H t si i mx f \<lparr>lv_system = ?s', lv_turns = tl (lv_turns j)\<rparr>" for f
    by (simp add: journal_reached_def live_system_def attempts_view(3))
  then show "journal_reached H t si i mx
      (failed \<or> isl (fst (jo_record (live_ops H t si) kind payload j)) \<and> \<not> jo_is_degraded (live_ops H t si) j)
      (snd (jo_record (live_ops H t si) kind payload j))"
    by (simp add: live_record_def Let_def)
next
  fix failed and j :: "'a live_journal"
  assume j: "journal_reached H t si i mx failed j"
  show "journal_reached H t si i mx failed (jo_poll_acks (live_ops H t si) j)"
    using j by (auto simp: journal_reached_def live_poll_def met_def Let_def
        intro: reachable.step [OF _ sys_step.poll] appender_acts_reachable)
  show "journal_reached H t si i mx failed (jo_request_sync (live_ops H t si) j)"
    using j by (auto simp: journal_reached_def live_sync_def intro: reachable.step [OF _ sys_step.sync])
qed

text \<open>Everything about a session that its runs keep, in one place.\<close>

lemma live_runs:
  assumes "session_run b64 bare E (live_ops H t si)
      (live_session H t si meta now rows cols scrollback notif engine pid (live_start H i mx d turns)) s"
    and "sm_ended_at meta = None"
    and "0 < rows" and "rows < 2 ^ 16" and "0 < cols" and "cols < 2 ^ 16"
  shows "session_inv bare (live_ops H t si) live_log s"
proof (rule live.inv_run [OF assms(1)])
  have "live_log (live_start H i mx d turns) = []"
    by (simp add: live_log_def live_start_def system_start_def)
  from live.inv_spawn [OF this assms(2-6)]
  show "session_inv bare (live_ops H t si) live_log
      (live_session H t si meta now rows cols scrollback notif engine pid (live_start H i mx d turns))"
    by (simp add: live_session_def)
qed

lemma journal_reached_flag: "journal_reached H t si i mx f j \<Longrightarrow> journal_reached H t si i mx f' j"
  by (simp add: journal_reached_def)

lemma live_reaches:
  assumes "crc_hasher H" and "fresh_journal i d" and "session_run b64 bare E (live_ops H t si)
      (live_session H t si meta now rows cols scrollback notif engine pid (live_start H i mx d turns)) s"
  shows "keeps (journal_reached H t si i mx) (se_runtime s)"
proof (rule keeps_run [OF assms(3) journal_reached_closed [OF assms(1)]])
  note c = journal_reached_closed [OF assms(1), of t si i mx]
  have "journal_reached H t si i mx False (live_start H i mx d turns)"
    using assms(2) by (simp add: journal_reached_def live_start_def reachable.start) (simp add: system_start_def)
  then have "journal_reached H t si i mx False (spawn_journal (live_ops H t si) rows cols pid (live_start H i mx d turns))"
    using closed_record [OF c] unfolding spawn_journal_def by (meson journal_reached_flag)
  then show "keeps (journal_reached H t si i mx)
      (se_runtime (live_session H t si meta now rows cols scrollback notif engine pid (live_start H i mx d turns)))"
    by (simp add: live_session_def session_new_def runtime_new_def)
qed

section \<open>Properties\<close>


text \<open>C25. Over every interleaving, the facts of a session are journalled in order: no output after the
  end of the output stream, which is recorded at most once, and at most one completion, after it,
  however often and by whomever the session is completed.\<close>

theorem session_facts_ordered:
  assumes "session_run b64 bare E (live_ops H t si)
      (live_session H t si meta now rows cols scrollback notif engine pid (live_start H i mx d turns)) s"
    and "sm_ended_at meta = None"
    and "0 < rows" and "rows < 2 ^ 16" and "0 < cols" and "cols < 2 ^ 16"
  shows "\<exists>j. rt_journal (se_runtime s) = Some j \<and> ordered False False (live_log j)"
  using live_runs [OF assms] unfolding session_inv_def order_inv_def by blast

text \<open>A journal that has degraded without the flag.\<close>

definition silent :: "'h live_journal \<Rightarrow> bool \<Rightarrow> 'h live_journal \<Rightarrow> bool" where
  "silent j0 failed j \<longleftrightarrow> \<not> failed \<and> is_degraded (sys_core (lv_system j)) \<and> live_log j = live_log j0"

lemma silent_closed: "journal_closed (live_ops H t si) (silent j0)"
proof -
  have rec_silent: "silent j0 (f \<or> isl (fst (live_record H t si k p j)) \<and> \<not> is_degraded (sys_core (lv_system j)))
      (snd (live_record H t si k p j))" if "silent j0 f j" for f k p and j :: "'a live_journal"
  proof -
    obtain res j' where r: "live_record H t si k p j = (res, j')" by (rule prod.exhaust)
    from that live_record_laws [OF r] show ?thesis by (cases res) (auto simp: r silent_def)
  qed
  show ?thesis
    unfolding journal_closed_def
    by (auto simp: rec_silent)
      (auto simp: silent_def live_poll_def met_def Let_def live_sync_def live_log_def polled_degraded)
qed

lemma failed_acks_degrade:
  "AckFailed reason \<in> set acks \<Longrightarrow> is_degraded (foldl (apply_ack t) c acks)"
proof (induction acks arbitrary: c)
  case (Cons k acks)
  then show ?case by (cases "k = AckFailed reason") (auto simp: apply_acks_degraded)
qed simp

text \<open>C26. A journal failure that \<open>refresh_status\<close> is the first to see goes unnoticed. When the appender's
  failure is among the acknowledgements that call drains, the journal is degraded but the fail-loud
  flag is not set; and from then on, whatever happens, the flag is never set and nothing is recorded:
  the session runs on, broadcasting output no journal holds.\<close>

theorem refresh_swallows_journal_failure:
  assumes "rt_journal (se_runtime s) = Some j" and "\<not> rt_journal_failed (se_runtime s)"
    and "AckFailed reason \<in> set (sj_acks (sy_journal (met H si j)))"
    and "\<not> is_completed (se_runtime s)"
    and "session_run b64 bare E (live_ops H t si)
      (on_runtime (\<lambda>rt. snd (refresh_status (live_ops H t si) now StillRunning rt)) s) s'"
  shows "\<exists>j'. rt_journal (se_runtime s') = Some j' \<and> \<not> rt_journal_failed (se_runtime s')
     \<and> is_degraded (sys_core (lv_system j')) \<and> live_log j' = live_log j"
proof -
  let ?s1 = "on_runtime (\<lambda>rt. snd (refresh_status (live_ops H t si) now StillRunning rt)) s"
  have "is_degraded (polled t (met H si j))"
    using failed_acks_degrade [OF assms(3)] by (simp add: poll_acks_def)
  then have "keeps (silent j) (se_runtime ?s1)"
    using assms(1,2,4) by (simp add: refresh_status_def Let_def silent_def live_poll_def met_def live_log_def is_completed_def)
  from keeps_run [OF assms(5) silent_closed this] have "keeps (silent j) (se_runtime s')" .
  then show ?thesis by (auto simp: silent_def present_iff)
qed

subsection \<open>A concrete session\<close>

text \<open>An engine that answers nothing, a session over the sample disk, and a run: two bytes of output,
  the end of the output, and the exit of the program.\<close>

definition plain_engine :: "unit engine_ops" where
  "plain_engine =
     \<lparr>en_feed = (\<lambda>_ e. ([], e)),
      en_modes = (\<lambda>_. \<lparr>em_alt_screen = False, em_app_cursor_keys = False, em_bracketed_paste = False,
                        em_mouse_report = False, em_sgr_mouse = False, em_focus_events = False\<rparr>),
      en_size = (\<lambda>_. (24, 80)), en_cursor_position = (\<lambda>_. (1, 1)), en_resize = (\<lambda>_ _ e. e),
      en_styled_history_rows = (\<lambda>_ _. []), en_snapshot_stream = (\<lambda>_. [])\<rparr>"

definition plain_meta :: SessionMeta where
  "plain_meta =
     \<lparr>sm_id = ascii ''abc1234'', sm_title = None, sm_tags = [], sm_command = ascii ''sh'', sm_args = [],
      sm_cwd = None, sm_created_at = 0, sm_started_at = Some 0, sm_ended_at = None,
      sm_resume_command = None, sm_status = StRunning, sm_pid = None, sm_exit_code = None,
      sm_notifications_enabled = True, sm_foreground_color = None, sm_background_color = None\<rparr>"

abbreviation plain_ops :: "u32 live_journal journal_ops" where
  "plain_ops \<equiv> live_ops table_hasher (\<lambda>_. []) 50"

text \<open>The disk refuses its first write, and the appender thread tries it only when the session next
  looks at its journal after four records.\<close>

definition plain_disk :: disk where
  "plain_disk = sample_disk\<lparr>jd_faults := [Some 0]\<rparr>"

definition plain_script :: "journal_turn list" where
  "plain_script = [\<lparr>tn_elapsed = 0, tn_before = [TakeNext, ProcessTaken 7], tn_waits = []\<rparr>]"

definition plain_start :: "(unit, u32 live_journal) session" where
  "plain_start = live_session table_hasher (\<lambda>_. []) 50 plain_meta 0 24 80 100 True () [55]
     (live_start table_hasher 1 1000 plain_disk (replicate 4 idle_turn @ plain_script))"

definition plain_spoken :: "(unit, u32 live_journal) session" where
  "plain_spoken = reader_chunk no_base64 False plain_engine plain_ops 1 [104, 105] plain_start"

lemma plain_run: "session_run no_base64 False plain_engine plain_ops plain_start plain_spoken"
  unfolding plain_spoken_def
  by (rule session_run.further [OF session_run.here session_step.chunk])
    (simp_all add: plain_start_def live_session_def session_new_def)

lemma plain_scan:
  "pty_scan no_base64 False 1 PtyScanner_new [104, 105]
     = (PtyScanner_new, \<lparr>out_filtered = [104, 105], out_queries = [], out_responses = [], out_signal_bytes = 0\<rparr>)"
  by code_simp

text \<open>A journal whose queue has room, with the rest of its script.\<close>

definition roomy :: "journal_turn list \<Rightarrow> nat \<Rightarrow> nat \<Rightarrow> u32 live_journal \<Rightarrow> bool" where
  "roomy turns n b j \<longleftrightarrow>
     (let s = lv_system j; q = sj_appender (sy_journal s) in
      lv_turns j = turns \<and> sy_pending s = None \<and> sj_acks (sy_journal s) = []
      \<and> core_inv (sys_core s) \<and> \<not> is_degraded (sys_core s)
      \<and> q_alive q \<and> q_capacity q = 256 \<and> q_budget q = 33554432 \<and> length (q_msgs q) = n \<and> q_bytes q \<le> b
      \<and> q_taken q = None \<and> list_all (\<lambda>m. \<exists>e. m = MsgRecord e) (q_msgs q)
      \<and> sy_appender s = start_appender table_hasher 1 1000 \<and> sy_disk s = plain_disk)"

lemma roomy_record:
  assumes "roomy (idle_turn # turns) n b j" and "m = Suc n" and "m \<le> 256" and "b + length payload \<le> b'" and "b' \<le> 33554432"
  shows "\<exists>c j'. live_record H t si kind payload j = (Inr c, j') \<and> roomy turns m b' j'
     \<and> length (sy_published (lv_system j')) = Suc (length (sy_published (lv_system j)))"
proof -
  let ?s = "lv_system j" let ?c = "sys_core ?s" let ?q = "sj_appender (sy_journal ?s)"
  obtain e c' where pub: "publish ?c 0 kind payload = (e, c')" by (rule prod.exhaust)
  have inv: "core_inv ?c" "\<not> is_degraded ?c" using assms(1) by (simp_all add: roomy_def Let_def)
  note e = publish_cursors [OF pub inv(1)] publish_inv [OF inv(1) pub]
  let ?s' = "?s\<lparr>sy_published := sy_published ?s @ [e],
    sy_journal := (sy_journal ?s)\<lparr>sj_core := c',
      sj_appender := ?q\<lparr>q_bytes := q_bytes ?q + length payload, q_msgs := q_msgs ?q @ [MsgRecord e]\<rparr>\<rparr>, sy_pending := None\<rparr>"
  have "poll_acks t (sy_journal ?s) = sy_journal ?s" using assms(1) by (simp add: poll_acks_def roomy_def Let_def)
  then have sys: "live_system H t si (next_turn (lv_turns j)) kind payload ?s = ?s'"
    and pol: "poll_acks t (sy_journal (appender_acts H si (tn_before (next_turn (lv_turns j))) ?s)) = sy_journal ?s"
    using assms pub e inv by (simp_all add: live_system_def next_turn_def idle_turn_def roomy_def appender_acts_def sys_record_def
        submit_reserve_def sys_attempt_def try_send_def sys_give_up_def Let_def)
  then show ?thesis using assms e inv by (simp add: live_record_def Let_def roomy_def)
qed

lemma plain_start_roomy:
  "\<exists>j. rt_journal (se_runtime plain_start) = Some j \<and> roomy (idle_turn # idle_turn # plain_script) 2 100 j \<and> length (sy_published (lv_system j)) = 2"
proof -
  let ?r = "encode_resize_payload 24 80"
  let ?l = "encode_lifecycle_payload Started None (ascii ''session started pid='' @ [55])"
  have len: "length ?r = 4" "length ?l \<le> 40"
    by (simp_all add: encode_resize_payload_def encode_lifecycle_payload_def ascii_def i32_to_le_def)
  define j0 where "j0 = live_start table_hasher 1 1000 plain_disk (replicate 4 idle_turn @ plain_script)"
  have "roomy (replicate 4 idle_turn @ plain_script) 0 0 j0" and pub: "sy_published (lv_system j0) = []"
    using core_inv_new
    by (simp_all add: j0_def roomy_def live_start_def system_start_def ShadowJournal_new_def SequencerCore_new_def
        SequencerCore_with_budget_def is_degraded_def JournalAppender_new_def DEFAULT_QUEUE_CAPACITY_def
        DEFAULT_QUEUE_BUDGET_BYTES_def Let_def)
  then have "roomy (idle_turn # idle_turn # idle_turn # idle_turn # plain_script) 0 0 j0" by (simp add: numeral_eq_Suc)
  from roomy_record [OF this(1), of 1 ?r 10 table_hasher "\<lambda>_. []" 50 Resize] len obtain c j1 where
    1: "live_record table_hasher (\<lambda>_. []) 50 Resize ?r j0 = (Inr c, j1)" "roomy (idle_turn # idle_turn # idle_turn # plain_script) 1 10 j1"
      "length (sy_published (lv_system j1)) = 1" by (auto simp: pub)
  from roomy_record [OF this(2), of 2 ?l 100 table_hasher "\<lambda>_. []" 50 Lifecycle] len obtain c' j2 where
    2: "live_record table_hasher (\<lambda>_. []) 50 Lifecycle ?l j1 = (Inr c', j2)" "roomy (idle_turn # idle_turn # plain_script) 2 100 j2"
      "length (sy_published (lv_system j2)) = 2" by (auto simp: 1(3))
  have "rt_journal (se_runtime plain_start) = Some j2"
    unfolding plain_start_def j0_def [symmetric]
    by (simp add: live_session_def session_new_def runtime_new_def spawn_journal_def 1(1) 2(1))
  with 2(2,3) show ?thesis by blast
qed

lemma plain_spoken_state:
  "\<exists>j. rt_journal (se_runtime plain_spoken) = Some j \<and> roomy plain_script 4 400 j \<and> length (sy_published (lv_system j)) = 4
     \<and> \<not> rt_journal_failed (se_runtime plain_spoken) \<and> rt_filtered_total_bytes (se_runtime plain_spoken) = 2
     \<and> se_broadcast plain_spoken = [\<lparr>sq_offset = 0, sq_bytes = [104, 105]\<rparr>]
     \<and> pt_pending (se_scanner plain_spoken) = [] \<and> se_reader plain_spoken = Reading \<and> sm_status (rt_meta (se_runtime plain_spoken)) = StRunning"
proof -
  from plain_start_roomy obtain j where j: "rt_journal (se_runtime plain_start) = Some j" "roomy (idle_turn # idle_turn # plain_script) 2 100 j"
    "length (sy_published (lv_system j)) = 2" by blast
  let ?rec = "live_record table_hasher (\<lambda>_. []) 50"
  let ?m = "policy_payload (ascii ''modes'') (modes_text (SharedModes_load 0))"
  have len: "length ?m \<le> 200"
    by (simp add: policy_payload_def modes_text_def bit_text_def ascii_def)
  from roomy_record [OF j(2), of 3 "[104, 105]" 200 table_hasher "\<lambda>_. []" 50 Output] obtain c j1 where
    1: "?rec Output [104, 105] j = (Inr c, j1)" "roomy (idle_turn # plain_script) 3 200 j1" "length (sy_published (lv_system j1)) = 3"
    by (auto simp: j(3))
  from roomy_record [OF 1(2), of 4 ?m 400 table_hasher "\<lambda>_. []" 50 Policy] len obtain c' j2 where
    2: "?rec Policy ?m j1 = (Inr c', j2)" "roomy plain_script 4 400 j2" "length (sy_published (lv_system j2)) = 4" by (auto simp: 1(3))
  have fields: "se_scanner plain_start = PtyScanner_new" "se_broadcast plain_start = []" "se_reader plain_start = Reading"
    "rt_filtered_total_bytes (se_runtime plain_start) = 0" "rt_journal_failed (se_runtime plain_start) = False"
    "rt_journaled_modes (se_runtime plain_start) = None" "sm_status (rt_meta (se_runtime plain_start)) = StRunning"
    "rt_last_journal_checkpoint_at (se_runtime plain_start) = 0"
    by (simp_all add: plain_start_def live_session_def session_new_def runtime_new_def plain_meta_def)
  have quiet: "take_changed_signals PtyScanner_new = (None, PtyScanner_new)"
    by (simp add: take_changed_signals_def PtyScanner_new_def)
  have modes: "mode_snapshot plain_engine rt = SharedModes_load 0" for rt :: "(unit, u32 live_journal) SessionRuntime"
    by (simp add: mode_snapshot_def plain_engine_def SharedModes_load_def)
  have feed: "feed_engine plain_engine d rt = ([], rt\<lparr>rt_shared_modes := SharedModes_store (SharedModes_load 0)\<rparr>)"
    for d and rt :: "(unit, u32 live_journal) SessionRuntime"
    by (simp add: feed_engine_def Let_def modes) (simp add: plain_engine_def)
  have policy: "journal_policy plain_ops (ascii ''modes'') (modes_text m) rt
      = journal_event plain_ops (?rec Policy (policy_payload (ascii ''modes'') (modes_text m))) rt"
    for m and rt :: "(unit, u32 live_journal) SessionRuntime"
    by (simp add: journal_policy_def modes_key_plain modes_text_plain)
  show ?thesis
    unfolding plain_spoken_def reader_chunk_def fields plain_scan prod.case Let_def quiet reader_locked_def feed
    using j(1) 1(1) 2
    by (simp add: fields journal_output_def journal_event_def push_output_def Let_def meaningful_bytes_def
        journal_modes_if_changed_def policy journal_checkpoint_if_due_def JOURNAL_CHECKPOINT_INTERVAL_BYTES_def
        u64_saturating_add_def u64_max_def PtyScanner_new_def)
qed


theorem session_facts_ordered_witness:
  "\<exists>j. rt_journal (se_runtime plain_spoken) = Some j \<and> ordered False False (live_log j)"
proof -
  have "sm_ended_at plain_meta = None" by (simp add: plain_meta_def)
  from session_facts_ordered [OF plain_run [unfolded plain_start_def] this] show ?thesis by simp
qed

text \<open>The appender's first write fails.\<close>

lemma plain_failure:
  assumes "roomy plain_script 4 b j"
  shows "\<exists>reason. AckFailed reason \<in> set (sj_acks (sy_journal (met table_hasher 50 j)))"
proof -
  let ?s = "lv_system j" let ?q = "sj_appender (sy_journal ?s)"
  have r: "lv_turns j = plain_script" "q_alive ?q" "q_taken ?q = None" "sj_acks (sy_journal ?s) = []"
    "sy_appender ?s = start_appender table_hasher 1 1000" "sy_disk ?s = plain_disk"
    using assms by (simp_all add: roomy_def Let_def)
  obtain e ms where q: "q_msgs ?q = MsgRecord e # ms"
    using assms by (cases "q_msgs ?q") (auto simp: roomy_def Let_def)
  show ?thesis
    using r q
    by (auto simp: met_def next_turn_def plain_script_def appender_acts_def sys_process_def sys_deliver_def sys_queue_def
        queue_take_def appender_eval plain_disk_def sample_disk_def fail_def)
qed

theorem refresh_swallows_journal_failure_witness:
  "\<exists>j j'. rt_journal (se_runtime plain_spoken) = Some j
     \<and> rt_journal (se_runtime (reader_chunk no_base64 False plain_engine plain_ops 3 [33]
          (on_runtime (\<lambda>rt. snd (refresh_status plain_ops 2 StillRunning rt)) plain_spoken))) = Some j'
     \<and> is_degraded (sys_core (lv_system j')) \<and> live_log j' = live_log j"
proof -
  from plain_spoken_state obtain j where j: "rt_journal (se_runtime plain_spoken) = Some j" "roomy plain_script 4 400 j"
    "\<not> rt_journal_failed (se_runtime plain_spoken)" "sm_status (rt_meta (se_runtime plain_spoken)) = StRunning"
    by blast
  let ?s1 = "on_runtime (\<lambda>rt. snd (refresh_status plain_ops 2 StillRunning rt)) plain_spoken"
  have going: "\<not> is_completed (se_runtime plain_spoken)" using j(4) by (simp add: is_completed_def)
  have "se_reader plain_spoken = Reading" using plain_spoken_state by blast
  then have "session_run no_base64 False plain_engine plain_ops ?s1 (reader_chunk no_base64 False plain_engine plain_ops 3 [33] ?s1)"
    by (intro session_run.further [OF session_run.here session_step.chunk]) simp_all
  moreover obtain reason where "AckFailed reason \<in> set (sj_acks (sy_journal (met table_hasher 50 j)))"
    using plain_failure [OF j(2)] by blast
  ultimately show ?thesis
    using refresh_swallows_journal_failure [OF j(1,3) _ going, of reason] j(1) by blast
qed

end
