(* ===== verification/Attach_Pump.thy ===== *)
theory Attach_Pump
  imports Session_Runtime
begin

text \<open>
  The output stream of one attached client: \<open>AttachPump\<close> of \<open>src/session/store/pump.rs\<close>, which
  follows the session's broadcast, trims overlaps, fills gaps from the persisted stream, drains the
  tail at the end and waits for the client's credits; and the cursor with which the client checks
  the stream (\<open>src/client/cursor.rs\<close>).

  One iteration of the loop in \<open>next\<close> is a function of the pump and of an environment: what the
  store, the shared cells, the clock and the broadcast receiver answer in it. Broadcast chunks may be
  lost, delayed or repeated in any way; metrics and logging are left out.
\<close>

section \<open>State\<close>

definition MAX_COALESCED_CHUNK_BYTES :: nat where
  "MAX_COALESCED_CHUNK_BYTES = 512 * 1024"

definition RESYNC_WINDOW_BYTES :: nat where
  "RESYNC_WINDOW_BYTES = 8 * 1024 * 1024"

definition FLUSH_RETRY_MAX :: nat where
  "FLUSH_RETRY_MAX = 50"

text \<open>Times are milliseconds; the poll interval only paces the polls.\<close>

record CreditPolicy =
  cr_budget_bytes :: nat
  cr_stall_timeout :: nat

definition CreditPolicy_production :: CreditPolicy where
  "CreditPolicy_production = \<lparr>cr_budget_bytes = 4 * 1024 * 1024, cr_stall_timeout = 30000\<rparr>"

datatype PumpCredit = Uncredited | Credited nat

datatype AttachEvent =
    PumpChunk nat bytes
  | PumpModes ModeSnapshot
  | PumpDone "int option" nat
  | PumpClosed

record AttachInit =
  ai_data :: bytes
  ai_end_offset :: nat
  ai_running :: bool
  ai_modes :: ModeSnapshot
  ai_incarnation :: nat

text \<open>The receiver, the store and the cells are in the environment; \<open>pu_credit\<close> is the policy of a
  credited stream.\<close>

record AttachPump =
  pu_last_modes :: ModeSnapshot
  pu_current_offset :: nat
  pu_pending :: "AttachEvent list"
  pu_resync :: bool
  pu_resync_episode_open :: bool
  pu_held :: "SequencedChunk option"
  pu_completing :: "int option option"
  pu_flush_retries :: nat
  pu_credit :: "CreditPolicy option"

section \<open>Subscribing\<close>

text \<open>What the store answers: the current incarnation, a snapshot of the screen or a replay from an
  offset, each with the end of the stream and the modes, the stream's status, and whether an
  attachment is registered.\<close>

record store_answers =
  sa_incarnation :: "nat option"
  sa_snapshot :: "SessionError + bytes \<times> nat \<times> ModeSnapshot"
  sa_replay :: "nat \<Rightarrow> SessionError + bytes \<times> nat \<times> ModeSnapshot"
  sa_status :: "SessionError + bool \<times> bool \<times> int option"
  sa_registered :: "nat \<Rightarrow> bool"

definition subscribe_init ::
  "store_answers \<Rightarrow> nat option \<Rightarrow> SessionError + AttachInit" where
  "subscribe_init a from_offset =
     (case (case from_offset of None \<Rightarrow> sa_snapshot a | Some off \<Rightarrow> sa_replay a off) of
        Inl err \<Rightarrow> Inl err
      | Inr (data, end_offset, modes) \<Rightarrow>
          (case sa_status a of
             Inl err \<Rightarrow> Inl err
           | Inr (running, output_closed, _) \<Rightarrow>
               Inr \<lparr>ai_data = data, ai_end_offset = end_offset, ai_running = running \<or> \<not> output_closed,
                    ai_modes = modes,
                    ai_incarnation = (case sa_incarnation a of Some i \<Rightarrow> i | None \<Rightarrow> 0)\<rparr>))"

text \<open>The last component is the value stored in the attachment's credit cell.\<close>

definition subscribe_with_policy ::
  "store_answers \<Rightarrow> nat option \<Rightarrow> nat option \<Rightarrow> PumpCredit \<Rightarrow> CreditPolicy
     \<Rightarrow> SessionError + AttachPump \<times> AttachInit \<times> nat option" where
  "subscribe_with_policy a from_offset incarnation credit policy =
     (if from_offset \<noteq> None \<and> \<not> (incarnation \<noteq> None \<and> incarnation = sa_incarnation a)
      then Inl (StaleCursor incarnation (sa_incarnation a))
      else case subscribe_init a from_offset of
        Inl err \<Rightarrow> Inl err
      | Inr ini \<Rightarrow>
          (let pump = (\<lambda>c. \<lparr>pu_last_modes = ai_modes ini, pu_current_offset = ai_end_offset ini,
                            pu_pending = [], pu_resync = False, pu_resync_episode_open = False,
                            pu_held = None, pu_completing = None, pu_flush_retries = 0, pu_credit = c\<rparr>)
           in case credit of
                Uncredited \<Rightarrow> Inr (pump None, ini, None)
              | Credited i \<Rightarrow>
                  if sa_registered a i then Inr (pump (Some policy), ini, Some (ai_end_offset ini))
                  else Inl StaleAttachment))"

section \<open>The loop\<close>

datatype select_event =
    CompletionTick "SessionError + bool \<times> bool \<times> int option"
  | Broadcast SequencedChunk
  | RecvLagged
  | RecvClosed "int option"

datatype try_recv_result = TryChunk SequencedChunk | TryLagged

text \<open>The environment of an iteration: the client's applied cursor now and at each later poll (with
  the time since the wait began), the persisted window from an offset, the stream's length, the
  modes cell, what \<open>select!\<close> delivers, and what \<open>try_recv\<close> then finds buffered.\<close>

record pump_env =
  pe_applied :: nat
  pe_polls :: "(nat \<times> nat) list"
  pe_window :: "nat \<Rightarrow> nat \<Rightarrow> SessionError + bytes"
  pe_filtered_len :: "nat option"
  pe_modes :: "ModeSnapshot option"
  pe_select :: select_event
  pe_buffered :: "try_recv_result list"

datatype 'a waiting = Waited 'a | StillWaiting

fun credit_polls :: "CreditPolicy \<Rightarrow> nat \<Rightarrow> (nat \<times> nat) list \<Rightarrow> AttachEvent option waiting" where
  "credit_polls policy offset [] = StillWaiting"
| "credit_polls policy offset ((elapsed, applied) # polls) =
     (if offset - applied \<le> cr_budget_bytes policy then Waited None
      else if cr_stall_timeout policy \<le> elapsed then Waited (Some PumpClosed)
      else credit_polls policy offset polls)"

definition await_credit :: "pump_env \<Rightarrow> AttachPump \<Rightarrow> AttachEvent option waiting" where
  "await_credit env p =
     (case pu_credit p of
        None \<Rightarrow> Waited None
      | Some policy \<Rightarrow>
          if pu_current_offset p - pe_applied env \<le> cr_budget_bytes policy then Waited None
          else credit_polls policy (pu_current_offset p) (pe_polls env))"

definition begin_resync :: "AttachPump \<Rightarrow> AttachPump" where
  "begin_resync p = p\<lparr>pu_resync_episode_open := True, pu_resync := True\<rparr>"

definition observe_modes :: "pump_env \<Rightarrow> AttachPump \<Rightarrow> AttachPump" where
  "observe_modes env p =
     (case pe_modes env of
        Some modes \<Rightarrow>
          if modes \<noteq> pu_last_modes p
          then p\<lparr>pu_last_modes := modes, pu_pending := pu_pending p @ [PumpModes modes]\<rparr> else p
      | None \<Rightarrow> p)"

text \<open>The loop that coalesces buffered chunks: the data, a chunk that starts past it, and whether a
  resync begins.\<close>

fun coalesce :: "nat \<Rightarrow> try_recv_result list \<Rightarrow> bytes \<Rightarrow> bytes \<times> SequencedChunk option \<times> bool" where
  "coalesce offset [] data = (data, None, False)"
| "coalesce offset (r # rs) data =
     (if MAX_COALESCED_CHUNK_BYTES \<le> length data then (data, None, False)
      else case r of
        TryLagged \<Rightarrow> (data, None, True)
      | TryChunk c \<Rightarrow>
          if offset + length data < sq_offset c then (data, Some c, True)
          else coalesce offset rs (data @ drop (offset + length data - sq_offset c) (sq_bytes c)))"

definition trim_chunk :: "nat \<Rightarrow> SequencedChunk \<Rightarrow> SequencedChunk" where
  "trim_chunk offset c =
     (if sq_offset c < offset then \<lparr>sq_offset = offset, sq_bytes = drop (offset - sq_offset c) (sq_bytes c)\<rparr> else c)"

text \<open>\<open>Forward::Skip\<close> is \<open>None\<close>.\<close>

definition forward_chunk ::
  "pump_env \<Rightarrow> SequencedChunk \<Rightarrow> AttachPump \<Rightarrow> (nat \<times> bytes) option \<times> AttachPump" where
  "forward_chunk env chunk p =
     (let current = pu_current_offset p; c = trim_chunk current chunk in
      if sq_offset chunk < current \<and> length (sq_bytes chunk) \<le> current - sq_offset chunk then (None, p)
      else if current < sq_offset c then (None, begin_resync (p\<lparr>pu_held := Some c\<rparr>))
      else
        let (data, ahead, gap) = coalesce current (pe_buffered env) (sq_bytes c);
            p1 = (case ahead of Some h \<Rightarrow> p\<lparr>pu_held := Some h\<rparr> | None \<Rightarrow> p);
            p2 = (if gap then begin_resync p1 else p1)
        in (Some (current, data), observe_modes env (p2\<lparr>pu_current_offset := current + length data\<rparr>)))"

definition resync_step :: "pump_env \<Rightarrow> AttachPump \<Rightarrow> AttachEvent option \<times> AttachPump" where
  "resync_step env p =
     (let from_offset = pu_current_offset p in
      case pe_window env from_offset RESYNC_WINDOW_BYTES of
        Inl err \<Rightarrow> (Some PumpClosed, p)
      | Inr data \<Rightarrow>
          if data \<noteq> [] then
            let more_follows = (length data = RESYNC_WINDOW_BYTES)
            in (Some (PumpChunk from_offset data),
                observe_modes env
                  (p\<lparr>pu_current_offset := from_offset + length data, pu_flush_retries := 0,
                     pu_resync := more_follows,
                     pu_resync_episode_open := more_follows \<and> pu_resync_episode_open p\<rparr>))
          else
            let held_gap = (case pu_held p of Some c \<Rightarrow> pu_current_offset p < sq_offset c | None \<Rightarrow> False);
                completing_behind = (pu_completing p \<noteq> None
                  \<and> (case pe_filtered_len env of Some len \<Rightarrow> pu_current_offset p < len | None \<Rightarrow> False))
            in if held_gap \<or> completing_behind then
                 if pu_flush_retries p < FLUSH_RETRY_MAX
                 then (None, p\<lparr>pu_flush_retries := pu_flush_retries p + 1\<rparr>)
                 else (Some PumpClosed, p)
               else
                 let p1 = p\<lparr>pu_flush_retries := 0, pu_resync := False, pu_resync_episode_open := False\<rparr>
                 in case pu_completing p of
                      Some exit_code \<Rightarrow>
                        (Some (PumpDone exit_code (pu_current_offset p)), p1\<lparr>pu_completing := None\<rparr>)
                    | None \<Rightarrow> (None, p1))"

text \<open>The result of an iteration: an event is returned, the loop goes round, or it is still in the
  wait for credit.\<close>

datatype iteration = Yields AttachEvent | Again | Parked

definition forwarded :: "(nat \<times> bytes) option \<times> AttachPump \<Rightarrow> iteration \<times> AttachPump" where
  "forwarded r =
     (case r of
        (Some (offset, data), p) \<Rightarrow> (if data \<noteq> [] then Yields (PumpChunk offset data) else Again, p)
      | (None, p) \<Rightarrow> (Again, p))"

definition pump_select :: "pump_env \<Rightarrow> AttachPump \<Rightarrow> iteration \<times> AttachPump" where
  "pump_select env p =
     (case pe_select env of
        CompletionTick status \<Rightarrow>
          if pu_completing p \<noteq> None then (Again, p)
          else (case status of
                  Inl err \<Rightarrow> (Yields PumpClosed, p)
                | Inr (running, output_closed, exit_code) \<Rightarrow>
                    (Again, if \<not> running \<and> output_closed
                            then p\<lparr>pu_completing := Some exit_code, pu_resync := True\<rparr> else p))
      | Broadcast chunk \<Rightarrow> forwarded (forward_chunk env chunk p)
      | RecvLagged \<Rightarrow> (Again, begin_resync p)
      | RecvClosed exit_code \<Rightarrow> (Yields (PumpDone exit_code (pu_current_offset p)), p))"

definition pump_live :: "pump_env \<Rightarrow> AttachPump \<Rightarrow> iteration \<times> AttachPump" where
  "pump_live env p =
     (case pu_held p of
        Some chunk \<Rightarrow> forwarded (forward_chunk env chunk (p\<lparr>pu_held := None\<rparr>))
      | None \<Rightarrow> pump_select env p)"

definition pump_iteration :: "pump_env \<Rightarrow> AttachPump \<Rightarrow> iteration \<times> AttachPump" where
  "pump_iteration env p =
     (case await_credit env p of
        StillWaiting \<Rightarrow> (Parked, p)
      | Waited (Some closed) \<Rightarrow> (Yields closed, p)
      | Waited None \<Rightarrow>
          (case pu_pending p of
             event # rest \<Rightarrow> (Yields event, p\<lparr>pu_pending := rest\<rparr>)
           | [] \<Rightarrow>
               if pu_resync p then
                 (case resync_step env p of
                    (Some event, p1) \<Rightarrow> (Yields event, p1)
                  | (None, p1) \<Rightarrow> if pu_resync p1 then (Again, p1) else pump_live env p1)
               else pump_live env p))"

text \<open>The events of a sequence of iterations, over as many calls of \<open>next\<close> as they take.\<close>

fun pump_run :: "pump_env list \<Rightarrow> AttachPump \<Rightarrow> AttachEvent list \<times> AttachPump" where
  "pump_run [] p = ([], p)"
| "pump_run (env # envs) p =
     (case pump_iteration env p of
        (Yields event, p1) \<Rightarrow> (case pump_run envs p1 of (events, p2) \<Rightarrow> (event # events, p2))
      | (_, p1) \<Rightarrow> pump_run envs p1)"

section \<open>The client's cursor\<close>

record StreamCursor =
  cu_expected :: nat

definition StreamCursor_new :: "nat \<Rightarrow> StreamCursor" where
  "StreamCursor_new snapshot_end = \<lparr>cu_expected = snapshot_end\<rparr>"

datatype cursor_error =
    CursorMismatch nat nat   \<comment> \<open>expected, chunk offset\<close>
  | CursorShort nat nat      \<comment> \<open>final offset, applied\<close>

definition cursor_accept :: "StreamCursor \<Rightarrow> nat \<Rightarrow> nat \<Rightarrow> cursor_error + StreamCursor" where
  "cursor_accept c offset len =
     (if offset \<noteq> cu_expected c then Inl (CursorMismatch (cu_expected c) offset)
      else Inr (c\<lparr>cu_expected := u64_saturating_add offset len\<rparr>))"

definition cursor_finish :: "StreamCursor \<Rightarrow> nat \<Rightarrow> cursor_error + unit" where
  "cursor_finish c final_offset =
     (if final_offset \<noteq> 0 \<and> final_offset \<noteq> cu_expected c
      then Inl (CursorShort final_offset (cu_expected c)) else Inr ())"

text \<open>What a client does with the events of its stream.\<close>

fun client_run :: "StreamCursor \<Rightarrow> AttachEvent list \<Rightarrow> cursor_error + StreamCursor" where
  "client_run c [] = Inr c"
| "client_run c (PumpChunk offset data # es) =
     (case cursor_accept c offset (length data) of Inl err \<Rightarrow> Inl err | Inr c' \<Rightarrow> client_run c' es)"
| "client_run c (PumpDone exit_code final_offset # es) =
     (case cursor_finish c final_offset of Inl err \<Rightarrow> Inl err | Inr _ \<Rightarrow> client_run c es)"
| "client_run c (PumpModes m # es) = client_run c es"
| "client_run c (PumpClosed # es) = client_run c es"

section \<open>The stream a client gets\<close>

text \<open>\<open>data\<close> is what the stream \<open>S\<close> holds at an offset.\<close>

definition at_pos :: "bytes \<Rightarrow> nat \<Rightarrow> bytes \<Rightarrow> bool" where
  "at_pos S off data \<longleftrightarrow> off + length data \<le> length S \<and> take (length data) (drop off S) = data"

lemma at_pos_nil [simp]: "at_pos S off [] \<longleftrightarrow> off \<le> length S"
  by (simp add: at_pos_def)

lemma at_pos_append: "at_pos S off (a @ b) \<longleftrightarrow> at_pos S off a \<and> at_pos S (off + length a) b"
proof (cases "off + length a + length b \<le> length S")
  case True
  have "take (length a + length b) (drop off S)
      = take (length a) (drop off S) @ take (length b) (drop (off + length a) S)"
    by (simp add: take_add add.commute)
  with True show ?thesis by (auto simp: at_pos_def)
qed (auto simp: at_pos_def)

lemma at_pos_drop:
  assumes "at_pos S off data" and "n \<le> length data"
  shows "at_pos S (off + n) (drop n data)"
  using assms at_pos_append [of S off "take n data" "drop n data"] by (simp add: min.absorb2)

abbreviation piece :: "bytes \<Rightarrow> SequencedChunk \<Rightarrow> bool" where
  "piece S c \<equiv> at_pos S (sq_offset c) (sq_bytes c)"

text \<open>Every chunk the receiver yields and every persisted window is a piece of the stream.\<close>

definition env_ok :: "bytes \<Rightarrow> pump_env \<Rightarrow> bool" where
  "env_ok S env \<longleftrightarrow>
     (\<forall>off bs. off \<le> length S \<longrightarrow> pe_window env off RESYNC_WINDOW_BYTES = Inr bs \<longrightarrow> at_pos S off bs)
     \<and> (\<forall>c. pe_select env = Broadcast c \<longrightarrow> piece S c)
     \<and> (\<forall>c. TryChunk c \<in> set (pe_buffered env) \<longrightarrow> piece S c)"

definition pump_ok :: "bytes \<Rightarrow> AttachPump \<Rightarrow> bool" where
  "pump_ok S p \<longleftrightarrow>
     pu_current_offset p \<le> length S \<and> (\<forall>c. pu_held p = Some c \<longrightarrow> piece S c)
     \<and> list_all (\<lambda>e. \<exists>m. e = PumpModes m) (pu_pending p)"

lemma pump_ok_updates [simp]:
  "pump_ok S (p\<lparr>pu_resync := b\<rparr>) = pump_ok S p"
  "pump_ok S (p\<lparr>pu_resync_episode_open := b\<rparr>) = pump_ok S p"
  "pump_ok S (p\<lparr>pu_flush_retries := n\<rparr>) = pump_ok S p"
  "pump_ok S (p\<lparr>pu_completing := x\<rparr>) = pump_ok S p"
  "pump_ok S (begin_resync p) = pump_ok S p"
  by (simp_all add: pump_ok_def begin_resync_def)

lemma begin_resync_view [simp]:
  "pu_current_offset (begin_resync p) = pu_current_offset p" "pu_held (begin_resync p) = pu_held p"
  "pu_pending (begin_resync p) = pu_pending p" "pu_completing (begin_resync p) = pu_completing p"
  by (simp_all add: begin_resync_def)

lemma observe_modes_view [simp]:
  "pu_current_offset (observe_modes env p) = pu_current_offset p" "pu_held (observe_modes env p) = pu_held p"
  "pump_ok S (observe_modes env p) = pump_ok S p" "pu_resync (observe_modes env p) = pu_resync p"
  "pu_completing (observe_modes env p) = pu_completing p"
  by (auto simp: observe_modes_def pump_ok_def split: option.splits)

lemma coalesce_at:
  assumes "coalesce off rs data = (out, ahead, gap)" and "at_pos S off data"
    and "\<And>c. TryChunk c \<in> set rs \<Longrightarrow> piece S c"
  shows "at_pos S off out \<and> (\<forall>c. ahead = Some c \<longrightarrow> piece S c)"
  using assms
proof (induction off rs data rule: coalesce.induct)
  case (2 off r rs data)
  show ?case
  proof (cases "MAX_COALESCED_CHUNK_BYTES \<le> length data")
    case True
    with 2 show ?thesis by auto
  next
    case small: False
    show ?thesis
    proof (cases r)
      case TryLagged
      with 2 small show ?thesis by auto
    next
      case (TryChunk c)
      show ?thesis
      proof (cases "off + length data < sq_offset c")
        case True
        with 2 small TryChunk show ?thesis by auto
      next
        case near: False
        let ?skip = "off + length data - sq_offset c"
        have pc: "piece S c" using 2(4) TryChunk by simp
        have "at_pos S (off + length data) (drop ?skip (sq_bytes c))"
        proof (cases "?skip \<le> length (sq_bytes c)")
          case True
          with at_pos_drop [OF pc True] near show ?thesis by simp
        next
          case False
          with 2(3) show ?thesis by (simp add: at_pos_def)
        qed
        then have "at_pos S off (data @ drop ?skip (sq_bytes c))" using 2(3) by (simp add: at_pos_append)
        with 2(1) [OF small TryChunk near] 2(2,4) small TryChunk near show ?thesis by simp
      qed
    qed
  qed
qed auto

lemma trim_piece:
  assumes "piece S c" and "\<not> (sq_offset c < off \<and> length (sq_bytes c) \<le> off - sq_offset c)"
  shows "piece S (trim_chunk off c)" "off \<le> sq_offset (trim_chunk off c)"
proof -
  show "piece S (trim_chunk off c)"
    using assms at_pos_drop [OF assms(1), of "off - sq_offset c"] by (auto simp: trim_chunk_def)
  show "off \<le> sq_offset (trim_chunk off c)" by (simp add: trim_chunk_def)
qed

lemma forward_chunk_ok:
  assumes "forward_chunk env chunk p = (r, p')" and "pump_ok S p" and "env_ok S env" and "piece S chunk"
  shows "pump_ok S p' \<and> (case r of
       None \<Rightarrow> pu_current_offset p' = pu_current_offset p
     | Some (off, data) \<Rightarrow> off = pu_current_offset p \<and> at_pos S off data \<and> pu_current_offset p' = off + length data)"
proof (cases "sq_offset chunk < pu_current_offset p \<and> length (sq_bytes chunk) \<le> pu_current_offset p - sq_offset chunk")
  case True
  with assms(1,2) show ?thesis by (auto simp: forward_chunk_def Let_def)
next
  case False
  let ?c = "trim_chunk (pu_current_offset p) chunk"
  note t = trim_piece [OF assms(4) False]
  show ?thesis
  proof (cases "pu_current_offset p < sq_offset ?c")
    case True
    with False assms(1) have "r = None" "p' = begin_resync (p\<lparr>pu_held := Some ?c\<rparr>)"
      by (auto simp: forward_chunk_def Let_def)
    with t(1) assms(2) show ?thesis by (simp add: pump_ok_def)
  next
    case aligned: False
    with t(2) have off: "sq_offset ?c = pu_current_offset p" by simp
    obtain data ahead gap where co: "coalesce (pu_current_offset p) (pe_buffered env) (sq_bytes ?c) = (data, ahead, gap)"
      by (metis prod.collapse)
    have at: "at_pos S (pu_current_offset p) data" and ah: "\<And>c. ahead = Some c \<Longrightarrow> piece S c"
      using coalesce_at [OF co] t(1) off assms(3) by (auto simp: env_ok_def)
    from at have le: "pu_current_offset p + length data \<le> length S" by (simp add: at_pos_def)
    let ?p1 = "case ahead of Some h \<Rightarrow> p\<lparr>pu_held := Some h\<rparr> | None \<Rightarrow> p"
    let ?p2 = "if gap then begin_resync ?p1 else ?p1"
    have res: "r = Some (pu_current_offset p, data)"
      "p' = observe_modes env (?p2\<lparr>pu_current_offset := pu_current_offset p + length data\<rparr>)"
      using assms(1) False aligned co by (auto simp: forward_chunk_def Let_def)
    have "pump_ok S (?p2\<lparr>pu_current_offset := pu_current_offset p + length data\<rparr>)"
      using assms(2) ah le by (auto simp: pump_ok_def split: option.splits)
    with at show ?thesis by (simp add: res)
  qed
qed

lemma forwarded_ok:
  assumes "forwarded (forward_chunk env chunk p) = (r, p')" and "pump_ok S p" and "env_ok S env" and "piece S chunk"
  shows "pump_ok S p' \<and> (case r of
       Yields e \<Rightarrow> (\<exists>data. e = PumpChunk (pu_current_offset p) data \<and> at_pos S (pu_current_offset p) data
           \<and> pu_current_offset p' = pu_current_offset p + length data)
     | _ \<Rightarrow> pu_current_offset p' = pu_current_offset p)"
proof -
  obtain f p1 where f: "forward_chunk env chunk p = (f, p1)" by (rule prod.exhaust)
  from forward_chunk_ok [OF f assms(2-4)] assms(1) show ?thesis
    by (auto simp: f forwarded_def split: option.splits if_splits)
qed

text \<open>What an iteration may do to the client's view: \<open>n\<close> is the cursor before it, \<open>n'\<close> after it.\<close>

fun event_ok :: "bytes \<Rightarrow> nat \<Rightarrow> nat \<Rightarrow> AttachEvent \<Rightarrow> bool" where
  "event_ok S n n' (PumpChunk off data) \<longleftrightarrow> off = n \<and> at_pos S n data \<and> n' = n + length data"
| "event_ok S n n' (PumpDone x final_offset) \<longleftrightarrow> final_offset = n \<and> n' = n"
| "event_ok S n n' _ \<longleftrightarrow> n' = n"

definition iterates_ok :: "bytes \<Rightarrow> AttachPump \<Rightarrow> iteration \<times> AttachPump \<Rightarrow> bool" where
  "iterates_ok S p res \<longleftrightarrow>
     (case res of (r, p') \<Rightarrow> pump_ok S p' \<and> (case r of
          Yields e \<Rightarrow> event_ok S (pu_current_offset p) (pu_current_offset p') e
        | _ \<Rightarrow> pu_current_offset p' = pu_current_offset p))"

lemma forwarded_iterates:
  assumes "pump_ok S p" and "env_ok S env" and "piece S chunk"
  shows "iterates_ok S p (forwarded (forward_chunk env chunk p))"
proof -
  obtain r p' where r: "forwarded (forward_chunk env chunk p) = (r, p')" by (rule prod.exhaust)
  from forwarded_ok [OF r assms] show ?thesis
    by (cases r) (auto simp: r iterates_ok_def)
qed

lemma live_iterates:
  assumes "pump_ok S p" and "env_ok S env"
  shows "iterates_ok S p (pump_live env p)"
proof (cases "pu_held p")
  case None
  show ?thesis
  proof (cases "pe_select env")
    case (Broadcast c)
    with forwarded_iterates [OF assms, of c] assms(2) None show ?thesis
      by (simp add: pump_live_def pump_select_def env_ok_def)
  qed (use assms None in \<open>auto simp: pump_live_def pump_select_def iterates_ok_def split: sum.splits\<close>)
next
  case (Some c)
  with assms have "pump_ok S (p\<lparr>pu_held := None\<rparr>)" "piece S c" by (simp_all add: pump_ok_def)
  from forwarded_iterates [OF this(1) assms(2) this(2)] Some show ?thesis
    by (simp add: pump_live_def iterates_ok_def split: iteration.splits prod.splits)
qed

lemma resync_step_ok:
  assumes "resync_step env p = (r, p')" and "pump_ok S p" and "env_ok S env"
  shows "pump_ok S p' \<and> (case r of
       Some e \<Rightarrow> event_ok S (pu_current_offset p) (pu_current_offset p') e
     | None \<Rightarrow> pu_current_offset p' = pu_current_offset p)"
proof (cases "pe_window env (pu_current_offset p) RESYNC_WINDOW_BYTES")
  case (Inl err)
  with assms(1,2) show ?thesis by (auto simp: resync_step_def Let_def)
next
  case (Inr data)
  then have at: "at_pos S (pu_current_offset p) data" using assms(2,3) by (auto simp: env_ok_def pump_ok_def)
  show ?thesis
  proof (cases "data = []")
    case True
    with Inr assms(1,2) show ?thesis
      by (auto simp: resync_step_def Let_def split: if_splits option.splits)
  next
    case False
    let ?p1 = "p\<lparr>pu_current_offset := pu_current_offset p + length data, pu_flush_retries := 0,
        pu_resync := (length data = RESYNC_WINDOW_BYTES),
        pu_resync_episode_open := (length data = RESYNC_WINDOW_BYTES) \<and> pu_resync_episode_open p\<rparr>"
    have "r = Some (PumpChunk (pu_current_offset p) data)" "p' = observe_modes env ?p1"
      using assms(1) Inr False by (auto simp: resync_step_def Let_def)
    moreover have "pump_ok S ?p1" using assms(2) at by (auto simp: pump_ok_def at_pos_def)
    ultimately show ?thesis using at by simp
  qed
qed

lemma credit_event: "await_credit env p = Waited (Some e) \<Longrightarrow> e = PumpClosed"
proof -
  have "credit_polls policy off polls = Waited (Some e) \<Longrightarrow> e = PumpClosed" for policy off polls
    by (induction policy off polls rule: credit_polls.induct) (auto split: if_splits)
  then show "await_credit env p = Waited (Some e) \<Longrightarrow> e = PumpClosed"
    by (auto simp: await_credit_def split: option.splits if_splits)
qed

lemma iteration_ok:
  assumes "pump_ok S p" and "env_ok S env"
  shows "iterates_ok S p (pump_iteration env p)"
proof (cases "await_credit env p = Waited None")
  case False
  with credit_event [of env p] assms(1) show ?thesis
    by (auto simp: pump_iteration_def iterates_ok_def split: waiting.splits option.splits)
next
  case True
  show ?thesis
  proof (cases "pu_pending p")
    case (Cons e es)
    then obtain m where "e = PumpModes m" "pump_ok S (p\<lparr>pu_pending := es\<rparr>)"
      using assms(1) by (auto simp: pump_ok_def)
    with True Cons show ?thesis by (simp add: pump_iteration_def iterates_ok_def)
  next
    case Nil
    obtain r p1 where r: "resync_step env p = (r, p1)" by (rule prod.exhaust)
    note ok = resync_step_ok [OF r assms]
    show ?thesis
    proof (cases "pu_resync p \<and> (r \<noteq> None \<or> pu_resync p1)")
      case still: True
      with True Nil r ok show ?thesis
        by (auto simp: pump_iteration_def iterates_ok_def split: option.splits)
    next
      case live: False
      have "iterates_ok S p (pump_live env p1)" if "r = None"
        using live_iterates [OF ok [THEN conjunct1] assms(2)] ok that
        by (simp add: iterates_ok_def split: prod.splits iteration.splits)
      with True Nil r live live_iterates [OF assms] show ?thesis
        by (auto simp: pump_iteration_def)
    qed
  qed
qed

fun delivered :: "AttachEvent list \<Rightarrow> bytes" where
  "delivered [] = []"
| "delivered (PumpChunk off data # es) = data @ delivered es"
| "delivered (_ # es) = delivered es"

lemma run_ok:
  assumes "pump_run envs p = (es, p')" and "pump_ok S p" and "list_all (env_ok S) envs" and "length S < 2 ^ 64"
  shows "pump_ok S p' \<and> at_pos S (pu_current_offset p) (delivered es)
     \<and> pu_current_offset p' = pu_current_offset p + length (delivered es)
     \<and> client_run (StreamCursor_new (pu_current_offset p)) es = Inr (StreamCursor_new (pu_current_offset p'))"
  using assms(1-3)
proof (induction envs arbitrary: p es p')
  case Nil
  then show ?case by (auto simp: pump_ok_def)
next
  case (Cons env envs)
  obtain r p1 where r: "pump_iteration env p = (r, p1)" by (rule prod.exhaust)
  obtain es1 p2 where run: "pump_run envs p1 = (es1, p2)" by (rule prod.exhaust)
  have it: "iterates_ok S p (r, p1)" using iteration_ok [of S p env] Cons.prems r by simp
  then have "pump_ok S p1" by (simp add: iterates_ok_def)
  note ih = Cons.IH [OF run this]
  have envs: "list_all (env_ok S) envs" using Cons.prems(3) by simp
  show ?case
  proof (cases r)
    case (Yields e)
    then have res: "es = e # es1" "p' = p2" using Cons.prems(1) r run by auto
    have ev: "event_ok S (pu_current_offset p) (pu_current_offset p1) e" using it Yields by (simp add: iterates_ok_def)
    then show ?thesis
    proof (cases e)
      case (PumpChunk off data)
      with ev have "u64_saturating_add (pu_current_offset p) (length data) = pu_current_offset p1"
        using assms(4) by (auto simp: at_pos_def u64_saturating_add_def u64_max_def)
      with ev ih envs res PumpChunk show ?thesis
        by (auto simp: at_pos_append cursor_accept_def StreamCursor_new_def)
    qed (use ev ih envs res in \<open>auto simp: cursor_finish_def StreamCursor_new_def\<close>)
  qed (use it ih envs run r Cons.prems(1) in \<open>auto simp: iterates_ok_def\<close>)
qed

text \<open>C4. An attached client gets the stream, whole and in order. Whatever chunks the broadcast loses,
  delays or repeats, whatever windows the persisted stream answers with, and whenever ticks, lags and
  the end of the session come, as long as the chunks and windows are pieces of one stream: the bytes
  of the pump's chunk events are exactly the stream from the cursor at the start to the cursor now,
  every chunk starts where the one before it ended, a final offset is the cursor reached, and so the
  client's check of the cursor never fails.\<close>

theorem pump_delivers_stream:
  assumes "pump_run envs p = (es, p')" and "pump_ok S p" and "list_all (env_ok S) envs" and "length S < 2 ^ 64"
  shows "delivered es = take (pu_current_offset p' - pu_current_offset p) (drop (pu_current_offset p) S)
     \<and> client_run (StreamCursor_new (pu_current_offset p)) es = Inr (StreamCursor_new (pu_current_offset p'))"
  using run_ok [OF assms] by (simp add: at_pos_def)

section \<open>The end of the stream\<close>

text \<open>C27. Done is complete: unless the broadcast channel itself was closed, the pump reports the end of the
  stream only when the client has been sent at least as many bytes as the session has produced.\<close>

theorem done_is_complete:
  assumes "pump_ok S p" and "pump_iteration env p = (Yields (PumpDone exit_code final_offset), p')"
    and "pe_filtered_len env = Some len"
  shows "(\<exists>x. pe_select env = RecvClosed x) \<or> len \<le> final_offset"
proof -
  have fwd: "forwarded (forward_chunk env c q) \<noteq> (Yields (PumpDone x f), q')" for c q x f q'
    by (auto simp: forwarded_def split: prod.splits option.splits)
  have live: "\<exists>x. pe_select env = RecvClosed x" if "pump_live env q = (Yields (PumpDone x f), q')" for q x f q'
    using that fwd by (auto simp: pump_live_def pump_select_def split: option.splits select_event.splits if_splits sum.splits)
  have drain: "len \<le> f" if "resync_step env q = (Some (PumpDone x f), q')" for q x f q'
    using that assms(3) by (auto simp: resync_step_def Let_def split: sum.splits if_splits option.splits)
  have "PumpDone exit_code final_offset \<notin> set (pu_pending p)"
    using assms(1) by (auto simp: pump_ok_def list_all_iff)
  with assms(2) show ?thesis
    by (auto simp: pump_iteration_def dest: credit_event live drain
        split: waiting.splits option.splits list.splits if_splits prod.splits)
qed

text \<open>A gap is not waited for without end: while a chunk is held past the cursor and the persisted
  stream stays empty there, the pump gives up and closes the stream within \<open>FLUSH_RETRY_MAX + 1\<close>
  rounds.\<close>

theorem flush_wait_ends:
  assumes "pu_resync p" and "pu_pending p = []" and "pu_credit p = None"
    and "pu_held p = Some c" and "pu_current_offset p < sq_offset c"
    and "list_all (\<lambda>env. pe_window env (pu_current_offset p) RESYNC_WINDOW_BYTES = Inr []) envs"
    and "FLUSH_RETRY_MAX < length envs + pu_flush_retries p" and "pu_flush_retries p \<le> FLUSH_RETRY_MAX"
  shows "\<exists>k \<le> FLUSH_RETRY_MAX. fst (pump_run (take (Suc k) envs) p) = [PumpClosed]"
proof -
  have "\<exists>k \<le> FLUSH_RETRY_MAX - pu_flush_retries p. fst (pump_run (take (Suc k) envs) p) = [PumpClosed]"
    using assms
  proof (induction "FLUSH_RETRY_MAX - pu_flush_retries p" arbitrary: p envs)
    case 0
    then have r: "pu_flush_retries p = FLUSH_RETRY_MAX" by simp
    with 0 obtain env rest where envs: "envs = env # rest" by (cases envs) auto
    have "pump_iteration env p = (Yields PumpClosed, p)"
      using 0 envs r by (simp add: pump_iteration_def await_credit_def resync_step_def Let_def)
    with envs show ?case by (intro exI [of _ 0]) simp
  next
    case (Suc n)
    then obtain env rest where envs: "envs = env # rest" by (cases envs) auto
    let ?p1 = "p\<lparr>pu_flush_retries := pu_flush_retries p + 1\<rparr>"
    have it: "pump_iteration env p = (Again, ?p1)"
      using Suc envs by (simp add: pump_iteration_def await_credit_def resync_step_def Let_def)
    have less: "n = FLUSH_RETRY_MAX - pu_flush_retries ?p1" "pu_flush_retries ?p1 \<le> FLUSH_RETRY_MAX"
      using Suc.hyps(2) by simp_all
    obtain k where k: "k \<le> FLUSH_RETRY_MAX - pu_flush_retries ?p1" "fst (pump_run (take (Suc k) rest) ?p1) = [PumpClosed]"
      using Suc.hyps(1) [OF less(1), of rest] less(2) Suc.prems envs by auto
    show ?case
      using k it envs Suc.hyps(2) by (intro exI [of _ "Suc k"]) auto
  qed
  then show ?thesis by (meson diff_le_self le_trans)
qed



section \<open>Credits\<close>

text \<open>The credit gate bounds what is on its way: a credited stream sends a chunk only when the client
  has reported a cursor, at the start of the wait or during it, that the chunk's offset exceeds by at
  most the budget.\<close>

theorem credit_bounds_in_flight:
  assumes "pu_credit p = Some policy" and "pump_ok S p" and "env_ok S env"
    and "pump_iteration env p = (Yields (PumpChunk off data), p')"
  shows "\<exists>applied \<in> insert (pe_applied env) (snd ` set (pe_polls env)). off \<le> applied + cr_budget_bytes policy"
proof -
  have polls: "\<exists>applied \<in> snd ` set ps. n \<le> applied + cr_budget_bytes policy"
    if "credit_polls policy n ps = Waited None" for n ps
    using that
  proof (induction ps)
    case (Cons q ps)
    then show ?case by (cases q) (auto split: if_splits)
  qed simp
  have "off = pu_current_offset p"
    using iteration_ok [OF assms(2,3)] assms(4) by (simp add: iterates_ok_def)
  moreover have "await_credit env p = Waited None"
    using assms(4) credit_event [of env p]
    by (auto simp: pump_iteration_def split: waiting.splits option.splits)
  ultimately show ?thesis
    using assms(1) polls [of "pu_current_offset p" "pe_polls env"]
    by (auto simp: await_credit_def split: if_splits)
qed

subsection \<open>A concrete stream\<close>

text \<open>The stream is three bytes; its last byte is broadcast first, so the pump fills the gap from the
  persisted stream and then forwards what it held.\<close>

definition gap_stream :: bytes where
  "gap_stream = [97, 98, 99]"

definition gap_modes :: ModeSnapshot where
  "gap_modes = SharedModes_load 0"

definition gap_pump :: AttachPump where
  "gap_pump =
     \<lparr>pu_last_modes = gap_modes, pu_current_offset = 0, pu_pending = [], pu_resync = False,
      pu_resync_episode_open = False, pu_held = None, pu_completing = None, pu_flush_retries = 0,
      pu_credit = None\<rparr>"

definition gap_env :: pump_env where
  "gap_env =
     \<lparr>pe_applied = 0, pe_polls = [], pe_window = (\<lambda>off n. Inr (take n (drop off [97, 98]))),
      pe_filtered_len = Some 3, pe_modes = None,
      pe_select = Broadcast \<lparr>sq_offset = 2, sq_bytes = [99]\<rparr>, pe_buffered = []\<rparr>"

lemma gap_env_ok: "env_ok gap_stream gap_env"
proof -
  have w: "RESYNC_WINDOW_BYTES = Suc (Suc (RESYNC_WINDOW_BYTES - 2))" by (simp add: RESYNC_WINDOW_BYTES_def)
  have "at_pos gap_stream off (take RESYNC_WINDOW_BYTES (drop off [97, 98]))" if "off \<le> 3" for off
  proof -
    from that consider "off = 0" | "off = 1" | "off = 2" | "off = 3" by linarith
    then show ?thesis by cases (subst w; simp add: at_pos_def gap_stream_def)+
  qed
  then show ?thesis by (auto simp: env_ok_def gap_env_def gap_stream_def at_pos_def)
qed

lemma gap_eval:
  "take RESYNC_WINDOW_BYTES [97, 98 :: byte] = [97, 98]" "2 \<noteq> RESYNC_WINDOW_BYTES" "Suc (Suc 0) \<noteq> RESYNC_WINDOW_BYTES"
  "\<not> MAX_COALESCED_CHUNK_BYTES \<le> 1" "0 < RESYNC_WINDOW_BYTES"
  by (simp_all add: RESYNC_WINDOW_BYTES_def MAX_COALESCED_CHUNK_BYTES_def)

lemmas pump_eval = pump_iteration_def await_credit_def pump_live_def pump_select_def forwarded_def
  forward_chunk_def trim_chunk_def begin_resync_def resync_step_def observe_modes_def Let_def gap_eval

lemma gap_run:
  "fst (pump_run [gap_env, gap_env, gap_env] gap_pump) = [PumpChunk 0 [97, 98], PumpChunk 2 [99]]"
  "pu_current_offset (snd (pump_run [gap_env, gap_env, gap_env] gap_pump)) = 3"
  by (simp_all add: gap_pump_def gap_env_def pump_eval)

theorem pump_delivers_stream_witness:
  "delivered (fst (pump_run [gap_env, gap_env, gap_env] gap_pump)) = [97, 98, 99]
   \<and> client_run (StreamCursor_new 0) (fst (pump_run [gap_env, gap_env, gap_env] gap_pump)) = Inr (StreamCursor_new 3)"
proof -
  have "pump_ok gap_stream gap_pump" by (simp add: pump_ok_def gap_pump_def)
  from pump_delivers_stream [OF prod.collapse [symmetric] this, of "[gap_env, gap_env, gap_env]"] gap_env_ok gap_run(2)
  show ?thesis by (simp add: gap_stream_def) (simp add: gap_pump_def)
qed

definition done_pump :: AttachPump where
  "done_pump = gap_pump\<lparr>pu_current_offset := 3, pu_completing := Some (Some 0), pu_resync := True\<rparr>"

theorem done_is_complete_witness:
  "pump_iteration (gap_env\<lparr>pe_select := RecvLagged\<rparr>) done_pump
     = (Yields (PumpDone (Some 0) 3), gap_pump\<lparr>pu_current_offset := 3\<rparr>)
   \<and> (3 :: nat) \<le> 3"
proof -
  let ?e = "gap_env\<lparr>pe_select := RecvLagged\<rparr>"
  have it: "pump_iteration ?e done_pump = (Yields (PumpDone (Some 0) 3), gap_pump\<lparr>pu_current_offset := 3\<rparr>)"
    by (simp add: done_pump_def gap_pump_def gap_env_def pump_eval)
  have "pump_ok gap_stream done_pump" by (simp add: pump_ok_def done_pump_def gap_pump_def gap_stream_def)
  from done_is_complete [OF this it, of 3] it show ?thesis by (simp add: gap_env_def)
qed

theorem flush_wait_ends_witness:
  "\<exists>k \<le> 50. fst (pump_run (take (Suc k) (replicate 60 gap_env))
     (gap_pump\<lparr>pu_current_offset := 2, pu_resync := True, pu_held := Some \<lparr>sq_offset = 9, sq_bytes = [1]\<rparr>\<rparr>)) = [PumpClosed]"
proof -
  let ?p = "gap_pump\<lparr>pu_current_offset := 2, pu_resync := True, pu_held := Some \<lparr>sq_offset = 9, sq_bytes = [1]\<rparr>\<rparr>"
  have "list_all (\<lambda>env. pe_window env (pu_current_offset ?p) RESYNC_WINDOW_BYTES = Inr []) (replicate 60 gap_env)"
    by (simp add: list_all_iff gap_env_def)
  from flush_wait_ends [OF _ _ _ _ _ this, of "\<lparr>sq_offset = 9, sq_bytes = [1]\<rparr>"] show ?thesis
    by (simp add: gap_pump_def FLUSH_RETRY_MAX_def)
qed


theorem credit_bounds_in_flight_witness:
  "\<exists>applied \<in> {3 :: nat, 4}. (4 :: nat) \<le> applied + 0"
proof -
  let ?S = "[1, 1, 1, 1, 9] :: bytes"
  let ?p = "gap_pump\<lparr>pu_current_offset := 4, pu_credit := Some \<lparr>cr_budget_bytes = 0, cr_stall_timeout = 100\<rparr>\<rparr>"
  let ?e = "gap_env\<lparr>pe_applied := 3, pe_polls := [(25, 4)], pe_window := (\<lambda>_ _. Inl Evicted),
    pe_select := Broadcast \<lparr>sq_offset = 4, sq_bytes = [9]\<rparr>\<rparr>"
  have "pump_ok ?S ?p" "env_ok ?S ?e"
    by (auto simp: pump_ok_def env_ok_def gap_pump_def gap_env_def at_pos_def)
  moreover have "pump_iteration ?e ?p = (Yields (PumpChunk 4 [9]), ?p\<lparr>pu_current_offset := 5\<rparr>)"
    by (simp add: gap_pump_def gap_env_def pump_eval)
  ultimately show ?thesis
    using credit_bounds_in_flight [of ?p "\<lparr>cr_budget_bytes = 0, cr_stall_timeout = 100\<rparr>" ?S ?e 4 "[9]"]
    by (simp add: gap_env_def)
qed

end
