(* ===== verification/Mouse_Input.thy ===== *)
theory Mouse_Input
  imports Text_Bytes Journal_Segment
begin

text \<open>
  Mouse input (\<open>src/mouse.rs\<close>): the operator's \<open>mouse:\<close> syntax and the encoding of mouse events for the
  child, SGR or legacy X11. The event types are those of the crossterm library the source uses; of its
  modifiers only the three that are read are kept.
\<close>

section \<open>Events\<close>

datatype MouseButton = LeftButton | MiddleButton | RightButton

datatype MouseEventKind =
    MouseDown MouseButton | MouseUp MouseButton | MouseDrag MouseButton | MouseMoved
  | ScrollUp | ScrollDown | ScrollLeft | ScrollRight

record MouseEvent =
  mo_kind :: MouseEventKind
  mo_column :: nat
  mo_row :: nat
  mo_shift :: bool
  mo_alt :: bool
  mo_control :: bool

definition MAX_MOUSE_EVENTS :: nat where
  "MAX_MOUSE_EVENTS = 1000"

record MouseInput =
  mi_kind :: MouseEventKind
  mi_repeat :: nat
  mi_position :: "(nat \<times> nat) option"

datatype mouse_error =
    MouseUsage
  | PositionRequired bytes
  | ReportingDisabled
  | OutsideViewport nat nat
  | LegacyPosition

section \<open>Parsing\<close>

definition parse_coord :: "bytes \<Rightarrow> mouse_error + nat" where
  "parse_coord s =
     (case parse_digits (2 ^ 16) s of
        Some n \<Rightarrow> if n = 0 then Inl MouseUsage else Inr (n - 1)
      | None \<Rightarrow> Inl MouseUsage)"

definition parse_position :: "bytes \<Rightarrow> mouse_error + bytes \<times> (nat \<times> nat) option" where
  "parse_position spec =
     (case split_once (chr (CHR ''@'')) spec of
        None \<Rightarrow> Inr (spec, None)
      | Some (action, coords) \<Rightarrow>
          (case split_once (chr (CHR '','')) coords of
             None \<Rightarrow> Inl MouseUsage
           | Some (col, row) \<Rightarrow>
               bind_result (parse_coord col) (\<lambda>c.
               bind_result (parse_coord row) (\<lambda>r. Inr (action, Some (c, r))))))"

definition is_sign :: "byte \<Rightarrow> bool" where
  "is_sign b \<longleftrightarrow> b = chr (CHR ''+'') \<or> b = chr (CHR ''-'')"

definition parse_count :: "bytes \<Rightarrow> mouse_error + nat" where
  "parse_count count =
     (case count of
        [] \<Rightarrow> Inr 1
      | sign # digits \<Rightarrow>
          (case parse_digits (2 ^ 32) digits of
             Some n \<Rightarrow> if 1 \<le> n \<and> n \<le> MAX_MOUSE_EVENTS then Inr n else Inl MouseUsage
           | None \<Rightarrow> Inl MouseUsage))"

definition parse_button :: "bytes \<Rightarrow> bool \<Rightarrow> mouse_error + MouseEventKind" where
  "parse_button button down =
     (if button = ascii ''left'' \<and> \<not> down then Inr (MouseDown LeftButton)
      else if button = ascii ''middle'' \<and> \<not> down then Inr (MouseDown MiddleButton)
      else if button = ascii ''right'' \<and> \<not> down then Inr (MouseDown RightButton)
      else if button = ascii ''wheel'' \<and> \<not> down then Inr ScrollUp
      else if button = ascii ''wheel'' \<and> down then Inr ScrollDown
      else Inl MouseUsage)"

fun is_press :: "MouseEventKind \<Rightarrow> bool" where
  "is_press (MouseDown _) = True"
| "is_press _ = False"

definition parse_mouse_spec :: "bytes \<Rightarrow> mouse_error + MouseInput" where
  "parse_mouse_spec spec =
     bind_result (parse_position spec) (\<lambda>(action, position).
       let button = takeWhile (\<lambda>b. \<not> is_sign b) action;
           count = dropWhile (\<lambda>b. \<not> is_sign b) action;
           down = (case count of [] \<Rightarrow> False | c # _ \<Rightarrow> c = chr (CHR ''-''))
       in bind_result (parse_count count) (\<lambda>n.
          bind_result (parse_button button down) (\<lambda>kind.
            if is_press kind \<and> position = None then Inl (PositionRequired button)
            else Inr \<lparr>mi_kind = kind, mi_repeat = n, mi_position = position\<rparr>)))"

section \<open>Encoding\<close>

fun button_code :: "MouseButton \<Rightarrow> nat" where
  "button_code LeftButton = 0"
| "button_code MiddleButton = 1"
| "button_code RightButton = 2"

fun kind_code :: "MouseEventKind \<Rightarrow> nat" where
  "kind_code (MouseDown b) = button_code b"
| "kind_code (MouseUp b) = button_code b"
| "kind_code (MouseDrag b) = 32 + button_code b"
| "kind_code MouseMoved = 35"
| "kind_code ScrollUp = 64"
| "kind_code ScrollDown = 65"
| "kind_code ScrollLeft = 66"
| "kind_code ScrollRight = 67"

definition event_code :: "MouseEvent \<Rightarrow> nat" where
  "event_code m = kind_code (mo_kind m) + (if mo_shift m then 4 else 0) + (if mo_alt m then 8 else 0)
     + (if mo_control m then 16 else 0)"

fun is_release :: "MouseEventKind \<Rightarrow> bool" where
  "is_release (MouseUp _) = True"
| "is_release _ = False"

fun is_motion :: "MouseEventKind \<Rightarrow> bool" where
  "is_motion (MouseDrag _) = True"
| "is_motion MouseMoved = True"
| "is_motion _ = False"

text \<open>\<open>u8::try_from(n).ok()?.checked_add(d)?\<close>\<close>

definition checked_byte :: "nat \<Rightarrow> nat \<Rightarrow> byte option" where
  "checked_byte n d = (if n < 256 \<and> n + d < 256 then Some (of_nat (n + d)) else None)"

definition encode_mouse_event :: "MouseEvent \<Rightarrow> bool \<Rightarrow> bytes option" where
  "encode_mouse_event m sgr =
     (if sgr then
        Some ([0x1b] @ ascii ''[<'' @ ascii (show_dec (event_code m)) @ ascii '';''
          @ ascii (show_dec (mo_column m + 1)) @ ascii '';'' @ ascii (show_dec (mo_row m + 1))
          @ (if is_release (mo_kind m) then ascii ''m'' else ascii ''M''))
      else if is_motion (mo_kind m) then None
      else
        Option.bind (checked_byte (if is_release (mo_kind m) then 3 else event_code m) 32) (\<lambda>cb.
        Option.bind (checked_byte (mo_column m) 33) (\<lambda>cx.
        Option.bind (checked_byte (mo_row m) 33) (\<lambda>cy.
          Some [0x1b, chr (CHR ''[''), chr (CHR ''M''), cb, cx, cy]))))"

definition tick_bytes :: "MouseEventKind \<Rightarrow> nat \<Rightarrow> nat \<Rightarrow> bool \<Rightarrow> bytes option" where
  "tick_bytes kind column row sgr =
     (let event = (\<lambda>k. \<lparr>mo_kind = k, mo_column = column, mo_row = row, mo_shift = False, mo_alt = False,
                        mo_control = False\<rparr>)
      in Option.bind (encode_mouse_event (event kind) sgr) (\<lambda>press.
           case kind of
             MouseDown button \<Rightarrow>
               map_option (\<lambda>release. press @ release) (encode_mouse_event (event (MouseUp button)) sgr)
           | _ \<Rightarrow> Some press))"

definition mouse_encode :: "MouseInput \<Rightarrow> nat \<Rightarrow> nat \<Rightarrow> bool \<Rightarrow> bool \<Rightarrow> mouse_error + bytes" where
  "mouse_encode m rows cols mouse_report sgr =
     (if \<not> mouse_report then Inl ReportingDisabled
      else
        let (column, row) = (case mi_position m of Some pos \<Rightarrow> pos | None \<Rightarrow> (cols div 2, rows div 2))
        in if cols \<le> column \<or> rows \<le> row then Inl (OutsideViewport cols rows)
           else case tick_bytes (mi_kind m) column row sgr of
                  None \<Rightarrow> Inl LegacyPosition
                | Some tick \<Rightarrow> Inr (concat (replicate (mi_repeat m) tick)))"

section \<open>The documented syntax\<close>

text \<open>The text an operator writes for an action.\<close>

fun button_name :: "MouseEventKind \<Rightarrow> string" where
  "button_name (MouseDown LeftButton) = ''left''"
| "button_name (MouseDown MiddleButton) = ''middle''"
| "button_name (MouseDown RightButton) = ''right''"
| "button_name _ = ''wheel''"

definition mouse_spec :: "MouseInput \<Rightarrow> bytes" where
  "mouse_spec m =
     ascii (button_name (mi_kind m))
     @ ascii (if mi_kind m = ScrollDown then ''-'' else ''+'') @ ascii (show_dec (mi_repeat m))
     @ (case mi_position m of
          None \<Rightarrow> []
        | Some (c, r) \<Rightarrow> ascii ''@'' @ ascii (show_dec (c + 1)) @ ascii '','' @ ascii (show_dec (r + 1)))"

text \<open>The inputs the syntax can name.\<close>

definition valid_mouse :: "MouseInput \<Rightarrow> bool" where
  "valid_mouse m \<longleftrightarrow>
     (is_press (mi_kind m) \<and> mi_position m \<noteq> None \<or> mi_kind m \<in> {ScrollUp, ScrollDown})
     \<and> 1 \<le> mi_repeat m \<and> mi_repeat m \<le> MAX_MOUSE_EVENTS
     \<and> pred_option (\<lambda>(c, r). c + 1 < 2 ^ 16 \<and> r + 1 < 2 ^ 16) (mi_position m)"

lemma ascii_append: "ascii (s @ t) = ascii s @ ascii t"
  by (simp add: ascii_def)

lemma digit_byte:
  assumes "d < 10"
  shows "unat (chr (digit_char d)) = 48 + d"
proof -
  have "(of_char (digit_char d) :: nat) = 48 + d" using assms by (simp add: digit_char_def)
  then have "chr (digit_char d) = of_nat (48 + d)" by (metis of_nat_of_char)
  then have "unat (chr (digit_char d)) = (48 + d) mod 2 ^ LENGTH(8)" by (simp only: unat_of_nat)
  then show ?thesis using assms by simp
qed

lemma digits_value_snoc: "digits_value (ds @ [d]) = 10 * digits_value ds + (unat d - 48)"
  by (simp add: digits_value_def)

lemma show_dec_digits:
  "list_all is_ascii_digit (ascii (show_dec n)) \<and> digits_value (ascii (show_dec n)) = n"
proof (induction n rule: show_dec.induct)
  case (1 n)
  have d: "is_ascii_digit (chr (digit_char d))" if "d < 10" for d
    using digit_byte [OF that] that by (simp add: is_ascii_digit_def word_le_nat_alt)
  show ?case
  proof (cases "n < 10")
    case True
    with d [OF True] digit_byte [OF True] show ?thesis
      by (subst show_dec.simps, subst (2) show_dec.simps) (simp add: ascii_def digits_value_def)
  next
    case False
    with "1.IH" d [of "n mod 10"] digit_byte [of "n mod 10"] show ?thesis
      by (subst show_dec.simps, subst (2) show_dec.simps) (simp add: ascii_def digits_value_snoc)
  qed
qed

lemma parse_digits_show: "n < bound \<Longrightarrow> parse_digits bound (ascii (show_dec n)) = Some n"
  using show_dec_digits [of n] by (simp add: parse_digits_def ascii_def)

lemma parse_digits_bound: "parse_digits bound ds = Some n \<Longrightarrow> n < bound"
  by (auto simp: parse_digits_def split: if_splits)

lemma plain_bytes:
  "ascii (button_name k) = ascii ''left'' \<or> ascii (button_name k) = ascii ''middle''
     \<or> ascii (button_name k) = ascii ''right'' \<or> ascii (button_name k) = ascii ''wheel''"
  by (cases k rule: button_name.cases) simp_all

lemma digits_plain: "b \<in> set (ascii (show_dec n)) \<Longrightarrow> is_ascii_digit b"
  using show_dec_digits [of n] by (simp add: list_all_iff)

lemma digits_no_marks:
  assumes "is_ascii_digit b"
  shows "b \<noteq> chr (CHR ''@'')" "b \<noteq> chr (CHR '','')" "\<not> is_sign b"
  using assms by (auto simp: is_ascii_digit_def is_sign_def word_le_nat_alt)

lemma action_split:
  assumes "list_all (\<lambda>b. \<not> is_sign b) name" and "is_sign s"
  shows "takeWhile (\<lambda>b. \<not> is_sign b) (name @ s # ds) = name"
    "dropWhile (\<lambda>b. \<not> is_sign b) (name @ s # ds) = s # ds"
  using assms by (induction name) simp_all

lemma parse_coord_show: "n + 1 < 2 ^ 16 \<Longrightarrow> parse_coord (ascii (show_dec (n + 1))) = Inr n"
  using parse_digits_show [of "n + 1" "2 ^ 16"] by (simp add: parse_coord_def)

lemma no_byte_in_digits: "is_ascii_digit b = False \<Longrightarrow> b \<notin> set (ascii (show_dec n))"
  using digits_plain by blast

lemma parse_position_spec:
  assumes "chr (CHR ''@'') \<notin> set action"
    and "pred_option (\<lambda>(c, r). c + 1 < 2 ^ 16 \<and> r + 1 < 2 ^ 16) pos"
  shows "parse_position (action @ (case pos of
       None \<Rightarrow> [] | Some (c, r) \<Rightarrow> ascii ''@'' @ ascii (show_dec (c + 1)) @ ascii '','' @ ascii (show_dec (r + 1))))
     = Inr (action, pos)"
proof (cases pos)
  case None
  have "split_once x bs = None" if "x \<notin> set bs" for x bs
    using that by (induction bs) auto
  with assms(1) None show ?thesis by (simp add: parse_position_def)
next
  case (Some p)
  obtain c r where p: "p = (c, r)" by (rule prod.exhaust)
  have "chr (CHR '','') \<notin> set (ascii (show_dec (c + 1)))"
    using digits_plain digits_no_marks(2) by blast
  then have comma: "split_once (chr (CHR '','')) (ascii (show_dec (c + 1)) @ ascii '','' @ ascii (show_dec (r + 1)))
      = Some (ascii (show_dec (c + 1)), ascii (show_dec (r + 1)))"
    using split_once_append [of "chr (CHR '','')" "ascii (show_dec (c + 1))"] by (simp add: ascii_def)
  have at: "split_once (chr (CHR ''@'')) (action @ ascii ''@'' @ rest) = Some (action, rest)" for rest
    using split_once_append [OF assms(1)] by (simp add: ascii_def)
  from assms(2) Some p have "parse_coord (ascii (show_dec (c + 1))) = Inr c" "parse_coord (ascii (show_dec (r + 1))) = Inr r"
    by (simp_all only: parse_coord_show option.pred_inject split_beta fst_conv snd_conv case_prod_conv)
  with Some p at comma show ?thesis by (simp add: parse_position_def)
qed

text \<open>C33. The mouse syntax is complete and exact: every action it can name is parsed from the text that
  names it, and whatever is parsed is such an action, between one and a thousand clicks or ticks, with
  coordinates that fit and with a position for every click.\<close>

theorem mouse_spec_round_trip:
  "(valid_mouse m \<longrightarrow> parse_mouse_spec (mouse_spec m) = Inr m)
   \<and> (parse_mouse_spec spec = Inr m \<longrightarrow> valid_mouse m)"
proof (intro conjI impI)
  assume v: "valid_mouse m"
  let ?name = "ascii (button_name (mi_kind m))"
  let ?sign = "if mi_kind m = ScrollDown then chr (CHR ''-'') else chr (CHR ''+'')"
  let ?digits = "ascii (show_dec (mi_repeat m))"
  let ?action = "?name @ ?sign # ?digits"
  have name: "list_all (\<lambda>b. \<not> is_sign b) ?name" "chr (CHR ''@'') \<notin> set ?name"
    using plain_bytes [of "mi_kind m"] by (auto simp: ascii_def is_sign_def)
  have sign: "is_sign ?sign" by (simp add: is_sign_def)
  have "chr (CHR ''@'') \<notin> set ?digits" using digits_plain digits_no_marks(1) by blast
  with name(2) have at: "chr (CHR ''@'') \<notin> set ?action" by auto
  have spec: "mouse_spec m = ?action @ (case mi_position m of
       None \<Rightarrow> [] | Some (c, r) \<Rightarrow> ascii ''@'' @ ascii (show_dec (c + 1)) @ ascii '','' @ ascii (show_dec (r + 1)))"
    by (simp add: mouse_spec_def ascii_def)
  have pos: "parse_position (mouse_spec m) = Inr (?action, mi_position m)"
    unfolding spec by (rule parse_position_spec [OF at]) (use v in \<open>simp add: valid_mouse_def\<close>)
  have count: "parse_count (?sign # ?digits) = Inr (mi_repeat m)"
    using v parse_digits_show [of "mi_repeat m" "2 ^ 32"] by (simp add: parse_count_def valid_mouse_def MAX_MOUSE_EVENTS_def)
  have button: "parse_button ?name (?sign = chr (CHR ''-'')) = Inr (mi_kind m)"
    using v by (cases "mi_kind m" rule: button_name.cases) (simp_all add: parse_button_def valid_mouse_def ascii_def)
  show "parse_mouse_spec (mouse_spec m) = Inr m"
    using v count button
    by (auto simp: parse_mouse_spec_def pos action_split [OF name(1) sign] Let_def valid_mouse_def)
next
  assume "parse_mouse_spec spec = Inr m"
  then obtain action pos n kind where p: "parse_position spec = Inr (action, pos)"
    and c: "parse_count (dropWhile (\<lambda>b. \<not> is_sign b) action) = Inr n"
    and b: "\<exists>name down. parse_button name down = Inr kind" and press: "is_press kind \<longrightarrow> pos \<noteq> None"
    and m: "m = \<lparr>mi_kind = kind, mi_repeat = n, mi_position = pos\<rparr>"
    by (auto simp: parse_mouse_spec_def Let_def bind_result_eq_Inr split: if_splits) blast+
  have "1 \<le> n \<and> n \<le> MAX_MOUSE_EVENTS"
    using c by (auto simp: parse_count_def MAX_MOUSE_EVENTS_def split: list.splits option.splits if_splits)
  moreover have "x + 1 < 2 ^ 16" if "parse_coord s = Inr x" for s x
    using that parse_digits_bound [of "2 ^ 16" s] by (fastforce simp: parse_coord_def split: option.splits if_splits)
  then have "pred_option (\<lambda>(c, r). c + 1 < 2 ^ 16 \<and> r + 1 < 2 ^ 16) pos"
    using p by (auto simp: parse_position_def bind_result_eq_Inr split: option.splits prod.splits)
  moreover have "is_press kind \<or> kind \<in> {ScrollUp, ScrollDown}"
    using b by (auto simp: parse_button_def split: if_splits)
  ultimately show "valid_mouse m" using press m by (auto simp: valid_mouse_def)
qed

definition legacy_tick :: "MouseEventKind \<Rightarrow> nat \<Rightarrow> nat \<Rightarrow> bytes" where
  "legacy_tick kind column row =
     concat (map (\<lambda>cb. [0x1b, chr (CHR ''[''), chr (CHR ''M''), cb, of_nat (column + 33), of_nat (row + 33)])
       (if is_press kind then [of_nat (kind_code kind + 32), 35] else [of_nat (kind_code kind + 32)]))"

text \<open>What is sent for a mouse action: an encoding exists exactly when reporting is on, the position
  lies inside the screen and, in the legacy encoding, column and row are at most 222 (counted from 0).
  The legacy bytes are, for each of the repeated clicks, its press and its release, and for each wheel
  tick one event, each \<open>ESC [ M\<close> with the button plus 32 and the coordinates plus 33.\<close>

theorem mouse_encode_exact:
  assumes "valid_mouse m" and "rows < 2 ^ 16" and "cols < 2 ^ 16"
    and "(column, row) = (case mi_position m of Some pos \<Rightarrow> pos | None \<Rightarrow> (cols div 2, rows div 2))"
  shows "((\<exists>out. mouse_encode m rows cols report sgr = Inr out)
       \<longleftrightarrow> report \<and> column < cols \<and> row < rows \<and> (sgr \<or> column \<le> 222 \<and> row \<le> 222))
     \<and> (mouse_encode m rows cols True False = Inr out \<longrightarrow>
         out = concat (replicate (mi_repeat m) (legacy_tick (mi_kind m) column row)))"
proof -
  have k: "mi_kind m \<in> {MouseDown LeftButton, MouseDown MiddleButton, MouseDown RightButton, ScrollUp, ScrollDown}"
    using assms(1) by (cases "mi_kind m" rule: button_name.cases) (auto simp: valid_mouse_def)
  have enc: "tick_bytes (mi_kind m) column row False
     = (if column \<le> 222 \<and> row \<le> 222 then Some (legacy_tick (mi_kind m) column row) else None)"
    using k by (auto simp: tick_bytes_def encode_mouse_event_def event_code_def checked_byte_def legacy_tick_def)
  have sgr: "tick_bytes (mi_kind m) column row True \<noteq> None"
    using k by (auto simp: tick_bytes_def encode_mouse_event_def)
  show ?thesis
  proof
    show "(\<exists>out. mouse_encode m rows cols report sgr = Inr out)
       \<longleftrightarrow> report \<and> column < cols \<and> row < rows \<and> (sgr \<or> column \<le> 222 \<and> row \<le> 222)"
      using enc sgr by (cases sgr) (auto simp: mouse_encode_def Let_def assms(4) [symmetric] split: option.splits)
    show "mouse_encode m rows cols True False = Inr out \<longrightarrow>
         out = concat (replicate (mi_repeat m) (legacy_tick (mi_kind m) column row))"
      using enc by (auto simp: mouse_encode_def Let_def assms(4) [symmetric] split: if_splits option.splits)
  qed
qed

theorem mouse_spec_round_trip_witness:
  "parse_mouse_spec (mouse_spec \<lparr>mi_kind = MouseDown LeftButton, mi_repeat = 2, mi_position = Some (1, 2)\<rparr>)
     = Inr \<lparr>mi_kind = MouseDown LeftButton, mi_repeat = 2, mi_position = Some (1, 2)\<rparr>"
  using mouse_spec_round_trip [of "\<lparr>mi_kind = MouseDown LeftButton, mi_repeat = 2, mi_position = Some (1, 2)\<rparr>"]
  by (simp add: valid_mouse_def MAX_MOUSE_EVENTS_def)

theorem mouse_encode_exact_witness:
  "mouse_encode \<lparr>mi_kind = ScrollUp, mi_repeat = 1, mi_position = None\<rparr> 24 80 True False
     = Inr [0x1b, 91, 77, 96, 73, 45]
   \<and> (\<nexists>out. mouse_encode \<lparr>mi_kind = ScrollUp, mi_repeat = 1, mi_position = Some (223, 0)\<rparr> 24 300 True False = Inr out)"
proof -
  have "valid_mouse \<lparr>mi_kind = ScrollUp, mi_repeat = 1, mi_position = p\<rparr>"
    if "p = None \<or> p = Some (223, 0)" for p
    using that by (auto simp: valid_mouse_def MAX_MOUSE_EVENTS_def)
  from mouse_encode_exact [OF this [of None], of 24 80 40 12 True False]
    mouse_encode_exact [OF this [of "Some (223, 0)"], of 24 300 223 0 True False]
  show ?thesis by (auto simp: legacy_tick_def)
qed

end
