(* ===== verification/Session_Store.thy ===== *)
theory Session_Store
  imports Attach_Pump Mouse_Input
begin

text \<open>
  The session store (\<open>src/session/store/mod.rs\<close>) and the attach path (\<open>src/session/store/attach.rs\<close>):
  looking a session up, registering clients, forwarding their input and resizes, and answering what
  the output pump asks. Every operation takes the runtime's lock once, so each is one function of the
  store; clock readings and what the operating system answers are arguments.
\<close>

section \<open>The store\<close>

text \<open>Rows of the sessions table. A call to the database or to the file system fails when the next
  entry of the schedule says so.\<close>

record database =
  db_rows :: "(bytes \<times> SessionMeta) list"
  db_dirs :: "bytes list"
  db_faults :: "bool list"

text \<open>\<open>SessionEvent\<close>, by the session it is about.\<close>

datatype store_event = SessionCreated bytes | SessionUpdated bytes | SessionDeleted bytes

record ('e, 'j) SessionStore =
  ss_sessions :: "(bytes \<times> ('e, 'j) SessionRuntime) list"
  ss_starting_sessions :: "bytes list"
  ss_evicted_sessions :: "(bytes \<times> nat) list"
  ss_persisted_stream_len_cache :: "(bytes \<times> nat \<times> nat) list"
  ss_eviction_ttl :: nat
  ss_db :: database
  ss_events :: "store_event list"

definition PERSISTED_STREAM_LEN_CACHE_ENTRIES :: nat where
  "PERSISTED_STREAM_LEN_CACHE_ENTRIES = 20000"

definition SessionStore_new :: "nat \<Rightarrow> database \<Rightarrow> ('e, 'j) SessionStore" where
  "SessionStore_new eviction_seconds db =
     \<lparr>ss_sessions = [], ss_starting_sessions = [], ss_evicted_sessions = [],
      ss_persisted_stream_len_cache = [], ss_eviction_ttl = max eviction_seconds 1, ss_db = db,
      ss_events = []\<rparr>"

definition set_eviction_seconds :: "nat \<Rightarrow> ('e, 'j) SessionStore \<Rightarrow> ('e, 'j) SessionStore" where
  "set_eviction_seconds seconds s = s\<lparr>ss_eviction_ttl := max seconds 1\<rparr>"

text \<open>The persisted sessions, as the replay functions read them.\<close>

record persisted =
  pd_has_journal :: "bytes \<Rightarrow> bool"
  pd_incarnations :: "bytes \<Rightarrow> nat list option"
  pd_stream_from :: "bytes \<Rightarrow> nat \<Rightarrow> (bytes \<times> nat) result"
  pd_stream_window :: "bytes \<Rightarrow> nat \<Rightarrow> nat \<Rightarrow> bytes result"
  pd_stream_len :: "bytes \<Rightarrow> nat result"

definition lookup_runtime ::
  "bytes \<Rightarrow> ('e, 'j) SessionStore \<Rightarrow> SessionError + ('e, 'j) SessionRuntime" where
  "lookup_runtime i s =
     (case map_of (ss_sessions s) i of
        Some rt \<Rightarrow> Inr rt
      | None \<Rightarrow> if map_of (ss_evicted_sessions s) i \<noteq> None then Inl Evicted else Inl NotRunning)"

text \<open>Writing through a handle: the runtime the map holds under an id.\<close>

definition write_runtime ::
  "bytes \<Rightarrow> ('e, 'j) SessionRuntime \<Rightarrow> ('e, 'j) SessionStore \<Rightarrow> ('e, 'j) SessionStore" where
  "write_runtime i rt s = s\<lparr>ss_sessions := AList.update i rt (ss_sessions s)\<rparr>"

definition send_event :: "store_event \<Rightarrow> ('e, 'j) SessionStore \<Rightarrow> ('e, 'j) SessionStore" where
  "send_event e s = s\<lparr>ss_events := ss_events s @ [e]\<rparr>"

section \<open>The database\<close>

definition db_call :: "database \<Rightarrow> bool \<times> database" where
  "db_call d = (case db_faults d of [] \<Rightarrow> (True, d) | f # fs \<Rightarrow> (\<not> f, d\<lparr>db_faults := fs\<rparr>))"

definition db_insert_session :: "SessionMeta \<Rightarrow> database \<Rightarrow> bool \<times> database" where
  "db_insert_session m d =
     (case db_call d of (ok, d1) \<Rightarrow>
        if ok \<and> map_of (db_rows d1) (sm_id m) = None
        then (True, d1\<lparr>db_rows := db_rows d1 @ [(sm_id m, m)]\<rparr>) else (False, d1))"

text \<open>The update leaves the creation time and the resume command of the row as they are.\<close>

definition db_update_session :: "SessionMeta \<Rightarrow> database \<Rightarrow> bool \<times> database" where
  "db_update_session m d =
     (case db_call d of (ok, d1) \<Rightarrow>
        if \<not> ok then (False, d1)
        else (True, d1\<lparr>db_rows := map (\<lambda>(i, row). if i = sm_id m
               then (i, m\<lparr>sm_created_at := sm_created_at row, sm_resume_command := sm_resume_command row\<rparr>)
               else (i, row)) (db_rows d1)\<rparr>))"

definition db_set_resume_command :: "bytes \<Rightarrow> bytes \<Rightarrow> database \<Rightarrow> bool \<times> database" where
  "db_set_resume_command i command d =
     (case db_call d of (ok, d1) \<Rightarrow>
        if \<not> ok then (False, d1)
        else (True, d1\<lparr>db_rows := map (\<lambda>(k, row). if k = i
               then (k, row\<lparr>sm_resume_command := Some command\<rparr>) else (k, row)) (db_rows d1)\<rparr>))"

definition db_delete_session :: "bytes \<Rightarrow> database \<Rightarrow> bool \<times> database" where
  "db_delete_session i d =
     (case db_call d of (ok, d1) \<Rightarrow>
        if ok then (True, d1\<lparr>db_rows := filter (\<lambda>(k, _). k \<noteq> i) (db_rows d1)\<rparr>) else (False, d1))"

text \<open>\<open>None\<close> is a failed query.\<close>

definition db_get_session :: "bytes \<Rightarrow> database \<Rightarrow> SessionMeta option option \<times> database" where
  "db_get_session i d =
     (case db_call d of (ok, d1) \<Rightarrow> (if ok then Some (map_of (db_rows d1) i) else None, d1))"

text \<open>A failed query counts as absent.\<close>

definition db_session_exists :: "bytes \<Rightarrow> database \<Rightarrow> bool \<times> database" where
  "db_session_exists i d =
     (case db_call d of (ok, d1) \<Rightarrow> (ok \<and> map_of (db_rows d1) i \<noteq> None, d1))"

section \<open>Attaching\<close>

definition attach_stream_status ::
  "bytes \<Rightarrow> ('e, 'j) SessionStore \<Rightarrow> (SessionError + bool \<times> bool \<times> int option) \<times> ('e, 'j) SessionStore" where
  "attach_stream_status i s =
     (case lookup_runtime i s of
        Inr rt \<Rightarrow> (Inr (\<not> is_completed rt, rt_output_closed rt, sm_exit_code (rt_meta rt)), s)
      | Inl err \<Rightarrow>
          (case db_get_session i (ss_db s) of (row, d) \<Rightarrow>
             ((case row of Some (Some m) \<Rightarrow> Inr (False, True, sm_exit_code m) | _ \<Rightarrow> Inl err), s\<lparr>ss_db := d\<rparr>)))"

definition persisted_session_dir :: "bytes \<Rightarrow> ('e, 'j) SessionStore \<Rightarrow> bool \<times> ('e, 'j) SessionStore" where
  "persisted_session_dir i s =
     (case db_session_exists i (ss_db s) of (found, d) \<Rightarrow> (found \<and> i \<in> set (db_dirs d), s\<lparr>ss_db := d\<rparr>))"

definition attach_register ::
  "'e engine_ops \<Rightarrow> 'j journal_ops \<Rightarrow> nat \<Rightarrow> bool \<Rightarrow> bytes \<Rightarrow> AttachKind \<Rightarrow> AttachRole \<Rightarrow> (nat \<times> nat) option
     \<Rightarrow> ('e, 'j) SessionStore \<Rightarrow> (SessionError + nat \<times> AttachRole) \<times> ('e, 'j) SessionStore" where
  "attach_register E J now os_ok i kind role viewport s =
     (case lookup_runtime i s of
        Inl err \<Rightarrow> (Inl err, s)
      | Inr rt \<Rightarrow>
          (case register_attachment E J now os_ok kind role viewport rt of ((a, granted, _), rt') \<Rightarrow>
             (Inr (a, granted), write_runtime i rt' s)))"

text \<open>The data as chunks with their offsets, the end of the persisted stream, and the modes.\<close>

definition attach_subscribe_init ::
  "'e engine_ops \<Rightarrow> persisted \<Rightarrow> bytes \<Rightarrow> nat option \<Rightarrow> ('e, 'j) SessionStore
     \<Rightarrow> SessionError + (nat \<times> bytes) list \<times> nat \<times> ModeSnapshot" where
  "attach_subscribe_init E P i from_byte_offset s =
     (case lookup_runtime i s of
        Inl err \<Rightarrow> Inl err
      | Inr rt \<Rightarrow>
          let offset = (case from_byte_offset of Some n \<Rightarrow> n | None \<Rightarrow> 0)
          in if \<not> pd_has_journal P i then Inl Evicted
             else case pd_stream_from P i offset of
                    Inl _ \<Rightarrow> Inl Evicted
                  | Inr (data, end_offset) \<Rightarrow>
                      Inr (if data = [] then [] else [(offset, data)], end_offset, mode_snapshot E rt))"

definition attach_resync_window ::
  "persisted \<Rightarrow> bytes \<Rightarrow> nat \<Rightarrow> nat \<Rightarrow> ('e, 'j) SessionStore \<Rightarrow> (SessionError + bytes) \<times> ('e, 'j) SessionStore" where
  "attach_resync_window P i from_offset max_bytes s =
     (let window = (case pd_stream_window P i from_offset max_bytes of Inl _ \<Rightarrow> Inl Evicted | Inr data \<Rightarrow> Inr data)
      in case lookup_runtime i s of
           Inr rt \<Rightarrow> (window, s)
         | Inl err \<Rightarrow>
             (case persisted_session_dir i s of (found, s1) \<Rightarrow> (if found then window else Inl err, s1)))"

definition attach_report_applied :: "bytes \<Rightarrow> nat \<Rightarrow> nat \<Rightarrow> ('e, 'j) SessionStore \<Rightarrow> ('e, 'j) SessionStore" where
  "attach_report_applied i a cursor s =
     (case lookup_runtime i s of
        Inl _ \<Rightarrow> s
      | Inr rt \<Rightarrow> write_runtime i (rt\<lparr>rt_attachments := report_applied a cursor (rt_attachments rt)\<rparr>) s)"

definition attachment_credit_cell :: "bytes \<Rightarrow> nat \<Rightarrow> ('e, 'j) SessionStore \<Rightarrow> nat option" where
  "attachment_credit_cell i a s =
     (case lookup_runtime i s of Inl _ \<Rightarrow> None | Inr rt \<Rightarrow> credit_cell (rt_attachments rt) a)"

section \<open>The length of the stream\<close>

text \<open>The cache is cleared whole when it is full.\<close>

definition cache_insert :: "bytes \<Rightarrow> nat \<Rightarrow> nat \<Rightarrow> ('e, 'j) SessionStore \<Rightarrow> ('e, 'j) SessionStore" where
  "cache_insert i incarnation len s =
     (let cache = (if PERSISTED_STREAM_LEN_CACHE_ENTRIES \<le> length (ss_persisted_stream_len_cache s)
                   then [] else ss_persisted_stream_len_cache s)
      in s\<lparr>ss_persisted_stream_len_cache := AList.update i (incarnation, len) cache\<rparr>)"

definition persisted_len_scan ::
  "persisted \<Rightarrow> bytes \<Rightarrow> nat \<Rightarrow> ('e, 'j) SessionStore \<Rightarrow> nat option \<times> ('e, 'j) SessionStore" where
  "persisted_len_scan P i incarnation s =
     (case pd_stream_len P i of
        Inl _ \<Rightarrow> (None, s)
      | Inr len \<Rightarrow> (Some len, cache_insert i incarnation len s))"

definition persisted_filtered_len_in ::
  "persisted \<Rightarrow> bytes \<Rightarrow> ('e, 'j) SessionStore \<Rightarrow> nat option \<times> ('e, 'j) SessionStore" where
  "persisted_filtered_len_in P i s =
     (if \<not> pd_has_journal P i then (None, s)
      else case Option.bind (pd_incarnations P i) last_option of
        None \<Rightarrow> (None, s)
      | Some incarnation \<Rightarrow>
          (case map_of (ss_persisted_stream_len_cache s) i of
             Some (cached_incarnation, len) \<Rightarrow> if cached_incarnation = incarnation then (Some len, s)
               else persisted_len_scan P i incarnation s
           | None \<Rightarrow> persisted_len_scan P i incarnation s))"

definition persisted_filtered_len ::
  "persisted \<Rightarrow> bytes \<Rightarrow> ('e, 'j) SessionStore \<Rightarrow> nat option \<times> ('e, 'j) SessionStore" where
  "persisted_filtered_len P i s =
     (case persisted_session_dir i s of (found, s1) \<Rightarrow>
        if found then persisted_filtered_len_in P i s1 else (None, s1))"

definition attach_filtered_len ::
  "persisted \<Rightarrow> bytes \<Rightarrow> ('e, 'j) SessionStore \<Rightarrow> nat option \<times> ('e, 'j) SessionStore" where
  "attach_filtered_len P i s =
     (case lookup_runtime i s of
        Inr rt \<Rightarrow> (Some (rt_filtered_total_bytes rt), s)
      | Inl _ \<Rightarrow> persisted_filtered_len P i s)"

definition attach_snapshot_init ::
  "'e engine_ops \<Rightarrow> bytes \<Rightarrow> ('e, 'j) SessionStore \<Rightarrow> SessionError + bytes \<times> nat \<times> ModeSnapshot" where
  "attach_snapshot_init E i s =
     (case lookup_runtime i s of
        Inl err \<Rightarrow> Inl err
      | Inr rt \<Rightarrow> Inr (attach_snapshot_bytes E rt, rt_filtered_total_bytes rt, mode_snapshot E rt))"

definition subscribe_resize :: "bytes \<Rightarrow> ('e, 'j) SessionStore \<Rightarrow> (nat \<times> nat) option option" where
  "subscribe_resize i s = map_option rt_pty_size (map_of (ss_sessions s) i)"

definition attach_detach ::
  "bytes \<Rightarrow> nat \<Rightarrow> ('e, 'j) SessionStore \<Rightarrow> (SessionError + unit) \<times> ('e, 'j) SessionStore" where
  "attach_detach i a s =
     (case lookup_runtime i s of
        Inl err \<Rightarrow> (Inl err, s)
      | Inr rt \<Rightarrow> (Inr (), write_runtime i (unregister_attachment a rt) s))"

section \<open>Input and geometry\<close>

definition check_control :: "('e, 'j) SessionRuntime \<Rightarrow> nat \<Rightarrow> SessionError + unit" where
  "check_control rt a =
     (if \<not> contains (rt_attachments rt) a then Inl StaleAttachment
      else if can_control (rt_attachments rt) a then Inr () else Inl ViewOnly)"

definition PTY_WRITER_QUEUE_CAPACITY :: nat where
  "PTY_WRITER_QUEUE_CAPACITY = 4096"

datatype send_result = SendOk | SendFull | SendClosed

text \<open>The writer thread takes from the queue concurrently, so it may be shorter than what was put in.\<close>

definition try_write_input :: "bytes \<Rightarrow> PtyHandle \<Rightarrow> send_result \<times> PtyHandle" where
  "try_write_input data h =
     (if \<not> ph_writer_open h then (SendClosed, h)
      else if PTY_WRITER_QUEUE_CAPACITY \<le> length (ph_queue h) then (SendFull, h)
      else (SendOk, h\<lparr>ph_queue := ph_queue h @ [data]\<rparr>))"

definition input_gate :: "('e, 'j) SessionRuntime \<Rightarrow> nat option \<Rightarrow> SessionError + unit" where
  "input_gate rt attachment = (case attachment of Some a \<Rightarrow> check_control rt a | None \<Rightarrow> Inr ())"

text \<open>Without the wait for a change of the output, which changes nothing.\<close>

definition attach_input_action ::
  "nat \<Rightarrow> bytes \<Rightarrow> nat option \<Rightarrow> (('e, 'j) SessionRuntime \<Rightarrow> SessionError + bytes)
     \<Rightarrow> ('e, 'j) SessionStore \<Rightarrow> (SessionError + unit) \<times> ('e, 'j) SessionStore" where
  "attach_input_action now i attachment resolve s =
     (case lookup_runtime i s of
        Inl err \<Rightarrow> (Inl err, s)
      | Inr rt \<Rightarrow>
          (case bind_result (input_gate rt attachment) (\<lambda>_. resolve rt) of
             Inl err \<Rightarrow> (Inl err, s)
           | Inr data \<Rightarrow>
               (case try_write_input data (rt_pty rt) of
                  (SendOk, h) \<Rightarrow>
                    (Inr (), write_runtime i ((mark_attach_activity now (rt\<lparr>rt_pty := h\<rparr>))\<lparr>rt_last_input_at := Some now\<rparr>) s)
                | (SendFull, _) \<Rightarrow> (Inl Busy, s)
                | (SendClosed, _) \<Rightarrow> (Inl Evicted, s))))"

definition attach_input where
  "attach_input now i attachment data s = attach_input_action now i attachment (\<lambda>_. Inr data) s"

text \<open>The texts of \<open>src/mouse.rs\<close>.\<close>

definition mouse_message :: "mouse_error \<Rightarrow> bytes" where
  "mouse_message err =
     (case err of
        MouseUsage \<Rightarrow>
          ascii ''use mouse:left@col,row, mouse:middle@col,row, mouse:right@col,row, ''
          @ ascii ''or mouse:wheel; append +N for 1..1000 clicks/ticks (wheel -N scrolls down); ''
          @ ascii ''1-based @col,row is required for clicks and optional for wheel, e.g. mouse:left+2@2,3''
      | PositionRequired button \<Rightarrow>
          ascii ''mouse:'' @ button @ ascii '' requires @col,row (1-based viewport coordinates), e.g. mouse:''
          @ button @ ascii ''@2,3''
      | ReportingDisabled \<Rightarrow>
          ascii ''mouse reporting is disabled; ''
          @ ascii ''use the application's keys (for example key:pgup or key:pgdn)''
      | OutsideViewport cols rows \<Rightarrow>
          ascii ''mouse position is outside the live viewport ('' @ ascii (show_dec cols)
          @ ascii '' columns, '' @ ascii (show_dec rows) @ ascii '' rows)''
      | LegacyPosition \<Rightarrow>
          ascii ''mouse position cannot be represented by legacy X11 encoding (maximum column/row 223); ''
          @ ascii ''use a smaller position or enable SGR mouse reporting'')"

definition resolve_mouse ::
  "'e engine_ops \<Rightarrow> MouseInput \<Rightarrow> ('e, 'j) SessionRuntime \<Rightarrow> SessionError + bytes" where
  "resolve_mouse E input rt =
     (if is_completed rt \<or> rt_output_closed rt then Inl NotRunning
      else
        let modes = mode_snapshot E rt; (rows, cols) = en_size E (rt_engine rt)
        in case mouse_encode input rows cols (md_mouse_report modes) (md_sgr_mouse modes) of
             Inl err \<Rightarrow> Inl (InvalidInput (mouse_message err))
           | Inr data \<Rightarrow> Inr data)"

definition attach_mouse ::
  "'e engine_ops \<Rightarrow> nat \<Rightarrow> bytes \<Rightarrow> bytes \<Rightarrow> ('e, 'j) SessionStore
     \<Rightarrow> (SessionError + unit) \<times> ('e, 'j) SessionStore" where
  "attach_mouse E now i spec s =
     (case parse_mouse_spec spec of
        Inl err \<Rightarrow> (Inl (InvalidInput (mouse_message err)), s)
      | Inr input \<Rightarrow> attach_input_action now i None (resolve_mouse E input) s)"

definition attach_busy ::
  "nat \<Rightarrow> bytes \<Rightarrow> ('e, 'j) SessionStore \<Rightarrow> (SessionError + unit) \<times> ('e, 'j) SessionStore" where
  "attach_busy now i s =
     (case lookup_runtime i s of
        Inl err \<Rightarrow> (Inl err, s)
      | Inr rt \<Rightarrow>
          (Inr (), send_event (SessionUpdated i)
             (write_runtime i ((mark_attach_activity now rt)\<lparr>rt_last_output_epoch := Some now\<rparr>) s)))"

definition attach_resize ::
  "'e engine_ops \<Rightarrow> 'j journal_ops \<Rightarrow> nat \<Rightarrow> bool \<Rightarrow> bytes \<Rightarrow> nat option \<Rightarrow> nat \<Rightarrow> nat
     \<Rightarrow> ('e, 'j) SessionStore \<Rightarrow> (SessionError + unit) \<times> ('e, 'j) SessionStore" where
  "attach_resize E J now os_ok i attachment rows cols s =
     (case lookup_runtime i s of
        Inl err \<Rightarrow> (Inl err, s)
      | Inr rt \<Rightarrow>
          (case input_gate rt attachment of
             Inl err \<Rightarrow> (Inl err, s)
           | Inr _ \<Rightarrow>
               let rt1 = (case attachment of
                            Some a \<Rightarrow> rt\<lparr>rt_attachments := set_viewport a rows cols (rt_attachments rt)\<rparr>
                          | None \<Rightarrow> rt);
                   (resized, rt2) = resize_pty E J os_ok rows cols (mark_attach_activity now rt1)
               in (if resized then Inr () else Inl Evicted, write_runtime i rt2 s)))"

text \<open>\<open>wait_for_output_change\<close>: each poll reads the counter, with the time since the wait began.\<close>

definition ATTACH_INPUT_OUTPUT_WAIT_TIMEOUT :: nat where
  "ATTACH_INPUT_OUTPUT_WAIT_TIMEOUT = 3000"

fun wait_for_output_change :: "nat \<Rightarrow> (nat \<times> nat) list \<Rightarrow> bool waiting" where
  "wait_for_output_change initial_total_bytes [] = StillWaiting"
| "wait_for_output_change initial_total_bytes ((elapsed, current_total_bytes) # polls) =
     (if current_total_bytes \<noteq> initial_total_bytes then Waited True
      else if ATTACH_INPUT_OUTPUT_WAIT_TIMEOUT \<le> elapsed then Waited False
      else wait_for_output_change initial_total_bytes polls)"

definition scrollback_seed_bytes :: "bytes \<Rightarrow> nat \<Rightarrow> bytes" where
  "scrollback_seed_bytes seed rows =
     [0x1b] @ ascii ''[r'' @ [0x1b] @ ascii ''[H'' @ [0x1b] @ ascii ''[0J''
     @ concat (map (\<lambda>b. if b = 10 then [13, b] else [b]) seed)
     @ replicate (max rows 1 - 1) 10 @ [0x1b] @ ascii ''[H''"

section \<open>Queries and metadata\<close>

definition get_exit_code :: "bytes \<Rightarrow> ('e, 'j) SessionStore \<Rightarrow> int option" where
  "get_exit_code i s = Option.bind (map_of (ss_sessions s) i) (\<lambda>rt. sm_exit_code (rt_meta rt))"

definition is_running :: "bytes \<Rightarrow> ('e, 'j) SessionStore \<Rightarrow> bool" where
  "is_running i s = (case map_of (ss_sessions s) i of Some rt \<Rightarrow> \<not> is_completed rt | None \<Rightarrow> False)"

definition shared_modes :: "bytes \<Rightarrow> ('e, 'j) SessionStore \<Rightarrow> ModeSnapshot option" where
  "shared_modes i s = map_option (\<lambda>rt. SharedModes_load (rt_shared_modes rt)) (map_of (ss_sessions s) i)"

definition disk_incarnation :: "persisted \<Rightarrow> bytes \<Rightarrow> nat option" where
  "disk_incarnation P i = Option.bind (pd_incarnations P i) last_option"

definition journal_incarnation ::
  "'j journal_ops \<Rightarrow> persisted \<Rightarrow> bytes \<Rightarrow> ('e, 'j) SessionStore \<Rightarrow> nat option" where
  "journal_incarnation J P i s =
     (case map_of (ss_sessions s) i of
        Some rt \<Rightarrow> (case rt_journal rt of Some j \<Rightarrow> Some (jo_incarnation J j) | None \<Rightarrow> disk_incarnation P i)
      | None \<Rightarrow> disk_incarnation P i)"

text \<open>\<open>set_notifications_enabled\<close> of the store: the runtime first, undone when the row cannot be written.\<close>

definition store_set_notifications ::
  "bytes \<Rightarrow> bool \<Rightarrow> ('e, 'j) SessionStore \<Rightarrow> (SessionError + unit) \<times> ('e, 'j) SessionStore" where
  "store_set_notifications i enabled s =
     (case lookup_runtime i s of
        Inl err \<Rightarrow> (Inl err, s)
      | Inr rt \<Rightarrow>
          if is_completed rt then (Inl NotRunning, s)
          else
            let previous = rt_notifications_enabled rt;
                rt1 = set_notifications_enabled enabled rt
            in case db_update_session (rt_meta rt1) (ss_db s) of
                 (True, d) \<Rightarrow> (Inr (), write_runtime i rt1 (s\<lparr>ss_db := d\<rparr>))
               | (False, d) \<Rightarrow>
                   (Inl (Persistence []), write_runtime i (set_notifications_enabled previous rt1) (s\<lparr>ss_db := d\<rparr>)))"

section \<open>What clients can do\<close>

lemma sessions_write [simp]:
  "map_of (ss_sessions (write_runtime i rt s)) = (map_of (ss_sessions s))(i \<mapsto> rt)"
  "ss_evicted_sessions (write_runtime i rt s) = ss_evicted_sessions s"
  by (simp_all add: write_runtime_def AList.update_conv')

lemma sessions_send [simp]: "ss_sessions (send_event e s) = ss_sessions s"
  by (simp add: send_event_def)

lemma lookup_found: "map_of (ss_sessions s) i = Some rt \<Longrightarrow> lookup_runtime i s = Inr rt"
  by (simp add: lookup_runtime_def)

text \<open>The operations of attached clients on one session.\<close>

datatype client_op =
    ClientRegister nat bool AttachKind AttachRole "(nat \<times> nat) option"
  | ClientInput nat nat bytes
  | ClientResize nat bool nat nat nat
  | ClientApplied nat nat
  | ClientDetach nat
  | ClientBusy nat

fun client_apply ::
  "'e engine_ops \<Rightarrow> 'j journal_ops \<Rightarrow> bytes \<Rightarrow> client_op \<Rightarrow> ('e, 'j) SessionStore \<Rightarrow> ('e, 'j) SessionStore" where
  "client_apply E J i (ClientRegister now os_ok kind role viewport) s =
     snd (attach_register E J now os_ok i kind role viewport s)"
| "client_apply E J i (ClientInput now a data) s = snd (attach_input now i (Some a) data s)"
| "client_apply E J i (ClientResize now os_ok a rows cols) s =
     snd (attach_resize E J now os_ok i (Some a) rows cols s)"
| "client_apply E J i (ClientApplied a cursor) s = attach_report_applied i a cursor s"
| "client_apply E J i (ClientDetach a) s = snd (attach_detach i a s)"
| "client_apply E J i (ClientBusy now) s = snd (attach_busy now i s)"

definition client_ops ::
  "'e engine_ops \<Rightarrow> 'j journal_ops \<Rightarrow> bytes \<Rightarrow> client_op list \<Rightarrow> ('e, 'j) SessionStore \<Rightarrow> ('e, 'j) SessionStore" where
  "client_ops E J i ops s = fold (client_apply E J i) ops s"

text \<open>What the program in the terminal notices: its input and its geometry; and what is recorded.\<close>

definition driven_view where
  "driven_view rt = (rt_pty rt, rt_pty_size rt, rt_engine rt, facts_view rt, rt_filtered_total_bytes rt, rt_meta rt)"

text \<open>An operation of clients that only watch: registrations as observers, and anything under an
  attachment that may not control.\<close>

fun watching :: "AttachmentRegistry \<Rightarrow> client_op \<Rightarrow> bool" where
  "watching g (ClientRegister now os_ok kind role viewport) \<longleftrightarrow> role = Observer"
| "watching g (ClientInput now a data) \<longleftrightarrow> \<not> can_control g a"
| "watching g (ClientResize now os_ok a rows cols) \<longleftrightarrow> \<not> can_control g a"
| "watching g _ \<longleftrightarrow> True"

lemma control_update:
  "can_control (report_applied a c g) b = can_control g b" "can_control (set_viewport a r k g) b = can_control g b"
  "can_control (snd (unregister a g)) b \<Longrightarrow> can_control g b"
  by (auto simp: can_control_def report_applied_def set_viewport_def modify_attachment_def unregister_def
      AList.update_conv' AList.delete_conv' split: option.splits if_splits)

lemma register_control:
  assumes "register now kind Observer viewport g = ((i, r), g')"
  shows "r = Observer" "can_control g' b \<Longrightarrow> can_control g b"
  using assms by (auto simp: register_def can_control_def Let_def AList.update_conv' split: option.splits if_splits)

lemma watching_mono:
  assumes "watching g op" and "\<And>a. can_control g' a \<Longrightarrow> can_control g a"
  shows "watching g' op"
  using assms by (cases op) auto

lemma watching_step:
  assumes "map_of (ss_sessions s) i = Some rt" and "watching (rt_attachments rt) op"
  shows "\<exists>rt'. map_of (ss_sessions (client_apply E J i op s)) i = Some rt' \<and> driven_view rt' = driven_view rt
     \<and> (\<forall>a. can_control (rt_attachments rt') a \<longrightarrow> can_control (rt_attachments rt) a)"
proof (cases op)
  case (ClientRegister now os_ok kind role viewport)
  then have role: "role = Observer" using assms(2) by simp
  obtain a r g where reg: "register now kind Observer viewport (rt_attachments rt) = ((a, r), g)"
    by (metis prod.collapse)
  let ?rt = "rt\<lparr>rt_last_attach_activity_at := Some now, rt_attachments := g\<rparr>"
  have "register_attachment E J now os_ok kind Observer viewport rt = ((a, r, False), ?rt)"
    using reg register_control(1) [OF reg] by (simp add: register_attachment_def Let_def split: option.splits)
  with ClientRegister role assms(1) register_control(2) [OF reg] show ?thesis
    by (simp add: attach_register_def lookup_found driven_view_def facts_view_def)
next
  case (ClientInput now a data)
  with assms show ?thesis
    by (simp add: attach_input_def attach_input_action_def lookup_found input_gate_def check_control_def)
next
  case (ClientResize now os_ok a rows cols)
  with assms show ?thesis
    by (simp add: attach_resize_def lookup_found input_gate_def check_control_def)
qed (use assms in \<open>auto simp: attach_report_applied_def attach_detach_def attach_busy_def lookup_found
      driven_view_def facts_view_def unregister_attachment_def mark_attach_activity_def control_update\<close>)

text \<open>C8. Clients that only watch never drive a session: whatever observers and clients without a valid
  token do, registering, sending input, resizing, reporting credits, in any order, the program's
  input queue, the geometry, the screen, the metadata and everything recorded stay as they were.\<close>

theorem observers_never_drive:
  assumes "map_of (ss_sessions s) i = Some rt" and "list_all (watching (rt_attachments rt)) ops"
  shows "\<exists>rt'. map_of (ss_sessions (client_ops E J i ops s)) i = Some rt' \<and> driven_view rt' = driven_view rt"
  using assms
proof (induction ops arbitrary: s rt)
  case Nil
  then show ?case by (simp add: client_ops_def)
next
  case (Cons op ops)
  from watching_step [of s i rt op E J] Cons.prems obtain rt1 where
    rt1: "map_of (ss_sessions (client_apply E J i op s)) i = Some rt1" "driven_view rt1 = driven_view rt"
    "\<And>a. can_control (rt_attachments rt1) a \<Longrightarrow> can_control (rt_attachments rt) a" by auto
  have "list_all (watching (rt_attachments rt1)) ops"
    using Cons.prems(2) watching_mono rt1(3) by (simp add: list_all_iff) blast
  from Cons.IH [OF rt1(1) this] rt1(2) show ?case by (simp add: client_ops_def)
qed

text \<open>Every operation of a client is a run of the session's steps.\<close>

fun op_fits :: "client_op \<Rightarrow> bool" where
  "op_fits (ClientRegister now os_ok kind role viewport) \<longleftrightarrow>
     pred_option (\<lambda>(rows, cols). rows < 2 ^ 16 \<and> cols < 2 ^ 16) viewport"
| "op_fits (ClientResize now os_ok a rows cols) \<longleftrightarrow> rows < 2 ^ 16 \<and> cols < 2 ^ 16"
| "op_fits _ \<longleftrightarrow> True"

lemma run_one: "session_step b64 bare E J s t \<Longrightarrow> session_run b64 bare E J s t"
  by (meson session_run.further session_run.here)

lemma run_trans:
  assumes "session_run b64 bare E J t u" and "session_run b64 bare E J s t"
  shows "session_run b64 bare E J s u"
  using assms by (induction rule: session_run.induct) (auto intro: session_run.further)

lemma run_bookkeeping:
  assumes "facts_view rt' = facts_view (se_runtime s)"
    and "rt_filtered_total_bytes rt' = rt_filtered_total_bytes (se_runtime s)"
  shows "session_run b64 bare E J s (s\<lparr>se_runtime := rt'\<rparr>)"
  by (rule run_one) (rule session_step.bookkeeping [OF assms])

lemma client_step_runs:
  assumes "map_of (ss_sessions s) i = Some (se_runtime se)" and "op_fits op"
  shows "\<exists>rt'. map_of (ss_sessions (client_apply E J i op s)) i = Some rt'
     \<and> session_run b64 bare E J se (se\<lparr>se_runtime := rt'\<rparr>)"
proof (cases op)
  case (ClientRegister now os_ok kind role viewport)
  let ?r = "register_attachment E J now os_ok kind role viewport (se_runtime se)"
  have "session_run b64 bare E J se (se\<lparr>se_runtime := snd ?r\<rparr>)"
    using run_one [OF session_step.attach [of viewport b64 bare E J se now os_ok kind role]] ClientRegister assms(2) by simp
  with ClientRegister assms(1) show ?thesis
    by (cases ?r) (auto simp: attach_register_def lookup_found)
next
  case (ClientInput now a data)
  obtain r h where w: "try_write_input data (rt_pty (se_runtime se)) = (r, h)" by (rule prod.exhaust)
  have "session_run b64 bare E J se (se\<lparr>se_runtime :=
      (mark_attach_activity now ((se_runtime se)\<lparr>rt_pty := h\<rparr>))\<lparr>rt_last_input_at := Some now\<rparr>\<rparr>)"
    by (rule run_bookkeeping) (simp_all add: facts_view_def mark_attach_activity_def)
  with ClientInput assms(1) w session_run.here [of b64 bare E J se] show ?thesis
    by (cases "check_control (se_runtime se) a"; cases r)
      (auto simp: attach_input_def attach_input_action_def lookup_found input_gate_def)
next
  case (ClientResize now os_ok a rows cols)
  let ?rt1 = "mark_attach_activity now ((se_runtime se)\<lparr>rt_attachments := set_viewport a rows cols (rt_attachments (se_runtime se))\<rparr>)"
  have 1: "session_run b64 bare E J se (se\<lparr>se_runtime := ?rt1\<rparr>)"
    by (rule run_bookkeeping) (simp_all add: facts_view_def mark_attach_activity_def)
  have "session_run b64 bare E J (se\<lparr>se_runtime := ?rt1\<rparr>) (se\<lparr>se_runtime := snd (resize_pty E J os_ok rows cols ?rt1)\<rparr>)"
    using run_one [OF session_step.resize [of rows cols b64 bare E J "se\<lparr>se_runtime := ?rt1\<rparr>" os_ok]] ClientResize assms(2)
    by simp
  with run_trans [OF this 1] ClientResize assms(1) session_run.here [of b64 bare E J se] show ?thesis
    by (auto simp: attach_resize_def lookup_found input_gate_def check_control_def Let_def split: prod.splits)
next
  case (ClientApplied a cursor)
  with run_bookkeeping [of "(se_runtime se)\<lparr>rt_attachments := report_applied a cursor (rt_attachments (se_runtime se))\<rparr>" se]
    assms(1) show ?thesis by (simp add: attach_report_applied_def lookup_found facts_view_def)
next
  case (ClientDetach a)
  with run_bookkeeping [of "unregister_attachment a (se_runtime se)" se] assms(1) show ?thesis
    by (simp add: attach_detach_def lookup_found facts_view_def unregister_attachment_def)
next
  case (ClientBusy now)
  with run_bookkeeping [of "(mark_attach_activity now (se_runtime se))\<lparr>rt_last_output_epoch := Some now\<rparr>" se] assms(1)
  show ?thesis by (simp add: attach_busy_def lookup_found facts_view_def mark_attach_activity_def)
qed

lemma client_ops_run:
  assumes "map_of (ss_sessions s) i = Some (se_runtime se)" and "list_all op_fits ops"
  shows "\<exists>rt'. map_of (ss_sessions (client_ops E J i ops s)) i = Some rt'
     \<and> session_run b64 bare E J se (se\<lparr>se_runtime := rt'\<rparr>)"
  using assms
proof (induction ops arbitrary: s se)
  case Nil
  then show ?case using session_run.here [of b64 bare E J se] by (simp add: client_ops_def)
next
  case (Cons op ops)
  from client_step_runs [of s i se op E J b64 bare] Cons.prems obtain rt1 where
    rt1: "map_of (ss_sessions (client_apply E J i op s)) i = Some rt1" "session_run b64 bare E J se (se\<lparr>se_runtime := rt1\<rparr>)"
    by auto
  from Cons.IH [of "client_apply E J i op s" "se\<lparr>se_runtime := rt1\<rparr>"] rt1(1) Cons.prems(2) obtain rt' where
    "map_of (ss_sessions (client_ops E J i (op # ops) s)) i = Some rt'"
    "session_run b64 bare E J (se\<lparr>se_runtime := rt1\<rparr>) (se\<lparr>se_runtime := rt'\<rparr>)"
    by (auto simp: client_ops_def)
  with run_trans rt1(2) show ?case by blast
qed

text \<open>The conditions of the refusals, in the order in which they are tested.\<close>

lemma input_refusals:
  assumes "attach_input now i (Some a) data s = (r, s')"
  shows "r = Inl NotRunning \<longleftrightarrow> map_of (ss_sessions s) i = None \<and> map_of (ss_evicted_sessions s) i = None"
    and "r = Inl Evicted \<longleftrightarrow> map_of (ss_sessions s) i = None \<and> map_of (ss_evicted_sessions s) i \<noteq> None
       \<or> (\<exists>rt. map_of (ss_sessions s) i = Some rt \<and> can_control (rt_attachments rt) a
              \<and> \<not> ph_writer_open (rt_pty rt))"
    and "r = Inl StaleAttachment \<longleftrightarrow>
       (\<exists>rt. map_of (ss_sessions s) i = Some rt \<and> map_of (rg_attachments (rt_attachments rt)) a = None)"
    and "r = Inl ViewOnly \<longleftrightarrow>
       (\<exists>rt at. map_of (ss_sessions s) i = Some rt \<and> map_of (rg_attachments (rt_attachments rt)) a = Some at
              \<and> at_role at \<noteq> Controller)"
    and "r = Inl Busy \<longleftrightarrow>
       (\<exists>rt. map_of (ss_sessions s) i = Some rt \<and> can_control (rt_attachments rt) a
              \<and> ph_writer_open (rt_pty rt) \<and> PTY_WRITER_QUEUE_CAPACITY \<le> length (ph_queue (rt_pty rt)))"
  using assms
  by (auto simp: attach_input_def attach_input_action_def lookup_runtime_def input_gate_def
      check_control_def can_control_def contains_def try_write_input_def bind_result_def
      split: option.splits if_splits)

lemma input_accepted:
  assumes "attach_input now i (Some a) data s = (r, s')"
  shows "(r = Inr () \<longleftrightarrow> (\<exists>rt. map_of (ss_sessions s) i = Some rt \<and> can_control (rt_attachments rt) a
            \<and> ph_writer_open (rt_pty rt) \<and> length (ph_queue (rt_pty rt)) < PTY_WRITER_QUEUE_CAPACITY))
     \<and> (r = Inr () \<longrightarrow> (\<exists>rt rt'. map_of (ss_sessions s) i = Some rt \<and> map_of (ss_sessions s') i = Some rt'
            \<and> rt_pty rt' = (rt_pty rt)\<lparr>ph_queue := ph_queue (rt_pty rt) @ [data]\<rparr>
            \<and> driven_view (rt'\<lparr>rt_pty := rt_pty rt\<rparr>) = driven_view rt
            \<and> rt_last_input_at rt' = Some now \<and> (\<forall>k. k \<noteq> i \<longrightarrow> map_of (ss_sessions s') k = map_of (ss_sessions s) k)))
     \<and> (r \<noteq> Inr () \<longrightarrow> s' = s)"
proof (cases "map_of (ss_sessions s) i")
  case None
  with assms show ?thesis
    by (auto simp: attach_input_def attach_input_action_def lookup_runtime_def split: if_splits)
next
  case (Some rt)
  show ?thesis
  proof (cases "can_control (rt_attachments rt) a")
    case False
    with assms Some show ?thesis
      by (auto simp: attach_input_def attach_input_action_def lookup_found input_gate_def check_control_def split: if_splits)
  next
    case True
    then have "contains (rt_attachments rt) a" by (auto simp: can_control_def contains_def split: option.splits)
    with True have gate: "input_gate rt (Some a) = Inr ()" by (simp add: input_gate_def check_control_def)
    from assms Some gate True show ?thesis
      by (auto simp: attach_input_def attach_input_action_def lookup_found try_write_input_def driven_view_def facts_view_def
          mark_attach_activity_def split: if_splits)
  qed
qed

text \<open>C29. Input is all or nothing, and exact: it is accepted just when the session is live, the client
  may control it, the writer is open and its queue has room; then exactly the client's bytes join the
  queue, behind what was sent before, and nothing else of the program's view changes. Every refusal
  leaves the store as it was, and its error says why: an unknown session is not running, one with a
  tombstone or with a closed writer was evicted, an attachment that is not registered is stale, one
  without the role of a controller may only view, and a full queue is busy.\<close>

theorem input_is_exact:
  assumes "attach_input now i (Some a) data s = (r, s')"
  shows "(r = Inr () \<longleftrightarrow> (\<exists>rt. map_of (ss_sessions s) i = Some rt \<and> can_control (rt_attachments rt) a
            \<and> ph_writer_open (rt_pty rt) \<and> length (ph_queue (rt_pty rt)) < PTY_WRITER_QUEUE_CAPACITY))
     \<and> (r = Inr () \<longrightarrow> (\<exists>rt rt'. map_of (ss_sessions s) i = Some rt \<and> map_of (ss_sessions s') i = Some rt'
            \<and> rt_pty rt' = (rt_pty rt)\<lparr>ph_queue := ph_queue (rt_pty rt) @ [data]\<rparr>
            \<and> driven_view (rt'\<lparr>rt_pty := rt_pty rt\<rparr>) = driven_view rt
            \<and> rt_last_input_at rt' = Some now \<and> (\<forall>k. k \<noteq> i \<longrightarrow> map_of (ss_sessions s') k = map_of (ss_sessions s) k)))
     \<and> (r \<noteq> Inr () \<longrightarrow> s' = s)
     \<and> (r = Inl NotRunning \<longleftrightarrow> map_of (ss_sessions s) i = None \<and> map_of (ss_evicted_sessions s) i = None)
     \<and> (r = Inl Evicted \<longleftrightarrow> map_of (ss_sessions s) i = None \<and> map_of (ss_evicted_sessions s) i \<noteq> None
          \<or> (\<exists>rt. map_of (ss_sessions s) i = Some rt \<and> can_control (rt_attachments rt) a
                 \<and> \<not> ph_writer_open (rt_pty rt)))
     \<and> (r = Inl StaleAttachment \<longleftrightarrow>
          (\<exists>rt. map_of (ss_sessions s) i = Some rt \<and> map_of (rg_attachments (rt_attachments rt)) a = None))
     \<and> (r = Inl ViewOnly \<longleftrightarrow>
          (\<exists>rt at. map_of (ss_sessions s) i = Some rt
                 \<and> map_of (rg_attachments (rt_attachments rt)) a = Some at \<and> at_role at \<noteq> Controller))
     \<and> (r = Inl Busy \<longleftrightarrow>
          (\<exists>rt. map_of (ss_sessions s) i = Some rt \<and> can_control (rt_attachments rt) a
                 \<and> ph_writer_open (rt_pty rt) \<and> PTY_WRITER_QUEUE_CAPACITY \<le> length (ph_queue (rt_pty rt))))"
  by (intro conjI input_refusals [OF assms]) (use input_accepted [OF assms] in blast)+

section \<open>The cache of stream lengths\<close>

text \<open>An entry is right as long as its incarnation is the newest one: an ended session's stream does not
  change within an incarnation.\<close>

definition cache_ok :: "persisted \<Rightarrow> ('e, 'j) SessionStore \<Rightarrow> bool" where
  "cache_ok P s \<longleftrightarrow>
     (\<forall>i inc len. map_of (ss_persisted_stream_len_cache s) i = Some (inc, len) \<longrightarrow>
        disk_incarnation P i = Some inc \<longrightarrow> pd_stream_len P i = Inr len)
     \<and> length (ss_persisted_stream_len_cache s) \<le> PERSISTED_STREAM_LEN_CACHE_ENTRIES"

lemma update_length: "length (AList.update k v xs) \<le> Suc (length xs)"
  by (induction xs) auto

text \<open>The cache never shows: with or without it the length of an ended session is what replaying its
  journal gives, and it stays correct and within its bound.\<close>

theorem cached_length_is_exact:
  assumes "cache_ok P s" and "persisted_filtered_len_in P i s = (r, s')"
  shows "r = (if pd_has_journal P i \<and> disk_incarnation P i \<noteq> None
              then (case pd_stream_len P i of Inr len \<Rightarrow> Some len | Inl _ \<Rightarrow> None) else None)
     \<and> cache_ok P s'"
proof (cases "pd_has_journal P i \<and> disk_incarnation P i \<noteq> None")
  case False
  with assms show ?thesis
    by (auto simp: persisted_filtered_len_in_def disk_incarnation_def split: option.splits)
next
  case True
  then obtain inc where inc: "disk_incarnation P i = Some inc" by blast
  have scan: "fst (persisted_len_scan P i inc s) = (case pd_stream_len P i of Inr len \<Rightarrow> Some len | Inl _ \<Rightarrow> None)"
    "cache_ok P (snd (persisted_len_scan P i inc s))"
  proof -
    show "fst (persisted_len_scan P i inc s) = (case pd_stream_len P i of Inr len \<Rightarrow> Some len | Inl _ \<Rightarrow> None)"
      by (simp add: persisted_len_scan_def split: sum.splits)
    have "cache_ok P (cache_insert i inc len s)" if "pd_stream_len P i = Inr len" for len
      using assms(1) inc that update_length [of i "(inc, len)" "ss_persisted_stream_len_cache s"]
      by (auto simp: cache_ok_def cache_insert_def Let_def AList.update_conv' PERSISTED_STREAM_LEN_CACHE_ENTRIES_def
          split: if_splits)
    with assms(1) show "cache_ok P (snd (persisted_len_scan P i inc s))"
      by (simp add: persisted_len_scan_def split: sum.splits)
  qed
  show ?thesis
  proof (cases "\<exists>len. map_of (ss_persisted_stream_len_cache s) i = Some (inc, len)")
    case hit: True
    then obtain len where len: "map_of (ss_persisted_stream_len_cache s) i = Some (inc, len)" by blast
    with assms(1) inc have "pd_stream_len P i = Inr len" unfolding cache_ok_def by blast
    with assms True inc len show ?thesis
      by (simp add: persisted_filtered_len_in_def disk_incarnation_def)
  next
    case miss: False
    then have "persisted_filtered_len_in P i s = persisted_len_scan P i inc s"
      using True inc by (auto simp: persisted_filtered_len_in_def disk_incarnation_def split: option.splits)
    with assms(2) scan True show ?thesis by (cases "persisted_len_scan P i inc s") auto
  qed
qed

section \<open>Subscribing through the store\<close>

text \<open>The store as the pump's subscription asks it.\<close>

definition pump_store ::
  "'e engine_ops \<Rightarrow> 'j journal_ops \<Rightarrow> persisted \<Rightarrow> bytes \<Rightarrow> ('e, 'j) SessionStore \<Rightarrow> store_answers" where
  "pump_store E J P i s =
     \<lparr>sa_incarnation = journal_incarnation J P i s, sa_snapshot = attach_snapshot_init E i s,
      sa_replay = (\<lambda>off. case attach_subscribe_init E P i (Some off) s of
                     Inl err \<Rightarrow> Inl err
                   | Inr (chunks, end_offset, modes) \<Rightarrow> Inr (concat (map snd chunks), end_offset, modes)),
      sa_status = fst (attach_stream_status i s),
      sa_registered = (\<lambda>a. attachment_credit_cell i a s \<noteq> None)\<rparr>"

lemma subscribe_starts:
  assumes "map_of (ss_sessions s) i = Some rt"
    and "subscribe_with_policy (pump_store E J P i s) from_offset inc credit policy = Inr (p, ini, cell)"
  shows "pump_ok S p = (pu_current_offset p \<le> length S) \<and> pu_current_offset p = ai_end_offset ini
     \<and> (from_offset = None \<longrightarrow>
          ai_data ini = attach_snapshot_bytes E rt \<and> pu_current_offset p = rt_filtered_total_bytes rt)
     \<and> (\<forall>off. from_offset = Some off \<longrightarrow>
          inc \<noteq> None \<and> inc = journal_incarnation J P i s
          \<and> pd_stream_from P i off = Inr (ai_data ini, pu_current_offset p))
     \<and> (\<forall>a. credit = Credited a \<longrightarrow> contains (rt_attachments rt) a \<and> cell = Some (pu_current_offset p))"
proof -
  have st: "fst (attach_stream_status i s) = Inr (\<not> is_completed rt, rt_output_closed rt, sm_exit_code (rt_meta rt))"
    using assms(1) by (simp add: attach_stream_status_def lookup_found)
  have cell: "contains (rt_attachments rt) a" if "attachment_credit_cell i a s = Some y" for a y
    using assms(1) that by (auto simp: attachment_credit_cell_def lookup_found credit_cell_def contains_def)
  show ?thesis
  proof (cases from_offset)
    case None
    with assms st show ?thesis
      by (cases credit) (auto simp: subscribe_with_policy_def subscribe_init_def pump_store_def attach_snapshot_init_def
          lookup_found pump_ok_def Let_def dest: cell split: if_splits)
  next
    case (Some off)
    have data: "concat (map snd (if bs = [] then [] else [(off, bs)])) = bs" for bs :: bytes by simp
    from Some assms st show ?thesis
      by (cases credit; cases "pd_stream_from P i off")
        (auto simp: subscribe_with_policy_def subscribe_init_def pump_store_def attach_subscribe_init_def
          lookup_found data pump_ok_def Let_def dest: cell intro: sym split: if_splits prod.splits sum.splits)
  qed
qed

text \<open>Where a stream begins. A fresh attach gets the screen as it is now, and its live bytes go on
  from the stream's length at that moment; its credit, for which the client must be registered, starts
  there. A resume is accepted only under the session's own incarnation; it gets what is persisted from
  its offset on, and its live bytes go on from the end of the persisted stream, which need not have
  reached the offset yet.\<close>

theorem subscribe_boundary:
  assumes "map_of (ss_sessions s) i = Some rt"
    and "subscribe_with_policy (pump_store E J P i s) from_offset inc credit policy = Inr (p, ini, cell)"
  shows "pump_ok S p = (pu_current_offset p \<le> length S) \<and> pu_current_offset p = ai_end_offset ini
     \<and> (from_offset = None \<longrightarrow>
          ai_data ini = attach_snapshot_bytes E rt \<and> pu_current_offset p = rt_filtered_total_bytes rt)
     \<and> (\<forall>off. from_offset = Some off \<longrightarrow>
          inc \<noteq> None \<and> inc = journal_incarnation J P i s
          \<and> pd_stream_from P i off = Inr (ai_data ini, pu_current_offset p))
     \<and> (\<forall>a. credit = Credited a \<longrightarrow> contains (rt_attachments rt) a \<and> cell = Some (pu_current_offset p))"
  by (rule subscribe_starts [OF assms])

subsection \<open>A concrete store\<close>

definition idle_engine :: "unit engine_ops" where
  "idle_engine =
     \<lparr>en_feed = (\<lambda>_ e. ([], e)),
      en_modes = (\<lambda>_. \<lparr>em_alt_screen = False, em_app_cursor_keys = False, em_bracketed_paste = False,
                        em_mouse_report = False, em_sgr_mouse = False, em_focus_events = False\<rparr>),
      en_size = (\<lambda>_. (24, 80)), en_cursor_position = (\<lambda>_. (1, 1)), en_resize = (\<lambda>_ _ e. e),
      en_styled_history_rows = (\<lambda>_ _. []), en_snapshot_stream = (\<lambda>_. [])\<rparr>"

text \<open>A journal that accepts everything, as a list of what it was given.\<close>

definition list_journal :: "(RecordKind \<times> bytes) list journal_ops" where
  "list_journal =
     \<lparr>jo_record = (\<lambda>k p j. (Inr \<lparr>jc_incarnation = 1, jc_seq = length j + 1\<rparr>, j @ [(k, p)])), jo_poll_acks = id,
      jo_request_sync = id, jo_is_degraded = (\<lambda>_. False), jo_is_fully_durable = (\<lambda>_. True),
      jo_incarnation = (\<lambda>_. 1)\<rparr>"

definition demo_meta :: SessionMeta where
  "demo_meta =
     \<lparr>sm_id = [49], sm_title = None, sm_tags = [], sm_command = ascii ''sh'', sm_args = [], sm_cwd = None,
      sm_created_at = 0, sm_started_at = Some 0, sm_ended_at = None, sm_resume_command = None,
      sm_status = StRunning, sm_pid = None, sm_exit_code = None, sm_notifications_enabled = True,
      sm_foreground_color = None, sm_background_color = None\<rparr>"

definition demo_runtime :: "(unit, (RecordKind \<times> bytes) list) SessionRuntime" where
  "demo_runtime = (runtime_new list_journal demo_meta 0 24 80 100 True () [55] [])
     \<lparr>rt_attachments := \<lparr>rg_next_id = 2, rg_attachments =
        [(1, \<lparr>at_id = 1, at_kind = Cli, at_role = Controller, at_connected_at = 0, at_viewport = None, at_applied_cursor = 0\<rparr>),
         (2, \<lparr>at_id = 2, at_kind = Web, at_role = Observer, at_connected_at = 0, at_viewport = None, at_applied_cursor = 0\<rparr>)]\<rparr>\<rparr>"

definition demo_db :: database where
  "demo_db = \<lparr>db_rows = [([49], demo_meta)], db_dirs = [[49]], db_faults = []\<rparr>"

definition demo_store :: "(unit, (RecordKind \<times> bytes) list) SessionStore" where
  "demo_store = (SessionStore_new 60 demo_db)\<lparr>ss_sessions := [([49], demo_runtime)]\<rparr>"

definition demo_persisted :: persisted where
  "demo_persisted =
     \<lparr>pd_has_journal = (\<lambda>i. i = [49]), pd_incarnations = (\<lambda>i. if i = [49] then Some [1] else None),
      pd_stream_from = (\<lambda>i off. Inr (drop off [104, 105], 2)),
      pd_stream_window = (\<lambda>i off n. Inr (take n (drop off [104, 105]))), pd_stream_len = (\<lambda>i. Inr 2)\<rparr>"

lemma demo_found: "map_of (ss_sessions demo_store) [49] = Some demo_runtime"
  by (simp add: demo_store_def)

theorem observers_never_drive_witness:
  "\<exists>rt'. map_of (ss_sessions (client_ops idle_engine list_journal [49]
       [ClientInput 5 2 [97], ClientRegister 6 True Web Observer (Some (10, 20)), ClientResize 7 True 3 30 90,
        ClientInput 8 9 [98], ClientBusy 9] demo_store)) [49] = Some rt'
     \<and> driven_view rt' = driven_view demo_runtime"
  by (rule observers_never_drive [OF demo_found]) (simp add: demo_runtime_def can_control_def)

theorem input_is_exact_witness:
  "fst (attach_input 5 [49] (Some 1) [97] demo_store) = Inr ()
   \<and> attach_input 5 [49] (Some 2) [97] demo_store = (Inl ViewOnly, demo_store)"
proof -
  have 1: "\<exists>rt. map_of (ss_sessions demo_store) [49] = Some rt \<and> can_control (rt_attachments rt) 1
      \<and> ph_writer_open (rt_pty rt) \<and> length (ph_queue (rt_pty rt)) < PTY_WRITER_QUEUE_CAPACITY"
    by (simp add: demo_found demo_runtime_def runtime_new_def can_control_def PTY_WRITER_QUEUE_CAPACITY_def)
  have 2: "\<exists>at. map_of (rg_attachments (rt_attachments demo_runtime)) 2 = Some at \<and> at_role at \<noteq> Controller"
    by (simp add: demo_runtime_def)
  note first = input_is_exact [of 5 "[49]" 1 "[97]" demo_store, OF prod.collapse [symmetric]]
  note second = input_is_exact [of 5 "[49]" 2 "[97]" demo_store, OF prod.collapse [symmetric]]
  have "fst (attach_input 5 [49] (Some 2) [97] demo_store) = Inl ViewOnly"
    using second 2 demo_found by blast
  moreover from this have "snd (attach_input 5 [49] (Some 2) [97] demo_store) = demo_store"
    using second by simp
  ultimately show ?thesis using first 1 by (simp add: prod_eq_iff)
qed

theorem cached_length_is_exact_witness:
  "fst (persisted_filtered_len_in demo_persisted [49] demo_store) = Some 2
   \<and> fst (persisted_filtered_len_in demo_persisted [49] (snd (persisted_filtered_len_in demo_persisted [49] demo_store))) = Some 2"
proof -
  have ok: "cache_ok demo_persisted demo_store"
    by (simp add: cache_ok_def demo_store_def SessionStore_new_def PERSISTED_STREAM_LEN_CACHE_ENTRIES_def)
  have P: "pd_has_journal demo_persisted [49]" "disk_incarnation demo_persisted [49] \<noteq> None" "pd_stream_len demo_persisted [49] = Inr 2"
    by (simp_all add: demo_persisted_def disk_incarnation_def last_option_def)
  note first = cached_length_is_exact [OF ok, of "[49]", OF prod.collapse [symmetric]]
  from cached_length_is_exact [OF first [THEN conjunct2], of "[49]", OF prod.collapse [symmetric]] first P
  show ?thesis by simp
qed

theorem subscribe_boundary_witness:
  "\<exists>p ini cell. subscribe_with_policy (pump_store idle_engine list_journal demo_persisted [49] demo_store) (Some 5) (Some 1)
       (Credited 2) CreditPolicy_production = Inr (p, ini, cell)
     \<and> pu_current_offset p = 2 \<and> cell = Some 2"
proof -
  have sub: "subscribe_with_policy (pump_store idle_engine list_journal demo_persisted [49] demo_store) (Some 5) (Some 1)
       (Credited 2) CreditPolicy_production
     = Inr (\<lparr>pu_last_modes = mode_snapshot idle_engine demo_runtime, pu_current_offset = 2, pu_pending = [], pu_resync = False,
         pu_resync_episode_open = False, pu_held = None, pu_completing = None, pu_flush_retries = 0,
         pu_credit = Some CreditPolicy_production\<rparr>,
       \<lparr>ai_data = [], ai_end_offset = 2, ai_running = True, ai_modes = mode_snapshot idle_engine demo_runtime,
         ai_incarnation = 1\<rparr>, Some 2)"
    by (simp add: subscribe_with_policy_def subscribe_init_def pump_store_def attach_subscribe_init_def lookup_found
        demo_found demo_persisted_def journal_incarnation_def attach_stream_status_def attachment_credit_cell_def
        credit_cell_def demo_runtime_def runtime_new_def list_journal_def demo_meta_def is_completed_def)
  from subscribe_boundary [OF demo_found sub, of "[]"] sub show ?thesis by simp
qed

end
