(* ===== verification/Disk_Guard.thy ===== *)
theory Disk_Guard
  imports Session_Replay
begin

text \<open>
  The disk guard (\<open>src/disk.rs\<close>): bounded measurement of the state directory, the cached sample, the
  decision whether a new session is admitted, and the alerts. Times are seconds. The directory tree is
  a value with everything a scan can meet in it: missing directories, links, and errors at every call;
  the probe of the free space is an argument.
\<close>

section \<open>Bounded directory scans\<close>

text \<open>What \<open>symlink_metadata\<close> and \<open>read_dir\<close> say of a directory, and what its entries are; a regular file
  has its length unless its metadata cannot be read.\<close>

datatype dir_node = MissingDir | LinkDir | StatFailed | ReadFailed | Listing "scan_entry list"
  and scan_entry = EntryFailed | TypeFailed | DirEntry dir_node | FileEntry "nat option" | OtherEntry

text \<open>Why a breakdown is partial: something could not be scanned, or the budget ran out.\<close>

datatype scan_problem = ScanFailed | BudgetExhausted

text \<open>The budget and the first problem.\<close>

type_synonym scan_state = "nat \<times> scan_problem option"

definition note_problem :: "scan_problem \<Rightarrow> scan_problem option \<Rightarrow> scan_problem option" where
  "note_problem x partial = (case partial of None \<Rightarrow> Some x | Some p \<Rightarrow> Some p)"

fun consume_entry :: "scan_state \<Rightarrow> bool \<times> scan_state" where
  "consume_entry (0, partial) = (False, (0, note_problem BudgetExhausted partial))"
| "consume_entry (Suc budget, partial) = (True, (budget, partial))"

fun read_scan_dir :: "dir_node \<Rightarrow> scan_problem option \<Rightarrow> scan_entry list option \<times> scan_problem option" where
  "read_scan_dir MissingDir partial = (None, partial)"
| "read_scan_dir LinkDir partial = (None, partial)"
| "read_scan_dir StatFailed partial = (None, note_problem ScanFailed partial)"
| "read_scan_dir ReadFailed partial = (None, note_problem ScanFailed partial)"
| "read_scan_dir (Listing es) partial = (Some es, partial)"

text \<open>One entry: the directories still to visit, the bytes so far, and the first problem.\<close>

fun scan_one ::
  "scan_entry \<Rightarrow> dir_node list \<times> nat \<times> scan_problem option \<Rightarrow> dir_node list \<times> nat \<times> scan_problem option" where
  "scan_one (DirEntry d) (queue, acc, partial) = (d # queue, acc, partial)"
| "scan_one (FileEntry (Some len)) (queue, acc, partial) = (queue, u64_saturating_add acc len, partial)"
| "scan_one OtherEntry (queue, acc, partial) = (queue, acc, partial)"
| "scan_one _ (queue, acc, partial) = (queue, acc, note_problem ScanFailed partial)"

text \<open>The entries of one directory, until the budget is spent. The last element of the source's vector of
  directories is the head of the list.\<close>

fun scan_entries ::
  "scan_entry list \<Rightarrow> dir_node list \<Rightarrow> nat \<Rightarrow> scan_state \<Rightarrow> bool \<times> dir_node list \<times> nat \<times> scan_state" where
  "scan_entries [] queue acc st = (True, queue, acc, st)"
| "scan_entries (e # es) queue acc st =
     (case consume_entry st of
        (False, st1) \<Rightarrow> (False, queue, acc, st1)
      | (True, (budget, partial)) \<Rightarrow>
          (case scan_one e (queue, acc, partial) of
             (queue1, acc1, partial1) \<Rightarrow> scan_entries es queue1 acc1 (budget, partial1)))"

lemma scan_one_queue: "scan_one e (queue, acc, partial) = (queue1, acc1, partial1) \<Longrightarrow> length queue1 \<le> Suc (length queue)"
  by (cases "(e, queue, acc, partial)" rule: scan_one.cases) auto

lemma scan_entries_measure:
  "scan_entries es queue acc st = (True, queue', acc', st') \<Longrightarrow> fst st' + length queue' \<le> fst st + length queue"
proof (induction es arbitrary: queue acc st)
  case (Cons e es)
  obtain b p where st: "st = (b, p)" by (rule prod.exhaust)
  show ?case
  proof (cases b)
    case 0
    with Cons.prems st show ?thesis by simp
  next
    case (Suc n)
    obtain q1 a1 p1 where one: "scan_one e (queue, acc, p) = (q1, a1, p1)" by (metis prod.collapse)
    with Suc Cons.prems st have "scan_entries es q1 a1 (n, p1) = (True, queue', acc', st')" by simp
    from Cons.IH [OF this] scan_one_queue [OF one] Suc st show ?thesis by simp
  qed
qed simp

function dir_size_loop :: "dir_node list \<Rightarrow> nat \<Rightarrow> scan_state \<Rightarrow> nat \<times> scan_state" where
  "dir_size_loop [] acc st = (acc, st)"
| "dir_size_loop (d # queue) acc (budget, partial) =
     (case read_scan_dir d partial of
        (None, partial1) \<Rightarrow> dir_size_loop queue acc (budget, partial1)
      | (Some es, partial1) \<Rightarrow>
          (case scan_entries es queue acc (budget, partial1) of
             (True, queue1, acc1, st1) \<Rightarrow> dir_size_loop queue1 acc1 st1
           | (False, _, acc1, st1) \<Rightarrow> (acc1, st1)))"
  by pat_completeness auto
termination
  by (relation "measure (\<lambda>(queue, acc, budget, partial). budget + length queue)")
    (auto dest!: scan_entries_measure [OF sym])

definition dir_size :: "dir_node \<Rightarrow> scan_state \<Rightarrow> nat \<times> scan_state" where
  "dir_size d st = dir_size_loop [d] 0 st"

text \<open>\<open>file_size\<close>: what \<open>symlink_metadata\<close> says of a file.\<close>

datatype file_node = FileMissing | FileFailed | FileLen nat | FileOther

fun file_size :: "file_node \<Rightarrow> scan_problem option \<Rightarrow> nat \<times> scan_problem option" where
  "file_size FileMissing partial = (0, partial)"
| "file_size FileFailed partial = (0, note_problem ScanFailed partial)"
| "file_size (FileLen len) partial = (len, partial)"
| "file_size FileOther partial = (0, partial)"

text \<open>The state directory: an entry of the sessions directory that is a directory has a journal and
  uploads; the database has two companion files.\<close>

datatype session_entry = SessionFailed | SessionTypeFailed | SessionDir dir_node dir_node | SessionOther

record state_tree =
  tr_sessions :: "session_entry list option"
  tr_sessions_failed :: bool
  tr_db :: file_node
  tr_wal :: file_node
  tr_shm :: file_node
  tr_logs :: dir_node

record DiskBreakdown =
  bd_journal_bytes :: nat
  bd_uploads_bytes :: nat
  bd_sqlite_bytes :: nat
  bd_logs_bytes :: nat

definition MAX_BREAKDOWN_ENTRIES :: nat where
  "MAX_BREAKDOWN_ENTRIES = 250000"

fun scan_sessions :: "session_entry list \<Rightarrow> nat \<Rightarrow> nat \<Rightarrow> scan_state \<Rightarrow> nat \<times> nat \<times> scan_state" where
  "scan_sessions [] journal uploads st = (journal, uploads, st)"
| "scan_sessions (e # es) journal uploads st =
     (case consume_entry st of
        (False, st1) \<Rightarrow> (journal, uploads, st1)
      | (True, (budget, partial)) \<Rightarrow>
          (case e of
             SessionDir j f \<Rightarrow>
               (case dir_size j (budget, partial) of (jn, st2) \<Rightarrow>
                (case dir_size f st2 of (fn, st3) \<Rightarrow>
                   scan_sessions es (u64_saturating_add journal jn) (u64_saturating_add uploads fn) st3))
           | SessionOther \<Rightarrow> scan_sessions es journal uploads (budget, partial)
           | _ \<Rightarrow> scan_sessions es journal uploads (budget, note_problem ScanFailed partial)))"

definition scan_breakdown_with_budget :: "state_tree \<Rightarrow> nat \<Rightarrow> DiskBreakdown \<times> scan_problem option" where
  "scan_breakdown_with_budget t budget =
     (let (journal, uploads, (b1, p1)) =
            (case tr_sessions t of
               Some es \<Rightarrow> scan_sessions es 0 0 (budget, None)
             | None \<Rightarrow> (0, 0, (budget, if tr_sessions_failed t then Some ScanFailed else None)));
          (db, p2) = file_size (tr_db t) p1;
          (wal, p3) = file_size (tr_wal t) p2;
          (shm, p4) = file_size (tr_shm t) p3;
          (logs, (b2, p5)) = dir_size (tr_logs t) (b1, p4)
      in (\<lparr>bd_journal_bytes = journal, bd_uploads_bytes = uploads,
           bd_sqlite_bytes = u64_saturating_add (u64_saturating_add db wal) shm, bd_logs_bytes = logs\<rparr>, p5))"

definition scan_breakdown :: "state_tree \<Rightarrow> DiskBreakdown \<times> scan_problem option" where
  "scan_breakdown t = scan_breakdown_with_budget t MAX_BREAKDOWN_ENTRIES"

section \<open>Samples, admission and alerts\<close>

record DiskSample =
  sp_sampled_at :: nat
  sp_free_bytes :: "nat option"
  sp_free_unknown_reason :: "bytes option"
  sp_breakdown :: DiskBreakdown
  sp_breakdown_partial_reason :: "scan_problem option"

definition sample_age :: "nat \<Rightarrow> DiskSample \<Rightarrow> nat" where
  "sample_age now sample = now - sp_sampled_at sample"

text \<open>The limits of the live configuration that matter here.\<close>

record disk_limits =
  dl_guard_enabled :: bool
  dl_sample_max_age :: nat
  dl_min_free_bytes :: nat
  dl_warn_free_bytes :: nat

datatype DiskGuardDecision =
    GuardDisabled
  | GuardAllowed nat
  | GuardUnknown bytes
  | GuardStale nat nat
  | GuardBelowMinimum nat nat

fun decision_label :: "DiskGuardDecision \<Rightarrow> string" where
  "decision_label GuardDisabled = ''disabled''"
| "decision_label (GuardAllowed _) = ''allowed''"
| "decision_label (GuardUnknown _) = ''unknown''"
| "decision_label (GuardStale _ _) = ''stale''"
| "decision_label (GuardBelowMinimum _ _) = ''below_minimum''"

fun refusal_reason :: "DiskGuardDecision \<Rightarrow> bytes option" where
  "refusal_reason GuardDisabled = None"
| "refusal_reason (GuardAllowed _) = None"
| "refusal_reason (GuardUnknown reason) = Some (ascii ''state volume free space is unknown ('' @ reason
     @ ascii ''); wait for a successful sample or disable disk_guard_enabled'')"
| "refusal_reason (GuardStale age max_age) = Some (ascii ''state volume sample is stale (age '' @ ascii (show_dec age)
     @ ascii ''s, max '' @ ascii (show_dec max_age)
     @ ascii ''s); wait for a fresh sample or raise disk_sample_max_age_seconds'')"
| "refusal_reason (GuardBelowMinimum free_bytes min_bytes) = Some (ascii ''state volume free space ''
     @ ascii (show_dec free_bytes) @ ascii '' B is below the floor '' @ ascii (show_dec min_bytes) @ ascii '' B'')"

record DiskMonitor =
  dm_latest :: "DiskSample option"
  dm_warned_low :: bool

definition DiskMonitor_new :: DiskMonitor where
  "DiskMonitor_new = \<lparr>dm_latest = None, dm_warned_low = False\<rparr>"

definition take_sample :: "nat \<Rightarrow> bytes + nat \<Rightarrow> state_tree \<Rightarrow> DiskSample" where
  "take_sample now probe t =
     (case scan_breakdown t of (breakdown, partial) \<Rightarrow>
        \<lparr>sp_sampled_at = now, sp_free_bytes = (case probe of Inr n \<Rightarrow> Some n | Inl _ \<Rightarrow> None),
         sp_free_unknown_reason = (case probe of Inr _ \<Rightarrow> None | Inl reason \<Rightarrow> Some reason),
         sp_breakdown = breakdown, sp_breakdown_partial_reason = partial\<rparr>)"

datatype disk_alert = LowSpace | SpaceRecovered

definition emit_alerts :: "disk_limits \<Rightarrow> DiskSample \<Rightarrow> DiskMonitor \<Rightarrow> disk_alert list \<times> DiskMonitor" where
  "emit_alerts limits sample mon =
     (let low = (case sp_free_bytes sample of Some free \<Rightarrow> free < dl_warn_free_bytes limits | None \<Rightarrow> False);
          known = (sp_free_bytes sample \<noteq> None)
      in (if low \<and> \<not> dm_warned_low mon then [LowSpace]
          else if known \<and> \<not> low \<and> dm_warned_low mon then [SpaceRecovered] else [],
          if known then mon\<lparr>dm_warned_low := low\<rparr> else mon))"

definition disk_refresh ::
  "disk_limits \<Rightarrow> nat \<Rightarrow> bytes + nat \<Rightarrow> state_tree \<Rightarrow> DiskMonitor \<Rightarrow> disk_alert list \<times> DiskMonitor" where
  "disk_refresh limits now probe t mon =
     (let sample = take_sample now probe t
      in case emit_alerts limits sample mon of (alerts, mon1) \<Rightarrow> (alerts, mon1\<lparr>dm_latest := Some sample\<rparr>))"

definition sample_is_stale :: "disk_limits \<Rightarrow> nat \<Rightarrow> DiskSample \<Rightarrow> bool" where
  "sample_is_stale limits now sample \<longleftrightarrow> dl_sample_max_age limits < sample_age now sample"

definition guard_decision :: "disk_limits \<Rightarrow> nat \<Rightarrow> DiskMonitor \<Rightarrow> DiskGuardDecision" where
  "guard_decision limits now mon =
     (if \<not> dl_guard_enabled limits then GuardDisabled
      else case dm_latest mon of
        None \<Rightarrow> GuardUnknown (ascii ''no disk sample has been taken yet'')
      | Some sample \<Rightarrow>
          if dl_sample_max_age limits < sample_age now sample
          then GuardStale (sample_age now sample) (dl_sample_max_age limits)
          else (case sp_free_bytes sample of
                  None \<Rightarrow> GuardUnknown (case sp_free_unknown_reason sample of
                            Some reason \<Rightarrow> reason | None \<Rightarrow> ascii ''free space probe failed'')
                | Some free \<Rightarrow>
                    if free < dl_min_free_bytes limits then GuardBelowMinimum free (dl_min_free_bytes limits)
                    else GuardAllowed free))"

definition disk_warning :: "disk_limits \<Rightarrow> nat \<Rightarrow> DiskMonitor \<Rightarrow> nat option" where
  "disk_warning limits now mon =
     (case dm_latest mon of
        None \<Rightarrow> None
      | Some sample \<Rightarrow>
          if sample_is_stale limits now sample then None
          else (case sp_free_bytes sample of
                  Some free \<Rightarrow> if free < dl_warn_free_bytes limits then Some free else None
                | None \<Rightarrow> None))"

section \<open>Measurements are exact or say that they are not\<close>

fun node_bytes :: "dir_node \<Rightarrow> nat" and entry_bytes :: "scan_entry \<Rightarrow> nat" where
  "node_bytes (Listing es) = sum_list (map entry_bytes es)"
| "node_bytes _ = 0"
| "entry_bytes (DirEntry d) = node_bytes d"
| "entry_bytes (FileEntry (Some len)) = len"
| "entry_bytes _ = 0"

abbreviation queue_bytes :: "dir_node list \<Rightarrow> nat" where
  "queue_bytes q \<equiv> sum_list (map node_bytes q)"

lemma note_problem_Some [simp]: "note_problem x p \<noteq> None" "note_problem x (Some y) = Some y"
  by (simp_all add: note_problem_def split: option.splits)

text \<open>A scan that goes from one state to the next accounts for everything unless it notes a problem.\<close>

definition accounts :: "nat \<Rightarrow> scan_problem option \<Rightarrow> nat \<Rightarrow> scan_problem option \<Rightarrow> bool" where
  "accounts before p after p' \<longleftrightarrow>
     min after u64_max \<le> min before u64_max \<and> (p' = None \<longrightarrow> p = None \<and> min after u64_max = min before u64_max)"

lemma accounts_trans: "accounts a p b q \<Longrightarrow> accounts b q c r \<Longrightarrow> accounts a p c r"
  by (auto simp: accounts_def)

lemma scan_one_accounts:
  assumes "scan_one e (queue, acc, p) = (queue1, acc1, p1)"
  shows "accounts (acc + entry_bytes e + queue_bytes queue) p (acc1 + queue_bytes queue1) p1"
  using assms
  by (cases "(e, queue, acc, p)" rule: scan_one.cases) (auto simp: accounts_def u64_saturating_add_def)

lemma accounts_add: "accounts a p b q \<Longrightarrow> accounts (a + n) p (b + n) q"
  by (auto simp: accounts_def min_def split: if_splits)

lemma scan_entries_accounts:
  assumes "scan_entries es queue acc (b, p) = (go, queue1, acc1, (b1, p1))"
  shows "accounts (acc + sum_list (map entry_bytes es) + queue_bytes queue) p (acc1 + queue_bytes queue1) p1
     \<and> (p1 = None \<longrightarrow> go)"
  using assms
proof (induction es arbitrary: queue acc b p)
  case Nil
  then show ?case by (auto simp: accounts_def)
next
  case (Cons e es)
  show ?case
  proof (cases b)
    case 0
    with Cons.prems show ?thesis by (auto simp: accounts_def note_problem_def min_def split: option.splits)
  next
    case (Suc n)
    obtain q a r where one: "scan_one e (queue, acc, p) = (q, a, r)" by (metis prod.collapse)
    with Suc Cons.prems have "scan_entries es q a (n, r) = (go, queue1, acc1, (b1, p1))" by simp
    note ih = Cons.IH [OF this]
    have "accounts (acc + entry_bytes e + queue_bytes queue + sum_list (map entry_bytes es)) p
        (a + queue_bytes q + sum_list (map entry_bytes es)) r"
      using accounts_add [OF scan_one_accounts [OF one]] .
    with ih show ?thesis by (auto simp: add_ac intro: accounts_trans)
  qed
qed

lemma dir_size_loop_accounts:
  "dir_size_loop queue acc (b, p) = (acc1, (b1, p1)) \<Longrightarrow> accounts (acc + queue_bytes queue) p acc1 p1"
proof (induction queue acc "(b, p)" arbitrary: b p rule: dir_size_loop.induct)
  case (1 acc)
  then show ?case by (auto simp: accounts_def)
next
  case (2 d queue acc b p)
  obtain r q where rd: "read_scan_dir d p = (r, q)" by (rule prod.exhaust)
  show ?case
  proof (cases r)
    case None
    with rd have "accounts (acc + queue_bytes (d # queue)) p (acc + queue_bytes queue) q"
      by (cases d) (auto simp: accounts_def min_def)
    with 2(1) [OF rd [symmetric] None] 2(3) rd None show ?thesis by (auto intro: accounts_trans)
  next
    case (Some es)
    then have d: "d = Listing es" "q = p" using rd by (cases d; simp)+
    obtain go q1 a1 b2 p2 where sc: "scan_entries es queue acc (b, q) = (go, q1, a1, (b2, p2))" by (metis prod.collapse)
    note acc = scan_entries_accounts [OF sc]
    show ?thesis
    proof (cases go)
      case True
      with 2(2) [OF rd [symmetric] Some sc [symmetric]] 2(3) rd Some sc acc d show ?thesis
        by (auto simp: add_ac intro: accounts_trans)
    next
      case False
      with 2(3) rd Some sc acc d show ?thesis
        by (auto simp: accounts_def min_def add_ac split: if_splits)
    qed
  qed
qed

lemma dir_size_accounts:
  assumes "dir_size d (b, p) = (n, (b1, p1))"
  shows "n \<le> min (node_bytes d) u64_max \<and> (p1 = None \<longrightarrow> p = None \<and> n = min (node_bytes d) u64_max)"
proof -
  have cap: "dir_size_loop queue acc (b, p) = (n, st) \<Longrightarrow> acc \<le> u64_max \<Longrightarrow> n \<le> u64_max" for queue acc b p n st
  proof (induction queue acc "(b, p)" arbitrary: b p rule: dir_size_loop.induct)
    case (2 d queue acc b p)
    have sat: "scan_entries es q a s = (go, q', a', s') \<Longrightarrow> a \<le> u64_max \<Longrightarrow> a' \<le> u64_max" for es q a s go q' a' s'
    proof (induction es arbitrary: q a s)
      case (Cons e es)
      obtain b p where s: "s = (b, p)" by (rule prod.exhaust)
      have "a1 \<le> u64_max" if "scan_one e (q, a, p) = (q1, a1, p1)" for q1 a1 p1
        using that Cons.prems(2) by (cases "(e, q, a, p)" rule: scan_one.cases) (auto simp: u64_saturating_add_def)
      with Cons s show ?case by (cases b) (auto split: prod.splits)
    qed auto
    from 2 sat show ?case by (auto split: prod.splits option.splits bool.splits)
  qed simp
  from dir_size_loop_accounts [of "[d]" 0 b p n b1 p1] cap [of "[d]" 0 b p n "(b1, p1)"] assms show ?thesis
    by (auto simp: dir_size_def accounts_def u64_max_def min_def split: if_splits)
qed

text \<open>What the tree really holds, up to the largest counter.\<close>

fun journal_of :: "session_entry \<Rightarrow> nat" where
  "journal_of (SessionDir j f) = min (node_bytes j) u64_max"
| "journal_of _ = 0"

fun uploads_of :: "session_entry \<Rightarrow> nat" where
  "uploads_of (SessionDir j f) = min (node_bytes f) u64_max"
| "uploads_of _ = 0"

fun file_len :: "file_node \<Rightarrow> nat" where
  "file_len (FileLen n) = n"
| "file_len _ = 0"

definition true_breakdown :: "state_tree \<Rightarrow> DiskBreakdown" where
  "true_breakdown t =
     (let es = (case tr_sessions t of Some es \<Rightarrow> es | None \<Rightarrow> []) in
      \<lparr>bd_journal_bytes = min (sum_list (map journal_of es)) u64_max,
       bd_uploads_bytes = min (sum_list (map uploads_of es)) u64_max,
       bd_sqlite_bytes = min (file_len (tr_db t) + file_len (tr_wal t) + file_len (tr_shm t)) u64_max,
       bd_logs_bytes = min (node_bytes (tr_logs t)) u64_max\<rparr>)"

lemma scan_sessions_accounts:
  assumes "scan_sessions es j u (b, p) = (j1, u1, (b1, p1))"
  shows "accounts (j + sum_list (map journal_of es)) p j1 p1 \<and> accounts (u + sum_list (map uploads_of es)) p u1 p1
     \<and> (j \<le> u64_max \<longrightarrow> j1 \<le> u64_max) \<and> (u \<le> u64_max \<longrightarrow> u1 \<le> u64_max)"
  using assms
proof (induction es arbitrary: j u b p)
  case Nil
  then show ?case by (auto simp: accounts_def)
next
  case (Cons e es)
  show ?case
  proof (cases b)
    case 0
    with Cons.prems show ?thesis by (auto simp: accounts_def min_def)
  next
    case (Suc n)
    show ?thesis
    proof (cases e)
      case (SessionDir jd fd)
      obtain jn b2 p2 where ds: "dir_size jd (n, p) = (jn, (b2, p2))" by (metis prod.collapse)
      obtain fn b3 p3 where fs: "dir_size fd (b2, p2) = (fn, (b3, p3))" by (metis prod.collapse)
      have rest: "scan_sessions es (u64_saturating_add j jn) (u64_saturating_add u fn) (b3, p3) = (j1, u1, (b1, p1))"
        using Cons.prems Suc SessionDir ds fs by simp
      have "accounts (j + journal_of e) p (u64_saturating_add j jn) p3" "accounts (u + uploads_of e) p (u64_saturating_add u fn) p3"
        using dir_size_accounts [OF ds] dir_size_accounts [OF fs] SessionDir
        by (auto simp: accounts_def u64_saturating_add_def min_def split: if_splits)
      note step = accounts_add [OF this(1), of "sum_list (map journal_of es)"] accounts_add [OF this(2), of "sum_list (map uploads_of es)"]
      from Cons.IH [OF rest] have ih: "accounts (u64_saturating_add j jn + sum_list (map journal_of es)) p3 j1 p1"
        "accounts (u64_saturating_add u fn + sum_list (map uploads_of es)) p3 u1 p1" "j1 \<le> u64_max" "u1 \<le> u64_max"
        by (simp_all add: u64_saturating_add_def)
      then show ?thesis using accounts_trans [OF step(1) ih(1)] accounts_trans [OF step(2) ih(2)] by (simp add: add.assoc)
    next
      case SessionFailed
      with Cons.IH [of j u n "note_problem ScanFailed p"] Cons.prems Suc show ?thesis
        by (auto simp: accounts_def)
    next
      case SessionTypeFailed
      with Cons.IH [of j u n "note_problem ScanFailed p"] Cons.prems Suc show ?thesis
        by (auto simp: accounts_def)
    next
      case SessionOther
      with Cons.IH [of j u n p] Cons.prems Suc show ?thesis by simp
    qed
  qed
qed

lemma file_size_accounts: "file_size f p = (n, p1) \<Longrightarrow> n = file_len f \<and> (p1 = None \<longrightarrow> p = None)"
  by (cases f) auto

text \<open>C32. A size breakdown is exact or says that it is not: on any tree, with links, vanished directories
  and errors anywhere and with any budget of entries, no category is ever overestimated, and when the
  scan reports no problem every category is exactly what the tree holds.\<close>

theorem breakdown_exact_or_partial:
  assumes "scan_breakdown_with_budget t budget = (bd, partial)"
  shows "bd_journal_bytes bd \<le> bd_journal_bytes (true_breakdown t)
     \<and> bd_uploads_bytes bd \<le> bd_uploads_bytes (true_breakdown t)
     \<and> bd_sqlite_bytes bd \<le> bd_sqlite_bytes (true_breakdown t)
     \<and> bd_logs_bytes bd \<le> bd_logs_bytes (true_breakdown t)
     \<and> (partial = None \<longrightarrow> bd = true_breakdown t)"
proof -
  let ?es = "case tr_sessions t of Some es \<Rightarrow> es | None \<Rightarrow> []"
  let ?s = "case tr_sessions t of Some es \<Rightarrow> scan_sessions es 0 0 (budget, None)
    | None \<Rightarrow> (0, 0, (budget, if tr_sessions_failed t then Some ScanFailed else None))"
  obtain j u b1 p1 where s: "?s = (j, u, (b1, p1))" by (metis prod.collapse)
  have sized: "\<exists>q. file_size f p = (file_len f, q)" for f p by (cases f) simp_all
  obtain p2 where f2: "file_size (tr_db t) p1 = (file_len (tr_db t), p2)" using sized by blast
  obtain p3 where f3: "file_size (tr_wal t) p2 = (file_len (tr_wal t), p3)" using sized by blast
  obtain p4 where f4: "file_size (tr_shm t) p3 = (file_len (tr_shm t), p4)" using sized by blast
  note f = f2 f3 f4
  obtain l b2 p5 where l5: "dir_size (tr_logs t) (b1, p4) = (l, (b2, p5))" by (metis prod.collapse)
  have bd: "bd = \<lparr>bd_journal_bytes = j, bd_uploads_bytes = u,
       bd_sqlite_bytes = u64_saturating_add (u64_saturating_add (file_len (tr_db t)) (file_len (tr_wal t))) (file_len (tr_shm t)),
       bd_logs_bytes = l\<rparr>" and "partial = p5"
    using assms unfolding scan_breakdown_with_budget_def s by (simp_all add: f l5)
  with l5 have l: "dir_size (tr_logs t) (b1, p4) = (l, (b2, partial))" by simp
  have ses: "j \<le> min (sum_list (map journal_of ?es)) u64_max" "u \<le> min (sum_list (map uploads_of ?es)) u64_max"
    "p1 = None \<longrightarrow> j = min (sum_list (map journal_of ?es)) u64_max \<and> u = min (sum_list (map uploads_of ?es)) u64_max"
  proof -
    have "accounts (sum_list (map journal_of ?es)) None j p1 \<and> accounts (sum_list (map uploads_of ?es)) None u p1
        \<and> j \<le> u64_max \<and> u \<le> u64_max"
      using s scan_sessions_accounts [of ?es 0 0 budget None j u b1 p1]
      by (cases "tr_sessions t") (auto simp: accounts_def)
    then show "j \<le> min (sum_list (map journal_of ?es)) u64_max" "u \<le> min (sum_list (map uploads_of ?es)) u64_max"
      "p1 = None \<longrightarrow> j = min (sum_list (map journal_of ?es)) u64_max \<and> u = min (sum_list (map uploads_of ?es)) u64_max"
      by (auto simp: accounts_def min_def split: if_splits)
  qed
  have "partial = None \<longrightarrow> p4 = None \<and> p3 = None \<and> p2 = None \<and> p1 = None"
    using dir_size_accounts [OF l] file_size_accounts [OF f(1)] file_size_accounts [OF f(2)] file_size_accounts [OF f(3)] by blast
  with ses dir_size_accounts [OF l] show ?thesis
    by (auto simp: bd true_breakdown_def Let_def u64_saturating_add_def min_def split: if_splits)
qed

text \<open>The guard admits a session only on space it has seen: with the guard on, a new session is
  admitted exactly when the latest sample is not too old, knows the free space, and shows at least the
  configured minimum; no sample, an old one and a failed probe all refuse.\<close>

theorem guard_needs_observed_space:
  "refusal_reason (guard_decision limits now mon) = None \<longleftrightarrow>
     (dl_guard_enabled limits \<longrightarrow>
       (\<exists>sample free. dm_latest mon = Some sample \<and> now \<le> sp_sampled_at sample + dl_sample_max_age limits
          \<and> sp_free_bytes sample = Some free \<and> dl_min_free_bytes limits \<le> free))"
  by (auto simp: guard_decision_def sample_age_def split: option.splits)

text \<open>Alerts come on crossings only.\<close>

fun alternating :: "bool \<Rightarrow> disk_alert list \<Rightarrow> bool" where
  "alternating low [] \<longleftrightarrow> True"
| "alternating low (LowSpace # as) \<longleftrightarrow> \<not> low \<and> alternating True as"
| "alternating low (SpaceRecovered # as) \<longleftrightarrow> low \<and> alternating False as"

fun refreshes ::
  "disk_limits \<Rightarrow> (nat \<times> (bytes + nat) \<times> state_tree) list \<Rightarrow> DiskMonitor \<Rightarrow> disk_alert list \<times> DiskMonitor" where
  "refreshes limits [] mon = ([], mon)"
| "refreshes limits ((now, probe, t) # rs) mon =
     (case disk_refresh limits now probe t mon of (as, mon1) \<Rightarrow>
      (case refreshes limits rs mon1 of (bs, mon2) \<Rightarrow> (as @ bs, mon2)))"

lemma alerts_alternate: "alternating (dm_warned_low mon) (fst (refreshes limits rs mon))"
proof (induction rs arbitrary: mon)
  case (Cons r rs)
  obtain now probe t where r: "r = (now, probe, t)" by (metis prod.collapse)
  obtain as mon1 where d: "disk_refresh limits now probe t mon = (as, mon1)" by (rule prod.exhaust)
  then have "(as = [] \<and> dm_warned_low mon1 = dm_warned_low mon) \<or> (as = [LowSpace] \<and> \<not> dm_warned_low mon \<and> dm_warned_low mon1)
      \<or> (as = [SpaceRecovered] \<and> dm_warned_low mon \<and> \<not> dm_warned_low mon1)"
    by (auto simp: disk_refresh_def emit_alerts_def Let_def split: prod.splits option.splits if_splits)
  with Cons.IH [of mon1] r d show ?case by (auto split: prod.splits)
qed simp

definition demo_tree :: state_tree where
  "demo_tree = \<lparr>tr_sessions = Some [SessionDir (Listing [FileEntry (Some 7), DirEntry (Listing [FileEntry (Some 5)])]) MissingDir,
       SessionOther], tr_sessions_failed = False, tr_db = FileLen 3, tr_wal = FileMissing, tr_shm = FileOther, tr_logs = LinkDir\<rparr>"

theorem breakdown_exact_or_partial_witness:
  "scan_breakdown_with_budget demo_tree 5
     = (\<lparr>bd_journal_bytes = 12, bd_uploads_bytes = 0, bd_sqlite_bytes = 3, bd_logs_bytes = 0\<rparr>, None)
   \<and> true_breakdown demo_tree = \<lparr>bd_journal_bytes = 12, bd_uploads_bytes = 0, bd_sqlite_bytes = 3, bd_logs_bytes = 0\<rparr>"
proof -
  have "scan_breakdown_with_budget demo_tree 5
     = (\<lparr>bd_journal_bytes = 12, bd_uploads_bytes = 0, bd_sqlite_bytes = 3, bd_logs_bytes = 0\<rparr>, None)"
  proof -
    have 5: "(5 :: nat) = Suc (Suc (Suc (Suc (Suc 0))))" by simp
    have sat: "u64_saturating_add 0 7 = 7" "u64_saturating_add 7 5 = 12" "u64_saturating_add 0 12 = 12"
      "u64_saturating_add 0 0 = 0" "u64_saturating_add 3 0 = 3"
      by (simp_all add: u64_saturating_add_def u64_max_def)
    show ?thesis
      unfolding 5 by (simp add: demo_tree_def scan_breakdown_with_budget_def dir_size_def sat)
  qed
  with breakdown_exact_or_partial [OF this] show ?thesis by simp
qed

definition demo_limits :: disk_limits where
  "demo_limits = \<lparr>dl_guard_enabled = True, dl_sample_max_age = 60, dl_min_free_bytes = 1000, dl_warn_free_bytes = 5000\<rparr>"

definition demo_monitor :: DiskMonitor where
  "demo_monitor = \<lparr>dm_latest = Some \<lparr>sp_sampled_at = 100, sp_free_bytes = Some 2000, sp_free_unknown_reason = None,
     sp_breakdown = true_breakdown demo_tree, sp_breakdown_partial_reason = None\<rparr>, dm_warned_low = True\<rparr>"

theorem guard_needs_observed_space_witness:
  "refusal_reason (guard_decision demo_limits 160 demo_monitor) = None
   \<and> refusal_reason (guard_decision demo_limits 161 demo_monitor) \<noteq> None
   \<and> refusal_reason (guard_decision demo_limits 160 DiskMonitor_new) \<noteq> None"
  unfolding guard_needs_observed_space
  by (simp add: demo_limits_def demo_monitor_def DiskMonitor_new_def)

end
