(* ===== verification/Session_Lifecycle.thy ===== *)
theory Session_Lifecycle
  imports Session_Store Disk_Guard
begin

text \<open>
  The life of a session in the store (\<open>src/session/store/lifecycle.rs\<close>): admission and start, stop and
  kill with their escalation, deletion, persistence of the end, resume hints and eviction. Where an
  operation releases its locks in between, its parts are functions of their own, so that other
  operations may come in between; what the operating system, the clock and the hint scanner answer are
  arguments. Times are milliseconds.
\<close>

section \<open>Admission and start\<close>

datatype app_error =
    MaxSessionsReached nat
  | DiskGuardError bytes
  | InvalidTitle title_error
  | DatabaseError
  | DirectoryError
  | SpawnError bytes
  | SessionIsRunning bytes
  | SessionBeingCreated bytes
  | SessionNotFound bytes
  | SessionNotRunning bytes
  | NoLiveRuntime bytes SessionStatus
  | WorkingDirectoryMissing bytes
  | WorkingDirectoryNotDirectory bytes
  | SourceNotKilled bytes
  | ReplacementFailed bytes app_error

record StartSpec =
  sc_title :: "bytes option"
  sc_tags :: "bytes list"
  sc_cmd :: bytes
  sc_args :: "bytes list"
  sc_cwd :: "bytes option"
  sc_rows :: "nat option"
  sc_cols :: "nat option"
  sc_notifications_enabled :: bool

record PreparedStart =
  pr_meta :: SessionMeta
  pr_rows :: nat
  pr_cols :: nat
  pr_notifications_enabled :: bool

record start_limits =
  sl_max_running_sessions :: nat
  sl_screen_scrollback_rows :: nat

type_synonym disk_guard = "(disk_limits \<times> DiskMonitor) option"

definition check_disk_guard :: "disk_guard \<Rightarrow> nat \<Rightarrow> app_error + unit" where
  "check_disk_guard guard now =
     (case guard of
        None \<Rightarrow> Inr ()
      | Some (limits, mon) \<Rightarrow>
          (case refusal_reason (guard_decision limits (now div 1000) mon) of
             Some reason \<Rightarrow> Inl (DiskGuardError reason)
           | None \<Rightarrow> Inr ()))"

text \<open>The loop draws candidates until one is free; \<open>None\<close> is a loop that is still drawing.\<close>

fun generate_session_id :: "(bytes \<Rightarrow> bool) \<Rightarrow> bytes list \<Rightarrow> bytes option" where
  "generate_session_id exists_id [] = None"
| "generate_session_id exists_id (raw # draws) =
     (let candidate = take 7 raw in
      if exists_id candidate then generate_session_id exists_id draws else Some candidate)"

abbreviation running_sessions :: "(bytes \<times> ('e, 'j) SessionRuntime) list \<Rightarrow> nat" where
  "running_sessions sessions \<equiv> length (filter (\<lambda>(_, rt). \<not> is_completed rt) sessions)"

definition start_meta :: "nat \<Rightarrow> bytes \<Rightarrow> bytes option \<Rightarrow> bytes list \<Rightarrow> StartSpec \<Rightarrow> SessionMeta" where
  "start_meta now i title tags spec =
     \<lparr>sm_id = i, sm_title = title, sm_tags = tags, sm_command = sc_cmd spec, sm_args = sc_args spec,
      sm_cwd = sc_cwd spec, sm_created_at = now, sm_started_at = Some now, sm_ended_at = None,
      sm_resume_command = None, sm_status = StRunning, sm_pid = None, sm_exit_code = None,
      sm_notifications_enabled = sc_notifications_enabled spec, sm_foreground_color = None,
      sm_background_color = None\<rparr>"

text \<open>The part under the lock. \<open>sessions\<close> is the map as it was loaded before the lock was taken.\<close>

definition reserve_start ::
  "start_limits \<Rightarrow> disk_guard \<Rightarrow> nat \<Rightarrow> bytes list \<Rightarrow> StartSpec \<Rightarrow> (bytes \<times> ('e, 'j) SessionRuntime) list
     \<Rightarrow> ('e, 'j) SessionStore \<Rightarrow> (app_error + PreparedStart) option \<times> ('e, 'j) SessionStore" where
  "reserve_start lim guard now draws spec sessions s =
     (if sl_max_running_sessions lim \<le> running_sessions sessions + length (ss_starting_sessions s)
      then (Some (Inl (MaxSessionsReached (sl_max_running_sessions lim))), s)
      else case check_disk_guard guard now of
        Inl err \<Rightarrow> (Some (Inl err), s)
      | Inr _ \<Rightarrow>
          (case generate_session_id
                  (\<lambda>c. map_of sessions c \<noteq> None \<or> c \<in> set (ss_starting_sessions s)) draws of
             None \<Rightarrow> (None, s)
           | Some i \<Rightarrow>
               (case validate_session_metadata (sc_title spec) (sc_tags spec) of
                  Inl err \<Rightarrow> (Some (Inl (InvalidTitle err)), s)
                | Inr (title, tags) \<Rightarrow>
                    (Some (Inr \<lparr>pr_meta = start_meta now i title tags spec,
                        pr_rows = max (case sc_rows spec of Some n \<Rightarrow> n | None \<Rightarrow> 24) 1,
                        pr_cols = max (case sc_cols spec of Some n \<Rightarrow> n | None \<Rightarrow> 80) 1,
                        pr_notifications_enabled = sc_notifications_enabled spec\<rparr>),
                     s\<lparr>ss_starting_sessions := i # ss_starting_sessions s\<rparr>))))"

definition unreserve :: "bytes \<Rightarrow> ('e, 'j) SessionStore \<Rightarrow> ('e, 'j) SessionStore" where
  "unreserve i s = s\<lparr>ss_starting_sessions := removeAll i (ss_starting_sessions s)\<rparr>"

definition insert_started_row ::
  "PreparedStart \<Rightarrow> ('e, 'j) SessionStore \<Rightarrow> (app_error + PreparedStart) \<times> ('e, 'j) SessionStore" where
  "insert_started_row p s =
     (case db_insert_session (pr_meta p) (ss_db s) of
        (True, d) \<Rightarrow> (Inr p, s\<lparr>ss_db := d\<rparr>)
      | (False, d) \<Rightarrow> (Inl DatabaseError, unreserve (sm_id (pr_meta p)) (s\<lparr>ss_db := d\<rparr>)))"

definition prepare_start_session ::
  "start_limits \<Rightarrow> disk_guard \<Rightarrow> nat \<Rightarrow> bytes list \<Rightarrow> StartSpec \<Rightarrow> ('e, 'j) SessionStore
     \<Rightarrow> (app_error + PreparedStart) option \<times> ('e, 'j) SessionStore" where
  "prepare_start_session lim guard now draws spec s =
     (case reserve_start lim guard now draws spec (ss_sessions s) s of
        (Some (Inr p), s1) \<Rightarrow> (case insert_started_row p s1 of (r, s2) \<Rightarrow> (Some r, s2))
      | (r, s1) \<Rightarrow> (r, s1))"

text \<open>Committing: the row and the reservation first, the session map after them.\<close>

definition commit_row :: "SessionMeta \<Rightarrow> ('e, 'j) SessionStore \<Rightarrow> bool \<times> ('e, 'j) SessionStore" where
  "commit_row m s =
     (case db_update_session m (ss_db s) of (ok, d) \<Rightarrow> (ok, unreserve (sm_id m) (s\<lparr>ss_db := d\<rparr>)))"

definition commit_started_session ::
  "SessionMeta \<Rightarrow> ('e, 'j) SessionRuntime \<Rightarrow> ('e, 'j) SessionStore \<Rightarrow> (app_error + bytes) \<times> ('e, 'j) SessionStore" where
  "commit_started_session m rt s =
     (case commit_row m s of
        (True, s1) \<Rightarrow> (Inr (sm_id m), write_runtime (sm_id m) rt s1)
      | (False, s1) \<Rightarrow> (Inl DatabaseError, s1))"

text \<open>\<open>remove_dir_all\<close>, where a directory that is not there is no error.\<close>

definition remove_session_dir :: "bytes \<Rightarrow> database \<Rightarrow> bool \<times> database" where
  "remove_session_dir i d =
     (case db_call d of (ok, d1) \<Rightarrow>
        if ok then (True, d1\<lparr>db_dirs := removeAll i (db_dirs d1)\<rparr>) else (False, d1))"

definition mark_failed_row :: "nat \<Rightarrow> bytes \<Rightarrow> database \<Rightarrow> bool \<times> database" where
  "mark_failed_row now i d =
     (case db_get_session i d of
        (None, d1) \<Rightarrow> (False, d1)
      | (Some None, d1) \<Rightarrow> (True, d1)
      | (Some (Some m), d1) \<Rightarrow>
          db_update_session (m\<lparr>sm_status := StFailed, sm_pid := None, sm_ended_at := Some now\<rparr>) d1)"

definition abort_started_session ::
  "nat \<Rightarrow> bytes \<Rightarrow> ('e, 'j) SessionStore \<Rightarrow> (app_error + unit) \<times> ('e, 'j) SessionStore" where
  "abort_started_session now i s =
     (let s1 = unreserve i s; (found, d1) = db_session_exists i (ss_db s1);
          (gone, d2) = (if found then remove_session_dir i d1 else (True, d1))
      in if \<not> gone then (Inl DirectoryError, s1\<lparr>ss_db := d2\<rparr>)
         else case db_delete_session i d2 of
           (True, d3) \<Rightarrow> (Inr (), s1\<lparr>ss_db := d3\<rparr>)
         | (False, d3) \<Rightarrow> (case mark_failed_row now i d3 of (_, d4) \<Rightarrow> (Inl DatabaseError, s1\<lparr>ss_db := d4\<rparr>)))"

text \<open>What spawning the program answers: an error, with or without the directory made, or its pid,
  terminal engine and journal.\<close>

datatype ('e, 'j) spawn_answer = SpawnRefused bool bytes | SpawnedChild "nat option" bytes 'e 'j

definition make_session_dir :: "bytes \<Rightarrow> ('e, 'j) SessionStore \<Rightarrow> ('e, 'j) SessionStore" where
  "make_session_dir i s = s\<lparr>ss_db := (ss_db s)\<lparr>db_dirs := List.insert i (db_dirs (ss_db s))\<rparr>\<rparr>"

definition start_session_via_handle ::
  "'j journal_ops \<Rightarrow> start_limits \<Rightarrow> disk_guard \<Rightarrow> nat \<Rightarrow> bytes list \<Rightarrow> StartSpec \<Rightarrow> disk_guard
     \<Rightarrow> ('e, 'j) spawn_answer \<Rightarrow> ('e, 'j) SessionStore \<Rightarrow> (app_error + bytes) option \<times> ('e, 'j) SessionStore" where
  "start_session_via_handle J lim guard now draws spec guard2 spawned s =
     (case prepare_start_session lim guard now draws spec s of
        (None, s1) \<Rightarrow> (None, s1)
      | (Some (Inl err), s1) \<Rightarrow> (Some (Inl err), s1)
      | (Some (Inr p), s1) \<Rightarrow>
          let i = sm_id (pr_meta p) in
          (case check_disk_guard guard2 now of
             Inl err \<Rightarrow> (Some (Inl err), snd (abort_started_session now i s1))
           | Inr _ \<Rightarrow>
               (case spawned of
                  SpawnRefused made reason \<Rightarrow>
                    (Some (Inl (SpawnError reason)),
                     snd (abort_started_session now i (if made then make_session_dir i s1 else s1)))
                | SpawnedChild pid pid_text engine j \<Rightarrow>
                    let m = (pr_meta p)\<lparr>sm_notifications_enabled := pr_notifications_enabled p, sm_pid := pid\<rparr>;
                        rt = runtime_new J m now (pr_rows p) (pr_cols p) (sl_screen_scrollback_rows lim)
                               (pr_notifications_enabled p) engine pid_text j
                    in case commit_started_session m rt (make_session_dir i s1) of
                         (Inr i', s2) \<Rightarrow> (Some (Inr i'), send_event (SessionCreated i) s2)
                       | (Inl err, s2) \<Rightarrow> (Some (Inl err), snd (abort_started_session now i s2)))))"

section \<open>Stopping\<close>

definition SOFT_STOP_INPUTS :: "bytes list" where
  "SOFT_STOP_INPUTS = [[3], [3], [4]]"

definition DOUBLE_CTRL_C_DELAY :: nat where
  "DOUBLE_CTRL_C_DELAY = 500"

definition DOUBLE_CTRL_C_DELAY_GRACE_DIVISOR :: nat where
  "DOUBLE_CTRL_C_DELAY_GRACE_DIVISOR = 4"

definition build_soft_stop_schedule :: "nat \<Rightarrow> nat \<Rightarrow> SessionStatus \<Rightarrow> (nat \<times> bytes) list" where
  "build_soft_stop_schedule start grace requested =
     (if grace = 0 \<or> requested \<noteq> StStopped then []
      else map (\<lambda>(offset, input). (start + offset, input))
        (zip [0, min DOUBLE_CTRL_C_DELAY (grace div DOUBLE_CTRL_C_DELAY_GRACE_DIVISOR), min 1000 (grace div 2)]
           SOFT_STOP_INPUTS))"

text \<open>The loop's state: the keys still to send with their times, and when to signal the process group.\<close>

record stop_plan =
  tm_schedule :: "(nat \<times> bytes) list"
  tm_sigterm_at :: "nat option"

text \<open>One round of the loop sees the clock at each of its readings, the answer of the child's wait, how
  much the writer thread has taken from the input queue in the meantime, and, in the last round,
  whether the kill succeeded and what a wait after it says.\<close>

record round =
  ro_check :: nat
  ro_wait :: wait_result
  ro_drained :: nat
  ro_keys :: nat
  ro_due :: nat
  ro_sent :: nat
  ro_signal :: nat
  ro_killed :: bool
  ro_last_wait :: wait_result

definition drain_queue :: "nat \<Rightarrow> ('e, 'j) SessionRuntime \<Rightarrow> ('e, 'j) SessionRuntime" where
  "drain_queue n rt = rt\<lparr>rt_pty := (rt_pty rt)\<lparr>ph_queue := drop n (ph_queue (rt_pty rt))\<rparr>\<rparr>"

text \<open>The first critical section: \<open>True\<close> when the session has already ended.\<close>

definition begin_termination ::
  "'j journal_ops \<Rightarrow> nat \<Rightarrow> wait_result \<Rightarrow> SessionStatus \<Rightarrow> ('e, 'j) SessionRuntime \<Rightarrow> bool \<times> ('e, 'j) SessionRuntime" where
  "begin_termination J now wait requested rt =
     (case refresh_status J now wait rt of
        (True, rt1) \<Rightarrow> (True, rt1)
      | (False, rt1) \<Rightarrow>
          (False, rt1\<lparr>rt_requested_final_status := Some requested,
                      rt_meta := (rt_meta rt1)\<lparr>sm_status := StStopping\<rparr>\<rparr>))"

text \<open>Try the next key when it is due; a key that was late shifts the ones after it. The first component
  is the key that was sent.\<close>

definition send_soft_key ::
  "nat \<Rightarrow> round \<Rightarrow> (nat \<times> bytes) list \<Rightarrow> ('e, 'j) SessionRuntime
     \<Rightarrow> bytes option \<times> (nat \<times> bytes) list \<times> ('e, 'j) SessionRuntime" where
  "send_soft_key soft_input_deadline r schedule rt =
     (if soft_input_deadline \<le> ro_keys r then (None, [], rt)
      else case schedule of
        [] \<Rightarrow> (None, [], rt)
      | (at, input) # later \<Rightarrow>
          if ro_due r < at then (None, schedule, rt)
          else (case try_write_input input (rt_pty rt) of
                  (SendOk, h) \<Rightarrow>
                    (Some input, map (\<lambda>(t, key). (t + (ro_sent r - at), key)) later, rt\<lparr>rt_pty := h\<rparr>)
                | (SendFull, _) \<Rightarrow> (None, schedule, rt)
                | (SendClosed, _) \<Rightarrow> (None, [], rt)))"

datatype terminate_result = Ended bool | Looping

text \<open>A key has the time of the check for the input deadline and the time at which it was due. The group is
  signalled when the child has a process id.\<close>

datatype terminate_effect = SentKey bytes nat nat | GroupSigterm nat | TreeKilled nat

text \<open>The rounds up to the deadline and the forced end, with what was done to the program on the way.\<close>

fun terminate_rounds ::
  "'j journal_ops \<Rightarrow> nat \<Rightarrow> nat \<Rightarrow> round list \<Rightarrow> stop_plan \<Rightarrow> ('e, 'j) SessionRuntime
     \<Rightarrow> terminate_result \<times> terminate_effect list \<times> ('e, 'j) SessionRuntime" where
  "terminate_rounds J deadline soft_input_deadline [] tm rt = (Looping, [], rt)"
| "terminate_rounds J deadline soft_input_deadline (r # rs) tm rt =
     (if ro_check r < deadline then
        (case refresh_status J (ro_check r) (ro_wait r) rt of
           (True, rt1) \<Rightarrow> (Ended True, [], rt1)
         | (False, rt1) \<Rightarrow>
             let rt2 = drain_queue (ro_drained r) rt1;
                 (key, schedule, rt3) = send_soft_key soft_input_deadline r (tm_schedule tm) rt2;
                 keys = (case key of Some input \<Rightarrow> [SentKey input (ro_keys r) (ro_due r)] | None \<Rightarrow> []);
                 signals = (case tm_sigterm_at tm of
                              Some at \<Rightarrow> if at \<le> ro_signal r then [GroupSigterm (ro_signal r)] else []
                            | None \<Rightarrow> []);
                 tm1 = \<lparr>tm_schedule = schedule,
                        tm_sigterm_at = (if signals = [] then tm_sigterm_at tm else None)\<rparr>
             in case terminate_rounds J deadline soft_input_deadline rs tm1 rt3 of
                  (res, effects, rt4) \<Rightarrow> (res, keys @ signals @ effects, rt4))
      else
        (case refresh_status J (ro_check r) (ro_wait r) rt of
           (True, rt1) \<Rightarrow> (Ended True, [], rt1)
         | (False, rt1) \<Rightarrow>
             if ro_killed r
             then (Ended True, [TreeKilled (ro_check r)],
                   snd (refresh_status J (ro_check r) (ro_last_wait r)
                          (rt1\<lparr>rt_pty := (rt_pty rt1)\<lparr>ph_kills := Suc (ph_kills (rt_pty rt1))\<rparr>\<rparr>)))
             else (Ended False, [], rt1)))"

definition terminate_runtime ::
  "'j journal_ops \<Rightarrow> nat \<Rightarrow> wait_result \<Rightarrow> nat \<Rightarrow> SessionStatus \<Rightarrow> round list \<Rightarrow> ('e, 'j) SessionRuntime
     \<Rightarrow> terminate_result \<times> terminate_effect list \<times> ('e, 'j) SessionRuntime" where
  "terminate_runtime J start wait grace_seconds requested rounds rt =
     (let grace = grace_seconds * 1000;
          soft_input_deadline = start + grace div 4 * 3
      in case begin_termination J start wait requested rt of
           (True, rt1) \<Rightarrow> (Ended True, [], rt1)
         | (False, rt1) \<Rightarrow>
             terminate_rounds J (start + grace) soft_input_deadline rounds
               \<lparr>tm_schedule = build_soft_stop_schedule start grace requested,
                tm_sigterm_at = (if requested = StStopped \<and> grace \<noteq> 0 then Some soft_input_deadline else None)\<rparr> rt1)"

definition terminate_session ::
  "'j journal_ops \<Rightarrow> nat \<Rightarrow> wait_result \<Rightarrow> bytes \<Rightarrow> nat \<Rightarrow> SessionStatus \<Rightarrow> round list \<Rightarrow> ('e, 'j) SessionStore
     \<Rightarrow> terminate_result \<times> terminate_effect list \<times> ('e, 'j) SessionStore" where
  "terminate_session J start wait i grace_seconds requested rounds s =
     (case lookup_runtime i s of
        Inl _ \<Rightarrow> (Ended False, [], s)
      | Inr rt \<Rightarrow>
          (case terminate_runtime J start wait grace_seconds requested rounds rt of (res, effects, rt') \<Rightarrow>
             (res, effects, (if res = Ended True then send_event (SessionUpdated i) else id) (write_runtime i rt' s))))"

definition stop_session where
  "stop_session J start wait i grace_seconds rounds s = terminate_session J start wait i grace_seconds StStopped rounds s"

definition kill_session where
  "kill_session J start wait i rounds s = terminate_session J start wait i 0 StKilled rounds s"

text \<open>All sessions at once: each has its own clock readings and answers.\<close>

definition stop_all_sessions ::
  "'j journal_ops \<Rightarrow> nat \<Rightarrow> (bytes \<Rightarrow> wait_result) \<Rightarrow> nat \<Rightarrow> (bytes \<Rightarrow> round list) \<Rightarrow> ('e, 'j) SessionStore
     \<Rightarrow> bool \<times> ('e, 'j) SessionStore" where
  "stop_all_sessions J start waits grace_seconds rounds s =
     (let results = map (\<lambda>(i, rt). (i, terminate_runtime J start (waits i) grace_seconds StStopped (rounds i) rt))
                      (ss_sessions s)
      in (list_all (\<lambda>(_, res, _). res = Ended True) results,
          s\<lparr>ss_sessions := map (\<lambda>(i, _, _, rt). (i, rt)) results\<rparr>))"

section \<open>Restarting\<close>

text \<open>The source of a restart and whether it has to be killed first.\<close>

definition restart_source ::
  "'j journal_ops \<Rightarrow> nat \<Rightarrow> wait_result \<Rightarrow> bytes \<Rightarrow> bool \<Rightarrow> ('e, 'j) SessionStore
     \<Rightarrow> (app_error + SessionMeta \<times> bool) \<times> ('e, 'j) SessionStore" where
  "restart_source J now wait i force s =
     (case map_of (ss_sessions s) i of
        Some rt \<Rightarrow>
          if sm_status (rt_meta rt) = StCreated then (Inl (SessionBeingCreated i), s)
          else
            let rt1 = snd (refresh_status J now wait rt); s1 = write_runtime i rt1 s
            in (case sm_status (rt_meta rt1) of
                  StCreated \<Rightarrow> (Inl (SessionBeingCreated i), s1)
                | st \<Rightarrow>
                    if st \<in> {StRunning, StStopping}
                    then (if force then Inr (rt_meta rt1, True) else Inl (SessionIsRunning i), s1)
                    else (Inr (rt_meta rt1, False), s1))
      | None \<Rightarrow>
          (case db_get_session i (ss_db s) of
             (None, d) \<Rightarrow> (Inl DatabaseError, s\<lparr>ss_db := d\<rparr>)
           | (Some None, d) \<Rightarrow> (Inl (SessionNotFound i), s\<lparr>ss_db := d\<rparr>)
           | (Some (Some m), d) \<Rightarrow>
               (case sm_status m of
                  StCreated \<Rightarrow> (Inl (SessionBeingCreated i), s\<lparr>ss_db := d\<rparr>)
                | st \<Rightarrow>
                    if st \<in> {StRunning, StStopping} then (Inl (NoLiveRuntime i st), s\<lparr>ss_db := d\<rparr>)
                    else (Inr (m, False), s\<lparr>ss_db := d\<rparr>))))"

definition check_cwd :: "(bytes \<Rightarrow> bool option) \<Rightarrow> bytes option \<Rightarrow> app_error + unit" where
  "check_cwd is_dir cwd =
     (case cwd of
        None \<Rightarrow> Inr ()
      | Some c \<Rightarrow>
          (case is_dir c of
             None \<Rightarrow> Inl (WorkingDirectoryMissing c)
           | Some False \<Rightarrow> Inl (WorkingDirectoryNotDirectory c)
           | Some True \<Rightarrow> Inr ()))"

definition restart_spec :: "SessionMeta \<Rightarrow> StartSpec" where
  "restart_spec m =
     \<lparr>sc_title = sm_title m, sc_tags = sm_tags m, sc_cmd = sm_command m, sc_args = sm_args m, sc_cwd = sm_cwd m,
      sc_rows = None, sc_cols = None, sc_notifications_enabled = sm_notifications_enabled m\<rparr>"

text \<open>\<open>start\<close> is \<open>start_session_via_handle\<close> with its answers.\<close>

definition restart_session_via_handle ::
  "'j journal_ops \<Rightarrow> nat \<Rightarrow> wait_result \<Rightarrow> wait_result \<Rightarrow> round list \<Rightarrow> (bytes \<Rightarrow> bool option)
     \<Rightarrow> (StartSpec \<Rightarrow> ('e, 'j) SessionStore \<Rightarrow> (app_error + bytes) option \<times> ('e, 'j) SessionStore)
     \<Rightarrow> bytes \<Rightarrow> bool \<Rightarrow> ('e, 'j) SessionStore \<Rightarrow> (app_error + bytes) option \<times> ('e, 'j) SessionStore" where
  "restart_session_via_handle J now wait wait2 rounds is_dir start i force s =
     (case restart_source J now wait i force s of
        (Inl err, s1) \<Rightarrow> (Some (Inl err), s1)
      | (Inr (m, needs_termination), s1) \<Rightarrow>
          (case check_cwd is_dir (sm_cwd m) of
             Inl err \<Rightarrow> (Some (Inl err), s1)
           | Inr _ \<Rightarrow>
               if \<not> needs_termination then start (restart_spec m) s1
               else (case map_of (ss_sessions s1) i of
                  None \<Rightarrow> (None, s1)
                | Some rt \<Rightarrow>
                  (case terminate_runtime J now wait2 0 StKilled rounds rt of (res, _, rt1) \<Rightarrow>
                    let s2 = write_runtime i rt1 s1
                    in case res of
                         Looping \<Rightarrow> (None, s2)
                       | Ended False \<Rightarrow> (Some (Inl (SourceNotKilled i)), s2)
                       | Ended True \<Rightarrow>
                           (case start (restart_spec m) (send_event (SessionUpdated i) s2) of
                              (Some (Inl err), s3) \<Rightarrow> (Some (Inl (ReplacementFailed i err)), s3)
                            | other \<Rightarrow> other)))))"

section \<open>Deleting\<close>

text \<open>\<open>None\<close> is a termination that is still looping.\<close>

definition finish_delete ::
  "bytes \<Rightarrow> bool \<Rightarrow> ('e, 'j) SessionStore \<Rightarrow> (app_error + bool) \<times> ('e, 'j) SessionStore" where
  "finish_delete i live s =
     (let (found, d1) = db_session_exists i (ss_db s);
          (gone, d2) = (if found then remove_session_dir i d1 else (True, d1))
      in if \<not> gone then (Inl DirectoryError, s\<lparr>ss_db := d2\<rparr>)
         else case db_delete_session i d2 of
           (False, d3) \<Rightarrow> (Inl DatabaseError, s\<lparr>ss_db := d3\<rparr>)
         | (True, d3) \<Rightarrow>
             (Inr True, send_event (SessionDeleted i)
                (s\<lparr>ss_db := d3, ss_sessions := (if live then AList.delete i (ss_sessions s) else ss_sessions s),
                   ss_evicted_sessions := AList.delete i (ss_evicted_sessions s)\<rparr>)))"

definition delete_session ::
  "'j journal_ops \<Rightarrow> nat \<Rightarrow> wait_result \<Rightarrow> wait_result \<Rightarrow> round list \<Rightarrow> bytes \<Rightarrow> bool \<Rightarrow> ('e, 'j) SessionStore
     \<Rightarrow> (app_error + bool) option \<times> ('e, 'j) SessionStore" where
  "delete_session J now wait wait2 rounds i force s =
     (case map_of (ss_sessions s) i of
        Some rt \<Rightarrow>
          let rt1 = snd (refresh_status J now wait rt); s1 = write_runtime i rt1 s
          in if is_completed rt1 then (case finish_delete i True s1 of (r, s2) \<Rightarrow> (Some r, s2))
             else if \<not> force then (Some (Inl (SessionIsRunning i)), s1)
             else (case terminate_runtime J now wait2 0 StKilled rounds rt1 of
                     (Looping, _, rt2) \<Rightarrow> (None, write_runtime i rt2 s)
                   | (Ended _, _, rt2) \<Rightarrow>
                       (case finish_delete i True (write_runtime i rt2 s) of (r, s2) \<Rightarrow> (Some r, s2)))
      | None \<Rightarrow>
          (case db_session_exists i (ss_db s) of (found, d) \<Rightarrow>
             let s1 = s\<lparr>ss_db := d\<rparr>
             in if \<not> found \<and> map_of (ss_evicted_sessions s1) i = None then (Some (Inr False), s1)
                else (case finish_delete i False s1 of (r, s2) \<Rightarrow> (Some r, s2))))"

section \<open>Metadata\<close>

text \<open>\<open>update_session_metadata\<close>. A title that was given but is blank clears the title.\<close>

definition edit_runtime ::
  "bool \<Rightarrow> bytes option \<Rightarrow> bytes list option \<Rightarrow> bool option \<Rightarrow> ('e, 'j) SessionRuntime \<Rightarrow> ('e, 'j) SessionRuntime" where
  "edit_runtime title_provided title tags notify rt =
     (let rt1 = (if title_provided
                 then rt\<lparr>rt_meta := (rt_meta rt)\<lparr>sm_title := title\<rparr>, rt_title_user_set := (title \<noteq> None)\<rparr> else rt);
          rt2 = (case tags of Some ts \<Rightarrow> rt1\<lparr>rt_meta := (rt_meta rt1)\<lparr>sm_tags := ts\<rparr>\<rparr> | None \<Rightarrow> rt1)
      in case notify of Some enabled \<Rightarrow> set_notifications_enabled enabled rt2 | None \<Rightarrow> rt2)"

definition update_session_metadata ::
  "bytes \<Rightarrow> bytes option \<Rightarrow> bytes list option \<Rightarrow> bool option \<Rightarrow> ('e, 'j) SessionStore
     \<Rightarrow> (app_error + unit) \<times> ('e, 'j) SessionStore" where
  "update_session_metadata i title tags notify s =
     (case validate_session_metadata_update title tags of
        Inl err \<Rightarrow> (Inl (InvalidTitle err), s)
      | Inr (title1, tags1) \<Rightarrow>
          (case map_of (ss_sessions s) i of
             Some rt \<Rightarrow>
               if notify \<noteq> None \<and> is_completed rt then (Inl (SessionNotRunning i), s)
               else
                 let rt1 = edit_runtime (title \<noteq> None) title1 tags1 notify rt; s1 = write_runtime i rt1 s
                 in (case db_update_session (rt_meta rt1) (ss_db s) of
                       (True, d) \<Rightarrow> (Inr (), send_event (SessionUpdated i) (s1\<lparr>ss_db := d\<rparr>))
                     | (False, d) \<Rightarrow> (Inl DatabaseError, s1\<lparr>ss_db := d\<rparr>))
           | None \<Rightarrow>
               (case db_get_session i (ss_db s) of
                  (None, d) \<Rightarrow> (Inl DatabaseError, s\<lparr>ss_db := d\<rparr>)
                | (Some None, d) \<Rightarrow> (Inl (SessionNotFound i), s\<lparr>ss_db := d\<rparr>)
                | (Some (Some m), d) \<Rightarrow>
                    if notify \<noteq> None then (Inl (SessionNotRunning i), s\<lparr>ss_db := d\<rparr>)
                    else
                      let m1 = (if title \<noteq> None then m\<lparr>sm_title := title1\<rparr> else m);
                          m2 = (case tags1 of Some ts \<Rightarrow> m1\<lparr>sm_tags := ts\<rparr> | None \<Rightarrow> m1)
                      in (case db_update_session m2 d of
                            (True, d1) \<Rightarrow> (Inr (), send_event (SessionUpdated i) (s\<lparr>ss_db := d1\<rparr>))
                          | (False, d1) \<Rightarrow> (Inl DatabaseError, s\<lparr>ss_db := d1\<rparr>)))))"

section \<open>Startup\<close>

definition is_stale_row :: "SessionMeta \<Rightarrow> bool" where
  "is_stale_row m \<longleftrightarrow> sm_status m \<in> {StRunning, StStopping}"

fun fail_rows :: "SessionMeta list \<Rightarrow> database \<Rightarrow> database" where
  "fail_rows [] d = d"
| "fail_rows (m # ms) d = fail_rows ms (snd (db_update_session m d))"

text \<open>The rows of sessions that were running when the daemon last ended.\<close>

definition load_running_stopping_sessions ::
  "('e, 'j) SessionStore \<Rightarrow> SessionMeta list \<times> ('e, 'j) SessionStore" where
  "load_running_stopping_sessions s =
     (case db_call (ss_db s) of
        (False, d) \<Rightarrow> ([], s\<lparr>ss_db := d\<rparr>)
      | (True, d) \<Rightarrow>
          let failed = map (\<lambda>m. m\<lparr>sm_status := StFailed, sm_exit_code := None\<rparr>)
                         (filter is_stale_row (map snd (db_rows d)))
          in (failed, s\<lparr>ss_db := fail_rows failed d\<rparr>))"

section \<open>Persisting, resume hints and eviction\<close>

text \<open>The first pass over the sessions: refresh each, collect what is to be written, and the sessions
  whose journal can be searched for a resume hint.\<close>

definition prune_refresh ::
  "'j journal_ops \<Rightarrow> nat \<Rightarrow> (bytes \<Rightarrow> wait_result) \<Rightarrow> bytes \<times> ('e, 'j) SessionRuntime
     \<Rightarrow> SessionMeta option \<times> bool \<times> ('e, 'j) SessionRuntime" where
  "prune_refresh J now waits x =
     (case x of (i, rt) \<Rightarrow>
        let rt1 = snd (refresh_status J now (waits i) rt);
            write = (is_completed rt1 \<and> \<not> rt_persisted rt1);
            rt2 = (if write then rt1\<lparr>rt_persisted := True\<rparr> else rt1)
        in if is_completed rt2 \<and> rt_output_closed rt2 \<and> \<not> rt_resume_scanned rt2 then
             (case rt_journal rt2 of
                None \<Rightarrow> (if write then Some (rt_meta rt1) else None, True, rt2)
              | Some j \<Rightarrow>
                  let j1 = jo_poll_acks J j;
                      j2 = (if jo_is_fully_durable J j1 then j1 else jo_request_sync J j1);
                      rt3 = rt2\<lparr>rt_journal := Some j2\<rparr>
                  in (if write then Some (rt_meta rt1) else None,
                      \<not> jo_is_degraded J j2 \<and> jo_is_fully_durable J j2,
                      if jo_is_degraded J j2 then rt3\<lparr>rt_resume_scanned := True\<rparr> else rt3))
           else (if write then Some (rt_meta rt1) else None, False, rt2))"

text \<open>What the search of a journal answers: an error to retry, nothing, or a command.\<close>

datatype hint_answer = HintError | NoHint | Hint bytes

fun prune_hints ::
  "(bytes \<Rightarrow> hint_answer) \<Rightarrow> bytes list \<Rightarrow> ('e, 'j) SessionStore \<Rightarrow> ('e, 'j) SessionStore" where
  "prune_hints hints [] s = s"
| "prune_hints hints (i # rest) s =
     (case map_of (ss_sessions s) i of
        None \<Rightarrow> prune_hints hints rest s
      | Some rt \<Rightarrow>
          (case hints i of
             HintError \<Rightarrow> prune_hints hints rest s
           | NoHint \<Rightarrow> prune_hints hints rest (write_runtime i (rt\<lparr>rt_resume_scanned := True\<rparr>) s)
           | Hint command \<Rightarrow>
               (case db_set_resume_command i command (ss_db s) of
                  (False, d) \<Rightarrow> prune_hints hints rest (s\<lparr>ss_db := d\<rparr>)
                | (True, d) \<Rightarrow>
                    prune_hints hints rest (send_event (SessionUpdated i)
                      (write_runtime i (rt\<lparr>rt_resume_scanned := True,
                         rt_meta := (rt_meta rt)\<lparr>sm_resume_command := Some command\<rparr>\<rparr>) (s\<lparr>ss_db := d\<rparr>))))))"

fun prune_persist :: "SessionMeta list \<Rightarrow> database \<Rightarrow> database" where
  "prune_persist [] d = d"
| "prune_persist (m # ms) d = prune_persist ms (snd (db_update_session m d))"

definition evicts :: "nat \<Rightarrow> nat \<Rightarrow> ('e, 'j) SessionRuntime \<Rightarrow> bool" where
  "evicts now ttl rt \<longleftrightarrow>
     is_completed rt \<and> ttl \<le> now - (case rt_completed_at rt of Some t \<Rightarrow> t | None \<Rightarrow> now)
     \<and> (\<not> rt_output_closed rt \<or> rt_resume_scanned rt)"

definition evict_old_tombstones :: "nat \<Rightarrow> nat \<Rightarrow> (bytes \<times> nat) list \<Rightarrow> (bytes \<times> nat) list" where
  "evict_old_tombstones now ttl evicted = filter (\<lambda>(_, at). now - at < ttl) evicted"

definition prune_evict :: "nat \<Rightarrow> ('e, 'j) SessionStore \<Rightarrow> ('e, 'j) SessionStore" where
  "prune_evict now s =
     (let ttl = ss_eviction_ttl s * 1000;
          dated = map (\<lambda>(i, rt). (i, if is_completed rt \<and> rt_completed_at rt = None
                                     then rt\<lparr>rt_completed_at := Some now\<rparr> else rt)) (ss_sessions s);
          gone = map fst (filter (\<lambda>(i, rt). evicts now ttl rt) dated)
      in s\<lparr>ss_sessions := filter (\<lambda>(i, rt). i \<notin> set gone) dated,
           ss_evicted_sessions :=
             evict_old_tombstones now ttl (fold (\<lambda>i. AList.update i now) gone (ss_evicted_sessions s))\<rparr>)"

definition prune_evicted_sessions ::
  "'j journal_ops \<Rightarrow> nat \<Rightarrow> (bytes \<Rightarrow> wait_result) \<Rightarrow> (bytes \<Rightarrow> hint_answer) \<Rightarrow> ('e, 'j) SessionStore
     \<Rightarrow> ('e, 'j) SessionStore" where
  "prune_evicted_sessions J now waits hints s =
     (let done = map (\<lambda>x. (fst x, prune_refresh J now waits x)) (ss_sessions s);
          s1 = s\<lparr>ss_sessions := map (\<lambda>(i, _, _, rt). (i, rt)) done,
                 ss_db := prune_persist (List.map_filter (\<lambda>(_, m, _). m) done) (ss_db s)\<rparr>;
          candidates = map fst (filter (\<lambda>(_, _, ready, _). ready) done)
      in prune_evict now (prune_hints hints candidates s1))"

text \<open>At shutdown the sweep is repeated, at most twenty times, while a finished session still waits for its
  resume hint; \<open>sweeps\<close> has the answers for each.\<close>

definition hint_pending :: "('e, 'j) SessionStore \<Rightarrow> bool" where
  "hint_pending s \<longleftrightarrow> list_ex (\<lambda>(_, rt). is_completed rt \<and> \<not> rt_resume_scanned rt) (ss_sessions s)"

fun flush_loop ::
  "'j journal_ops \<Rightarrow> nat \<Rightarrow> (nat \<Rightarrow> nat \<times> (bytes \<Rightarrow> wait_result) \<times> (bytes \<Rightarrow> hint_answer)) \<Rightarrow> ('e, 'j) SessionStore
     \<Rightarrow> ('e, 'j) SessionStore" where
  "flush_loop J 0 sweeps s = s"
| "flush_loop J (Suc n) sweeps s =
     (case sweeps n of (now, waits, hints) \<Rightarrow>
        let s1 = prune_evicted_sessions J now waits hints s
        in if hint_pending s1 then flush_loop J n sweeps s1 else s1)"

definition flush_resume_hints_on_shutdown where
  "flush_resume_hints_on_shutdown J sweeps s = flush_loop J 20 sweeps s"

section \<open>How a stop goes\<close>

fun keys_of :: "terminate_effect list \<Rightarrow> bytes list" where
  "keys_of [] = []"
| "keys_of (SentKey k _ _ # es) = k # keys_of es"
| "keys_of (_ # es) = keys_of es"

lemma keys_of_append [simp]: "keys_of (a @ b) = keys_of a @ keys_of b"
  by (induction a rule: keys_of.induct) auto

text \<open>What a stop may do to the program: keys before the input deadline and not before their time, the
  group signal once and not before the input deadline, the kill at the end and not before the deadline.\<close>

fun effect_ok :: "nat \<Rightarrow> nat \<Rightarrow> nat \<Rightarrow> terminate_effect \<Rightarrow> bool" where
  "effect_ok start soft deadline (SentKey k checked due) \<longleftrightarrow> checked < soft \<and> start \<le> due"
| "effect_ok start soft deadline (GroupSigterm t) \<longleftrightarrow> soft \<le> t"
| "effect_ok start soft deadline (TreeKilled t) \<longleftrightarrow> deadline \<le> t"

definition is_sigterm :: "terminate_effect \<Rightarrow> bool" where
  "is_sigterm e \<longleftrightarrow> (\<exists>t. e = GroupSigterm t)"

lemma send_soft_key_spec:
  assumes "send_soft_key soft r schedule rt = (key, schedule', rt')" and "list_all (\<lambda>(t, _). start \<le> t) schedule"
  shows "list_all (\<lambda>(t, _). start \<le> t) schedule'
     \<and> (key = None \<and> (schedule' = schedule \<or> schedule' = [])
        \<or> (\<exists>k. key = Some k \<and> map snd schedule = k # map snd schedule' \<and> ro_keys r < soft \<and> start \<le> ro_due r))"
  using assms
  by (cases schedule)
    (fastforce simp: send_soft_key_def list_all_iff o_def split_def intro: trans_le_add1
       split: if_splits prod.splits send_result.splits)+

lemma terminate_rounds_ok:
  assumes "terminate_rounds J deadline soft rounds tm rt = (res, effects, rt')"
    and "list_all (\<lambda>(t, _). start \<le> t) (tm_schedule tm)"
    and "\<And>t. tm_sigterm_at tm = Some t \<Longrightarrow> soft \<le> t"
  shows "(\<exists>rest. map snd (tm_schedule tm) = keys_of effects @ rest)
     \<and> list_all (effect_ok start soft deadline) effects
     \<and> length (filter is_sigterm effects) \<le> (if tm_sigterm_at tm = None then 0 else 1)"
  using assms
proof (induction rounds arbitrary: tm rt res effects rt')
  case Nil
  then show ?case by auto
next
  case (Cons r rs)
  obtain ended rt1 where ref: "refresh_status J (ro_check r) (ro_wait r) rt = (ended, rt1)" by (rule prod.exhaust)
  show ?case
  proof (cases "ro_check r < deadline \<and> \<not> ended")
    case False
    with Cons.prems(1) ref show ?thesis by (auto simp: is_sigterm_def split: if_splits bool.splits)
  next
    case True
    obtain key schedule rt3 where key: "send_soft_key soft r (tm_schedule tm) (drain_queue (ro_drained r) rt1) = (key, schedule, rt3)"
      by (metis prod.collapse)
    let ?signals = "case tm_sigterm_at tm of Some at \<Rightarrow> if at \<le> ro_signal r then [GroupSigterm (ro_signal r)] else [] | None \<Rightarrow> []"
    let ?keys = "case key of Some input \<Rightarrow> [SentKey input (ro_keys r) (ro_due r)] | None \<Rightarrow> []"
    let ?tm = "\<lparr>tm_schedule = schedule, tm_sigterm_at = (if ?signals = [] then tm_sigterm_at tm else None)\<rparr>"
    obtain res1 eff1 rt4 where rest: "terminate_rounds J deadline soft rs ?tm rt3 = (res1, eff1, rt4)" by (metis prod.collapse)
    have out: "effects = ?keys @ ?signals @ eff1"
      using Cons.prems(1) True ref key rest by (auto simp: Let_def)
    note k = send_soft_key_spec [OF key Cons.prems(2)]
    have "soft \<le> t" if "tm_sigterm_at ?tm = Some t" for t
      using that Cons.prems(3) by (auto split: if_splits option.splits)
    with Cons.IH [OF rest] k have ih: "\<exists>rest. map snd schedule = keys_of eff1 @ rest"
      "list_all (effect_ok start soft deadline) eff1"
      "length (filter is_sigterm eff1) \<le> (if tm_sigterm_at ?tm = None then 0 else 1)" by simp_all
    have sig: "keys_of ?signals = []" "list_all (effect_ok start soft deadline) ?signals"
      "length (filter is_sigterm ?signals) = (if ?signals = [] then 0 else 1)"
      "?signals \<noteq> [] \<Longrightarrow> tm_sigterm_at tm \<noteq> None"
      using Cons.prems(3) by (auto simp: is_sigterm_def split: option.splits)
    have keys: "filter is_sigterm ?keys = []" "list_all (effect_ok start soft deadline) ?keys"
      "\<exists>rest. map snd (tm_schedule tm) = keys_of ?keys @ keys_of eff1 @ rest"
      using k ih(1) by (auto simp: is_sigterm_def split: option.splits)
    show ?thesis
      using out sig keys ih(2,3) by (auto split: if_splits)
  qed
qed

text \<open>C6. A stop escalates in order: the program gets Ctrl-C, Ctrl-C, Ctrl-D, or the first of these, never
  before the request and never once three quarters of the grace time have passed; the process group is
  signalled at most once and only then; the process tree is killed only when the grace time is over.
  A kill, or a stop without grace, sends no keys and no signal.\<close>

theorem stop_escalates_in_order:
  assumes "terminate_runtime J start wait grace_seconds requested rounds rt = (res, effects, rt')"
  shows "(\<exists>rest. SOFT_STOP_INPUTS = keys_of effects @ rest)
     \<and> list_all (effect_ok start (start + grace_seconds * 1000 div 4 * 3) (start + grace_seconds * 1000)) effects
     \<and> length (filter is_sigterm effects) \<le> 1
     \<and> (requested \<noteq> StStopped \<or> grace_seconds = 0 \<longrightarrow> keys_of effects = [] \<and> filter is_sigterm effects = [])"
proof (cases "fst (begin_termination J start wait requested rt)")
  case True
  with assms show ?thesis by (auto simp: terminate_runtime_def Let_def split: prod.splits bool.splits)
next
  case False
  let ?soft = "start + grace_seconds * 1000 div 4 * 3"
  let ?tm = "\<lparr>tm_schedule = build_soft_stop_schedule start (grace_seconds * 1000) requested,
    tm_sigterm_at = (if requested = StStopped \<and> grace_seconds * 1000 \<noteq> 0 then Some ?soft else None)\<rparr>"
  obtain rt1 where run: "terminate_rounds J (start + grace_seconds * 1000) ?soft rounds ?tm rt1 = (res, effects, rt')"
    using assms False by (auto simp: terminate_runtime_def Let_def split: prod.splits bool.splits)
  have sch: "list_all (\<lambda>(t, _). start \<le> t) (tm_schedule ?tm)"
    "map snd (tm_schedule ?tm) = (if requested \<noteq> StStopped \<or> grace_seconds = 0 then [] else SOFT_STOP_INPUTS)"
    by (simp_all add: build_soft_stop_schedule_def SOFT_STOP_INPUTS_def)
  from terminate_rounds_ok [OF run sch(1)] sch(2) show ?thesis
    by (auto split: if_splits)
qed

definition final_status_ok :: "('e, 'j) SessionRuntime \<Rightarrow> bool" where
  "final_status_ok rt \<longleftrightarrow> pred_option (\<lambda>st. st \<in> {StStopped, StKilled, StFailed}) (rt_requested_final_status rt)"

lemma journal_event_keeps_status [simp]:
  "rt_meta (journal_event J call rt) = rt_meta rt"
  "rt_requested_final_status (journal_event J call rt) = rt_requested_final_status rt"
  "rt_completed_at (journal_event J call rt) = rt_completed_at rt"
  "rt_persisted (journal_event J call rt) = rt_persisted rt"
  by (simp_all add: journal_event_def Let_def split: option.splits prod.splits)

lemma mark_completed_status:
  "sm_status (rt_meta (mark_completed J now status code rt)) = status"
  "rt_requested_final_status (mark_completed J now status code rt) = None"
  by (simp_all add: mark_completed_def Let_def teardown_pty_def queue_journal_completion_def
      journal_terminal_end_def journal_lifecycle_def split: option.splits)

lemma refresh_ends:
  assumes "refresh_status J now wait rt = (ended, rt')" and "final_status_ok rt"
  shows "final_status_ok rt'" "ended = is_completed rt'"
  using assms
  by (auto simp: refresh_status_def Let_def final_status_ok_def is_completed_def mark_completed_status
      split: if_splits wait_result.splits option.splits)

lemma send_soft_key_keeps_status:
  "rt_requested_final_status (snd (snd (send_soft_key soft r schedule rt))) = rt_requested_final_status rt"
  by (simp add: send_soft_key_def split: list.splits prod.splits send_result.splits)

lemma terminate_rounds_ends:
  assumes "terminate_rounds J deadline soft rounds tm rt = (res, effects, rt')" and "final_status_ok rt"
    and "\<exists>r \<in> set rounds. deadline \<le> ro_check r"
  shows "\<exists>ok. res = Ended ok \<and> (ok \<longleftrightarrow> is_completed rt' \<or> (\<exists>t. TreeKilled t \<in> set effects))"
  using assms
proof (induction rounds arbitrary: tm rt res effects rt')
  case Nil
  then show ?case by simp
next
  case (Cons r rs)
  obtain ended rt1 where ref: "refresh_status J (ro_check r) (ro_wait r) rt = (ended, rt1)" by (rule prod.exhaust)
  note ended = refresh_ends [OF ref Cons.prems(2)]
  show ?case
  proof (cases "ro_check r < deadline \<and> \<not> ended")
    case False
    with Cons.prems(1) ref ended(2) show ?thesis by (auto split: if_splits bool.splits)
  next
    case True
    let ?key = "send_soft_key soft r (tm_schedule tm) (drain_queue (ro_drained r) rt1)"
    obtain key schedule rt3 where key: "?key = (key, schedule, rt3)" by (metis prod.collapse)
    have ok: "final_status_ok rt3"
      using send_soft_key_keeps_status [of soft r "tm_schedule tm" "drain_queue (ro_drained r) rt1"] key ended(1)
      by (simp add: final_status_ok_def drain_queue_def)
    obtain tm1 where "terminate_rounds J deadline soft (r # rs) tm rt =
        (case terminate_rounds J deadline soft rs tm1 rt3 of (res, effects, rt4) \<Rightarrow>
           (res, (case key of Some input \<Rightarrow> [SentKey input (ro_keys r) (ro_due r)] | None \<Rightarrow> [])
             @ (case tm_sigterm_at tm of Some at \<Rightarrow> if at \<le> ro_signal r then [GroupSigterm (ro_signal r)] else []
                | None \<Rightarrow> []) @ effects, rt4))"
      using True ref key by (simp add: Let_def)
    then obtain effects1 where rest: "terminate_rounds J deadline soft rs tm1 rt3 = (res, effects1, rt')"
      and same: "\<And>t. TreeKilled t \<in> set effects \<longleftrightarrow> TreeKilled t \<in> set effects1"
      using Cons.prems(1) by (auto split: prod.splits option.splits if_splits)
    have "\<exists>r \<in> set rs. deadline \<le> ro_check r" using Cons.prems(3) True by auto
    from Cons.IH [OF rest ok this] show ?thesis by (simp add: same)
  qed
qed

text \<open>C7. A stop ends: once a round of the loop sees the grace time over, the request has an answer. It is
  positive just when the program was found to have ended or its process tree was killed.\<close>

theorem stop_always_ends:
  assumes "terminate_runtime J start wait grace_seconds requested rounds rt = (res, effects, rt')"
    and "requested \<in> {StStopped, StKilled}" and "final_status_ok rt"
    and "\<exists>r \<in> set rounds. start + grace_seconds * 1000 \<le> ro_check r"
  shows "\<exists>ok. res = Ended ok \<and> (ok \<longleftrightarrow> is_completed rt' \<or> (\<exists>t. TreeKilled t \<in> set effects))"
proof -
  obtain ended rt1 where ref: "refresh_status J start wait rt = (ended, rt1)" by (rule prod.exhaust)
  note ended = refresh_ends [OF ref assms(3)]
  show ?thesis
  proof (cases ended)
    case True
    with assms(1) ref ended(2) show ?thesis by (auto simp: terminate_runtime_def begin_termination_def Let_def)
  next
    case False
    let ?rt = "rt1\<lparr>rt_requested_final_status := Some requested, rt_meta := (rt_meta rt1)\<lparr>sm_status := StStopping\<rparr>\<rparr>"
    have "final_status_ok ?rt" using assms(2) by (auto simp: final_status_ok_def)
    from terminate_rounds_ends [OF _ this assms(4)] False assms(1) ref show ?thesis
      by (simp add: terminate_runtime_def begin_termination_def Let_def)
  qed
qed

section \<open>What a stop records\<close>



lemma mark_completed_exit [simp]: "sm_exit_code (rt_meta (mark_completed J now status (Some code) rt)) = Some code"
  by (simp add: mark_completed_def Let_def teardown_pty_def queue_journal_completion_def
      journal_terminal_end_def journal_lifecycle_def split: option.splits)





section \<open>The life of a session is a run\<close>

lemma run_refresh: "session_run b64 bare E J (s\<lparr>se_runtime := rt\<rparr>) (s\<lparr>se_runtime := snd (refresh_status J now wait rt)\<rparr>)"
  using run_one [OF session_step.refresh [of b64 bare E J "s\<lparr>se_runtime := rt\<rparr>" now wait]] by simp

lemma run_change:
  assumes "facts_view rt' = facts_view rt" and "rt_filtered_total_bytes rt' = rt_filtered_total_bytes rt"
  shows "session_run b64 bare E J (s\<lparr>se_runtime := rt\<rparr>) (s\<lparr>se_runtime := rt'\<rparr>)"
  using run_one [OF session_step.bookkeeping [of rt' "s\<lparr>se_runtime := rt\<rparr>" b64 bare E J]] assms by simp

lemma send_soft_key_runs:
  "facts_view (snd (snd (send_soft_key soft r schedule (drain_queue n rt)))) = facts_view rt"
  "rt_filtered_total_bytes (snd (snd (send_soft_key soft r schedule (drain_queue n rt)))) = rt_filtered_total_bytes rt"
  by (simp_all add: send_soft_key_def drain_queue_def facts_view_def split: list.splits prod.splits send_result.splits)

lemma terminate_rounds_run:
  "session_run b64 bare E J (s\<lparr>se_runtime := rt\<rparr>)
     (s\<lparr>se_runtime := snd (snd (terminate_rounds J deadline soft rounds tm rt))\<rparr>)"
proof (induction rounds arbitrary: tm rt)
  case Nil
  show ?case by (simp add: session_run.here)
next
  case (Cons r rs)
  obtain ended rt1 where ref: "refresh_status J (ro_check r) (ro_wait r) rt = (ended, rt1)" by (rule prod.exhaust)
  have first: "session_run b64 bare E J (s\<lparr>se_runtime := rt\<rparr>) (s\<lparr>se_runtime := rt1\<rparr>)"
    using run_refresh [of b64 bare E J rt s "ro_check r" "ro_wait r"] by (simp add: ref)
  let ?key = "send_soft_key soft r (tm_schedule tm) (drain_queue (ro_drained r) rt1)"
  have keyed: "session_run b64 bare E J (s\<lparr>se_runtime := rt1\<rparr>) (s\<lparr>se_runtime := snd (snd ?key)\<rparr>)"
    by (rule run_change) (rule send_soft_key_runs)+
  let ?killed = "rt1\<lparr>rt_pty := (rt_pty rt1)\<lparr>ph_kills := Suc (ph_kills (rt_pty rt1))\<rparr>\<rparr>"
  have "session_run b64 bare E J (s\<lparr>se_runtime := rt1\<rparr>) (s\<lparr>se_runtime := ?killed\<rparr>)"
    by (rule run_change) (simp_all add: facts_view_def)
  from run_trans [OF run_refresh this] have killed: "session_run b64 bare E J (s\<lparr>se_runtime := rt1\<rparr>)
      (s\<lparr>se_runtime := snd (refresh_status J (ro_check r) (ro_last_wait r) ?killed)\<rparr>)" .
  have later: "session_run b64 bare E J (s\<lparr>se_runtime := rt1\<rparr>)
      (s\<lparr>se_runtime := snd (snd (terminate_rounds J deadline soft rs tm1 (snd (snd ?key))))\<rparr>)" for tm1
    by (rule run_trans [OF Cons.IH keyed])
  show ?case
    using first run_trans [OF killed first] run_trans [OF later first]
    by (auto simp: ref Let_def split_def split: bool.splits)
qed

lemma terminate_run:
  "session_run b64 bare E J (s\<lparr>se_runtime := rt\<rparr>)
     (s\<lparr>se_runtime := snd (snd (terminate_runtime J start wait grace_seconds requested rounds rt))\<rparr>)"
proof -
  obtain ended rt1 where ref: "refresh_status J start wait rt = (ended, rt1)" by (rule prod.exhaust)
  have first: "session_run b64 bare E J (s\<lparr>se_runtime := rt\<rparr>) (s\<lparr>se_runtime := rt1\<rparr>)"
    using run_refresh [of b64 bare E J rt s start wait] by (simp add: ref)
  let ?rt = "rt1\<lparr>rt_requested_final_status := Some requested, rt_meta := (rt_meta rt1)\<lparr>sm_status := StStopping\<rparr>\<rparr>"
  have "session_run b64 bare E J (s\<lparr>se_runtime := rt1\<rparr>) (s\<lparr>se_runtime := ?rt\<rparr>)"
    by (rule run_change) (simp_all add: facts_view_def)
  from run_trans [OF run_trans [OF terminate_rounds_run this] first] first show ?thesis
    by (auto simp: terminate_runtime_def begin_termination_def ref Let_def split: bool.splits)
qed

abbreviation refreshed where
  "refreshed J now waits i rt \<equiv> snd (snd (prune_refresh J now waits (i, rt)))"

lemma run_poll: "session_run b64 bare E J (s\<lparr>se_runtime := rt\<rparr>)
    (s\<lparr>se_runtime := rt\<lparr>rt_journal := map_option (jo_poll_acks J) (rt_journal rt)\<rparr>\<rparr>)"
  using run_one [OF session_step.poll [of b64 bare E J "s\<lparr>se_runtime := rt\<rparr>"]] by simp

lemma run_sync: "session_run b64 bare E J (s\<lparr>se_runtime := rt\<rparr>)
    (s\<lparr>se_runtime := rt\<lparr>rt_journal := map_option (jo_request_sync J) (rt_journal rt)\<rparr>\<rparr>)"
  using run_one [OF session_step.sync [of b64 bare E J "s\<lparr>se_runtime := rt\<rparr>"]] by simp

lemma refreshed_run:
  "session_run b64 bare E J (s\<lparr>se_runtime := rt\<rparr>) (s\<lparr>se_runtime := refreshed J now waits i rt\<rparr>)"
proof -
  let ?rt1 = "snd (refresh_status J now (waits i) rt)"
  let ?j1 = "map_option (jo_poll_acks J) (rt_journal ?rt1)"
  let ?j2 = "map_option (jo_request_sync J) ?j1"
  let ?run = "\<lambda>rt'. session_run b64 bare E J (s\<lparr>se_runtime := rt\<rparr>) (s\<lparr>se_runtime := rt'\<rparr>)"
  have marks: "?run (rt'\<lparr>rt_persisted := p, rt_resume_scanned := q\<rparr>)" if "?run rt'" for rt' p q
    by (rule run_trans [OF run_change that]) (simp_all add: facts_view_def)
  have r1: "?run ?rt1" by (rule run_refresh)
  have r2: "?run (?rt1\<lparr>rt_journal := ?j1\<rparr>)" by (rule run_trans [OF run_poll r1])
  have r3: "?run (?rt1\<lparr>rt_journal := ?j2\<rparr>)" using run_trans [OF run_sync r2] by simp
  obtain j where j: "j \<in> {rt_journal ?rt1, ?j1, ?j2}"
    "refreshed J now waits i rt = ?rt1\<lparr>rt_journal := j, rt_persisted := rt_persisted (refreshed J now waits i rt),
       rt_resume_scanned := rt_resume_scanned (refreshed J now waits i rt)\<rparr>"
    by (rule that [of "rt_journal (refreshed J now waits i rt)"])
      (auto simp: prune_refresh_def Let_def split: option.splits)
  have "?run (?rt1\<lparr>rt_journal := j\<rparr>)" using j(1) r1 r2 r3 by auto
  from marks [OF this] show ?thesis by (subst j(2))
qed

text \<open>Whatever the rounds of a stop or kill see and do, every step it takes on the runtime is one of the
  session's own, so that the invariants of all runs (the order of the journalled facts, the agreement of
  the streams) hold across it; so is the first pass of a sweep.\<close>

lemma lifecycle_is_session_run:
  "session_run b64 bare E J (s\<lparr>se_runtime := rt\<rparr>)
     (s\<lparr>se_runtime := snd (snd (terminate_runtime J start wait grace_seconds requested rounds rt))\<rparr>)
   \<and> session_run b64 bare E J (s\<lparr>se_runtime := rt\<rparr>) (s\<lparr>se_runtime := refreshed J now waits i rt\<rparr>)"
  by (simp add: terminate_run refreshed_run)

section \<open>Eviction\<close>

lemma keys_update: "k \<in> set (map fst xs) \<Longrightarrow> map fst (AList.update k v xs) = map fst xs"
  by (induction xs) auto

lemma keys_write: "map_of (ss_sessions s) i = Some rt \<Longrightarrow> map fst (ss_sessions (write_runtime i rt' s)) = map fst (ss_sessions s)"
  using keys_update [of i "ss_sessions s" rt'] map_of_SomeD [of "ss_sessions s" i rt]
  by (force simp: write_runtime_def)

text \<open>What the search for hints does not touch.\<close>

definition eviction_view where
  "eviction_view rt = (is_completed rt, rt_completed_at rt, rt_output_closed rt, rt_persisted rt)"

lemma eviction_view_updates [simp]:
  "eviction_view (rt\<lparr>rt_resume_scanned := b\<rparr>) = eviction_view rt"
  "eviction_view (rt\<lparr>rt_resume_scanned := b, rt_meta := (rt_meta rt)\<lparr>sm_resume_command := c\<rparr>\<rparr>) = eviction_view rt"
  by (simp_all add: eviction_view_def is_completed_def)

lemma prune_hints_keeps:
  shows "ss_evicted_sessions (prune_hints hints cands s) = ss_evicted_sessions s"
    and "ss_eviction_ttl (prune_hints hints cands s) = ss_eviction_ttl s"
    and "map fst (ss_sessions (prune_hints hints cands s)) = map fst (ss_sessions s)"
proof (induction cands arbitrary: s)
  case (Cons k cands)
  {
    case 1 show ?case using Cons.IH
      by (auto simp: write_runtime_def send_event_def split: option.splits hint_answer.splits prod.splits bool.splits)
  next
    case 2 show ?case using Cons.IH
      by (auto simp: write_runtime_def send_event_def split: option.splits hint_answer.splits prod.splits bool.splits)
  next
    case 3 show ?case using Cons.IH
      by (auto simp: keys_write split: option.splits hint_answer.splits prod.splits bool.splits)
  }
qed simp_all

lemma prune_hints_runtime:
  "map_of (ss_sessions s) i = Some rt \<Longrightarrow>
   \<exists>rt'. map_of (ss_sessions (prune_hints hints cands s)) i = Some rt' \<and> eviction_view rt' = eviction_view rt
     \<and> (rt_resume_scanned rt' \<longrightarrow> rt_resume_scanned rt \<or> i \<in> set cands \<and> hints i \<noteq> HintError)"
proof (induction cands arbitrary: s rt)
  case (Cons k cands)
  have go: "?case" if "prune_hints hints (k # cands) s = prune_hints hints cands s1"
    "map_of (ss_sessions s1) i = Some rt1" "eviction_view rt1 = eviction_view rt"
    "rt_resume_scanned rt1 \<longrightarrow> rt_resume_scanned rt \<or> i = k \<and> hints i \<noteq> HintError" for s1 rt1
    using Cons.IH [OF that(2)] that by auto
  show ?case
  proof (cases "map_of (ss_sessions s) k")
    case None
    then show ?thesis using go [of s rt] Cons.prems by simp
  next
    case (Some rk)
    show ?thesis
    proof (cases "hints k")
      case HintError
      then show ?thesis using go [of s rt] Some Cons.prems by simp
    next
      case NoHint
      show ?thesis
        by (rule go [of "write_runtime k (rk\<lparr>rt_resume_scanned := True\<rparr>) s" "if i = k then rk\<lparr>rt_resume_scanned := True\<rparr> else rt"])
          (use NoHint Some Cons.prems in \<open>auto simp: update_conv'\<close>)
    next
      case (Hint command)
      obtain ok d where db: "db_set_resume_command k command (ss_db s) = (ok, d)" by (rule prod.exhaust)
      let ?rk = "rk\<lparr>rt_resume_scanned := True, rt_meta := (rt_meta rk)\<lparr>sm_resume_command := Some command\<rparr>\<rparr>"
      show ?thesis
        by (rule go [of "if ok then send_event (SessionUpdated k) (write_runtime k ?rk (s\<lparr>ss_db := d\<rparr>)) else s\<lparr>ss_db := d\<rparr>"
              "if i = k \<and> ok then ?rk else rt"])
          (use Hint Some db Cons.prems in \<open>auto simp: update_conv'\<close>)
    qed
  qed
qed auto

lemma map_of_map_keyed: "map_of (map (\<lambda>(k, v). (k, f k v)) xs) i = map_option (f i) (map_of xs i)"
  by (induction xs) auto

lemma map_of_keep: "map_of (filter (\<lambda>(k, v). k \<notin> G) xs) i = (if i \<in> G then None else map_of xs i)"
  by (induction xs) auto

lemma map_of_fold_update:
  "map_of (fold (\<lambda>k. AList.update k v) ks xs) i = (if i \<in> set ks then Some v else map_of xs i)"
  by (induction ks arbitrary: xs) (auto simp: update_conv')

lemma tombstones_found:
  "map_of (filter (\<lambda>(_, at). now - at < ttl) xs) i = Some at \<Longrightarrow> (i, at) \<in> set xs \<and> now - at < ttl"
  by (auto dest: map_of_SomeD)

lemma tombstone_kept:
  assumes "map_of xs i = Some at" "now - at < ttl" "distinct (map fst xs)"
  shows "map_of (evict_old_tombstones now ttl xs) i = Some at"
  using assms unfolding evict_old_tombstones_def
  by (induction xs) (auto simp: rev_image_eqI dest: map_of_SomeD)

lemma distinct_fold_update:
  "distinct (map fst xs) \<Longrightarrow> distinct (map fst (fold (\<lambda>k. AList.update k v) ks xs))"
  by (induction ks arbitrary: xs) (simp_all add: distinct_update)

lemma prune_evict_runtime:
  assumes "map_of (ss_sessions s) i = Some rt" and "distinct (map fst (ss_sessions s))"
    and "is_completed rt \<Longrightarrow> rt_completed_at rt \<noteq> None"
  shows "map_of (ss_sessions (prune_evict now s)) i
      = (if evicts now (ss_eviction_ttl s * 1000) rt then None else Some rt)"
    and "evicts now (ss_eviction_ttl s * 1000) rt \<Longrightarrow> 0 < ss_eviction_ttl s \<Longrightarrow> distinct (map fst (ss_evicted_sessions s))
      \<Longrightarrow> map_of (ss_evicted_sessions (prune_evict now s)) i = Some now"
proof -
  define date where "date rt = (if is_completed rt \<and> rt_completed_at rt = None
      then rt\<lparr>rt_completed_at := Some now\<rparr> else rt)" for rt :: "('a, 'b) SessionRuntime"
  define dated where "dated = map (\<lambda>(k, rt). (k, date rt)) (ss_sessions s)"
  have mof: "map_of dated i = Some rt"
    using assms(1,3) by (auto simp: dated_def map_of_map date_def)
  have dist: "distinct (map fst dated)" using assms(2) by (simp add: dated_def comp_def split_def)
  define gone where "gone = map fst (filter (\<lambda>(k, rt). evicts now (ss_eviction_ttl s * 1000) rt) dated)"
  have gone: "i \<in> set gone \<longleftrightarrow> evicts now (ss_eviction_ttl s * 1000) rt"
    using mof unfolding gone_def map_of_eq_Some_iff [OF dist] by (auto simp: image_iff dest: eq_key_imp_eq_value [OF dist])
  have out: "prune_evict now s = s\<lparr>ss_sessions := filter (\<lambda>(i, rt). i \<notin> set gone) dated,
      ss_evicted_sessions := evict_old_tombstones now (ss_eviction_ttl s * 1000)
        (fold (\<lambda>i. AList.update i now) gone (ss_evicted_sessions s))\<rparr>"
    by (simp add: prune_evict_def Let_def gone_def dated_def date_def)
  show "map_of (ss_sessions (prune_evict now s)) i
      = (if evicts now (ss_eviction_ttl s * 1000) rt then None else Some rt)"
    by (simp add: out map_of_keep gone mof)
  show "map_of (ss_evicted_sessions (prune_evict now s)) i = Some now"
    if "evicts now (ss_eviction_ttl s * 1000) rt" "0 < ss_eviction_ttl s" "distinct (map fst (ss_evicted_sessions s))"
    using that gone by (simp add: out tombstone_kept map_of_fold_update distinct_fold_update)
qed

lemma mark_completed_at: "rt_completed_at (mark_completed J now status code rt) \<noteq> None"
  by (simp add: mark_completed_def Let_def teardown_pty_def queue_journal_completion_def
      journal_terminal_end_def journal_lifecycle_def split: option.splits)

lemma refresh_completed_at:
  assumes "refresh_status J now wait rt = (ended, rt')" and "is_completed rt'"
  shows "rt_completed_at rt' \<noteq> None"
  using assms mark_completed_at
  by (auto simp: refresh_status_def Let_def is_completed_def split: if_splits wait_result.splits)

lemma refreshed_view:
  "is_completed (refreshed J now waits i rt) = is_completed (snd (refresh_status J now (waits i) rt))"
  "rt_completed_at (refreshed J now waits i rt) = rt_completed_at (snd (refresh_status J now (waits i) rt))"
  "rt_persisted (refreshed J now waits i rt)
     = (rt_persisted (snd (refresh_status J now (waits i) rt)) \<or> is_completed (snd (refresh_status J now (waits i) rt)))"
  by (auto simp: prune_refresh_def Let_def is_completed_def split: option.splits)

lemma refreshed_at: "is_completed (refreshed J now waits i rt) \<Longrightarrow> rt_completed_at (refreshed J now waits i rt) \<noteq> None"
  unfolding refreshed_view by (rule refresh_completed_at [OF prod.collapse [symmetric]])

lemma map_filter_keyed: "List.map_filter (\<lambda>(_, m, _). m) (map (\<lambda>x. (fst x, f x)) xs) = List.map_filter (fst \<circ> f) xs"
  by (induction xs) (auto simp: List.map_filter_simps split: option.splits prod.splits)

lemma prune_decomposes:
  "prune_evicted_sessions J now waits hints s
    = prune_evict now (prune_hints hints (map fst (filter (\<lambda>(i, rt). fst (snd (prune_refresh J now waits (i, rt)))) (ss_sessions s)))
        (s\<lparr>ss_sessions := map (\<lambda>(i, rt). (i, refreshed J now waits i rt)) (ss_sessions s),
           ss_db := prune_persist (List.map_filter (fst \<circ> prune_refresh J now waits) (ss_sessions s)) (ss_db s)\<rparr>))"
  by (simp only: prune_evicted_sessions_def Let_def map_filter_keyed)
    (simp add: comp_def split_def filter_map)

text \<open>C9. A sweep forgets a session only when it has ended, its end lies a full retention time back, and, when
  its output is complete, the search for its resume hint has an answer. It then leaves a tombstone, so
  that the id is still known as evicted; every other session stays.\<close>

theorem eviction_is_safe:
  assumes "map_of (ss_sessions s) i = Some rt" and "distinct (map fst (ss_sessions s))"
    and "distinct (map fst (ss_evicted_sessions s))" and "0 < ss_eviction_ttl s"
    and "s' = prune_evicted_sessions J now waits hints s" and "rt1 = refreshed J now waits i rt"
  shows "(\<exists>rt'. map_of (ss_sessions s') i = Some rt' \<and> eviction_view rt' = eviction_view rt1)
    \<or> is_completed rt1 \<and> (\<exists>t. rt_completed_at rt1 = Some t \<and> ss_eviction_ttl s * 1000 \<le> now - t)
      \<and> (rt_output_closed rt1 \<longrightarrow> rt_resume_scanned rt1 \<or> hints i \<noteq> HintError)
      \<and> map_of (ss_sessions s') i = None \<and> map_of (ss_evicted_sessions s') i = Some now
      \<and> lookup_runtime i s' = Inl Evicted"
proof -
  let ?cands = "map fst (filter (\<lambda>(i, rt). fst (snd (prune_refresh J now waits (i, rt)))) (ss_sessions s))"
  let ?s1 = "s\<lparr>ss_sessions := map (\<lambda>(i, rt). (i, refreshed J now waits i rt)) (ss_sessions s),
      ss_db := prune_persist (List.map_filter (fst \<circ> prune_refresh J now waits) (ss_sessions s)) (ss_db s)\<rparr>"
  have s': "s' = prune_evict now (prune_hints hints ?cands ?s1)"
    unfolding assms(5) by (rule prune_decomposes)
  have "map_of (ss_sessions ?s1) i = Some rt1"
    using assms(1,6) by (simp add: map_of_map_keyed)
  from prune_hints_runtime [OF this, of hints ?cands] obtain rt2 where
    rt2: "map_of (ss_sessions (prune_hints hints ?cands ?s1)) i = Some rt2" "eviction_view rt2 = eviction_view rt1"
    "rt_resume_scanned rt2 \<longrightarrow> rt_resume_scanned rt1 \<or> hints i \<noteq> HintError" by auto
  have dist: "distinct (map fst (ss_sessions (prune_hints hints ?cands ?s1)))"
    using assms(2) by (simp add: prune_hints_keeps comp_def split_def)
  have at: "rt_completed_at rt2 \<noteq> None" if "is_completed rt2"
    using that rt2(2) refreshed_at [of J now waits i rt] unfolding eviction_view_def assms(6) prod.inject by metis
  note ev = prune_evict_runtime [OF rt2(1) dist at, of now]
  show ?thesis
  proof (cases "evicts now (ss_eviction_ttl s * 1000) rt2")
    case False
    with ev(1) rt2(2) show ?thesis by (simp add: s' prune_hints_keeps)
  next
    case True
    with at ev rt2(2,3) assms(3,4) show ?thesis
      by (auto simp: s' prune_hints_keeps evicts_def eviction_view_def lookup_runtime_def split: option.splits)
  qed
qed

section \<open>The end in the database\<close>

text \<open>Several sweeps, each with its clock and answers.\<close>

definition prunes ::
  "'j journal_ops \<Rightarrow> (nat \<times> (bytes \<Rightarrow> wait_result) \<times> (bytes \<Rightarrow> hint_answer)) list \<Rightarrow> ('e, 'j) SessionStore
     \<Rightarrow> ('e, 'j) SessionStore" where
  "prunes J sweeps s = fold (\<lambda>(now, waits, hints). prune_evicted_sessions J now waits hints) sweeps s"

definition row_status :: "bytes \<Rightarrow> database \<Rightarrow> SessionStatus option" where
  "row_status i d = map_option sm_status (map_of (db_rows d) i)"

lemma db_call_rows: "db_call d = (ok, d') \<Longrightarrow> db_rows d' = db_rows d"
  by (auto simp: db_call_def split: list.splits)

lemma map_of_map_at:
  "map_of (map (\<lambda>(k, v). if k = a then (k, f v) else (k, v)) xs) i = (if i = a then map_option f (map_of xs i) else map_of xs i)"
  by (induction xs) auto

lemma row_status_update: "sm_id m \<noteq> i \<Longrightarrow> row_status i (snd (db_update_session m d)) = row_status i d"
  by (auto simp: row_status_def db_update_session_def map_of_map_at db_call_rows split: prod.splits)

lemma row_status_resume: "row_status i (snd (db_set_resume_command k c d)) = row_status i d"
  by (auto simp: row_status_def db_set_resume_command_def map_of_map_at db_call_rows option.map_comp comp_def
      split: prod.splits)

lemma row_status_persist: "i \<notin> sm_id ` set ms \<Longrightarrow> row_status i (prune_persist ms d) = row_status i d"
  by (induction ms arbitrary: d) (auto simp: row_status_update)

lemma row_status_hints: "row_status i (ss_db (prune_hints hints cands s)) = row_status i (ss_db s)"
proof (induction cands arbitrary: s)
  case (Cons k cands)
  have db: "ss_db (write_runtime k rt s) = ss_db s" "ss_db (send_event e s) = ss_db s" for rt e and s :: "('a, 'b) SessionStore"
    by (simp_all add: write_runtime_def send_event_def)
  have "row_status i d = row_status i (ss_db s)" if "db_set_resume_command k c (ss_db s) = (ok, d)" for c ok d
    using that row_status_resume [of i k c "ss_db s"] by simp
  with Cons.IH db show ?case by (auto split: option.splits hint_answer.splits prod.splits bool.splits)
qed simp

text \<open>Every session is stored under its own id, and the one in question counts as written.\<close>

definition settled :: "bytes \<Rightarrow> ('e, 'j) SessionStore \<Rightarrow> bool" where
  "settled i s \<longleftrightarrow> (\<forall>(k, rt) \<in> set (ss_sessions s). sm_id (rt_meta rt) = k \<and> (k = i \<longrightarrow> rt_persisted rt))"

lemma mark_completed_keeps_id:
  "sm_id (rt_meta (mark_completed J now status code rt)) = sm_id (rt_meta rt)"
  "rt_persisted (mark_completed J now status code rt) = rt_persisted rt"
  by (simp_all add: mark_completed_def Let_def teardown_pty_def queue_journal_completion_def
      journal_terminal_end_def journal_lifecycle_def split: option.splits)

lemma refresh_keeps_id:
  "sm_id (rt_meta (snd (refresh_status J now wait rt))) = sm_id (rt_meta rt)"
  "rt_persisted (snd (refresh_status J now wait rt)) = rt_persisted rt"
  by (cases wait; simp add: refresh_status_def Let_def mark_completed_keeps_id)+

lemma refreshed_id: "sm_id (rt_meta (refreshed J now waits k rt)) = sm_id (rt_meta rt)"
  by (simp add: prune_refresh_def Let_def refresh_keeps_id split: option.splits)

lemma refreshed_write:
  "fst (prune_refresh J now waits (k, rt)) = Some m \<Longrightarrow> sm_id m = sm_id (rt_meta rt) \<and> \<not> rt_persisted rt"
  by (auto simp: prune_refresh_def Let_def refresh_keeps_id split: option.splits if_splits)

lemma set_update: "set (AList.update k v xs) \<subseteq> insert (k, v) (set xs)"
  by (induction xs) auto

lemma settled_write:
  assumes "settled i s" "map_of (ss_sessions s) k = Some rt" "sm_id (rt_meta rt') = sm_id (rt_meta rt)" "rt_persisted rt' = rt_persisted rt"
  shows "settled i (write_runtime k rt' s)"
  using assms set_update [of k rt' "ss_sessions s"]
  by (fastforce simp: settled_def write_runtime_def dest: map_of_SomeD)

lemma settled_db [simp]: "settled i (s\<lparr>ss_db := d\<rparr>) = settled i s" "settled i (send_event e s) = settled i s"
  by (simp_all add: settled_def send_event_def)

lemma settled_hints: "settled i s \<Longrightarrow> settled i (prune_hints hints cands s)"
proof (induction cands arbitrary: s)
  case (Cons k cands)
  have "settled i (write_runtime k (rt\<lparr>rt_resume_scanned := b\<rparr>) s)"
    "settled i (write_runtime k (rt\<lparr>rt_resume_scanned := b, rt_meta := (rt_meta rt)\<lparr>sm_resume_command := c\<rparr>\<rparr>) (s\<lparr>ss_db := d\<rparr>))"
    if "map_of (ss_sessions s) k = Some rt" for rt b c d
    using that Cons.prems by (auto intro!: settled_write)
  with Cons.IH Cons.prems show ?case by (auto split: option.splits hint_answer.splits prod.splits bool.splits)
qed simp

lemma settled_evict: "settled i s \<Longrightarrow> settled i (prune_evict now s)"
  by (auto simp: settled_def prune_evict_def Let_def)

lemma prune_settled:
  assumes "settled i s"
  shows "settled i (prune_evicted_sessions J now waits hints s)"
    and "row_status i (ss_db (prune_evicted_sessions J now waits hints s)) = row_status i (ss_db s)"
proof -
  let ?ms = "List.map_filter (fst \<circ> prune_refresh J now waits) (ss_sessions s)"
  have "settled i (s\<lparr>ss_sessions := map (\<lambda>(i, rt). (i, refreshed J now waits i rt)) (ss_sessions s), ss_db := d\<rparr>)" for d
    using assms by (auto simp: settled_def refreshed_id refreshed_view refresh_keeps_id)
  then show "settled i (prune_evicted_sessions J now waits hints s)"
    unfolding prune_decomposes by (intro settled_evict settled_hints)
  have "i \<notin> sm_id ` set ?ms"
    using assms by (fastforce simp: settled_def List.map_filter_def dest: refreshed_write)
  moreover have "ss_db (prune_evict now s1) = ss_db s1" for s1 :: "('a, 'b) SessionStore"
    by (simp add: prune_evict_def Let_def)
  ultimately show "row_status i (ss_db (prune_evicted_sessions J now waits hints s)) = row_status i (ss_db s)"
    unfolding prune_decomposes by (simp add: row_status_hints row_status_persist)
qed

text \<open>C34. The end of a session is written to the database at most once. The mark that it was written is set
  before the write and whatever its outcome, so after a failed write no later sweep changes the status
  of the row: unless someone edits the session's metadata, it says that the session runs until the daemon
  is restarted.\<close>

theorem lost_end_is_never_written:
  assumes "settled i s"
  shows "row_status i (ss_db (prunes J sweeps s)) = row_status i (ss_db s)"
  using assms
proof (induction sweeps arbitrary: s)
  case Nil
  show ?case by (simp add: prunes_def)
next
  case (Cons sweep sweeps)
  obtain now waits hints where sweep: "sweep = (now, waits, hints)" by (rule prod_cases3)
  from Cons.IH [OF prune_settled(1) [OF Cons.prems, of J now waits hints]] prune_settled(2) [OF Cons.prems, of J now waits hints]
  show ?case by (simp add: prunes_def sweep)
qed

text \<open>Editing the metadata writes the whole row, the status with it.\<close>

lemma metadata_edit_repairs_status:
  assumes "update_session_metadata i title tags notify s = (Inr (), s')" and "map_of (ss_sessions s) i = Some rt"
    and "sm_id (rt_meta rt) = i" and "map_of (db_rows (ss_db s)) i \<noteq> None"
  shows "row_status i (ss_db s') = Some (sm_status (rt_meta rt))"
proof -
  have edit: "sm_status (rt_meta (edit_runtime b t ts n rt)) = sm_status (rt_meta rt)"
    "sm_id (rt_meta (edit_runtime b t ts n rt)) = sm_id (rt_meta rt)" for b t ts n
    by (auto simp: edit_runtime_def Let_def set_notifications_enabled_def split: option.splits)
  have db: "ss_db (send_event e s1) = ss_db s1" for e and s1 :: "('a, 'b) SessionStore" by (simp add: send_event_def)
  show ?thesis
    using assms
    by (auto simp: update_session_metadata_def Let_def row_status_def db_update_session_def map_of_map_at db_call_rows edit db
        split: sum.splits prod.splits if_splits)
qed

text \<open>The program ended with code 0, the write of that failed, and the daemon is restarted later: the row is
  then reconciled to a failure.\<close>

definition faulty_store :: "(unit, (RecordKind \<times> bytes) list) SessionStore" where
  "faulty_store = demo_store\<lparr>ss_db := demo_db\<lparr>db_faults := [True]\<rparr>\<rparr>"

definition swept_store :: "(unit, (RecordKind \<times> bytes) list) SessionStore" where
  "swept_store = prune_evicted_sessions list_journal 5 (\<lambda>_. Exited 0) (\<lambda>_. NoHint) faulty_store"

lemma swept_store_settled:
  "settled [49] swept_store" "row_status [49] (ss_db swept_store) = Some StRunning"
  "map_option (\<lambda>rt. sm_status (rt_meta rt)) (map_of (ss_sessions swept_store) [49]) = Some StStopped"
  "map sm_status (fst (load_running_stopping_sessions swept_store)) = [StFailed]"
  by (simp_all add: swept_store_def faulty_store_def demo_store_def demo_runtime_def demo_db_def demo_meta_def
      SessionStore_new_def runtime_new_def list_journal_def prune_evicted_sessions_def prune_refresh_def refresh_status_def
      mark_completed_def queue_journal_completion_def teardown_pty_def is_completed_def Let_def List.map_filter_simps
      db_update_session_def db_call_def prune_evict_def evicts_def evict_old_tombstones_def settled_def row_status_def
      completion_code_def load_running_stopping_sessions_def is_stale_row_def Collect_conv_if)

theorem lost_end_is_never_written_witness:
  "map_option (\<lambda>rt. sm_status (rt_meta rt)) (map_of (ss_sessions swept_store) [49]) = Some StStopped
   \<and> row_status [49] (ss_db (prunes list_journal [(9, \<lambda>_. StillRunning, \<lambda>_. NoHint), (70000, \<lambda>_. StillRunning, \<lambda>_. NoHint)]
       swept_store)) = Some StRunning
   \<and> map sm_status (fst (load_running_stopping_sessions swept_store)) = [StFailed]"
  using lost_end_is_never_written [OF swept_store_settled(1)] swept_store_settled by simp

section \<open>Admission\<close>

definition open_sessions :: "('e, 'j) SessionStore \<Rightarrow> nat" where
  "open_sessions s = running_sessions (ss_sessions s) + length (ss_starting_sessions s)"

lemma running_update: "running_sessions (AList.update k rt xs) \<le> Suc (running_sessions xs)"
  by (induction xs) auto

lemma length_unreserve:
  "length (removeAll i xs) \<le> length xs" "i \<in> set xs \<Longrightarrow> Suc (length (removeAll i xs)) \<le> length xs"
proof -
  have le: "length (removeAll i xs) \<le> length xs" for xs
    by (simp add: removeAll_filter_not_eq)
  show "length (removeAll i xs) \<le> length xs" by (rule le)
  show "i \<in> set xs \<Longrightarrow> Suc (length (removeAll i xs)) \<le> length xs"
    by (induction xs) (auto simp: le le_SucI)
qed

lemma open_unreserve: "open_sessions (unreserve i s) \<le> open_sessions s"
  by (simp add: open_sessions_def unreserve_def length_unreserve)

lemma open_db [simp]:
  "open_sessions (s\<lparr>ss_db := d\<rparr>) = open_sessions s" "open_sessions (make_session_dir i s) = open_sessions s"
  "open_sessions (send_event e s) = open_sessions s"
  by (simp_all add: open_sessions_def make_session_dir_def send_event_def)

lemma abort_unreserves: "\<exists>d. snd (abort_started_session now i s) = (unreserve i s)\<lparr>ss_db := d\<rparr>"
  by (auto simp: abort_started_session_def Let_def split: prod.splits bool.splits)

lemma open_abort: "open_sessions (snd (abort_started_session now i s)) \<le> open_sessions s"
  using abort_unreserves [of now i s] open_unreserve [of i s] by auto

lemma open_commit:
  assumes "commit_started_session m rt s = (r, s')" and "sm_id m \<in> set (ss_starting_sessions s)"
  shows "open_sessions s' \<le> open_sessions s"
  using assms running_update [of "sm_id m" rt "ss_sessions s"] length_unreserve [of "sm_id m" "ss_starting_sessions s"]
  by (auto simp: commit_started_session_def commit_row_def open_sessions_def unreserve_def write_runtime_def
      split: prod.splits bool.splits)

text \<open>What an admitted start holds: a free id, reserved.\<close>

lemma reserve_start_admits:
  assumes "reserve_start lim guard now draws spec sessions s = (Some (Inr p), s')"
  shows "s' = s\<lparr>ss_starting_sessions := sm_id (pr_meta p) # ss_starting_sessions s\<rparr>"
    and "running_sessions sessions + length (ss_starting_sessions s') \<le> sl_max_running_sessions lim"
    and "map_of sessions (sm_id (pr_meta p)) = None" "sm_id (pr_meta p) \<notin> set (ss_starting_sessions s)"
proof -
  have gen: "\<not> ex i" if "generate_session_id ex ds = Some i" for ex ds i
    using that by (induction ex ds rule: generate_session_id.induct) (auto simp: Let_def split: if_splits)
  obtain i where i: "generate_session_id (\<lambda>c. map_of sessions c \<noteq> None \<or> c \<in> set (ss_starting_sessions s)) draws = Some i"
      "sm_id (pr_meta p) = i"
    and rest: "s' = s\<lparr>ss_starting_sessions := i # ss_starting_sessions s\<rparr>"
      "running_sessions sessions + length (ss_starting_sessions s) < sl_max_running_sessions lim"
    using assms
    by (auto simp: reserve_start_def start_meta_def split: if_splits sum.splits option.splits prod.splits)
  show "s' = s\<lparr>ss_starting_sessions := sm_id (pr_meta p) # ss_starting_sessions s\<rparr>"
    "running_sessions sessions + length (ss_starting_sessions s') \<le> sl_max_running_sessions lim"
    using rest i(2) by simp_all
  show "map_of sessions (sm_id (pr_meta p)) = None" "sm_id (pr_meta p) \<notin> set (ss_starting_sessions s)"
    using gen [OF i(1)] i(2) by auto
qed

lemma reserve_start_refuses:
  "reserve_start lim guard now draws spec sessions s = (r, s') \<Longrightarrow> \<not> (\<exists>p. r = Some (Inr p)) \<Longrightarrow> s' = s"
  by (auto simp: reserve_start_def split: if_splits sum.splits option.splits prod.splits)

text \<open>After the reservation: the insert, the spawn and the commit, or the way back.\<close>

lemma open_insert:
  assumes "insert_started_row p s = (r, s')"
  shows "open_sessions s' \<le> open_sessions s"
    and "r = Inr p' \<Longrightarrow> p' = p \<and> ss_starting_sessions s' = ss_starting_sessions s"
  using assms open_unreserve [of "sm_id (pr_meta p)" "s\<lparr>ss_db := snd (db_insert_session (pr_meta p) (ss_db s))\<rparr>"]
  by (auto simp: insert_started_row_def split: prod.splits bool.splits)

lemma open_start:
  assumes "prepare_start_session lim guard now draws spec s = (Some r, s2)"
    and "\<And>p. r = Inr p \<Longrightarrow> sm_id (pr_meta p) \<in> set (ss_starting_sessions s2)"
  shows "open_sessions (snd (start_session_via_handle J lim guard now draws spec guard2 spawned s)) \<le> open_sessions s2"
proof (cases r)
  case Inl
  then show ?thesis using assms(1) by (simp add: start_session_via_handle_def)
next
  case (Inr p)
  let ?i = "sm_id (pr_meta p)"
  have dir: "open_sessions (snd (abort_started_session now ?i (if made then make_session_dir ?i s2 else s2))) \<le> open_sessions s2" for made
    using open_abort [of now ?i "if made then make_session_dir ?i s2 else s2"] by (simp split: if_splits)
  have commit: "open_sessions s3 \<le> open_sessions s2"
    if "commit_started_session m rt (make_session_dir ?i s2) = (r3, s3)" "sm_id m = ?i" for m rt r3 s3
    using open_commit [OF that(1)] assms(2) [OF Inr] that(2) by (simp add: make_session_dir_def)
  have after: "open_sessions (snd (abort_started_session now ?i s3)) \<le> open_sessions s2"
    if "commit_started_session m rt (make_session_dir ?i s2) = (r3, s3)" "sm_id m = ?i" for m rt r3 s3
    using commit [OF that] open_abort [of now ?i s3] by simp
  show ?thesis
    using Inr dir [of False] dir commit after
    by (auto simp: start_session_via_handle_def assms(1) Let_def split: sum.splits spawn_answer.splits prod.splits)
qed

lemma start_refused:
  assumes "reserve_start lim guard now draws spec (ss_sessions s) s = (r, s1)" and "\<nexists>p. r = Some (Inr p)"
  shows "snd (start_session_via_handle J lim guard now draws spec guard2 spawned s) = s"
  using reserve_start_refuses [OF assms] assms
  by (auto simp: start_session_via_handle_def prepare_start_session_def split: sum.splits option.splits)

text \<open>C13. The sessions that run or are being started never outnumber the limit because of a start that has the
  store to itself, whatever it answers.\<close>

theorem starts_respect_limit:
  "open_sessions (snd (start_session_via_handle J lim guard now draws spec guard2 spawned s))
     \<le> max (open_sessions s) (sl_max_running_sessions lim)"
proof -
  obtain r s1 where res: "reserve_start lim guard now draws spec (ss_sessions s) s = (r, s1)" by (rule prod.exhaust)
  show ?thesis
  proof (cases "\<exists>p. r = Some (Inr p)")
    case False
    then show ?thesis by (simp add: start_refused [OF res])
  next
    case True
    then obtain p where r: "r = Some (Inr p)" by blast
    note adm = reserve_start_admits [OF res [unfolded r]]
    obtain r2 s2 where ins: "insert_started_row p s1 = (r2, s2)" by (rule prod.exhaust)
    have prep: "prepare_start_session lim guard now draws spec s = (Some r2, s2)"
      using res ins by (simp add: prepare_start_session_def r)
    have "sm_id (pr_meta p') \<in> set (ss_starting_sessions s2)" if "r2 = Inr p'" for p'
      using open_insert(2) [OF ins that] adm(1) by simp
    from open_start [OF prep this] open_insert(1) [OF ins] have
      "open_sessions (snd (start_session_via_handle J lim guard now draws spec guard2 spawned s)) \<le> open_sessions s1"
      by (rule le_trans)
    with adm(1,2) show ?thesis by (simp add: open_sessions_def)
  qed
qed

text \<open>No faults are due, and every session directory belongs to a row.\<close>

definition healthy_db :: "database \<Rightarrow> bool" where
  "healthy_db d \<longleftrightarrow> db_faults d = [] \<and> set (db_dirs d) \<subseteq> fst ` set (db_rows d)"

lemma healthy_call: "db_faults d = [] \<Longrightarrow> db_call d = (True, d)"
  by (simp add: db_call_def)

lemma map_of_absent: "map_of xs i = None \<Longrightarrow> filter (\<lambda>(k, _). k \<noteq> i) xs = xs"
  by (induction xs) (auto split: if_splits)

lemma abort_undoes:
  assumes "healthy_db d" and "map_of (db_rows d) i = None" and "i \<notin> set (ss_starting_sessions s)"
    and "set dirs \<subseteq> insert i (set (db_dirs d))" and "removeAll i dirs = db_dirs d" and "sm_id m = i" and "d = ss_db s"
  shows "snd (abort_started_session now i (s\<lparr>ss_starting_sessions := i # ss_starting_sessions s,
      ss_db := d\<lparr>db_rows := db_rows d @ [(i, m)], db_dirs := dirs\<rparr>\<rparr>)) = s"
  using assms
  by (simp add: abort_started_session_def Let_def unreserve_def db_session_exists_def db_delete_session_def
      remove_session_dir_def healthy_call healthy_db_def map_of_absent)

lemma start_undone:
  assumes "start_session_via_handle J lim guard now draws spec guard2 spawned s = (Some (Inl err), s')"
    and "prepare_start_session lim guard now draws spec s
      = (Some (Inr p), s\<lparr>ss_starting_sessions := sm_id (pr_meta p) # ss_starting_sessions s,
           ss_db := (ss_db s)\<lparr>db_rows := db_rows (ss_db s) @ [(sm_id (pr_meta p), pr_meta p)]\<rparr>\<rparr>)"
      (is "_ = (_, ?s2)")
    and "healthy_db (ss_db s)" and "map_of (db_rows (ss_db s)) (sm_id (pr_meta p)) = None"
    and "sm_id (pr_meta p) \<notin> set (ss_starting_sessions s)"
  shows "s' = s"
proof -
  let ?i = "sm_id (pr_meta p)"
  have fresh: "?i \<notin> set (db_dirs (ss_db s))"
    using assms(3,4) by (auto simp: healthy_db_def map_of_eq_None_iff)
  have undo: "snd (abort_started_session now ?i ?s2) = s" "snd (abort_started_session now ?i (make_session_dir ?i ?s2)) = s"
    using abort_undoes [OF assms(3-5) _ _ refl refl, of "db_dirs (ss_db s)" now]
      abort_undoes [OF assms(3-5) _ _ refl refl, of "?i # db_dirs (ss_db s)" now] fresh
    by (auto simp: make_session_dir_def)
  have commit: False if "commit_started_session m rt (make_session_dir ?i ?s2) = (Inl e, s3)" for m rt e s3
    using that assms(3)
    by (simp add: commit_started_session_def commit_row_def db_update_session_def healthy_call healthy_db_def make_session_dir_def)
  show ?thesis
    using assms(1) undo
    by (auto simp: start_session_via_handle_def assms(2) Let_def dest: commit
        split: sum.splits spawn_answer.splits prod.splits if_splits)
qed

text \<open>C11. A start that fails leaves nothing behind: with a healthy database the store is exactly what it was,
  whether the start was refused, the disk guard stepped in later, or the program could not be spawned.\<close>

theorem failed_start_leaves_nothing:
  assumes "start_session_via_handle J lim guard now draws spec guard2 spawned s = (Some (Inl err), s')"
    and "healthy_db (ss_db s)"
  shows "s' = s"
proof -
  obtain r s1 where res: "reserve_start lim guard now draws spec (ss_sessions s) s = (r, s1)" by (rule prod.exhaust)
  show ?thesis
  proof (cases "\<exists>p. r = Some (Inr p)")
    case False
    with start_refused [OF res] assms(1) show ?thesis by (metis snd_conv)
  next
    case True
    then obtain p where r: "r = Some (Inr p)" by blast
    note adm = reserve_start_admits [OF res [unfolded r]]
    note prep = prepare_start_session_def insert_started_row_def db_insert_session_def healthy_call healthy_db_def
    show ?thesis
    proof (cases "map_of (db_rows (ss_db s)) (sm_id (pr_meta p))")
      case Some
      then have "prepare_start_session lim guard now draws spec s = (Some (Inl DatabaseError), s)"
        using adm(1,4) assms(2) res by (simp add: prep r unreserve_def)
      with assms(1) show ?thesis by (simp add: start_session_via_handle_def)
    next
      case None
      then show ?thesis
        using adm(1) assms(2) res by (intro start_undone [OF assms(1) _ assms(2) None adm(4)]) (simp add: prep r)
    qed
  qed
qed

definition shell_spec :: StartSpec where
  "shell_spec = \<lparr>sc_title = None, sc_tags = [], sc_cmd = ascii ''sh'', sc_args = [], sc_cwd = None, sc_rows = None,
     sc_cols = None, sc_notifications_enabled = True\<rparr>"

definition one_session :: start_limits where
  "one_session = \<lparr>sl_max_running_sessions = 1, sl_screen_scrollback_rows = 100\<rparr>"

definition empty_store :: "(unit, (RecordKind \<times> bytes) list) SessionStore" where
  "empty_store = SessionStore_new 60 \<lparr>db_rows = [], db_dirs = [], db_faults = []\<rparr>"

definition first_started :: "(unit, (RecordKind \<times> bytes) list) SessionStore" where
  "first_started = snd (start_session_via_handle list_journal one_session None 1 [[65]] shell_spec None
     (SpawnedChild (Some 7) [55] () []) empty_store)"

lemma first_started_state:
  "\<exists>rt. ss_sessions first_started = [([65], rt)] \<and> \<not> is_completed rt \<and> ss_starting_sessions first_started = []
     \<and> map fst (db_rows (ss_db first_started)) = [[65]] \<and> db_faults (ss_db first_started) = []"
  by (simp add: first_started_def start_session_via_handle_def prepare_start_session_def reserve_start_def empty_store_def
      SessionStore_new_def one_session_def shell_spec_def check_disk_guard_def insert_started_row_def db_insert_session_def
      db_call_def start_meta_def validate_session_metadata_def normalize_session_title_def normalize_session_tags_def
      validate_normalized_session_title_def commit_started_session_def commit_row_def
      db_update_session_def make_session_dir_def unreserve_def write_runtime_def send_event_def Let_def
      is_completed_def runtime_new_def journal_event_def list_journal_def)

text \<open>C36. The limit holds only one start at a time. A start counts the running sessions before it takes the
  lock, and one that finishes in between has given up its reservation by then: with a limit of one, two
  sessions are admitted.\<close>

theorem concurrent_starts_exceed_limit:
  "\<exists>p s1 q s2 i s3. reserve_start one_session None 2 [[66]] shell_spec (ss_sessions empty_store) first_started = (Some (Inr p), s1)
     \<and> insert_started_row p s1 = (Inr q, s2)
     \<and> commit_started_session (pr_meta q) (runtime_new list_journal (pr_meta q) 2 24 80 100 True () [56] []) s2 = (Inr i, s3)
     \<and> sl_max_running_sessions one_session < running_sessions (ss_sessions s3)"
proof -
  obtain rt where rt: "ss_sessions first_started = [([65], rt)]" "\<not> is_completed rt" "ss_starting_sessions first_started = []"
    "map fst (db_rows (ss_db first_started)) = [[65]]" "db_faults (ss_db first_started) = []"
    using first_started_state by (elim exE conjE) (rule that)
  let ?m = "start_meta 2 [66] None [] shell_spec"
  let ?p = "\<lparr>pr_meta = ?m, pr_rows = 24, pr_cols = 80, pr_notifications_enabled = True\<rparr>"
  let ?s1 = "first_started\<lparr>ss_starting_sessions := [[66]]\<rparr>"
  have res: "reserve_start one_session None 2 [[66]] shell_spec (ss_sessions empty_store) first_started = (Some (Inr ?p), ?s1)"
    by (simp add: reserve_start_def rt(3) empty_store_def SessionStore_new_def one_session_def shell_spec_def check_disk_guard_def
        validate_session_metadata_def normalize_session_title_def normalize_session_tags_def validate_normalized_session_title_def)
  have "map_of (db_rows (ss_db first_started)) [66] = None"
    using rt(4) by (simp add: map_of_eq_None_iff flip: set_map)
  then have ins: "insert_started_row ?p ?s1 = (Inr ?p, ?s1\<lparr>ss_db := (ss_db ?s1)\<lparr>db_rows := db_rows (ss_db ?s1) @ [([66], ?m)]\<rparr>\<rparr>)"
    by (simp add: insert_started_row_def db_insert_session_def healthy_call rt(5) start_meta_def)
  have com: "\<exists>s3. commit_started_session ?m r (?s1\<lparr>ss_db := (ss_db ?s1)\<lparr>db_rows := db_rows (ss_db ?s1) @ [([66], ?m)]\<rparr>\<rparr>) = (Inr [66], s3)
      \<and> ss_sessions s3 = [([65], rt), ([66], r)]" for r
    by (simp add: commit_started_session_def commit_row_def db_update_session_def healthy_call rt start_meta_def write_runtime_def
        unreserve_def)
  have "\<not> is_completed (runtime_new list_journal ?m 2 24 80 100 True () [56] [])"
    by (simp add: runtime_new_def list_journal_def journal_event_def is_completed_def start_meta_def)
  with com [of "runtime_new list_journal ?m 2 24 80 100 True () [56] []"] rt(2) res ins show ?thesis
    by (auto simp: one_session_def)
qed

section \<open>Deletion\<close>

text \<open>Everything the store holds of a session is as before: its runtime, tombstone, row and directory.\<close>

definition same_session :: "bytes \<Rightarrow> ('e, 'j) SessionStore \<Rightarrow> ('e, 'j) SessionStore \<Rightarrow> bool" where
  "same_session k s s' \<longleftrightarrow>
     map_of (ss_sessions s') k = map_of (ss_sessions s) k
     \<and> map_of (ss_evicted_sessions s') k = map_of (ss_evicted_sessions s) k
     \<and> map_of (db_rows (ss_db s')) k = map_of (db_rows (ss_db s)) k
     \<and> (k \<in> set (db_dirs (ss_db s')) \<longleftrightarrow> k \<in> set (db_dirs (ss_db s)))"

lemma same_session_write: "k \<noteq> i \<Longrightarrow> same_session k s (write_runtime i rt s)"
  by (simp add: same_session_def write_runtime_def update_conv')

text \<open>The store holds something of a session that can be deleted.\<close>

definition known_session :: "bytes \<Rightarrow> ('e, 'j) SessionStore \<Rightarrow> bool" where
  "known_session i s \<longleftrightarrow>
     map_of (ss_sessions s) i \<noteq> None \<or> map_of (db_rows (ss_db s)) i \<noteq> None \<or> map_of (ss_evicted_sessions s) i \<noteq> None"

definition running_session ::
  "'j journal_ops \<Rightarrow> nat \<Rightarrow> wait_result \<Rightarrow> bytes \<Rightarrow> ('e, 'j) SessionStore \<Rightarrow> bool" where
  "running_session J now wait i s \<longleftrightarrow>
     (\<exists>rt. map_of (ss_sessions s) i = Some rt \<and> \<not> is_completed (snd (refresh_status J now wait rt)))"

lemma finish_delete_healthy:
  assumes "healthy_db (ss_db s)" and "live \<or> map_of (ss_sessions s) i = None" and "finish_delete i live s = (r, s')"
  shows "r = Inr True" "i \<notin> fst ` set (db_rows (ss_db s'))" "i \<notin> set (db_dirs (ss_db s'))"
    "lookup_runtime i s' = Inl NotRunning"
    "\<And>k. k \<noteq> i \<Longrightarrow> same_session k s s'"
proof -
  have rows: "map_of (filter (\<lambda>(k, _). k \<noteq> i) xs) k = map_of xs k" if "k \<noteq> i" for xs :: "(bytes \<times> SessionMeta) list" and k
    using that by (induction xs) auto
  have "i \<notin> set (db_dirs (ss_db s))" if "map_of (db_rows (ss_db s)) i = None"
    using assms(1) that by (auto simp: healthy_db_def map_of_eq_None_iff)
  then show "r = Inr True" "i \<notin> fst ` set (db_rows (ss_db s'))" "i \<notin> set (db_dirs (ss_db s'))"
    "lookup_runtime i s' = Inl NotRunning"
    "\<And>k. k \<noteq> i \<Longrightarrow> same_session k s s'"
    using assms
    by (auto simp: same_session_def finish_delete_def Let_def db_session_exists_def remove_session_dir_def db_delete_session_def healthy_call
        healthy_db_def send_event_def lookup_runtime_def delete_conv' rows split: if_splits)
qed

text \<open>C12. Deletion is complete and exact. With a healthy database a delete of an unknown session answers no
  and changes nothing. A session whose program still runs is refused without force, and only its status is
  refreshed. In every other case the delete succeeds, and no row, no directory, no runtime and no tombstone
  of the session is left. Whatever happens, everything the store holds of any other session stays.\<close>

theorem delete_leaves_nothing:
  assumes "delete_session J now wait wait2 rounds i force s = (Some r, s')" and "healthy_db (ss_db s)"
  shows "(\<not> known_session i s \<longrightarrow> r = Inr False \<and> s' = s)
     \<and> (running_session J now wait i s \<and> \<not> force \<longrightarrow> r = Inl (SessionIsRunning i)
          \<and> (\<exists>rt. map_of (ss_sessions s) i = Some rt \<and> s' = write_runtime i (snd (refresh_status J now wait rt)) s))
     \<and> (known_session i s \<and> (running_session J now wait i s \<longrightarrow> force) \<longrightarrow> r = Inr True
          \<and> i \<notin> fst ` set (db_rows (ss_db s')) \<and> i \<notin> set (db_dirs (ss_db s')) \<and> lookup_runtime i s' = Inl NotRunning)
     \<and> (\<forall>k. k \<noteq> i \<longrightarrow> same_session k s s')"
proof (cases "map_of (ss_sessions s) i")
  case None
  have found: "db_session_exists i (ss_db s) = (map_of (db_rows (ss_db s)) i \<noteq> None, ss_db s)"
    using assms(2) by (simp add: db_session_exists_def healthy_call healthy_db_def)
  have idle: "\<not> running_session J now wait i s" using None by (simp add: running_session_def)
  show ?thesis
  proof (cases "known_session i s")
    case False
    with None idle assms(1) show ?thesis
      by (simp add: delete_session_def found known_session_def same_session_def)
  next
    case True
    then have "finish_delete i False s = (r, s')"
      using None assms(1)
      by (cases "finish_delete i False s") (auto simp: delete_session_def Let_def found known_session_def split: if_splits)
    from finish_delete_healthy [OF assms(2) _ this] None True idle show ?thesis by simp
  qed
next
  case (Some rt)
  let ?rt1 = "snd (refresh_status J now wait rt)"
  have known: "known_session i s" "running_session J now wait i s \<longleftrightarrow> \<not> is_completed ?rt1"
    using Some by (simp_all add: known_session_def running_session_def)
  have db: "ss_db (write_runtime i r1 s) = ss_db s" for r1 by (simp add: write_runtime_def)
  show ?thesis
  proof (cases "\<not> is_completed ?rt1 \<and> \<not> force")
    case True
    with Some assms(1) known show ?thesis by (auto simp: delete_session_def Let_def same_session_write)
  next
    case False
    then obtain rt2 where "finish_delete i True (write_runtime i rt2 s) = (r, s')"
      using Some assms(1)
      by (auto simp: delete_session_def Let_def split: if_splits prod.splits terminate_result.splits)
    note gone = finish_delete_healthy [OF _ _ this]
    have "same_session k s s'" if "k \<noteq> i" for k
      using gone(5) [OF _ _ that] same_session_write [OF that, of s rt2] assms(2)
      by (simp add: same_session_def db)
    with gone(1-4) assms(2) False known show ?thesis by (auto simp: db)
  qed
qed

text \<open>C35. A failed look-up of the session's row loses its directory: the failure counts as a row that is not
  there, the directory is left alone, the row is deleted and the delete reports success. No later delete
  finds the session.\<close>

theorem delete_can_orphan_directory:
  assumes "map_of (ss_sessions s) i = Some rt" and "is_completed rt" and "map_of (ss_evicted_sessions s) i = None"
    and "db_faults (ss_db s) = [True]" and "i \<in> set (db_dirs (ss_db s))"
  shows "\<exists>s'. delete_session J now wait wait2 rounds i force s = (Some (Inr True), s')
     \<and> i \<in> set (db_dirs (ss_db s')) \<and> i \<notin> fst ` set (db_rows (ss_db s'))
     \<and> delete_session J now wait wait2 rounds i force s' = (Some (Inr False), s')"
proof -
  have "is_completed (snd (refresh_status J now wait rt))"
    using assms(2) by (simp add: refresh_status_def is_completed_def Let_def)
  moreover have "map_of (filter (\<lambda>(k, _). k \<noteq> i) xs) i = None" for xs :: "(bytes \<times> SessionMeta) list"
    by (induction xs) auto
  ultimately show ?thesis
    using assms(1,3-5)
    by (auto simp: delete_session_def finish_delete_def Let_def db_session_exists_def db_call_def db_delete_session_def
        write_runtime_def send_event_def delete_conv' update_conv' delete_update_same)
qed

section \<open>Concrete runs\<close>

text \<open>A program that ignores every request to stop: two seconds of grace, a round every half second.\<close>

definition stubborn_round :: "nat \<Rightarrow> round" where
  "stubborn_round t = \<lparr>ro_check = t, ro_wait = StillRunning, ro_drained = 1, ro_keys = t, ro_due = t, ro_sent = t,
     ro_signal = t, ro_killed = True, ro_last_wait = Exited 137\<rparr>"

definition stubborn_rounds :: "round list" where
  "stubborn_rounds = map stubborn_round [0, 500, 1000, 1500, 2000]"

definition stubborn_stop where
  "stubborn_stop = terminate_runtime list_journal 0 StillRunning 2 StStopped stubborn_rounds demo_runtime"

lemmas stubborn_eval = stubborn_stop_def stubborn_rounds_def stubborn_round_def terminate_runtime_def
  begin_termination_def refresh_status_def is_completed_def demo_runtime_def demo_meta_def runtime_new_def
  list_journal_def Let_def build_soft_stop_schedule_def SOFT_STOP_INPUTS_def DOUBLE_CTRL_C_DELAY_def
  DOUBLE_CTRL_C_DELAY_GRACE_DIVISOR_def drain_queue_def send_soft_key_def try_write_input_def PTY_WRITER_QUEUE_CAPACITY_def

lemma stubborn_effects:
  "fst (snd stubborn_stop) = [SentKey [3] 0 0, SentKey [3] 500 500, SentKey [4] 1000 1000, GroupSigterm 1500, TreeKilled 2000]"
  by (simp add: stubborn_eval)

lemma stubborn_run:
  "terminate_runtime list_journal 0 StillRunning 2 StStopped stubborn_rounds demo_runtime
     = (fst stubborn_stop, fst (snd stubborn_stop), snd (snd stubborn_stop))"
  by (simp add: stubborn_stop_def)

theorem stop_escalates_in_order_witness:
  "keys_of (fst (snd stubborn_stop)) = SOFT_STOP_INPUTS
   \<and> list_all (effect_ok 0 1500 2000) (fst (snd stubborn_stop)) \<and> length (filter is_sigterm (fst (snd stubborn_stop))) \<le> 1"
  using stop_escalates_in_order [OF stubborn_run] by (simp add: stubborn_effects SOFT_STOP_INPUTS_def)


theorem stop_always_ends_witness: "fst stubborn_stop = Ended True"
proof -
  have "final_status_ok demo_runtime"
    by (simp add: final_status_ok_def demo_runtime_def runtime_new_def list_journal_def journal_event_def)
  from stop_always_ends [OF stubborn_run _ this] show ?thesis
    by (auto simp: stubborn_effects stubborn_rounds_def stubborn_round_def)
qed

text \<open>A session that ended and closed its output long ago; the search finds no hint.\<close>

definition ended_store :: "(unit, (RecordKind \<times> bytes) list) SessionStore" where
  "ended_store = demo_store\<lparr>ss_sessions := [([49], demo_runtime\<lparr>rt_meta := demo_meta\<lparr>sm_status := StStopped, sm_ended_at := Some 5\<rparr>,
     rt_completed_at := Some 5, rt_output_closed := True\<rparr>)]\<rparr>"

lemmas ended_store_simps = ended_store_def demo_store_def demo_runtime_def demo_db_def demo_meta_def SessionStore_new_def
  runtime_new_def list_journal_def is_completed_def

lemma ended_store_swept:
  "map_of (ss_sessions (prune_evicted_sessions list_journal 70000 (\<lambda>_. StillRunning) (\<lambda>_. NoHint) ended_store)) [49] = None"
  by (simp add: ended_store_simps prune_evicted_sessions_def prune_refresh_def refresh_status_def Let_def List.map_filter_simps
      prune_evict_def evicts_def write_runtime_def Collect_conv_if)

theorem eviction_is_safe_witness:
  "lookup_runtime [49] (prune_evicted_sessions list_journal 70000 (\<lambda>_. StillRunning) (\<lambda>_. NoHint) ended_store) = Inl Evicted"
proof -
  obtain rt where rt: "map_of (ss_sessions ended_store) [49] = Some rt" by (simp add: ended_store_def)
  have ok: "distinct (map fst (ss_sessions ended_store))" "distinct (map fst (ss_evicted_sessions ended_store))"
    "0 < ss_eviction_ttl ended_store"
    by (simp_all add: ended_store_def demo_store_def SessionStore_new_def)
  from eviction_is_safe [OF rt ok refl refl, of list_journal 70000 "\<lambda>_. StillRunning" "\<lambda>_. NoHint"] ended_store_swept
  show ?thesis by simp
qed

theorem failed_start_leaves_nothing_witness:
  "snd (start_session_via_handle list_journal one_session None 1 [[65]] shell_spec None (SpawnRefused True (ascii ''no such program''))
     empty_store) = empty_store"
proof -
  have "fst (start_session_via_handle list_journal one_session None 1 [[65]] shell_spec None (SpawnRefused True (ascii ''no such program''))
     empty_store) = Some (Inl (SpawnError (ascii ''no such program'')))"
    by (simp add: start_session_via_handle_def prepare_start_session_def reserve_start_def empty_store_def
      SessionStore_new_def one_session_def shell_spec_def check_disk_guard_def insert_started_row_def db_insert_session_def
      db_call_def start_meta_def validate_session_metadata_def normalize_session_title_def normalize_session_tags_def
      validate_normalized_session_title_def Let_def)
  moreover have "healthy_db (ss_db empty_store)" by (simp add: healthy_db_def empty_store_def SessionStore_new_def)
  ultimately show ?thesis by (metis failed_start_leaves_nothing prod.collapse)
qed

lemma ended_store_deleted:
  "fst (delete_session list_journal 9 StillRunning StillRunning [] [49] False ended_store) = Some (Inr True)"
  by (simp add: ended_store_simps delete_session_def refresh_status_def finish_delete_def db_session_exists_def db_call_def
      remove_session_dir_def db_delete_session_def write_runtime_def Let_def)

theorem delete_leaves_nothing_witness:
  "lookup_runtime [49] (snd (delete_session list_journal 9 StillRunning StillRunning [] [49] False ended_store)) = Inl NotRunning
   \<and> [49] \<notin> set (db_dirs (ss_db (snd (delete_session list_journal 9 StillRunning StillRunning [] [49] False ended_store))))"
proof -
  have "healthy_db (ss_db ended_store)"
    by (simp add: healthy_db_def ended_store_simps)
  moreover have "known_session [49] ended_store" "\<not> running_session list_journal 9 StillRunning [49] ended_store"
    by (simp_all add: known_session_def running_session_def ended_store_simps refresh_status_def)
  ultimately show ?thesis
    using delete_leaves_nothing [OF prod.collapse [symmetric, of "delete_session list_journal 9 StillRunning StillRunning [] [49] False ended_store",
        unfolded ended_store_deleted]]
    by simp
qed

theorem delete_can_orphan_directory_witness:
  "[49] \<in> set (db_dirs (ss_db (snd (delete_session list_journal 9 StillRunning StillRunning [] [49] False
      (ended_store\<lparr>ss_db := demo_db\<lparr>db_faults := [True]\<rparr>\<rparr>)))))"
proof -
  let ?s = "ended_store\<lparr>ss_db := demo_db\<lparr>db_faults := [True]\<rparr>\<rparr>"
  obtain rt where rt: "map_of (ss_sessions ?s) [49] = Some rt" "is_completed rt"
    by (simp add: ended_store_def is_completed_def)
  from delete_can_orphan_directory [OF rt, of list_journal 9 StillRunning StillRunning "[]" False] show ?thesis
    by (auto simp: ended_store_def demo_store_def SessionStore_new_def demo_db_def)
qed

end
