(* ===== verification/Session_Notify.thy ===== *)
theory Session_Notify
  imports Session_Store
begin

text \<open>
  Attention (\<open>src/session/store/notify.rs\<close>, \<open>src/session/store/activity.rs\<close>, and the monitor of
  \<open>src/notification/mod.rs\<close>): which sessions are silent and worth a notification, the marks that keep a
  notification from being repeated, one tick of the monitor, and the sampler that reports byte counters.
  Times are milliseconds. The text of the screen and the prompt patterns are arguments, as the terminal
  engine and the regular expressions are.
\<close>

section \<open>Silent sessions\<close>

definition USER_ACTIVITY_WINDOW :: nat where
  "USER_ACTIVITY_WINDOW = 3000"

record SilentCandidate =
  sd_session_id :: bytes
  sd_session_title :: "bytes option"
  sd_excerpt :: bytes
  sd_program_status :: "ProgramStatus option"
  sd_output_epoch :: nat
  sd_user_activity_epoch :: "nat option"
  sd_silence_epoch :: nat
  sd_should_notify :: bool
  sd_enabled_for_channels :: bool
  sd_last_total_bytes :: nat

definition silence_epoch :: "('e, 'j) SessionRuntime \<Rightarrow> nat" where
  "silence_epoch rt =
     (case user_activity_epoch rt of
        None \<Rightarrow> effective_output_epoch rt
      | Some activity \<Rightarrow> max activity (effective_output_epoch rt))"

definition activity_driven :: "('e, 'j) SessionRuntime \<Rightarrow> bool" where
  "activity_driven rt \<longleftrightarrow>
     (case user_activity_epoch rt of
        Some activity \<Rightarrow>
          effective_output_epoch rt \<le> activity \<or> effective_output_epoch rt - activity \<le> USER_ACTIVITY_WINDOW
      | None \<Rightarrow> False)"

abbreviation runtime_status :: "('e, 'j) SessionRuntime \<Rightarrow> ProgramStatus option" where
  "runtime_status rt \<equiv> current (ts_program_statuses (rt_terminal_signals rt))"

definition status_in :: "ProgramState set \<Rightarrow> ProgramStatus option \<Rightarrow> bool" where
  "status_in states status \<longleftrightarrow> (case status of Some r \<Rightarrow> st_state r \<in> states | None \<Rightarrow> False)"

definition should_notify :: "('e, 'j) SessionRuntime \<Rightarrow> bool" where
  "should_notify rt \<longleftrightarrow>
     (if runtime_status rt \<noteq> None
      then pred_option (\<lambda>activity. activity < effective_output_epoch rt) (user_activity_epoch rt)
      else \<not> activity_driven rt)"

definition candidate_of ::
  "('e \<Rightarrow> bytes) \<Rightarrow> nat \<Rightarrow> nat \<Rightarrow> nat \<Rightarrow> ('e, 'j) SessionRuntime \<Rightarrow> SilentCandidate option" where
  "candidate_of excerpt now attach_suppression_window min_notification_interval rt =
     (let status = runtime_status rt in
      if is_completed rt \<and> \<not> status_in {Done, ErrorState} status then None
      else if status_in {Working} status then None
      else if now - silence_epoch rt < attach_suppression_window then None
      else if should_notify rt
          \<and> (case rt_last_notified_at rt of Some at \<Rightarrow> now - at < min_notification_interval | None \<Rightarrow> False) then None
      else if rt_notified_output_epoch rt = Some (effective_output_epoch rt) then None
      else Some \<lparr>sd_session_id = sm_id (rt_meta rt), sd_session_title = sm_title (rt_meta rt),
             sd_excerpt = excerpt (rt_engine rt), sd_program_status = status,
             sd_output_epoch = effective_output_epoch rt, sd_user_activity_epoch = user_activity_epoch rt,
             sd_silence_epoch = silence_epoch rt, sd_should_notify = should_notify rt,
             sd_enabled_for_channels = rt_notifications_enabled rt, sd_last_total_bytes = rt_last_total_bytes rt\<rparr>)"

definition silent_candidates ::
  "('e \<Rightarrow> bytes) \<Rightarrow> nat \<Rightarrow> nat \<Rightarrow> nat \<Rightarrow> ('e, 'j) SessionStore \<Rightarrow> SilentCandidate list" where
  "silent_candidates excerpt now window interval s =
     List.map_filter (\<lambda>(_, rt). candidate_of excerpt now window interval rt) (ss_sessions s)"

text \<open>\<open>is_current\<close>: nothing came from the program or the user since the candidate was made, and no one else
  has handled it.\<close>

definition is_current :: "SilentCandidate \<Rightarrow> ('e, 'j) SessionRuntime \<Rightarrow> bool" where
  "is_current c rt \<longleftrightarrow> effective_output_epoch rt = sd_output_epoch c
     \<and> user_activity_epoch rt = sd_user_activity_epoch c \<and> rt_notified_output_epoch rt \<noteq> Some (sd_output_epoch c)"

definition announce :: "SilentCandidate \<Rightarrow> nat \<Rightarrow> ('e, 'j) SessionRuntime \<Rightarrow> ('e, 'j) SessionRuntime" where
  "announce c notified_at rt =
     rt\<lparr>rt_notified_output_epoch := Some (sd_output_epoch c), rt_last_notified_at := Some notified_at\<rparr>"



section \<open>The monitor\<close>





section \<open>The activity sampler\<close>

definition SAMPLER_INTERVAL :: nat where
  "SAMPLER_INTERVAL = 500"

text \<open>A fingerprint is the byte counter and the time of the last output.\<close>

type_synonym fingerprint = "nat \<times> nat option"

definition fingerprint_of :: "('e, 'j) SessionRuntime \<Rightarrow> fingerprint" where
  "fingerprint_of rt = (rt_last_total_bytes rt, rt_last_output_epoch rt)"

definition fp_changed :: "fingerprint option \<Rightarrow> fingerprint \<Rightarrow> bool" where
  "fp_changed prev fp \<longleftrightarrow> (case prev of Some p \<Rightarrow> fst p \<noteq> fst fp \<or> snd p \<noteq> snd fp | None \<Rightarrow> 0 < fst fp)"

text \<open>The loop over the sessions; \<open>busy\<close> says which are being written to at that moment and are skipped.\<close>

fun sample_sessions ::
  "(bytes \<Rightarrow> bool) \<Rightarrow> (bytes \<times> ('e, 'j) SessionRuntime) list \<Rightarrow> (bytes \<times> fingerprint) list
     \<Rightarrow> (bytes \<times> fingerprint) list \<times> (bytes \<times> fingerprint) list" where
  "sample_sessions busy [] last_seen = ([], last_seen)"
| "sample_sessions busy ((i, rt) # sessions) last_seen =
     (if busy i then sample_sessions busy sessions last_seen
      else
        let fp = fingerprint_of rt;
            (samples, seen) = sample_sessions busy sessions (AList.update i fp last_seen)
        in (if fp_changed (map_of last_seen i) fp then (i, fp) # samples else samples, seen))"

definition sampler_tick ::
  "(bytes \<Rightarrow> bool) \<Rightarrow> ('e, 'j) SessionStore \<Rightarrow> (bytes \<times> fingerprint) list
     \<Rightarrow> (bytes \<times> fingerprint) list \<times> (bytes \<times> fingerprint) list" where
  "sampler_tick busy s last_seen =
     sample_sessions busy (ss_sessions s) (filter (\<lambda>(i, _). map_of (ss_sessions s) i \<noteq> None) last_seen)"

section \<open>What a notification says\<close>

lemma candidate_fields:
  assumes "candidate_of excerpt now window interval rt = Some c"
  shows "sd_output_epoch c = effective_output_epoch rt" "sd_user_activity_epoch c = user_activity_epoch rt"
    "sd_silence_epoch c = silence_epoch rt" "sd_should_notify c = should_notify rt" "sd_program_status c = runtime_status rt"
    "window \<le> now - silence_epoch rt" "\<not> status_in {Working} (runtime_status rt)"
    "is_completed rt \<Longrightarrow> status_in {Done, ErrorState} (runtime_status rt)"
  using assms by (auto simp: candidate_of_def Let_def split: if_splits)



text \<open>The program reports a status, or takes it back.\<close>

definition with_statuses :: "ProgramStatuses \<Rightarrow> ('e, 'j) SessionRuntime \<Rightarrow> ('e, 'j) SessionRuntime" where
  "with_statuses sts rt = rt\<lparr>rt_terminal_signals := (rt_terminal_signals rt)\<lparr>ts_program_statuses := sts\<rparr>\<rparr>"

lemma current_cleared: "current (snd (clear now sts)) = None"
  by (simp add: clear_def remove_where_def touch_def current_def max_by_key_def Let_def)

text \<open>The same output can be announced twice. Only the latest announced epoch is remembered; a status report
  replaces the output's epoch by its own, and taking the report back restores the old one. After an
  announcement of the output and one of the report, clearing the report makes the same output a
  candidate again, with nothing new from the program.\<close>

theorem cleared_status_repeats_notification:
  assumes "candidate_of excerpt t1 window interval rt = Some c" and "should_notify rt" and "runtime_status rt = None"
    and "current sts \<noteq> None" and "sts_changed_at sts = Some t2" and "t2 \<noteq> sd_output_epoch c"
    and "sd_output_epoch c2 = effective_output_epoch (with_statuses sts (announce c t1 rt))"
    and "rt3 = with_statuses (snd (clear t4 sts)) (announce c2 t3 (with_statuses sts (announce c t1 rt)))"
    and "t1 \<le> t" and "t3 + interval \<le> t"
  shows "\<exists>c'. candidate_of excerpt t window interval rt3 = Some c' \<and> sd_output_epoch c' = sd_output_epoch c
     \<and> sd_should_notify c' \<and> is_current c' rt3"
proof -
  have e2: "sd_output_epoch c2 = t2"
    using assms(4,5,7) by (simp add: effective_output_epoch_def with_statuses_def announce_def Let_def)
  have st: "runtime_status rt3 = None" using assms(8) by (simp add: with_statuses_def announce_def current_cleared)
  have ep: "effective_output_epoch rt3 = effective_output_epoch rt" "user_activity_epoch rt3 = user_activity_epoch rt"
    using assms(3,8) by (simp_all add: effective_output_epoch_def user_activity_epoch_def with_statuses_def announce_def
        current_cleared Let_def split: option.splits)
  have marks: "rt_notified_output_epoch rt3 = Some t2" "rt_last_notified_at rt3 = Some t3"
    "is_completed rt3 = is_completed rt"
    using assms(8) e2 by (simp_all add: with_statuses_def announce_def is_completed_def)
  have same: "silence_epoch rt3 = silence_epoch rt" "should_notify rt3"
    using ep st assms(2,3) by (simp_all only: silence_epoch_def should_notify_def activity_driven_def)
  note f = candidate_fields [OF assms(1)]
  have live: "\<not> is_completed rt" using f(8) assms(3) by (auto simp: status_in_def)
  have "window \<le> t - silence_epoch rt" using f(6) assms(9) by simp
  with live st ep marks same f(1) assms(6,10) show ?thesis
    by (simp add: candidate_of_def is_current_def status_in_def Let_def)
qed

section \<open>What the sampler tells\<close>

text \<open>A consumer keeps the last counter it was told for each session, zero before.\<close>

definition told :: "(bytes \<times> fingerprint) list \<Rightarrow> (bytes \<Rightarrow> nat) \<Rightarrow> bytes \<Rightarrow> nat" where
  "told samples known = fold (\<lambda>(i, fp) known. known(i := fst fp)) samples known"

text \<open>What the sampler remembers of a session is what the consumer knows; of a session it has not seen the
  consumer knows nothing.\<close>

definition in_step :: "(bytes \<times> fingerprint) list \<Rightarrow> (bytes \<Rightarrow> nat) \<Rightarrow> bytes \<Rightarrow> bool" where
  "in_step last_seen known i \<longleftrightarrow> known i = (case map_of last_seen i of Some fp \<Rightarrow> fst fp | None \<Rightarrow> 0)"

lemma told_simps [simp]: "told [] known = known" "told ((i, fp) # samples) known = told samples (known(i := fst fp))"
  by (simp_all add: told_def)

lemma sample_untouched:
  assumes "sample_sessions busy sessions last_seen = (samples, seen)" and "i \<notin> fst ` set sessions"
  shows "told samples known i = known i \<and> map_of seen i = map_of last_seen i"
  using assms
proof (induction sessions arbitrary: last_seen samples seen known)
  case (Cons x sessions)
  obtain k rt where x: "x = (k, rt)" by (rule prod.exhaust)
  show ?case
  proof (cases "busy k")
    case True
    with Cons.IH [of last_seen samples seen known] Cons.prems x show ?thesis by simp
  next
    case False
    obtain samples1 seen1 where rest: "sample_sessions busy sessions (AList.update k (fingerprint_of rt) last_seen) = (samples1, seen1)"
      by (rule prod.exhaust)
    with Cons.IH [OF rest, of known] Cons.IH [OF rest, of "known(k := fst (fingerprint_of rt))"] Cons.prems x False
    show ?thesis by (auto simp: Let_def update_conv' simp flip: fun_upd_def split: if_splits)
  qed
qed simp

lemma sample_tells:
  assumes "sample_sessions busy sessions last_seen = (samples, seen)" and "distinct (map fst sessions)"
    and "map_of sessions i = Some rt" and "in_step last_seen known i"
  shows "in_step seen (told samples known) i \<and> (busy i \<or> told samples known i = rt_last_total_bytes rt)"
  using assms
proof (induction sessions arbitrary: last_seen samples seen known)
  case (Cons x sessions)
  obtain k rk where x: "x = (k, rk)" by (rule prod.exhaust)
  show ?case
  proof (cases "busy k")
    case True
    show ?thesis
    proof (cases "k = i")
      case True
      then have "i \<notin> fst ` set sessions" using Cons.prems(2) x by auto
      with sample_untouched [of busy sessions last_seen samples seen i known] True \<open>busy k\<close> Cons.prems x show ?thesis
        by (simp add: in_step_def)
    next
      case False
      with Cons.IH [of last_seen samples seen known] True Cons.prems x show ?thesis by simp
    qed
  next
    case False
    let ?fp = "fingerprint_of rk"
    obtain samples1 seen1 where rest: "sample_sessions busy sessions (AList.update k ?fp last_seen) = (samples1, seen1)"
      by (rule prod.exhaust)
    have out: "samples = (if fp_changed (map_of last_seen k) ?fp then (k, ?fp) # samples1 else samples1)" "seen = seen1"
      using Cons.prems(1) rest False x by (simp_all add: Let_def)
    show ?thesis
    proof (cases "k = i")
      case True
      then have "i \<notin> fst ` set sessions" "rk = rt" using Cons.prems(2,3) x by auto
      with sample_untouched [OF rest, of i known] sample_untouched [OF rest, of i "known(k := fst ?fp)"] out True Cons.prems(4)
      show ?thesis
        by (auto simp: in_step_def fp_changed_def fingerprint_of_def update_conv' split: option.splits if_splits)
    next
      case False
      then have "map_of sessions i = Some rt" "in_step (AList.update k ?fp last_seen) known i"
        "in_step (AList.update k ?fp last_seen) (known(k := fst ?fp)) i"
        using Cons.prems(3,4) x by (auto simp: in_step_def update_conv')
      with Cons.IH [OF rest] out Cons.prems(2) x show ?thesis by simp
    qed
  qed
qed simp

text \<open>C31. The sampler keeps its consumers exact: after every tick a consumer that applies the batches knows the
  byte counter of each session that was not being written to just then, although only changes are sent; a
  session that was skipped is not lost, since the sampler and the consumer still agree on it.\<close>

theorem sampler_keeps_consumers_exact:
  assumes "sampler_tick busy s last_seen = (samples, seen)" and "distinct (map fst (ss_sessions s))"
    and "map_of (ss_sessions s) i = Some rt" and "in_step last_seen known i"
  shows "in_step seen (told samples known) i \<and> (busy i \<or> told samples known i = rt_last_total_bytes rt)"
proof (rule sample_tells [OF assms(1) [unfolded sampler_tick_def] assms(2,3)])
  have "map_of (filter (\<lambda>(k, _). map_of (ss_sessions s) k \<noteq> None) xs) i = map_of xs i" for xs :: "(bytes \<times> fingerprint) list"
    using assms(3) by (induction xs) auto
  with assms(4) show "in_step (filter (\<lambda>(k, _). map_of (ss_sessions s) k \<noteq> None) last_seen) known i"
    by (simp add: in_step_def)
qed

section \<open>A concrete session\<close>

definition quiet_runtime :: "(unit, (RecordKind \<times> bytes) list) SessionRuntime" where
  "quiet_runtime = demo_runtime\<lparr>rt_last_output_epoch := Some 10, rt_last_total_bytes := 42\<rparr>"

definition quiet_store :: "(unit, (RecordKind \<times> bytes) list) SessionStore" where
  "quiet_store = demo_store\<lparr>ss_sessions := [([49], quiet_runtime)]\<rparr>"

definition quiet_candidate :: SilentCandidate where
  "quiet_candidate =
     \<lparr>sd_session_id = [49], sd_session_title = None, sd_excerpt = [36], sd_program_status = None, sd_output_epoch = 10,
      sd_user_activity_epoch = None, sd_silence_epoch = 10, sd_should_notify = True, sd_enabled_for_channels = True,
      sd_last_total_bytes = 42\<rparr>"

lemma quiet_simps:
  "effective_output_epoch quiet_runtime = 10" "user_activity_epoch quiet_runtime = None"
  "runtime_status quiet_runtime = None" "rt_notified_output_epoch quiet_runtime = None"
  "rt_last_notified_at quiet_runtime = None" "\<not> is_completed quiet_runtime"
  by (simp_all add: quiet_runtime_def demo_runtime_def runtime_new_def list_journal_def journal_event_def demo_meta_def
      effective_output_epoch_def user_activity_epoch_def is_completed_def no_signals_def current_def max_by_key_def Let_def)

lemma quiet_should_notify: "should_notify quiet_runtime"
  by (simp add: should_notify_def activity_driven_def quiet_simps)

lemma quiet_is_candidate: "candidate_of (\<lambda>_. [36]) 6000 5000 1000 quiet_runtime = Some quiet_candidate"
  using quiet_should_notify
  by (simp add: candidate_of_def quiet_candidate_def silence_epoch_def quiet_simps status_in_def Let_def)
    (simp add: quiet_runtime_def demo_runtime_def runtime_new_def list_journal_def journal_event_def demo_meta_def)


definition idle_report :: ProgramStatuses where
  "idle_report = \<lparr>sts_records = [\<lparr>st_state = Idle, st_id = None, st_kind = None, st_progress = None, st_app = None,
     st_title = None, st_msg = None\<rparr>], sts_changed_at = Some 20000\<rparr>"

theorem cleared_status_repeats_notification_witness:
  "\<exists>c'. candidate_of (\<lambda>_. [36]) 40000 5000 1000 (with_statuses (snd (clear 30000 idle_report))
        (announce (quiet_candidate\<lparr>sd_output_epoch := 20000\<rparr>) 26000 (with_statuses idle_report (announce quiet_candidate 6000 quiet_runtime))))
      = Some c' \<and> sd_output_epoch c' = 10"
proof -
  have cur: "current idle_report \<noteq> None"
    by (simp add: idle_report_def current_def max_by_key_def)
  have e: "effective_output_epoch (with_statuses idle_report (announce quiet_candidate 6000 quiet_runtime)) = 20000"
    using cur by (simp add: effective_output_epoch_def with_statuses_def announce_def Let_def) (simp add: idle_report_def)
  have "\<exists>c'. candidate_of (\<lambda>_. [36]) 40000 5000 1000 (with_statuses (snd (clear 30000 idle_report))
        (announce (quiet_candidate\<lparr>sd_output_epoch := 20000\<rparr>) 26000 (with_statuses idle_report (announce quiet_candidate 6000 quiet_runtime))))
      = Some c' \<and> sd_output_epoch c' = sd_output_epoch quiet_candidate \<and> sd_should_notify c'
      \<and> is_current c' (with_statuses (snd (clear 30000 idle_report))
        (announce (quiet_candidate\<lparr>sd_output_epoch := 20000\<rparr>) 26000 (with_statuses idle_report (announce quiet_candidate 6000 quiet_runtime))))"
    by (rule cleared_status_repeats_notification [OF quiet_is_candidate quiet_should_notify quiet_simps(3) cur, where ?t2.0 = 20000, OF _ _ _ refl])
      (simp_all add: e, simp_all add: idle_report_def quiet_candidate_def)
  then show ?thesis by (auto simp: quiet_candidate_def)
qed

theorem sampler_keeps_consumers_exact_witness:
  "told (fst (sampler_tick (\<lambda>_. False) quiet_store [])) (\<lambda>_. 0) [49] = 42"
proof -
  obtain samples seen where tick: "sampler_tick (\<lambda>_. False) quiet_store [] = (samples, seen)" by (rule prod.exhaust)
  have found: "distinct (map fst (ss_sessions quiet_store))" "map_of (ss_sessions quiet_store) [49] = Some quiet_runtime"
    by (simp_all add: quiet_store_def)
  have "in_step [] (\<lambda>_. 0) [49]" by (simp add: in_step_def)
  from sampler_keeps_consumers_exact [OF tick found this] tick show ?thesis
    by (simp add: quiet_runtime_def)
qed

end
