(* ===== verification/Spec2Isabelle.thy ===== *)
theory Spec2Isabelle
  imports Session_Live Journal_Open Session_Lifecycle Session_Notify
begin

text \<open>
  open-relay keeps long-running terminal sessions: a daemon runs each program in a pseudo terminal,
  records everything the program writes in an append-only journal, broadcasts a filtered stream to
  attached clients, and replays the journal to clients that come later. This development models the
  session core of that program (\<open>src/session/\<close>) and proves that what is recorded, what is shown and
  what is replayed agree, under faults, crashes and every interleaving of the threads involved, and that
  sessions are started, driven, stopped, announced and forgotten as the store promises.

  The parts of the program and the theories that model them:

  \<^item> Record format and payloads (\<open>journal/record.rs\<close>, \<open>journal/codec.rs\<close>, \<open>journal/checkpoint.rs\<close>):
    \<open>Crc32\<close>, \<open>Journal_Record\<close>, \<open>Journal_Checkpoint\<close>. Codecs round-trip and refuse damaged input. The
    checksum library is a record of functions with one law, the locale \<open>crc_hasher\<close>, interpreted with
    the table implementation the repository tests against.
  \<^item> Files (\<open>journal/segment.rs\<close>, \<open>journal/scan.rs\<close>, \<open>journal/manifest.rs\<close>): \<open>Journal_Segment\<close>,
    \<open>Journal_Scan\<close>, \<open>Journal_Frames\<close>, \<open>Journal_Manifest\<close>. The disk is an explicit list of files with the
    length of each that a sync covers, manifest rows, and a schedule of faults; scanning arbitrary
    bytes yields exactly a run of valid frames. A fault inside a write keeps a prefix of what was
    written, so a manifest line may be cut inside its text or lose only its newline (it then still
    reads, until the next append joins it).
  \<^item> The writing side (\<open>journal/appender.rs\<close>, \<open>journal/shadow.rs\<close>): \<open>Journal_Sequencer\<close> (numbering and
    the cache of unconfirmed events), \<open>Journal_Appender\<close> (the appender thread's loop), \<open>Journal_Queue\<close>
    (the bounded queue), \<open>Journal_Shadow\<close> (the session's handle), \<open>Journal_Durability\<close> and
    \<open>Journal_Recovery\<close> (what the acknowledgements say about the disk), \<open>Journal_System\<close> (both threads
    interleaved as a step relation with its reachable states).
  \<^item> Opening, reading, retention (\<open>journal/open.rs\<close>, \<open>journal/stream.rs\<close>, \<open>journal/checkpoint.rs\<close>):
    \<open>Journal_Open\<close>, \<open>Journal_Stream\<close>, \<open>Journal_Retention\<close>.
  \<^item> The escape scanner and retained signals (\<open>scan.rs\<close>, \<open>pty.rs\<close>, \<open>program_status.rs\<close>): \<open>Text_Bytes\<close>,
    \<open>Program_Status\<close>, \<open>Terminal_Signals\<close>, \<open>Pty_Scanner\<close>. What the scanner holds is bounded; on
    platforms other than Windows chunk boundaries do not matter and no output is invented (the argument
    \<open>bare\<close> is \<open>BARE_CONPTY_FORMS\<close>, and there the bare forms break both).
  \<^item> Replay (\<open>replay.rs\<close>): \<open>Session_Replay\<close>. Every entry point returns exactly the display of the stored
    records, whichever checkpoint it starts from.
  \<^item> The live session (\<open>runtime.rs\<close>, \<open>registry.rs\<close>, \<open>resize.rs\<close>, \<open>mod.rs\<close>): \<open>Session_Registry\<close>,
    \<open>Session_Model\<close>, \<open>Session_Runtime\<close> (the runtime's operations, the reader thread, and their
    interleavings as a step relation; a chunk is broadcast in the same step that records it, while the
    code sends it just after releasing the lock), \<open>Session_Facts\<close> (the interface the runtime needs of its journal
    as the locale \<open>session_journal\<close>, and the invariants proved inside it), \<open>Session_Live\<close> (the
    interpretation of that locale with the whole journal system, and the properties).
  \<^item> Attaching (\<open>store/pump.rs\<close>, \<open>client/cursor.rs\<close>): \<open>Attach_Pump\<close>, the pump's state machine over an
    environment of broadcast receiver, stored stream, credits and clock. Whatever the broadcast loses, the
    client gets exactly the stream; where the pump ends, and one place where it does not as long as the
    receiver does not lag.
  \<^item> The session store (\<open>store/mod.rs\<close>, \<open>store/attach.rs\<close>, \<open>store/query.rs\<close>, session rows of \<open>db.rs\<close>):
    \<open>Session_Store\<close>, the map of live sessions with tombstones, reservations and rows, and what clients may
    do to a session through it; \<open>Mouse_Input\<close> (\<open>mouse.rs\<close>), the mouse events they may send.
  \<^item> The life of a session in the store (\<open>store/lifecycle.rs\<close>): \<open>Session_Lifecycle\<close>, with \<open>Disk_Guard\<close>
    (\<open>disk.rs\<close>) for the admission. Starts, restarts, the escalation of a stop, deletion, persistence and
    eviction; operations that give up a lock in between are split there, so that overlapping ones can be stated.
    What a stop does to the program, that it ends and what it records; what a delete leaves. The steps of a
    stop and of the first pass of a sweep are steps of the session, so that the invariants of
    \<open>Session_Live\<close> hold across them.
  \<^item> Attention (\<open>store/notify.rs\<close>, \<open>store/activity.rs\<close>, \<open>notification/mod.rs\<close>): \<open>Session_Notify\<close>. Notifications
    are never stale (they can repeat), and the activity sampler keeps its consumers exact.
  This theory holds the properties that span the parts: a crash and restart of the journal, a crash of
  a live session, the replay of what a session stored, and what a client sees that attaches to a live
  session through the store, afresh or resuming at an offset, while the session goes on. The last two ask
  that the journal has not degraded.

  Conventions. Bytes are 8-bit words and texts are lists of bytes, as Rust's strings are; counters of
  64 bits are natural numbers with the wrap-around or saturation written out where the code can reach
  it (as the release profile has it, without overflow checks), and hypotheses such as \<open>\<dots> < 2 ^ 64\<close> where
  it cannot. Clock readings, answers of the operating
  system and moves of other threads are arguments or scripts, so that a theorem for all of them is one
  for every schedule. The terminal emulator, base64 and the checksum library are parameters. Loops
  over a stored journal take fuel, and their theorems ask for more fuel than there are records, which
  is enough for them to return. A wait of the journal's producer is a list of turns; that it answers
  once the stall deadline has passed is part of the theorem.

  Not modelled: the JSON parser of the manifest (rows stand for its lines), errors of reads, the durability of
  directory entries, the Windows teardown wait, metrics and logging, the rendering of log pages and of the
  scrollback an attachment starts with, summaries and listings; and outside the session core the daemon's
  sockets, the HTTP server, the SQL of the database (rows and a schedule of failing calls stand for it), the
  search for resume hints and prompts (regular expressions), the terminal user interface and the federation
  transport, which drive external frameworks.
\<close>

section \<open>From a crash to the next incarnation\<close>

text \<open>C19. A crash followed by a restart keeps the journal: take any state the session and its
  appender reach together, lose every byte no completed sync covers, then open the journal again,
  with any faults and whether or not opening succeeds, the manifest being readable. The parts of the
  old incarnation, unless the manifest says that it is retired, still scan to a prefix of the
  published events that reaches at least the sequence the core reported as durable. When opening
  succeeds, no manifest line has lost its newline and the last incarnation number is not in use, the
  new incarnation is a fresh journal with a number above all others.\<close>

theorem published_events_survive_restart:
  assumes "crc_hasher H" and "reachable H io_text si i mx s" and "crashed (sy_disk s) d1"
    and "retired_incarnations d1 = Inr retired" and "i \<notin> set retired"
    and "journal_open H d1 = (r, d2)"
  shows "(\<exists>n k. recovered_records H d2 i n = map event_record (take k (sy_published s))
            \<and> durable_seq (sj_core (sy_journal s)) \<le> k \<and> k \<le> length (sy_published s))
     \<and> (\<forall>oj. r = Inr oj \<and> numbers_left retired d1 \<and> manifest_ended d1 \<longrightarrow>
            fresh_journal (oj_incarnation oj) d2
            \<and> (\<forall>ip \<in> set (list_segments d1). fst ip < oj_incarnation oj))"
proof
  from crc_hasher.reachable_inv [OF assms(1,2)] obtain base where inv: "sys_inv H i base s" by blast
  have "recovered_records H d2 i n = recovered_records H d1 i n" for n
    using crc_hasher.journal_open_keeps [OF assms(1,6,4)] assms(5)
    by (simp add: recovered_records_def keeps_records_def)
  with sys_inv_crash [OF assms(1) inv assms(3)]
  show "\<exists>n k. recovered_records H d2 i n = map event_record (take k (sy_published s))
      \<and> durable_seq (sj_core (sy_journal s)) \<le> k \<and> k \<le> length (sy_published s)"
    by simp
next
  show "\<forall>oj. r = Inr oj \<and> numbers_left retired d1 \<and> manifest_ended d1 \<longrightarrow>
      fresh_journal (oj_incarnation oj) d2
      \<and> (\<forall>ip \<in> set (list_segments d1). fst ip < oj_incarnation oj)"
    using assms(4,6) journal_open_fresh by (fastforce simp: fresh_journal_def)
qed

lemma sample_final_manifest: "jd_manifest (sy_disk sample_final) = []"
  by (simp add: sample_final_def sample_written_def sample_queued_def sys_process_def
      sys_deliver_def system_eval appender_eval sample_disk_def sample_event_def)

theorem published_events_survive_restart_witness:
  "\<exists>n. recovered_records table_hasher (snd (journal_open table_hasher (sy_disk sample_final))) 1 n
         = map event_record (sy_published sample_final)"
proof -
  have "crashed d d" for d
    unfolding crashed_def by (metis le_cases max.cobounded1 max.cobounded2 take_all)
  moreover have "retired_incarnations (sy_disk sample_final) = Inr []"
    by (simp add: retired_incarnations_def read_manifest_lines_def sample_final_manifest
        List.map_filter_simps)
  ultimately obtain n k where
    "recovered_records table_hasher (snd (journal_open table_hasher (sy_disk sample_final))) 1 n
       = map event_record (take k (sy_published sample_final))"
    "durable_seq (sj_core (sy_journal sample_final)) \<le> k" "k \<le> length (sy_published sample_final)"
    using published_events_survive_restart [OF table_crc.crc_hasher_axioms sample_reachable _ _ _
        prod.collapse [symmetric], of "sy_disk sample_final" "[]"] by auto
  moreover have "1 \<le> durable_seq (sj_core (sy_journal sample_final))"
    using sample_final_durable by simp
  ultimately show ?thesis using sample_final_state by (metis le_trans take_all)
qed

section \<open>From a session to its replay\<close>

text \<open>What the journal of a healthy session holds, seen through a prefix of its records.\<close>

lemma healthy_prefix:
  assumes "session_run b64 bare E (live_ops H t si)
      (live_session H t si meta now rows cols scrollback notif engine pid (live_start H i mx d turns)) s"
    and "sm_ended_at meta = None"
    and "0 < rows" and "rows < 2 ^ 16" and "0 < cols" and "cols < 2 ^ 16"
    and "rt_filtered_total_bytes (se_runtime s) < u64_max"
    and "rt_journal (se_runtime s) = Some j" and "\<not> is_degraded (sys_core (lv_system j))"
  shows "honest_checkpoints bare [] 0 (take k (live_log j))
     \<and> (\<exists>rest. broadcast_bytes s = display_stream bare (take k (live_log j)) @ rest
          \<and> (length (live_log j) \<le> k \<longrightarrow> rest = []))
     \<and> length (broadcast_bytes s) < u64_max"
proof -
  have inv: "honest_checkpoints bare [] 0 (live_log j)"
    "display bare [] (live_log j) = (pt_pending (se_scanner s), broadcast_bytes s)"
    "rt_filtered_total_bytes (se_runtime s) = length (broadcast_bytes s)"
    using live_runs [OF assms(1-6)] assms(7-9) by (auto simp: session_inv_def stream_inv_def)
  let ?a = "take k (live_log j)" let ?b = "drop k (live_log j)"
  have "display bare [] (?a @ ?b) = (pt_pending (se_scanner s), broadcast_bytes s)"
    "honest_checkpoints bare [] 0 (?a @ ?b)" using inv by simp_all
  then show ?thesis
    unfolding display_append honest_append using inv(3) assms(7)
    by (intro conjI exI [of _ "snd (display bare (fst (display bare [] ?a)) ?b)"]) auto
qed

text \<open>C2. A crash loses no durable output: take any interleaving of a session with its appender, up to a
  state in which the journal has not degraded, let the appender go on, and lose every byte no
  completed sync covers. What a scan then recovers is a prefix of the session's records that holds at
  least every record the session knew to be durable, and its display is a prefix of what was
  broadcast; when the session knew all of it to be durable, it is exactly what was broadcast.\<close>

theorem session_survives_crash:
  assumes "crc_hasher H" and "fresh_journal i d" and "session_run b64 bare E (live_ops H t si)
      (live_session H t si meta now rows cols scrollback notif engine pid (live_start H i mx d turns)) s"
    and "sm_ended_at meta = None"
    and "0 < rows" and "rows < 2 ^ 16" and "0 < cols" and "cols < 2 ^ 16"
    and "rt_filtered_total_bytes (se_runtime s) < u64_max"
    and "rt_journal (se_runtime s) = Some j" and "\<not> is_degraded (sys_core (lv_system j))"
    and "Suc (length (live_log j)) < 2 ^ 64"
    and "crashed (sy_disk (appender_acts H si moves (lv_system j))) d'"
  shows "\<exists>n k rest. recovered_records H d' i n = take k (live_log j)
     \<and> durable_seq (sys_core (lv_system j)) \<le> k
     \<and> broadcast_bytes s = display_stream bare (recovered_records H d' i n) @ rest
     \<and> (is_fully_durable (sys_core (lv_system j)) \<longrightarrow> rest = [])"
proof -
  let ?s = "appender_acts H si moves (lv_system j)"
  have "reachable H t si i mx (lv_system j)"
    using live_reaches [OF assms(1-3)] assms(10,12) by (simp add: journal_reached_def live_log_def)
  from crc_hasher.reachable_inv [OF assms(1) appender_acts_reachable [OF this]] obtain base where
    inv: "sys_inv H i base ?s" by blast
  from sys_inv_crash [OF assms(1) inv assms(13)] obtain n k where
    k: "recovered_records H d' i n = take k (live_log j)" "durable_seq (sys_core (lv_system j)) \<le> k"
    by (auto simp: live_log_def take_map)
  have "next_seq (sys_core (lv_system j)) = Suc (length (live_log j))"
    using sys_invD(1) [OF inv] by (simp add: publish_ok_def live_log_def)
  then have whole: "length (live_log j) \<le> k" if "is_fully_durable (sys_core (lv_system j))"
    using that k(2) by (simp add: is_fully_durable_def)
  from healthy_prefix [OF assms(3-11), of k] obtain rest where
    "broadcast_bytes s = display_stream bare (take k (live_log j)) @ rest"
    "length (live_log j) \<le> k \<longrightarrow> rest = []" by blast
  with k whole show ?thesis by (intro exI [of _ n] exI [of _ k] exI [of _ rest]) simp
qed

text \<open>C3. Replay shows what clients saw: when the stored parts of the session's incarnation hold the
  first \<open>k\<close> records of a healthy session, wherever the reader starts and whichever checkpoint it uses,
  the bytes it returns are those of the broadcast from that offset on, up to a point; when all
  records are stored, up to its end.\<close>

theorem replay_shows_broadcast:
  assumes "crc_hasher H" and "session_run b64 bare E (live_ops H t si)
      (live_session H t si meta now rows cols scrollback notif engine pid (live_start H i mx d turns)) s"
    and "sm_ended_at meta = None"
    and "0 < rows" and "rows < 2 ^ 16" and "0 < cols" and "cols < 2 ^ 16"
    and "rt_filtered_total_bytes (se_runtime s) < u64_max"
    and "rt_journal (se_runtime s) = Some j" and "\<not> is_degraded (sys_core (lv_system j))"
    and "stored H d' i rss junk" and "last_option (list_incarnations d') = Some i"
    and "concat rss = take k (live_log j)" and "length (concat rss) < fuel"
  shows "\<exists>shown rest. broadcast_bytes s = shown @ rest \<and> (length (live_log j) \<le> k \<longrightarrow> rest = [])
     \<and> filtered_stream_from fuel H b64' bare now' d' from_offset
          = Some (Inr (drop from_offset shown, length shown))"
proof -
  from healthy_prefix [OF assms(2-10), of k] obtain rest where
    rest: "honest_checkpoints bare [] 0 (take k (live_log j))"
      "broadcast_bytes s = display_stream bare (take k (live_log j)) @ rest"
      "length (live_log j) \<le> k \<longrightarrow> rest = []" "length (broadcast_bytes s) < u64_max" by blast
  then have "length (display_stream bare (take k (live_log j))) \<le> u64_max" by simp
  with rest(1) assms(11-13) have "replayable H bare d' i rss junk" by (simp add: replayable_def)
  from replay_from_offset [OF assms(1) this assms(14)] rest(2,3) assms(13) show ?thesis by auto
qed

section \<open>From a session to an attached client\<close>

lemma broadcast_grows:
  assumes "session_run b64 bare E J s t"
  shows "\<exists>cs. se_broadcast t = se_broadcast s @ cs"
  using assms
proof (induction rule: session_run.induct)
  case (further t u)
  from further.hyps(2) have "\<exists>cs. se_broadcast u = se_broadcast t @ cs"
    by cases (auto simp: reader_chunk_def reader_close_def Let_def split: prod.splits reader_phase.splits)
  with further.IH show ?case by auto
qed simp

lemma contiguous_pieces:
  assumes "contiguous n cs" and "c \<in> set cs"
  shows "n \<le> sq_offset c \<and> at_pos (concat (map sq_bytes cs)) (sq_offset c - n) (sq_bytes c)"
  using assms
proof (induction cs arbitrary: n)
  case (Cons b cs)
  show ?case
  proof (cases "c = b")
    case True
    with Cons.prems(1) show ?thesis by (simp add: at_pos_def)
  next
    case False
    with Cons have ih: "n + length (sq_bytes b) \<le> sq_offset c"
      "at_pos (concat (map sq_bytes cs)) (sq_offset c - (n + length (sq_bytes b))) (sq_bytes c)" by auto
    then have eq: "sq_offset c - n = length (sq_bytes b) + (sq_offset c - (n + length (sq_bytes b)))" by simp
    have "at_pos (a @ S) (length a + m) data \<longleftrightarrow> at_pos S m data" for a S data :: bytes and m
      by (simp add: at_pos_def)
    with ih(2) have "at_pos (concat (map sq_bytes (b # cs))) (sq_offset c - n) (sq_bytes c)"
      unfolding eq list.map concat.simps by blast
    with ih(1) show ?thesis by simp
  qed
qed simp

lemma degraded_stays: "journal_closed (live_ops H t si) (\<lambda>_ j. is_degraded (sys_core (lv_system j)))"
proof -
  have "is_degraded (sys_core (lv_system j'))"
    if "live_record H t si k p j = (r, j')" "is_degraded (sys_core (lv_system j))" for k p r and j j' :: "'a live_journal"
    using live_record_laws [OF that(1)] that(2) by (cases r) auto
  then have "is_degraded (sys_core (lv_system (snd (live_record H t si k p j))))"
    if "is_degraded (sys_core (lv_system j))" for k p and j :: "'a live_journal"
    using that prod.collapse by metis
  then show ?thesis
    unfolding journal_closed_def by (simp add: live.poll_acks(2) [simplified] live.request_sync(2) [simplified])
qed

text \<open>What the store and the broadcast answer an attached client while a session goes on: chunks that
  were broadcast, in any order and any number, and windows replayed from whatever first records of the
  session its disk holds at the time.\<close>

definition serves ::
  "'h hasher \<Rightarrow> bool \<Rightarrow> nat \<Rightarrow> ('e, 'h live_journal) session \<Rightarrow> 'h live_journal \<Rightarrow> pump_env \<Rightarrow> bool" where
  "serves H bare i s j env \<longleftrightarrow>
     (\<forall>c. pe_select env = Broadcast c \<or> TryChunk c \<in> set (pe_buffered env) \<longrightarrow> c \<in> set (se_broadcast s))
     \<and> (\<exists>d' rss junk k fuel b64 now. stored H d' i rss junk \<and> last_option (list_incarnations d') = Some i
          \<and> concat rss = take k (live_log j) \<and> length (concat rss) < fuel
          \<and> pe_window env = (\<lambda>off n. case filtered_stream_window fuel H b64 bare now d' off n of
                               Some (Inr bs) \<Rightarrow> Inr bs | _ \<Rightarrow> Inl Evicted))"

lemma serves_ok:
  assumes "crc_hasher H" and run: "session_run b64 bare E (live_ops H t si)
      (live_session H t si meta now rows cols scrollback notif engine pid (live_start H i mx d turns)) s"
    and meta: "sm_ended_at meta = None"
    and size: "0 < rows" "rows < 2 ^ 16" "0 < cols" "cols < 2 ^ 16"
    and total: "rt_filtered_total_bytes (se_runtime s) < u64_max"
    and j: "rt_journal (se_runtime s) = Some j" "\<not> is_degraded (sys_core (lv_system j))"
    and "contiguous 0 (se_broadcast s)" and "serves H bare i s j env"
  shows "env_ok (broadcast_bytes s) env"
proof -
  from assms(12) obtain d' rss junk k fuel b64' now' where
    st: "stored H d' i rss junk" "last_option (list_incarnations d') = Some i" "concat rss = take k (live_log j)"
      "length (concat rss) < fuel"
    and w: "pe_window env = (\<lambda>off n. case filtered_stream_window fuel H b64' bare now' d' off n of
                               Some (Inr bs) \<Rightarrow> Inr bs | _ \<Rightarrow> Inl Evicted)"
    unfolding serves_def by blast
  from healthy_prefix [OF run meta size total j, of k] obtain rest where
    p: "honest_checkpoints bare [] 0 (concat rss)" "broadcast_bytes s = display_stream bare (concat rss) @ rest"
      "length (broadcast_bytes s) < u64_max" using st(3) by auto
  have "replayable H bare d' i rss junk" using st(1,2) p by (simp add: replayable_def)
  from filtered_stream_window_exact [OF assms(1) this st(4), of b64' now'] w
  have win: "pe_window env off n = Inr (take n (drop off (display_stream bare (concat rss))))" for off n by simp
  have "at_pos (broadcast_bytes s) off (take n (drop off (display_stream bare (concat rss))))"
    if "off \<le> length (broadcast_bytes s)" for off n
    using that unfolding p(2) by (auto simp: at_pos_def min_def)
  with win contiguous_pieces [OF assms(11)] assms(12) show ?thesis
    by (auto simp: env_ok_def serves_def)
qed

text \<open>How the store answers a client that resumes: by a replay of whatever first records of the session
  its disk holds.\<close>

definition replays ::
  "'h hasher \<Rightarrow> bool \<Rightarrow> nat \<Rightarrow> 'h live_journal \<Rightarrow> (nat \<Rightarrow> (bytes \<times> nat) result) \<Rightarrow> bool" where
  "replays H bare i j answer \<longleftrightarrow>
     (\<exists>d' rss junk k fuel b64 now. stored H d' i rss junk \<and> last_option (list_incarnations d') = Some i
        \<and> concat rss = take k (live_log j) \<and> length (concat rss) < fuel
        \<and> answer = (\<lambda>off. case filtered_stream_from fuel H b64 bare now d' off of
                            Some r \<Rightarrow> r | None \<Rightarrow> Inl OtherIo))"

lemma replays_prefix:
  assumes "crc_hasher H" and "session_run b64 bare E (live_ops H t si)
      (live_session H t si meta now rows cols scrollback notif engine pid (live_start H i mx d turns)) s"
    and "sm_ended_at meta = None" and "0 < rows" and "rows < 2 ^ 16" and "0 < cols" and "cols < 2 ^ 16"
    and "rt_filtered_total_bytes (se_runtime s) < u64_max"
    and "rt_journal (se_runtime s) = Some j" and "\<not> is_degraded (sys_core (lv_system j))"
    and "replays H bare i j answer"
  shows "\<exists>shown rest. broadcast_bytes s = shown @ rest \<and> answer = (\<lambda>off. Inr (drop off shown, length shown))"
proof -
  from assms(11) obtain d' rss junk k fuel b64' now' where
    st: "stored H d' i rss junk" "last_option (list_incarnations d') = Some i" "concat rss = take k (live_log j)"
      "length (concat rss) < fuel"
    and w: "answer = (\<lambda>off. case filtered_stream_from fuel H b64' bare now' d' off of
                              Some r \<Rightarrow> r | None \<Rightarrow> Inl OtherIo)"
    unfolding replays_def by blast
  from healthy_prefix [OF assms(2-10), of k] obtain rest where
    p: "honest_checkpoints bare [] 0 (concat rss)" "broadcast_bytes s = display_stream bare (concat rss) @ rest"
      "length (broadcast_bytes s) < u64_max" using st(3) by auto
  have "replayable H bare d' i rss junk" using st(1,2) p by (simp add: replayable_def)
  with p(2) show ?thesis
    unfolding w replay_from_offset [OF assms(1) \<open>replayable H bare d' i rss junk\<close> st(4)] by auto
qed

text \<open>Appending a piece of a stream to the piece before it.\<close>

lemma take_drop_join:
  assumes "off \<le> n" and "n \<le> c" and "take n S = shown"
  shows "drop off shown @ take (c - n) (drop n S) = take (c - off) (drop off S)"
proof -
  have "take (c - off) (drop off S) = take (n - off) (drop off S) @ take (c - n) (drop n S)"
    using assms(1,2) take_add [of "n - off" "c - n" "drop off S"] by (simp add: add.commute)
  then show ?thesis unfolding assms(3) [symmetric] by (simp add: drop_take)
qed

text \<open>C5. An attached client sees the session: a client attaches through the store to a live session,
  afresh or at an offset up to which it has seen the stream already, and the session goes on, with its
  appender, in any interleaving, up to a state in which its journal has not degraded. Whatever the
  broadcast ring loses or repeats, and however far the disk lags behind, the bytes the pump delivers
  are what the session broadcast from the pump's start on, in order and without a gap, and the client's
  own check of the cursor accepts them all. A fresh client starts, after its snapshot, at the end of
  what was broadcast when it attached. For a client that resumes at an offset the stored stream
  reaches, the replayed bytes and the delivered ones together are the broadcast from that offset on.\<close>

theorem attached_client_sees_session:
  assumes "crc_hasher H" and "session_run b64 bare E (live_ops H t si)
      (live_session H t si meta now rows cols scrollback notif engine pid (live_start H i mx d turns)) s0"
    and "session_run b64 bare E (live_ops H t si) s0 s"
    and "sm_ended_at meta = None"
    and "0 < rows" and "rows < 2 ^ 16" and "0 < cols" and "cols < 2 ^ 16"
    and "rt_filtered_total_bytes (se_runtime s0) < u64_max" and "rt_filtered_total_bytes (se_runtime s) < u64_max"
    and "rt_journal (se_runtime s) = Some j" and "\<not> is_degraded (sys_core (lv_system j))"
    and "map_of (ss_sessions st) sid = Some (se_runtime s0)"
    and "\<And>j0. rt_journal (se_runtime s0) = Some j0 \<Longrightarrow> from_offset \<noteq> None \<Longrightarrow>
           replays H bare i j0 (pd_stream_from P sid)"
    and "subscribe_with_policy (pump_store E (live_ops H t si) P sid st) from_offset inc credit policy
           = Inr (p, ini, cell)"
    and "list_all (serves H bare i s j) envs" and "pump_run envs p = (es, p')"
  shows "delivered es = take (pu_current_offset p' - ai_end_offset ini) (drop (ai_end_offset ini) (broadcast_bytes s))
     \<and> client_run (StreamCursor_new (ai_end_offset ini)) es = Inr (StreamCursor_new (pu_current_offset p'))
     \<and> (from_offset = None \<longrightarrow> ai_data ini = attach_snapshot_bytes E (se_runtime s0)
          \<and> ai_end_offset ini = length (broadcast_bytes s0))
     \<and> (\<forall>off. from_offset = Some off \<and> off \<le> ai_end_offset ini \<longrightarrow>
          ai_data ini @ delivered es = take (pu_current_offset p' - off) (drop off (broadcast_bytes s)))"
proof -
  have run: "session_run b64 bare E (live_ops H t si)
      (live_session H t si meta now rows cols scrollback notif engine pid (live_start H i mx d turns)) s"
    using run_trans [OF assms(3,2)] .
  have inv0: "session_inv bare (live_ops H t si) live_log s0" and inv: "session_inv bare (live_ops H t si) live_log s"
    using live_runs [OF assms(2,4-8)] live_runs [OF run assms(4-8)] by simp_all
  from inv0 obtain j0 where j0: "rt_journal (se_runtime s0) = Some j0" by (auto simp: session_inv_def stream_inv_def)
  have ok0: "\<not> is_degraded (sys_core (lv_system j0))"
    using keeps_run [OF assms(3) degraded_stays] j0 assms(11,12) by auto
  then have start: "rt_filtered_total_bytes (se_runtime s0) = length (broadcast_bytes s0)"
    using inv0 j0 assms(9) by (auto simp: session_inv_def stream_inv_def)
  have here: "contiguous 0 (se_broadcast s)" "length (broadcast_bytes s) < u64_max"
    using inv assms(10-12) by (auto simp: session_inv_def stream_inv_def)
  obtain cs where grow: "se_broadcast s = se_broadcast s0 @ cs" using broadcast_grows [OF assms(3)] by blast
  let ?B = "broadcast_bytes s"
  note sub = subscribe_starts [OF assms(13,15), of ?B]
  have resumed: "\<exists>shown rest. ?B = shown @ rest \<and> ai_data ini = drop off shown \<and> ai_end_offset ini = length shown"
    if "from_offset = Some off" for off
    using replays_prefix [OF assms(1,2,4-9) j0 ok0 assms(14) [OF j0]] that sub grow by fastforce
  have fresh: "ai_data ini = attach_snapshot_bytes E (se_runtime s0) \<and> ai_end_offset ini = length (broadcast_bytes s0)"
    if "from_offset = None" using sub that start by simp
  have first: "pu_current_offset p = ai_end_offset ini" using sub by simp
  have "ai_end_offset ini \<le> length ?B"
  proof (cases from_offset)
    case None
    with fresh grow show ?thesis by simp
  next
    case (Some off)
    from resumed [OF this] obtain shown rest where "?B = shown @ rest" "ai_end_offset ini = length shown" by blast
    then show ?thesis by simp
  qed
  then have "pump_ok ?B p" using sub first by simp
  moreover have "list_all (env_ok ?B) envs"
    using assms(16) serves_ok [OF assms(1) run assms(4-8,10-12) here(1)] by (simp add: list_all_iff)
  moreover have "length ?B < 2 ^ 64" using here(2) by (simp add: u64_max_def)
  ultimately have got: "delivered es = take (pu_current_offset p' - ai_end_offset ini) (drop (ai_end_offset ini) ?B)"
    "ai_end_offset ini \<le> pu_current_offset p'"
    "client_run (StreamCursor_new (ai_end_offset ini)) es = Inr (StreamCursor_new (pu_current_offset p'))"
    using run_ok [OF assms(17), of ?B] first by (simp_all add: at_pos_def)
  have "ai_data ini @ delivered es = take (pu_current_offset p' - off) (drop off ?B)"
    if off: "from_offset = Some off" "off \<le> ai_end_offset ini" for off
  proof -
    obtain shown rest where "?B = shown @ rest" "ai_data ini = drop off shown" "ai_end_offset ini = length shown"
      using resumed [OF off(1)] by blast
    then show ?thesis
      using take_drop_join [OF off(2) got(2), of ?B shown] unfolding got(1) by simp
  qed
  with got fresh show ?thesis by blast
qed

subsection \<open>The concrete session\<close>

lemma plain_meta_running: "sm_ended_at plain_meta = None"
  by (simp add: plain_meta_def)

lemma plain_fresh: "fresh_journal 1 plain_disk"
  using sample_fresh by (simp add: fresh_journal_def plain_disk_def)

lemma plain_journal:
  obtains j where "rt_journal (se_runtime plain_spoken) = Some j" and "\<not> is_degraded (sys_core (lv_system j))"
    and "length (live_log j) = 4" and "rt_filtered_total_bytes (se_runtime plain_spoken) < u64_max"
    and "broadcast_bytes plain_spoken = [104, 105]" and "roomy plain_script 4 400 j"
  using plain_spoken_state by (auto simp: roomy_def Let_def live_log_def u64_max_def)

theorem session_survives_crash_witness:
  "\<exists>j n k rest. rt_journal (se_runtime plain_spoken) = Some j
     \<and> recovered_records table_hasher (sy_disk (lv_system j)) 1 n = take k (live_log j)
     \<and> [104, 105] = display_stream False (recovered_records table_hasher (sy_disk (lv_system j)) 1 n) @ rest"
proof -
  obtain j where j: "rt_journal (se_runtime plain_spoken) = Some j" "\<not> is_degraded (sys_core (lv_system j))"
    "length (live_log j) = 4" "rt_filtered_total_bytes (se_runtime plain_spoken) < u64_max"
    "broadcast_bytes plain_spoken = [104, 105]" by (rule plain_journal)
  have "crashed d d" for d
    unfolding crashed_def by (metis le_cases max.cobounded1 max.cobounded2 take_all)
  then have "crashed (sy_disk (appender_acts table_hasher 50 [] (lv_system j))) (sy_disk (lv_system j))"
    by (simp add: appender_acts_def)
  from session_survives_crash [OF table_crc.crc_hasher_axioms plain_fresh plain_run [unfolded plain_start_def]
      plain_meta_running _ _ _ _ j(4,1,2) _ this] j
  show ?thesis by auto
qed

text \<open>The four records of the concrete session, stored in one part.\<close>

definition plain_stored :: "Record list \<Rightarrow> disk" where
  "plain_stored rs =
     \<lparr>jd_files = [(segment_path 1 1, \<lparr>jf_bytes = encode_records table_hasher rs, jf_synced = 0\<rparr>)],
      jd_manifest = [], jd_faults = []\<rparr>"

lemma plain_stored_ok:
  assumes "record_run 1 rs" and "length rs = 4"
  shows "stored table_hasher (plain_stored rs) 1 [rs] [] \<and> last_option (list_incarnations (plain_stored rs)) = Some 1"
proof -
  have segs: "list_segments (plain_stored rs) = [(1, 1)]"
    using parse_segment_path [of 1 1] by (simp add: list_segments_def plain_stored_def List.map_filter_simps)
  then have "incarnation_parts (plain_stored rs) 1 = Inr [(1, segment_path 1 1)]"
    by (simp add: incarnation_parts_def)
  moreover have "fs_read (plain_stored rs) (segment_path 1 1) = Inr (encode_records table_hasher rs)"
    by (simp add: fs_read_def plain_stored_def)
  ultimately show ?thesis
    using assms segs by (simp add: stored_def torn_tail_def list_incarnations_def last_option_def)
qed

lemma plain_records: "record_run 1 (live_log j)"
  if "rt_journal (se_runtime plain_spoken) = Some j" "roomy plain_script 4 400 j" "length (live_log j) = 4"
proof -
  let ?s = "lv_system j"
  have "reachable table_hasher (\<lambda>_. []) 50 1 1000 ?s"
    using live_reaches [OF table_crc.crc_hasher_axioms plain_fresh plain_run [unfolded plain_start_def]] that
    by (simp add: journal_reached_def live_log_def)
  from table_crc.reachable_inv [OF this] obtain base where inv: "sys_inv table_hasher 1 base ?s" by blast
  note D = sys_invD [OF inv]
  have "lane_ok (sy_published ?s) 0 (in_flight (sj_appender (sy_journal ?s)) (sy_pending ?s)) False"
    using D(6) that(2) by (simp add: roomy_def Let_def start_appender_def appender_init_def)
  then have "in_flight (sj_appender (sy_journal ?s)) (sy_pending ?s) = sy_published ?s" by (auto simp: lane_ok_def)
  then show ?thesis
    using D(1,2) by (auto simp: record_run_def live_log_def flight_ok_def publish_ok_def event_record_def o_def)
qed

theorem replay_shows_broadcast_witness:
  "\<exists>j. rt_journal (se_runtime plain_spoken) = Some j
     \<and> filtered_stream_from 5 table_hasher no_base64 False 0 (plain_stored (live_log j)) 1 = Some (Inr ([105], 2))"
proof -
  obtain j where j: "rt_journal (se_runtime plain_spoken) = Some j" "\<not> is_degraded (sys_core (lv_system j))"
    "length (live_log j) = 4" "rt_filtered_total_bytes (se_runtime plain_spoken) < u64_max"
    "broadcast_bytes plain_spoken = [104, 105]" "roomy plain_script 4 400 j" by (rule plain_journal)
  note st = plain_stored_ok [OF plain_records [OF j(1,6,3)] j(3)]
  from replay_shows_broadcast [OF table_crc.crc_hasher_axioms plain_run [unfolded plain_start_def]
      plain_meta_running _ _ _ _ j(4,1,2) st [THEN conjunct1] st [THEN conjunct2], of 4 5 no_base64 0 1] j
  show ?thesis by auto
qed

text \<open>A client attaches before the program's output and gets it as one chunk.\<close>

definition plain_store :: "(unit, u32 live_journal) SessionStore" where
  "plain_store = (SessionStore_new 60 demo_db)\<lparr>ss_sessions := [([49], se_runtime plain_start)]\<rparr>"

definition plain_env :: "Record list \<Rightarrow> pump_env" where
  "plain_env rs =
     \<lparr>pe_applied = 0, pe_polls = [],
      pe_window = (\<lambda>off n. case filtered_stream_window 5 table_hasher no_base64 False 0 (plain_stored rs) off n of
                     Some (Inr bs) \<Rightarrow> Inr bs | _ \<Rightarrow> Inl Evicted),
      pe_filtered_len = Some 2, pe_modes = None,
      pe_select = Broadcast \<lparr>sq_offset = 0, sq_bytes = [104, 105]\<rparr>, pe_buffered = []\<rparr>"

lemma plain_start_state: "rt_filtered_total_bytes (se_runtime plain_start) = 0" "se_broadcast plain_start = []"
  by (simp_all add: plain_start_def live_session_def session_new_def runtime_new_def)

text \<open>The store with the session after its output, and a disk that holds all four records.\<close>

definition spoken_store :: "(unit, u32 live_journal) SessionStore" where
  "spoken_store = (SessionStore_new 60 demo_db)\<lparr>ss_sessions := [([49], se_runtime plain_spoken)]\<rparr>"

definition plain_persisted :: "Record list \<Rightarrow> persisted" where
  "plain_persisted rs = demo_persisted\<lparr>pd_stream_from := (\<lambda>i off.
     case filtered_stream_from 5 table_hasher no_base64 False 0 (plain_stored rs) off of
       Some r \<Rightarrow> r | None \<Rightarrow> Inl OtherIo)\<rparr>"

lemma plain_replay:
  assumes "rt_journal (se_runtime plain_spoken) = Some j" and "roomy plain_script 4 400 j"
    and "length (live_log j) = 4" and "\<not> is_degraded (sys_core (lv_system j))"
    and "rt_filtered_total_bytes (se_runtime plain_spoken) < u64_max"
    and "broadcast_bytes plain_spoken = [104, 105]"
  shows "pd_stream_from (plain_persisted (live_log j)) [49] 1 = Inr ([105], 2)"
proof -
  note st = plain_stored_ok [OF plain_records [OF assms(1-3)] assms(3)]
  have shown: "honest_checkpoints False [] 0 (live_log j)" "display_stream False (live_log j) = [104, 105]"
    using healthy_prefix [OF plain_run [unfolded plain_start_def] plain_meta_running _ _ _ _ assms(5,1,4), of 4]
      assms(3,6) by auto
  then have "replayable table_hasher False (plain_stored (live_log j)) 1 [live_log j] []"
    using st by (simp add: replayable_def u64_max_def)
  from replay_from_offset [OF table_crc.crc_hasher_axioms this, of 5] assms(3) shown(2)
  show ?thesis by (simp add: plain_persisted_def)
qed

lemma plain_serves:
  assumes "rt_journal (se_runtime plain_spoken) = Some j" and "roomy plain_script 4 400 j"
    and "length (live_log j) = 4"
  shows "list_all (serves table_hasher False 1 plain_spoken j) [plain_env (live_log j)]"
    and "replays table_hasher False 1 j (pd_stream_from (plain_persisted (live_log j)) [49])"
proof -
  note st = plain_stored_ok [OF plain_records [OF assms] assms(3)]
  have bc: "se_broadcast plain_spoken = [\<lparr>sq_offset = 0, sq_bytes = [104, 105]\<rparr>]"
    using plain_spoken_state by blast
  have "serves table_hasher False 1 plain_spoken j (plain_env (live_log j))"
    unfolding serves_def
    by (intro conjI exI [of _ "plain_stored (live_log j)"] exI [of _ "[live_log j]"] exI [of _ "[]"] exI [of _ 4]
        exI [of _ 5] exI [of _ no_base64] exI [of _ 0]) (use st assms(3) bc in \<open>simp_all add: plain_env_def\<close>)
  then show "list_all (serves table_hasher False 1 plain_spoken j) [plain_env (live_log j)]" by simp
  show "replays table_hasher False 1 j (pd_stream_from (plain_persisted (live_log j)) [49])"
    unfolding replays_def
    by (intro exI [of _ "plain_stored (live_log j)"] exI [of _ "[live_log j]"] exI [of _ "[]"] exI [of _ 4]
        exI [of _ 5] exI [of _ no_base64] exI [of _ 0]) (use st assms(3) in \<open>simp add: plain_persisted_def\<close>)
qed

text \<open>What the pump makes of the one broadcast chunk, starting before it.\<close>

lemma plain_pump:
  assumes "pu_credit p = None" and "pu_pending p = []" and "\<not> pu_resync p" and "pu_held p = None"
    and "pu_current_offset p = 0"
  shows "pu_current_offset (snd (pump_run [plain_env rs] p)) = 2"
  using assms by (simp add: pump_iteration_def await_credit_def pump_live_def pump_select_def forwarded_def
      forward_chunk_def trim_chunk_def observe_modes_def plain_env_def Let_def)

text \<open>One client attaches before the output and gets it from the broadcast; another, which has seen the
  first byte, resumes after it and gets the rest from the disk.\<close>

theorem attached_client_sees_session_witness:
  "\<exists>p ini rs inc q ini'.
     subscribe_with_policy (pump_store plain_engine plain_ops demo_persisted [49] plain_store) None None Uncredited
         CreditPolicy_production = Inr (p, ini, None)
     \<and> delivered (fst (pump_run [plain_env rs] p)) = [104, 105]
     \<and> subscribe_with_policy (pump_store plain_engine plain_ops (plain_persisted rs) [49] spoken_store) (Some 1) inc
         Uncredited CreditPolicy_production = Inr (q, ini', None)
     \<and> ai_data ini' @ delivered (fst (pump_run [] q)) = [105]"
proof -
  obtain j where j: "rt_journal (se_runtime plain_spoken) = Some j" "\<not> is_degraded (sys_core (lv_system j))"
    "length (live_log j) = 4" "rt_filtered_total_bytes (se_runtime plain_spoken) < u64_max"
    "broadcast_bytes plain_spoken = [104, 105]" "roomy plain_script 4 400 j" by (rule plain_journal)
  let ?rs = "live_log j"
  have found: "map_of (ss_sessions plain_store) [49] = Some (se_runtime plain_start)"
    "map_of (ss_sessions spoken_store) [49] = Some (se_runtime plain_spoken)"
    by (simp_all add: plain_store_def spoken_store_def)
  obtain p ini where sub: "subscribe_with_policy (pump_store plain_engine plain_ops demo_persisted [49] plain_store) None None
      Uncredited CreditPolicy_production = Inr (p, ini, None)"
    and p: "pu_credit p = None" "pu_pending p = []" "\<not> pu_resync p" "pu_held p = None" "pu_current_offset p = 0"
    by (simp add: subscribe_with_policy_def subscribe_init_def pump_store_def attach_snapshot_init_def
        attach_stream_status_def lookup_found [OF found(1)] plain_start_state)
  have sizes: "0 < (24 :: nat)" "(24 :: nat) < 2 ^ 16" "0 < (80 :: nat)" "(80 :: nat) < 2 ^ 16" by simp_all
  have "rt_filtered_total_bytes (se_runtime plain_start) < u64_max" by (simp add: plain_start_state u64_max_def)
  with plain_pump [OF p, of ?rs] have "delivered (fst (pump_run [plain_env ?rs] p)) = [104, 105]"
    using attached_client_sees_session [OF table_crc.crc_hasher_axioms
        session_run.here [of no_base64 False plain_engine plain_ops plain_start, unfolded plain_start_def]
        plain_run [unfolded plain_start_def] plain_meta_running sizes _ j(4,1,2)
        found(1) [unfolded plain_start_def] _ sub plain_serves(1) [OF j(1,6,3)] prod.collapse [symmetric],
        folded plain_start_def] j(5)
    by (simp add: plain_start_state)
  moreover obtain q ini' where sub': "subscribe_with_policy (pump_store plain_engine plain_ops
      (plain_persisted ?rs) [49] spoken_store) (Some 1) (Some (jo_incarnation plain_ops j)) Uncredited
      CreditPolicy_production = Inr (q, ini', None)" and q: "ai_end_offset ini' = 2" "pu_current_offset q = 2"
    using plain_replay [OF j(1,6,3,2,4,5)]
    by (simp add: subscribe_with_policy_def subscribe_init_def pump_store_def attach_subscribe_init_def
        journal_incarnation_def attach_stream_status_def lookup_found [OF found(2)] found(2) j(1)
        plain_persisted_def demo_persisted_def)
  moreover have "ai_data ini' @ delivered (fst (pump_run [] q)) = [105]"
    using attached_client_sees_session [OF table_crc.crc_hasher_axioms
        plain_run [unfolded plain_start_def] session_run.here plain_meta_running sizes j(4,4,1,2) found(2) _ sub' _
        prod.collapse [symmetric], of "[]"] j(1,5) q plain_serves(2) [OF j(1,6,3)] by simp
  ultimately show ?thesis using sub by blast
qed

end
